(* ===== verification/Prelude.thy ===== *)
theory Prelude
  imports Main "HOL-Library.Word" "HOL-Library.Char_ord" "HOL-Library.List_Lexorder"
begin

text \<open>
  The prelude of the development: the error values of the C++ code, the small
  amount of the C++ standard library the sources use (array access, ASCII
  character classes, \<open>std::find\<close>, \<open>std::string::compare\<close> and
  \<open>std::getline\<close>), and the generic facts on lists and orders the component
  theories share.

  A \<open>std::string\<close> is a \<open>string\<close>; the library orders of \<open>Char_ord\<close> and
  \<open>List_Lexorder\<close> compare bytes as unsigned numbers and a proper prefix as
  smaller, which is what \<open>std::char_traits<char>::compare\<close> does.
\<close>

named_theorems cpp_simps "unfolding rules for the C++ library layer"

section \<open>Error values\<close>

text \<open>
  Every way a modelled routine can fail to return normally: a failed
  \<open>assert\<close>, a read or write outside an array, any other undefined
  behaviour, a thrown exception, a call to \<open>abort\<close> or \<open>panic\<close>,
  and waiting for ever for a lock nobody will release.
\<close>

datatype cpp_error =
    AssertFail
  | OutOfBounds
  | Undefined
  | Throw string
  | Abort
  | Blocks

type_synonym 'a cpp = "cpp_error + 'a"

definition bindE :: "'e + 'a \<Rightarrow> ('a \<Rightarrow> 'e + 'b) \<Rightarrow> 'e + 'b" where
  "bindE m f = (case m of Inl e \<Rightarrow> Inl e | Inr x \<Rightarrow> f x)"

lemma bindE_simps [simp]:
  "bindE (Inl e) f = Inl e"
  "bindE (Inr x) f = f x"
  by (simp_all add: bindE_def)

lemma bindE_Inr_iff: "bindE m f = Inr y \<longleftrightarrow> (\<exists>x. m = Inr x \<and> f x = Inr y)"
  by (cases m) auto

lemma bindE_Inl_iff: "bindE m f = Inl e \<longleftrightarrow> m = Inl e \<or> (\<exists>x. m = Inr x \<and> f x = Inl e)"
  by (cases m) auto

text \<open>\<open>assert(b)\<close>, and reading element \<open>i\<close> of an array or vector.\<close>

definition assertE :: "bool \<Rightarrow> unit cpp" where
  "assertE b = (if b then Inr () else Inl AssertFail)"

definition at :: "'a list \<Rightarrow> nat \<Rightarrow> 'a cpp" where
  "at xs i = (if i < length xs then Inr (xs ! i) else Inl OutOfBounds)"

lemma assertE_simps [simp]:
  "assertE True = Inr ()"
  "assertE False = Inl AssertFail"
  by (simp_all add: assertE_def)

lemma at_in_range [simp]: "i < length xs \<Longrightarrow> at xs i = Inr (xs ! i)"
  by (simp add: at_def)

lemma at_Inr_iff: "at xs i = Inr x \<longleftrightarrow> i < length xs \<and> xs ! i = x"
  by (auto simp: at_def)

text \<open>A loop that computes one element after the other and stops at the first error.\<close>

fun mapE :: "('a \<Rightarrow> 'e + 'b) \<Rightarrow> 'a list \<Rightarrow> 'e + 'b list" where
  "mapE f [] = Inr []"
| "mapE f (x # xs) = bindE (f x) (\<lambda>y. bindE (mapE f xs) (\<lambda>ys. Inr (y # ys)))"

lemma mapE_all_Inr: "\<forall>x \<in> set xs. f x = Inr (g x) \<Longrightarrow> mapE f xs = Inr (map g xs)"
  by (induction xs) auto

lemma mapE_Inr_length: "mapE f xs = Inr ys \<Longrightarrow> length ys = length xs"
  by (induction xs arbitrary: ys) (auto simp: bindE_Inr_iff)

lemma mapE_Inr_nth:
  "mapE f xs = Inr ys \<Longrightarrow> i < length xs \<Longrightarrow> f (xs ! i) = Inr (ys ! i)"
proof (induction xs arbitrary: ys i)
  case Nil
  then show ?case by simp
next
  case (Cons x xs)
  then show ?case by (cases i) (auto simp: bindE_Inr_iff)
qed

section \<open>Characters and strings\<close>

abbreviation byte_of :: "char \<Rightarrow> nat" where
  "byte_of c \<equiv> of_char c"

text \<open>The character classes of \<open><cctype>\<close> in the C locale.\<close>

definition isdigit :: "char \<Rightarrow> bool" where
  "isdigit c \<longleftrightarrow> CHR ''0'' \<le> c \<and> c \<le> CHR ''9''"

definition toupper :: "char \<Rightarrow> char" where
  "toupper c = (if CHR ''a'' \<le> c \<and> c \<le> CHR ''z'' then char_of (byte_of c - 32) else c)"

definition tolower :: "char \<Rightarrow> char" where
  "tolower c = (if CHR ''A'' \<le> c \<and> c \<le> CHR ''Z'' then char_of (byte_of c + 32) else c)"

text \<open>
  \<open>std::find(xs.begin(), xs.end(), x) - xs.begin()\<close>: the index of the first
  occurrence, or the length when there is none.
\<close>

definition find_pos :: "'a \<Rightarrow> 'a list \<Rightarrow> nat" where
  "find_pos x xs = length (takeWhile (\<lambda>y. y \<noteq> x) xs)"

lemma find_pos_Nil [simp]: "find_pos x [] = 0"
  by (simp add: find_pos_def)

lemma find_pos_Cons [simp]: "find_pos x (y # ys) = (if x = y then 0 else Suc (find_pos x ys))"
  by (auto simp: find_pos_def)

lemma find_pos_less_iff: "find_pos x xs < length xs \<longleftrightarrow> x \<in> set xs"
  by (induction xs) auto

lemma nth_find_pos: "x \<in> set xs \<Longrightarrow> xs ! find_pos x xs = x"
  by (induction xs) auto

lemma find_pos_nth: "distinct xs \<Longrightarrow> i < length xs \<Longrightarrow> find_pos (xs ! i) xs = i"
  by (induction xs arbitrary: i) (auto simp: nth_Cons' in_set_conv_nth)

text \<open>
  \<open>std::string::find(c)\<close>: the position of the first \<open>c\<close>, or \<open>npos\<close>.
\<close>

definition string_find :: "char \<Rightarrow> string \<Rightarrow> nat option" where
  "string_find c s = (if c \<in> set s then Some (find_pos c s) else None)"

text \<open>
  \<open>std::getline(in, item, delim)\<close> on the unread text \<open>s\<close> of a string stream:
  it fails when nothing is left; otherwise it reads up to the delimiter, which is
  dropped, or to the end.
\<close>

definition getline :: "char \<Rightarrow> string \<Rightarrow> (string \<times> string) option" where
  "getline delim s =
     (if s = [] then None
      else Some (takeWhile (\<lambda>c. c \<noteq> delim) s, drop 1 (dropWhile (\<lambda>c. c \<noteq> delim) s)))"

lemma getline_shorter: "getline delim s = Some (item, rest) \<Longrightarrow> length rest < length s"
proof -
  assume "getline delim s = Some (item, rest)"
  then have ne: "s \<noteq> []" and r: "rest = drop 1 (dropWhile (\<lambda>c. c \<noteq> delim) s)"
    by (auto simp: getline_def split: if_splits)
  have "length (dropWhile (\<lambda>c. c \<noteq> delim) s) \<le> length s"
    by (rule length_dropWhile_le)
  moreover have "0 < length s" using ne by simp
  ultimately show ?thesis unfolding r length_drop by linarith
qed

section \<open>Lists and orders\<close>

lemma list_less_map_strict_mono:
  fixes f :: "'a::linorder \<Rightarrow> 'b::linorder"
  assumes "\<And>x y. x \<in> A \<Longrightarrow> y \<in> A \<Longrightarrow> f x < f y \<longleftrightarrow> x < y"
    and "set xs \<subseteq> A" and "set ys \<subseteq> A"
  shows "map f xs < map f ys \<longleftrightarrow> xs < ys"
  using assms(2,3)
proof (induction xs arbitrary: ys)
  case Nil
  then show ?case by (cases ys) auto
next
  case (Cons x xs)
  show ?case
  proof (cases ys)
    case Nil
    then show ?thesis by simp
  next
    case (Cons y zs)
    with Cons.prems have "f x < f y \<longleftrightarrow> x < y" and "f y < f x \<longleftrightarrow> y < x"
      using assms(1) by auto
    then have "f x = f y \<longleftrightarrow> x = y" by (metis linorder_neq_iff)
    moreover have "map f xs < map f zs \<longleftrightarrow> xs < zs"
      using Cons.IH Cons.prems Cons by simp
    ultimately show ?thesis using Cons \<open>f x < f y \<longleftrightarrow> x < y\<close> by simp
  qed
qed

text \<open>\<open>std::sort\<close> followed by \<open>std::unique\<close> gives a strictly increasing list.\<close>

lemma strict_sorted_remdups_adj: "sorted xs \<Longrightarrow> sorted_wrt (<) (remdups_adj xs)"
proof (induction xs rule: remdups_adj.induct)
  case (3 x y xs)
  then show ?case by (auto simp: less_le)
qed simp_all

text \<open>Consecutive half-open intervals given by their lengths: exactly one of them holds \<open>b\<close>.\<close>

fun starts :: "nat \<Rightarrow> nat list \<Rightarrow> nat list" where
  "starts a [] = []"
| "starts a (n # ns) = a # starts (a + n) ns"

lemma length_starts [simp]: "length (starts a ns) = length ns"
  by (induction ns arbitrary: a) auto

lemma starts_nth: "i < length ns \<Longrightarrow> starts a ns ! i = a + sum_list (take i ns)"
  by (induction ns arbitrary: a i) (auto simp: nth_Cons' take_Cons')

lemma starts_bound: "i < length ns \<Longrightarrow> starts a ns ! i + ns ! i \<le> a + sum_list ns"
proof (induction ns arbitrary: a i)
  case Nil
  then show ?case by simp
next
  case (Cons n ns)
  then show ?case by (cases i) (auto dest: Cons.IH [of _ "a + n"])
qed

lemma starts_ge: "i < length ns \<Longrightarrow> a \<le> starts a ns ! i"
  by (simp add: starts_nth)

lemma intervals_partition:
  "a \<le> b \<Longrightarrow> b < a + sum_list ns \<Longrightarrow>
   \<exists>!i. i < length ns \<and> starts a ns ! i \<le> b \<and> b < starts a ns ! i + ns ! i"
proof (induction ns arbitrary: a)
  case Nil
  then show ?case by simp
next
  case (Cons n ns)
  show ?case
  proof (cases "b < a + n")
    case True
    show ?thesis
    proof (rule ex1I [of _ 0])
      show "0 < length (n # ns) \<and> starts a (n # ns) ! 0 \<le> b \<and> b < starts a (n # ns) ! 0 + (n # ns) ! 0"
        using True Cons.prems by simp
    next
      fix i
      assume i: "i < length (n # ns) \<and> starts a (n # ns) ! i \<le> b \<and> b < starts a (n # ns) ! i + (n # ns) ! i"
      show "i = 0"
      proof (cases i)
        case (Suc j)
        with i have "j < length ns" and "starts (a + n) ns ! j \<le> b" by auto
        then have "a + n \<le> b" using starts_ge [of j ns "a + n"] by simp
        with True show ?thesis by simp
      qed simp
    qed
  next
    case False
    with Cons.prems have "\<exists>!i. i < length ns \<and> starts (a + n) ns ! i \<le> b \<and> b < starts (a + n) ns ! i + ns ! i"
      by (intro Cons.IH) auto
    then obtain j where j: "j < length ns \<and> starts (a + n) ns ! j \<le> b \<and> b < starts (a + n) ns ! j + ns ! j"
      and uniq: "\<And>k. k < length ns \<and> starts (a + n) ns ! k \<le> b \<and> b < starts (a + n) ns ! k + ns ! k \<Longrightarrow> k = j"
      by auto
    show ?thesis
    proof (rule ex1I [of _ "Suc j"])
      show "Suc j < length (n # ns) \<and> starts a (n # ns) ! Suc j \<le> b
          \<and> b < starts a (n # ns) ! Suc j + (n # ns) ! Suc j"
        using j by simp
    next
      fix i
      assume i: "i < length (n # ns) \<and> starts a (n # ns) ! i \<le> b \<and> b < starts a (n # ns) ! i + (n # ns) ! i"
      with False have "i \<noteq> 0" by (cases i) auto
      then obtain k where "i = Suc k" by (cases i) auto
      with i uniq [of k] show "i = Suc j" by simp
    qed
  qed
qed

end
