(* ===== verification/Zpp.thy ===== *)
theory Zpp
  imports Prelude
begin

text \<open>
  The part of the vendored serializer \<open>kvstore/common/zpp_bits.hpp\<close> that the message
  code uses: an output archive over a growing byte vector with the default options
  (32-bit sizes, growth by 3/2, native little-endian order, no allocation limit), an input
  archive over the received bytes, and the three cases of \<open>serialize_one\<close> the
  message types reach: a \<open>std::uint32_t\<close>, a container of bytes (\<open>std::string\<close>)
  and a container of structures. Archives are state-passing functions; the error codes of
  \<open>std::errc\<close> are the left values.

  The locale \<open>codec\<close> is the contract of one serializable type: the writer appends
  the bytes of a value and the reader takes exactly those bytes back.
\<close>

unbundle bit_operations_syntax

section \<open>Definitions\<close>

type_synonym byte = "8 word"

datatype errc = no_buffer_space | result_out_of_range

record out_archive =
  m_data :: "byte list"
  m_position :: nat

type_synonym writer = "out_archive \<Rightarrow> errc + out_archive"

text \<open>An input archive reads a fixed buffer from a position.\<close>

type_synonym 'a reader = "byte list \<Rightarrow> nat \<Rightarrow> errc + ('a \<times> nat)"

definition vec_resize :: "nat \<Rightarrow> byte list \<Rightarrow> byte list" where
  "vec_resize n xs = take n xs @ replicate (n - length xs) 0"

definition enlarge_for :: "nat \<Rightarrow> writer" where
  "enlarge_for additional_size ar =
     (let size = length (m_data ar) in
      if additional_size > size - m_position ar then
        (let required_size = (size + additional_size) mod 2 ^ 64 in
         if required_size < size then Inl no_buffer_space
         else
           (let new_size = (required_size * 3) mod 2 ^ 64 in
            if new_size div 3 \<noteq> required_size then Inl no_buffer_space
            else Inr (ar\<lparr>m_data := vec_resize (new_size div 2) (m_data ar)\<rparr>)))
      else Inr ar)"

text \<open>\<open>std::memcpy\<close> into the vector at a position.\<close>

definition vec_write :: "nat \<Rightarrow> byte list \<Rightarrow> byte list \<Rightarrow> byte list" where
  "vec_write pos bs xs = take pos xs @ bs @ drop (pos + length bs) xs"

definition out_bytes :: "byte list \<Rightarrow> writer" where
  "out_bytes bs ar =
     bindE (enlarge_for (length bs) ar)
       (\<lambda>ar. Inr (ar\<lparr>m_data := vec_write (m_position ar) bs (m_data ar),
                     m_position := m_position ar + length bs\<rparr>))"

definition le32 :: "32 word \<Rightarrow> byte list" where
  "le32 w = [ucast w, ucast (drop_bit 8 w), ucast (drop_bit 16 w), ucast (drop_bit 24 w)]"

fun of_le32 :: "byte list \<Rightarrow> 32 word" where
  "of_le32 [a, b, c, d] =
     ucast a OR push_bit 8 (ucast b) OR push_bit 16 (ucast c) OR push_bit 24 (ucast d)"
| "of_le32 _ = 0"

definition out_uint32 :: "32 word \<Rightarrow> writer" where
  "out_uint32 w = out_bytes (le32 w)"

definition bytes_of_string :: "string \<Rightarrow> byte list" where
  "bytes_of_string s = map (\<lambda>c. word_of_nat (of_char c)) s"

definition string_of_bytes :: "byte list \<Rightarrow> string" where
  "string_of_bytes bs = map (\<lambda>b. char_of (unat b)) bs"

definition out_string :: "string \<Rightarrow> writer" where
  "out_string s ar = bindE (out_uint32 (word_of_nat (length s)) ar) (out_bytes (bytes_of_string s))"

fun out_items :: "('a \<Rightarrow> writer) \<Rightarrow> 'a list \<Rightarrow> writer" where
  "out_items f [] ar = Inr ar"
| "out_items f (x # xs) ar = bindE (f x ar) (out_items f xs)"

definition out_vector :: "('a \<Rightarrow> writer) \<Rightarrow> 'a list \<Rightarrow> writer" where
  "out_vector f xs ar = bindE (out_uint32 (word_of_nat (length xs)) ar) (out_items f xs)"

text \<open>\<open>serialize_many\<close> on the two members of a structure, and on none.\<close>

definition out_pair :: "('a \<Rightarrow> writer) \<Rightarrow> ('b \<Rightarrow> writer) \<Rightarrow> 'a \<times> 'b \<Rightarrow> writer" where
  "out_pair f g p ar = bindE (f (fst p) ar) (g (snd p))"

definition out_nothing :: "unit \<Rightarrow> writer" where
  "out_nothing u ar = Inr ar"

text \<open>
  \<open>out::operator()\<close>: the items are written, then the vector is cut to the bytes
  written. \<open>serialize\<close> is the call on an archive over an empty vector.
\<close>

definition out_call :: "writer \<Rightarrow> writer" where
  "out_call f ar =
     bindE (f ar) (\<lambda>ar'. Inr (if m_position ar' \<ge> length (m_data ar)
                              then ar'\<lparr>m_data := vec_resize (m_position ar') (m_data ar')\<rparr> else ar'))"

definition zpp_output :: "writer \<Rightarrow> errc + byte list" where
  "zpp_output f = bindE (out_call f \<lparr>m_data = [], m_position = 0\<rparr>) (\<lambda>ar. Inr (m_data ar))"

definition in_bytes :: "nat \<Rightarrow> byte list reader" where
  "in_bytes n data pos =
     (if n > length data - pos then Inl result_out_of_range
      else Inr (take n (drop pos data), pos + n))"

definition in_uint32 :: "32 word reader" where
  "in_uint32 data pos = bindE (in_bytes 4 data pos) (\<lambda>(bs, pos). Inr (of_le32 bs, pos))"

definition in_string :: "string reader" where
  "in_string data pos =
     bindE (in_uint32 data pos) (\<lambda>(sz, pos).
     bindE (in_bytes (unat sz) data pos) (\<lambda>(bs, pos). Inr (string_of_bytes bs, pos)))"

fun in_items :: "'a reader \<Rightarrow> nat \<Rightarrow> 'a list reader" where
  "in_items r 0 data pos = Inr ([], pos)"
| "in_items r (Suc n) data pos =
     bindE (r data pos) (\<lambda>(x, pos). bindE (in_items r n data pos) (\<lambda>(xs, pos). Inr (x # xs, pos)))"

definition in_vector :: "'a reader \<Rightarrow> 'a list reader" where
  "in_vector r data pos = bindE (in_uint32 data pos) (\<lambda>(sz, pos). in_items r (unat sz) data pos)"

definition in_pair :: "'a reader \<Rightarrow> 'b reader \<Rightarrow> ('a \<times> 'b) reader" where
  "in_pair r s data pos =
     bindE (r data pos) (\<lambda>(x, pos). bindE (s data pos) (\<lambda>(y, pos). Inr ((x, y), pos)))"

definition in_nothing :: "unit reader" where
  "in_nothing data pos = Inr ((), pos)"

definition zpp_input :: "'a reader \<Rightarrow> byte list \<Rightarrow> errc + 'a" where
  "zpp_input r data = bindE (r data 0) (\<lambda>(x, pos). Inr x)"

section \<open>The archive as a byte string\<close>

text \<open>
  An archive is well formed when its position is inside the vector; what it stands for is
  the prefix written so far. A writer \<open>emits\<close> bytes when it appends them to that
  prefix whenever six times the total stays below \<open>SIZE_MAX\<close>, which keeps the
  growth computation of \<open>enlarge_for\<close> from wrapping.
\<close>

definition ar_wf :: "out_archive \<Rightarrow> bool" where
  "ar_wf ar \<longleftrightarrow> m_position ar \<le> length (m_data ar)"

definition ar_bytes :: "out_archive \<Rightarrow> byte list" where
  "ar_bytes ar = take (m_position ar) (m_data ar)"

definition emits :: "writer \<Rightarrow> byte list \<Rightarrow> bool" where
  "emits f bs \<longleftrightarrow> (\<forall>ar. ar_wf ar \<and> 6 * (m_position ar + length bs) < 2 ^ 64 \<longrightarrow>
     (\<exists>ar'. f ar = Inr ar' \<and> ar_wf ar' \<and> m_position ar' = m_position ar + length bs
        \<and> ar_bytes ar' = ar_bytes ar @ bs))"

definition reads :: "'a reader \<Rightarrow> byte list \<Rightarrow> 'a \<Rightarrow> bool" where
  "reads r bs x \<longleftrightarrow> (\<forall>pre post. r (pre @ bs @ post) (length pre) = Inr (x, length pre + length bs))"

lemma length_vec_resize [simp]: "length (vec_resize n xs) = n"
  by (simp add: vec_resize_def)

lemma take_vec_resize: "k \<le> n \<Longrightarrow> k \<le> length xs \<Longrightarrow> take k (vec_resize n xs) = take k xs"
  by (simp add: vec_resize_def)

lemma enlarge_for_room:
  assumes wf: "ar_wf ar" and fits: "6 * (m_position ar + n) < 2 ^ 64"
  shows "\<exists>ar'. enlarge_for n ar = Inr ar' \<and> m_position ar' = m_position ar
    \<and> m_position ar + n \<le> length (m_data ar') \<and> ar_bytes ar' = ar_bytes ar"
proof (cases "n > length (m_data ar) - m_position ar")
  case True
  let ?size = "length (m_data ar)"
  from wf True have lt: "?size < m_position ar + n" by (simp add: ar_wf_def)
  then have "(?size + n) * 3 \<le> 6 * (m_position ar + n)" by simp
  with fits have small: "(?size + n) * 3 < 2 ^ 64" by (rule le_less_trans [rotated])
  then have req: "enlarge_for n ar = Inr (ar\<lparr>m_data := vec_resize ((?size + n) * 3 div 2) (m_data ar)\<rparr>)"
    using True by (simp add: enlarge_for_def Let_def)
  have "m_position ar + n \<le> (?size + n) * 3 div 2" using wf by (simp add: ar_wf_def)
  moreover have "m_position ar \<le> ?size" using wf by (simp add: ar_wf_def)
  ultimately show ?thesis
    by (simp add: req ar_bytes_def take_vec_resize)
next
  case False
  then show ?thesis using wf by (simp add: enlarge_for_def Let_def ar_wf_def)
qed

lemma emits_out_bytes: "emits (out_bytes bs) bs"
  unfolding emits_def
proof (intro allI impI)
  fix ar
  assume a: "ar_wf ar \<and> 6 * (m_position ar + length bs) < 2 ^ 64"
  with enlarge_for_room [of ar "length bs"] obtain ar'
    where ar': "enlarge_for (length bs) ar = Inr ar'" "m_position ar' = m_position ar"
      "m_position ar + length bs \<le> length (m_data ar')" "ar_bytes ar' = ar_bytes ar"
    by blast
  moreover have "length (take (m_position ar) (m_data ar')) = m_position ar" using ar'(3) by simp
  ultimately show "\<exists>ar'. out_bytes bs ar = Inr ar' \<and> ar_wf ar' \<and> m_position ar' = m_position ar + length bs
      \<and> ar_bytes ar' = ar_bytes ar @ bs"
    by (simp add: out_bytes_def ar_wf_def ar_bytes_def vec_write_def del: length_take)
qed

lemma emits_bind:
  assumes "emits f bs" and "emits g cs"
  shows "emits (\<lambda>ar. bindE (f ar) g) (bs @ cs)"
  unfolding emits_def
proof (intro allI impI)
  fix ar
  assume a: "ar_wf ar \<and> 6 * (m_position ar + length (bs @ cs)) < 2 ^ 64"
  then obtain ar1 where 1: "f ar = Inr ar1" "ar_wf ar1" "m_position ar1 = m_position ar + length bs"
    "ar_bytes ar1 = ar_bytes ar @ bs"
    using assms(1) unfolding emits_def by (auto dest!: spec [of _ ar])
  with a obtain ar2 where "g ar1 = Inr ar2" "ar_wf ar2" "m_position ar2 = m_position ar1 + length cs"
    "ar_bytes ar2 = ar_bytes ar1 @ cs"
    using assms(2) unfolding emits_def by (auto dest!: spec [of _ ar1])
  with 1 show "\<exists>ar'. bindE (f ar) g = Inr ar' \<and> ar_wf ar' \<and> m_position ar' = m_position ar + length (bs @ cs)
      \<and> ar_bytes ar' = ar_bytes ar @ bs @ cs"
    by simp
qed

lemma emits_Nil: "emits Inr []"
  by (simp add: emits_def)

lemma zpp_output_emits:
  assumes "emits f bs" and "6 * length bs < 2 ^ 64"
  shows "zpp_output f = Inr bs"
proof -
  let ?ar = "\<lparr>m_data = [], m_position = 0\<rparr>"
  obtain ar' where ar': "f ?ar = Inr ar'" "ar_wf ar'" "m_position ar' = length bs" "ar_bytes ar' = bs"
    using assms unfolding emits_def by (auto dest!: spec [of _ ?ar] simp: ar_wf_def ar_bytes_def)
  then have "vec_resize (m_position ar') (m_data ar') = bs"
    by (simp add: vec_resize_def ar_wf_def ar_bytes_def)
  with ar'(1) show ?thesis by (simp add: zpp_output_def out_call_def)
qed

lemma reads_in_bytes: "reads (in_bytes (length bs)) bs bs"
  by (simp add: reads_def in_bytes_def)

lemma reads_bind:
  assumes "reads r bs x" and "reads (s x) cs z"
  shows "reads (\<lambda>data pos. bindE (r data pos) (\<lambda>(x, pos). s x data pos)) (bs @ cs) z"
  unfolding reads_def
proof (intro allI)
  fix pre post
  have "r (pre @ (bs @ cs) @ post) (length pre) = Inr (x, length pre + length bs)"
    using assms(1) by (simp add: reads_def)
  moreover have "s x (pre @ (bs @ cs) @ post) (length pre + length bs)
      = Inr (z, length pre + length (bs @ cs))"
    using assms(2) [unfolded reads_def, THEN spec, of "pre @ bs", THEN spec, of post] by simp
  ultimately show "bindE (r (pre @ (bs @ cs) @ post) (length pre))
      (\<lambda>(x, pos). s x (pre @ (bs @ cs) @ post) pos) = Inr (z, length pre + length (bs @ cs))"
    by simp
qed

lemma reads_map: "reads r bs x \<Longrightarrow> reads (\<lambda>data pos. bindE (r data pos) (\<lambda>(x, pos). Inr (f x, pos))) bs (f x)"
  by (simp add: reads_def)

lemma reads_bind_map:
  assumes "reads r bs x" and "reads (s x) cs y"
  shows "reads (\<lambda>data pos. bindE (r data pos) (\<lambda>(x, pos). bindE (s x data pos) (\<lambda>(y, pos). Inr (f x y, pos))))
    (bs @ cs) (f x y)"
  by (rule reads_bind [where s = "\<lambda>x data pos. bindE (s x data pos) (\<lambda>(y, pos). Inr (f x y, pos))",
        OF assms(1) reads_map [OF assms(2)]])

lemma zpp_input_reads: "reads r bs x \<Longrightarrow> zpp_input r bs = Inr x"
  using spec [of _ "[]"] by (simp add: reads_def zpp_input_def) (metis append_Nil append_Nil2 bindE_simps(2) case_prod_conv list.size(3))

lemma length_le32 [simp]: "length (le32 w) = 4"
  by (simp add: le32_def)

lemma of_le32_le32: "of_le32 (le32 w) = w"
proof (rule bit_word_eqI)
  fix n
  assume "n < LENGTH(32)"
  then have n: "n < 32" by simp
  then consider "n < 8" | "8 \<le> n" "n < 16" | "16 \<le> n" "n < 24" | "24 \<le> n" by linarith
  then show "bit (of_le32 (le32 w)) n = bit w n"
    using n by cases (auto simp: le32_def bit_simps)
qed

lemma reads_in_uint32: "reads in_uint32 (le32 w) w"
  using reads_map [OF reads_in_bytes [of "le32 w"], of of_le32]
  by (simp add: in_uint32_def [abs_def] of_le32_le32)

lemma string_bytes_inverse [simp]: "string_of_bytes (bytes_of_string s) = s"
proof -
  have "char_of (unat (word_of_nat (of_char c) :: byte)) = c" for c :: char
  proof -
    have "(of_char c :: nat) < 256" using of_char_mod_256 [of c, where 'a = nat] by (metis mod_less_divisor zero_less_numeral)
    then have "unat (word_of_nat (of_char c) :: byte) = of_char c" by (simp add: unat_of_nat)
    then show ?thesis by simp
  qed
  then show ?thesis by (simp add: string_of_bytes_def bytes_of_string_def map_idI)
qed

lemma length_bytes_of_string [simp]: "length (bytes_of_string s) = length s"
  by (simp add: bytes_of_string_def)

section \<open>The contract of a serializable type\<close>

locale codec =
  fixes enc :: "'a \<Rightarrow> writer" and dec :: "'a reader"
    and bytes_of :: "'a \<Rightarrow> byte list" and valid :: "'a \<Rightarrow> bool"
  assumes enc_emits: "valid x \<Longrightarrow> emits (enc x) (bytes_of x)"
    and dec_reads: "valid x \<Longrightarrow> reads dec (bytes_of x) x"
begin

lemma output_bytes: "valid x \<Longrightarrow> 6 * length (bytes_of x) < 2 ^ 64 \<Longrightarrow> zpp_output (enc x) = Inr (bytes_of x)"
  by (rule zpp_output_emits [OF enc_emits])

lemma input_value: "valid x \<Longrightarrow> zpp_input dec (bytes_of x) = Inr x"
  by (rule zpp_input_reads [OF dec_reads])

lemma bytes_inj: "valid x \<Longrightarrow> valid y \<Longrightarrow> bytes_of x = bytes_of y \<Longrightarrow> x = y"
  by (metis input_value sum.inject(2))

lemma emits_items: "\<forall>x \<in> set xs. valid x \<Longrightarrow> emits (out_items enc xs) (concat (map bytes_of xs))"
proof (induction xs)
  case Nil
  show ?case using emits_Nil by (simp add: fun_eq_iff emits_def)
next
  case (Cons x xs)
  then have "emits (\<lambda>ar. bindE (enc x ar) (out_items enc xs)) (bytes_of x @ concat (map bytes_of xs))"
    by (intro emits_bind) (auto intro: enc_emits)
  then show ?case by (simp add: emits_def)
qed

lemma reads_items: "\<forall>x \<in> set xs. valid x \<Longrightarrow> reads (in_items dec (length xs)) (concat (map bytes_of xs)) xs"
proof (induction xs)
  case Nil
  show ?case by (simp add: reads_def)
next
  case (Cons x xs)
  then have "reads (\<lambda>data pos. bindE (dec data pos) (\<lambda>(x, pos).
      bindE (in_items dec (length xs) data pos) (\<lambda>(xs, pos). Inr (x # xs, pos))))
      (bytes_of x @ concat (map bytes_of xs)) (x # xs)"
    by (intro reads_bind_map [where f = Cons]) (auto intro: dec_reads)
  then show ?case by (simp add: reads_def)
qed

lemma vector_codec:
  "codec (out_vector enc) (in_vector dec) (\<lambda>xs. le32 (word_of_nat (length xs)) @ concat (map bytes_of xs))
     (\<lambda>xs. length xs < 2 ^ 32 \<and> (\<forall>x \<in> set xs. valid x))"
proof
  fix xs
  assume v: "length xs < 2 ^ 32 \<and> (\<forall>x \<in> set xs. valid x)"
  show "emits (out_vector enc xs) (le32 (word_of_nat (length xs)) @ concat (map bytes_of xs))"
    using emits_bind [OF emits_out_bytes emits_items] v
    by (simp add: out_vector_def [abs_def] out_uint32_def)
  have len: "unat (word_of_nat (length xs) :: 32 word) = length xs"
    using v by (simp add: unat_of_nat)
  show "reads (in_vector dec) (le32 (word_of_nat (length xs)) @ concat (map bytes_of xs)) xs"
    using reads_bind [OF reads_in_uint32 [of "word_of_nat (length xs)"], of "\<lambda>sz. in_items dec (unat sz)"]
      reads_items v
    by (simp add: in_vector_def [abs_def] len)
qed

lemma image_codec:
  assumes "\<And>y. f (g y) = y"
  shows "codec (\<lambda>y. enc (g y)) (\<lambda>data pos. bindE (dec data pos) (\<lambda>(x, pos). Inr (f x, pos)))
    (\<lambda>y. bytes_of (g y)) (\<lambda>y. valid (g y))"
proof
  fix y
  assume v: "valid (g y)"
  then show "emits (enc (g y)) (bytes_of (g y))" by (rule enc_emits)
  show "reads (\<lambda>data pos. bindE (dec data pos) (\<lambda>(x, pos). Inr (f x, pos))) (bytes_of (g y)) y"
    using reads_map [OF dec_reads [OF v], of f] assms by simp
qed

end

text \<open>A structure with two members.\<close>

locale codec_pair = a: codec enc1 dec1 bytes1 valid1 + b: codec enc2 dec2 bytes2 valid2
  for enc1 :: "'a \<Rightarrow> writer" and dec1 :: "'a reader" and bytes1 valid1
    and enc2 :: "'b \<Rightarrow> writer" and dec2 :: "'b reader" and bytes2 valid2
begin

lemma pair_codec:
  "codec (out_pair enc1 enc2) (in_pair dec1 dec2) (\<lambda>p. bytes1 (fst p) @ bytes2 (snd p))
     (\<lambda>p. valid1 (fst p) \<and> valid2 (snd p))"
proof
  fix p :: "'a \<times> 'b"
  assume v: "valid1 (fst p) \<and> valid2 (snd p)"
  then show "emits (out_pair enc1 enc2 p) (bytes1 (fst p) @ bytes2 (snd p))"
    using emits_bind [OF a.enc_emits b.enc_emits] by (simp add: out_pair_def [abs_def])
  have "reads (\<lambda>data pos. bindE (dec1 data pos) (\<lambda>(x, pos).
      bindE (dec2 data pos) (\<lambda>(y, pos). Inr ((x, y), pos)))) (bytes1 (fst p) @ bytes2 (snd p)) (fst p, snd p)"
    using v by (intro reads_bind_map [where f = Pair] a.dec_reads b.dec_reads) auto
  then show "reads (in_pair dec1 dec2) (bytes1 (fst p) @ bytes2 (snd p)) p"
    by (simp add: in_pair_def [abs_def])
qed

end

text \<open>The interpretations: strings, vectors of strings, pairs of strings, and the empty structure.\<close>

abbreviation valid_string :: "string \<Rightarrow> bool" where
  "valid_string s \<equiv> length s < 2 ^ 32"

definition string_bytes :: "string \<Rightarrow> byte list" where
  "string_bytes s = le32 (word_of_nat (length s)) @ bytes_of_string s"

interpretation str: codec out_string in_string string_bytes valid_string
proof
  fix s :: string
  assume v: "valid_string s"
  show "emits (out_string s) (string_bytes s)"
    using emits_bind [OF emits_out_bytes emits_out_bytes]
    by (simp add: out_string_def [abs_def] out_uint32_def string_bytes_def)
  have len: "unat (word_of_nat (length s) :: 32 word) = length (bytes_of_string s)"
    using v by (simp add: unat_of_nat)
  have "reads (\<lambda>data pos. bindE (in_uint32 data pos) (\<lambda>(sz, pos).
      bindE (in_bytes (unat sz) data pos) (\<lambda>(bs, pos). Inr (string_of_bytes bs, pos)))) (string_bytes s)
      (string_of_bytes (bytes_of_string s))"
    unfolding string_bytes_def
    by (rule reads_bind_map [where f = "\<lambda>_. string_of_bytes", OF reads_in_uint32]) (simp only: len reads_in_bytes)
  then show "reads in_string (string_bytes s) s" by (simp add: in_string_def [abs_def])
qed

definition valid_strings :: "string list \<Rightarrow> bool" where
  "valid_strings ss \<longleftrightarrow> length ss < 2 ^ 32 \<and> (\<forall>s \<in> set ss. valid_string s)"

definition strings_bytes :: "string list \<Rightarrow> byte list" where
  "strings_bytes ss = le32 (word_of_nat (length ss)) @ concat (map string_bytes ss)"

interpretation strs: codec "out_vector out_string" "in_vector in_string" strings_bytes valid_strings
  unfolding strings_bytes_def [abs_def] valid_strings_def [abs_def] by (rule str.vector_codec)

interpretation str2: codec_pair out_string in_string string_bytes valid_string
  out_string in_string string_bytes valid_string ..

interpretation strs2: codec_pair "out_vector out_string" "in_vector in_string" strings_bytes valid_strings
  "out_vector out_string" "in_vector in_string" strings_bytes valid_strings ..

interpretation nothing: codec out_nothing in_nothing "\<lambda>u. []" "\<lambda>u. True"
  by unfold_locales (simp_all add: emits_def reads_def out_nothing_def in_nothing_def)

end
