(* ===== verification/Utils.thy ===== *)
theory Utils
  imports Prelude
begin

text \<open>
  The string helpers of \<open>kvstore/common/utils.cpp\<close>: splitting a line into
  tokens, the test for decimal numbers and ASCII case conversion.
\<close>

section \<open>Definitions\<close>

text \<open>\<open>split(s, delim)\<close>: the \<open>while (std::getline(...))\<close> loop that keeps the non-empty items.\<close>

function split_loop :: "char \<Rightarrow> string \<Rightarrow> string list \<Rightarrow> string list" where
  "split_loop delim s res =
     (case getline delim s of
        None \<Rightarrow> res
      | Some (item, rest) \<Rightarrow>
          split_loop delim rest (if item \<noteq> [] then res @ [item] else res))"
  by pat_completeness auto
termination
  by (relation "measure (\<lambda>(d, s, r). length s)") (auto dest: getline_shorter)

declare split_loop.simps [simp del]

definition split :: "string \<Rightarrow> char \<Rightarrow> string list" where
  "split s delim = split_loop delim s []"

definition is_number :: "string \<Rightarrow> bool" where
  "is_number s \<longleftrightarrow> s \<noteq> [] \<and> fold (\<lambda>c a. a \<and> isdigit c) s True"

definition to_upper :: "string \<Rightarrow> string" where
  "to_upper s = map toupper s"

definition to_lower :: "string \<Rightarrow> string" where
  "to_lower s = map tolower s"

section \<open>Case conversion\<close>

lemma toupper_byte:
  "byte_of (toupper c) = (if 97 \<le> byte_of c \<and> byte_of c \<le> 122 then byte_of c - 32 else byte_of c)"
  by (auto simp: toupper_def less_eq_char_def of_char_of take_bit_eq_mod)

lemma toupper_idem [simp]: "toupper (toupper c) = toupper c"
proof -
  have "\<not> (97 \<le> byte_of (toupper c) \<and> byte_of (toupper c) \<le> 122)"
    unfolding toupper_byte by (auto split: if_splits)
  then have "\<not> (CHR ''a'' \<le> toupper c \<and> toupper c \<le> CHR ''z'')"
    by (simp add: less_eq_char_def)
  then show ?thesis by (simp only: toupper_def [of "toupper c"] if_False)
qed

lemma to_upper_idem [simp]: "to_upper (to_upper s) = to_upper s"
  by (simp add: to_upper_def)

lemma length_to_upper [simp]: "length (to_upper s) = length s"
  by (simp add: to_upper_def)

section \<open>Numbers\<close>

lemma fold_conj: "fold (\<lambda>c a. a \<and> P c) s b \<longleftrightarrow> b \<and> (\<forall>c \<in> set s. P c)"
  by (induction s arbitrary: b) auto

lemma is_number_iff: "is_number s \<longleftrightarrow> s \<noteq> [] \<and> (\<forall>c \<in> set s. isdigit c)"
  by (simp add: is_number_def fold_conj)

section \<open>Tokens\<close>

lemma getline_Nil [simp]: "getline delim [] = None"
  by (simp add: getline_def)

lemma getline_last: "w \<noteq> [] \<Longrightarrow> delim \<notin> set w \<Longrightarrow> getline delim w = Some (w, [])"
proof -
  assume w: "w \<noteq> []" "delim \<notin> set w"
  have "takeWhile (\<lambda>c. c \<noteq> delim) w = w" using w(2) by (induction w) auto
  moreover have "dropWhile (\<lambda>c. c \<noteq> delim) w = []" using w(2) by (induction w) auto
  ultimately show ?thesis using w(1) by (simp only: getline_def if_False drop_Nil)
qed

lemma getline_word: "delim \<notin> set w \<Longrightarrow> getline delim (w @ delim # s) = Some (w, s)"
proof -
  assume w: "delim \<notin> set w"
  have "takeWhile (\<lambda>c. c \<noteq> delim) (w @ delim # s) = w" using w by (induction w) auto
  moreover have "dropWhile (\<lambda>c. c \<noteq> delim) (w @ delim # s) = delim # s" using w by (induction w) auto
  ultimately show ?thesis by (simp add: getline_def)
qed

text \<open>Every string is empty, one last word, or a (possibly empty) word, a delimiter and the rest.\<close>

lemma delim_induct [case_names Nil Last Word]:
  assumes "P []"
    and "\<And>w. w \<noteq> [] \<Longrightarrow> delim \<notin> set w \<Longrightarrow> P w"
    and "\<And>w s. delim \<notin> set w \<Longrightarrow> P s \<Longrightarrow> P (w @ delim # s)"
  shows "P s"
proof (induction s rule: length_induct)
  case (1 s)
  show ?case
  proof (cases "delim \<in> set s")
    case True
    then obtain w r where s: "s = w @ delim # r" and "delim \<notin> set w"
      by (meson split_list_first)
    moreover have "P r" using "1" s by simp
    ultimately show ?thesis using assms(3) by simp
  next
    case False
    with assms(1,2) show ?thesis by (cases "s = []") auto
  qed
qed

text \<open>The loop of \<open>split\<close> on the three shapes of its input.\<close>

lemma split_loop_Nil [simp]: "split_loop delim [] res = res"
  by (simp add: split_loop.simps)

lemma split_loop_last:
  "w \<noteq> [] \<Longrightarrow> delim \<notin> set w \<Longrightarrow> split_loop delim w res = res @ [w]"
  by (simp add: split_loop.simps [of delim w] getline_last)

lemma split_loop_word:
  "delim \<notin> set w \<Longrightarrow>
   split_loop delim (w @ delim # s) res = split_loop delim s (if w \<noteq> [] then res @ [w] else res)"
  by (simp add: split_loop.simps [of delim "w @ delim # s"] getline_word)

lemma split_loop_append: "split_loop delim s res = res @ split_loop delim s []"
proof (induction s arbitrary: res rule: delim_induct [where delim = delim])
  case (Word w s)
  show ?case
    unfolding split_loop_word [OF Word.hyps]
    using Word.IH [of res] Word.IH [of "res @ [w]"] Word.IH [of "[w]"]
    by (cases "w = []") simp_all
qed (simp_all add: split_loop_last)

lemma split_simps:
  "split [] delim = []"
  "w \<noteq> [] \<Longrightarrow> delim \<notin> set w \<Longrightarrow> split w delim = [w]"
  "delim \<notin> set w \<Longrightarrow> split (w @ delim # s) delim = (if w \<noteq> [] then [w] else []) @ split s delim"
  by (simp_all add: split_def split_loop_last split_loop_word split_loop_append [of delim s "[w]"])

text \<open>The line a user types for a list of words: the words separated by the delimiter.\<close>

fun join :: "char \<Rightarrow> string list \<Rightarrow> string" where
  "join delim [] = []"
| "join delim [w] = w"
| "join delim (w # v # ws) = w @ delim # join delim (v # ws)"

lemma split_join:
  "\<forall>w \<in> set ws. w \<noteq> [] \<and> delim \<notin> set w \<Longrightarrow> split (join delim ws) delim = ws"
  by (induction delim ws rule: join.induct) (auto simp: split_simps)

lemma split_wf: "w \<in> set (split s delim) \<Longrightarrow> w \<noteq> [] \<and> delim \<notin> set w"
  by (induction s rule: delim_induct [where delim = delim])
    (auto simp: split_simps split: if_splits)

lemma filter_no_delim [simp]: "delim \<notin> set w \<Longrightarrow> filter (\<lambda>c. c \<noteq> delim) w = w"
  by (induction w) auto

lemma concat_split: "concat (split s delim) = filter (\<lambda>c. c \<noteq> delim) s"
  by (induction s rule: delim_induct [where delim = delim]) (auto simp: split_simps)

section \<open>Properties\<close>

text \<open>
  \<open>split\<close> loses nothing but delimiters: its tokens are non-empty, free of
  the delimiter, and put together they are the input without its delimiters; and
  splitting the words of a line that were joined by the delimiter gives back the words.
\<close>

theorem split_correct:
  "(\<forall>w \<in> set (split s delim). w \<noteq> [] \<and> delim \<notin> set w)
   \<and> concat (split s delim) = filter (\<lambda>c. c \<noteq> delim) s
   \<and> ((\<forall>w \<in> set ws. w \<noteq> [] \<and> delim \<notin> set w) \<longrightarrow> split (join delim ws) delim = ws)"
  by (auto simp: split_wf concat_split split_join)

theorem split_correct_witness:
  "split (join CHR '' '' [''put'', ''key'', ''v'']) CHR '' '' = [''put'', ''key'', ''v'']
   \<and> concat (split ''  a b '' CHR '' '') = ''ab''"
proof -
  have "\<forall>w \<in> set [''put'', ''key'', ''v'']. w \<noteq> [] \<and> CHR '' '' \<notin> set w" by simp
  with split_correct [of "''  a b ''" "CHR '' ''" "[''put'', ''key'', ''v'']"]
  show ?thesis by simp
qed

end
