(* ===== verification/Shard.thy ===== *)
theory Shard
  imports Utils
begin

text \<open>
  Key-range sharding, from \<open>kvstore/common/shard.hpp\<close> and \<open>shard.cpp\<close>:
  buckets as numbers in base 36, their string form, the split of the key space into
  shards, the split of one shard, and the overlap of two shards.

  \<open>size_t\<close> is \<open>nat\<close>. The only subtractions that can pass below zero, in
  \<open>split_into\<close> and in \<open>split_shard\<close>, are written out modulo \<open>2 ^ 64\<close>;
  the sums and products stay below \<open>36 ^ 5 < 2 ^ 64\<close>.
\<close>

section \<open>Definitions\<close>

definition VALID_CHARS :: string where
  "VALID_CHARS = ''0123456789ABCDEFGHIJKLMNOPQRSTUVWXYZ''"

definition MAX_GRANULARITY :: nat where
  "MAX_GRANULARITY = 4"

definition GRANULARITY_OPTS :: "nat list" where
  "GRANULARITY_OPTS =
     map (\<lambda>granularity. fold (\<lambda>i num_buckets. num_buckets * length VALID_CHARS) [0..<granularity] 1)
       [0..<MAX_GRANULARITY + 1]"

record shard =
  lower :: string
  upper :: string

definition granularity :: "shard \<Rightarrow> nat cpp" where
  "granularity s = bindE (assertE (length (lower s) = length (upper s))) (\<lambda>_. Inr (length (lower s)))"

text \<open>\<open>s.compare(0, g, t)\<close> compares the prefix of length \<open>g\<close> of \<open>s\<close> with \<open>t\<close>.\<close>

definition contains :: "shard \<Rightarrow> string \<Rightarrow> bool cpp" where
  "contains sh s =
     bindE (granularity sh) (\<lambda>g. Inr (lower sh \<le> take g s \<and> take g s \<le> upper sh))"

datatype OverlapStatus =
    NO_OVERLAP
  | OVERLAP_START
  | OVERLAP_END
  | COMPLETELY_CONTAINS
  | COMPLETELY_CONTAINED

definition is_valid :: "string \<Rightarrow> bool" where
  "is_valid s \<longleftrightarrow> list_all (\<lambda>c. toupper c \<in> set VALID_CHARS) s"

text \<open>
  The two loops of \<open>bucket_to_str\<close>. The first argument counts the rounds left, so
  that \<open>k\<close> is \<open>granularity - i - 1\<close>; the array \<open>indices\<close> has
  \<open>MAX_GRANULARITY\<close> places.
\<close>

fun bucket_indices :: "nat \<Rightarrow> nat \<Rightarrow> nat list cpp" where
  "bucket_indices 0 n_left = Inr []"
| "bucket_indices (Suc k) n_left =
     bindE (at GRANULARITY_OPTS k) (\<lambda>opt.
     bindE (bucket_indices k (n_left mod opt)) (\<lambda>rest.
     Inr (n_left div opt # rest)))"

definition bucket_to_str :: "nat \<Rightarrow> nat \<Rightarrow> string cpp" where
  "bucket_to_str bucket g =
     (if g \<le> MAX_GRANULARITY
      then bindE (bucket_indices g bucket) (mapE (at VALID_CHARS))
      else Inl OutOfBounds)"

fun str_to_bucket_loop :: "string \<Rightarrow> nat \<Rightarrow> nat cpp" where
  "str_to_bucket_loop [] bucket = Inr bucket"
| "str_to_bucket_loop (c # cs) bucket =
     (let idx = find_pos (toupper c) VALID_CHARS in
      bindE (assertE (idx \<noteq> length VALID_CHARS)) (\<lambda>_.
      bindE (at GRANULARITY_OPTS (length cs)) (\<lambda>opt.
      str_to_bucket_loop cs (bucket + idx * opt))))"

definition str_to_bucket :: "string \<Rightarrow> nat cpp" where
  "str_to_bucket s = str_to_bucket_loop s 0"

text \<open>\<open>split_into\<close>: the granularity loop, the sizes, and the loop over the shards.\<close>

fun choose_granularity :: "nat \<Rightarrow> nat list \<Rightarrow> nat \<times> nat" where
  "choose_granularity n_shards [] = (0, 0)"
| "choose_granularity n_shards (i # is) =
     (if n_shards \<le> GRANULARITY_OPTS ! i then (GRANULARITY_OPTS ! i, i)
      else choose_granularity n_shards is)"

definition shard_sizes :: "nat \<Rightarrow> nat \<Rightarrow> nat list" where
  "shard_sizes n_buckets n_shards =
     map (\<lambda>i. if i < n_buckets mod n_shards then n_buckets div n_shards + 1 else n_buckets div n_shards)
       [0..<n_shards]"

definition size_t_sub :: "nat \<Rightarrow> nat \<Rightarrow> nat" where
  "size_t_sub a b = (if b \<le> a then a - b else (a + 2 ^ 64 - b) mod 2 ^ 64)"

fun split_into_loop :: "nat \<Rightarrow> nat \<Rightarrow> nat list \<Rightarrow> shard list cpp" where
  "split_into_loop g lo [] = Inr []"
| "split_into_loop g lo (sz # szs) =
     (let up = size_t_sub (lo + sz) 1 in
      bindE (bucket_to_str lo g) (\<lambda>lower_bucket.
      bindE (bucket_to_str up g) (\<lambda>upper_bucket.
      bindE (split_into_loop g (lo + sz) szs) (\<lambda>shards.
      Inr (\<lparr>lower = lower_bucket, upper = upper_bucket\<rparr> # shards)))))"

definition split_into :: "nat \<Rightarrow> shard list cpp" where
  "split_into n_shards =
     bindE (assertE (n_shards > 0)) (\<lambda>_.
     let (n_buckets, g) = choose_granularity n_shards [1..<MAX_GRANULARITY + 1] in
     split_into_loop g 0 (shard_sizes n_buckets n_shards))"

text \<open>
  \<open>std::sort\<close> by the lower bound. The C++ algorithm may order shards with the
  same lower bound either way; the model keeps their order.
\<close>

definition sort_shards :: "shard list \<Rightarrow> shard list" where
  "sort_shards shards = sort_key lower shards"

definition split_shard :: "shard \<Rightarrow> (shard \<times> shard) cpp" where
  "split_shard sh =
     bindE (assertE (lower sh \<noteq> upper sh)) (\<lambda>_.
     bindE (str_to_bucket (lower sh)) (\<lambda>lo.
     bindE (str_to_bucket (upper sh)) (\<lambda>up.
     let midpoint = (lo + size_t_sub up lo div 2) mod 2 ^ 64 in
     bindE (granularity sh) (\<lambda>g.
     bindE (bucket_to_str midpoint g) (\<lambda>lower_upper.
     bindE (bucket_to_str ((midpoint + 1) mod 2 ^ 64) g) (\<lambda>upper_lower.
     Inr (\<lparr>lower = lower sh, upper = lower_upper\<rparr>, \<lparr>lower = upper_lower, upper = upper sh\<rparr>)))))))"

text \<open>The overload of \<open>split_shard\<close> that takes a bucket number.\<close>

definition split_shard_bucket :: "shard \<Rightarrow> nat \<Rightarrow> (shard \<times> shard) cpp" where
  "split_shard_bucket sh loc =
     bindE (str_to_bucket (lower sh)) (\<lambda>lo.
     bindE (str_to_bucket (upper sh)) (\<lambda>up.
     bindE (assertE (lo < up)) (\<lambda>_.
     bindE (granularity sh) (\<lambda>g.
     bindE (bucket_to_str loc g) (\<lambda>lower_upper.
     bindE (bucket_to_str ((loc + 1) mod 2 ^ 64) g) (\<lambda>upper_lower.
     Inr (\<lparr>lower = lower sh, upper = lower_upper\<rparr>, \<lparr>lower = upper_lower, upper = upper sh\<rparr>)))))))"

text \<open>The overload that takes a key; \<open>first\<close> says which half gets the split location.\<close>

definition split_shard_at :: "shard \<Rightarrow> string \<Rightarrow> bool \<Rightarrow> (shard \<times> shard) cpp" where
  "split_shard_at sh loc first =
     bindE (assertE (lower sh \<noteq> upper sh)) (\<lambda>_.
     bindE (assertE (lower sh \<le> loc \<and> loc \<le> upper sh)) (\<lambda>_.
     bindE (str_to_bucket loc) (\<lambda>pos.
     bindE (granularity sh) (\<lambda>g.
     bindE (bucket_to_str (size_t_sub pos (if first then 0 else 1)) g) (\<lambda>lower_upper.
     bindE (bucket_to_str (pos + (if first then 1 else 0)) g) (\<lambda>upper_lower.
     Inr (\<lparr>lower = lower sh, upper = lower_upper\<rparr>, \<lparr>lower = upper_lower, upper = upper sh\<rparr>)))))))"

definition get_overlap :: "shard \<Rightarrow> shard \<Rightarrow> OverlapStatus cpp" where
  "get_overlap a b =
     (if upper a < lower b \<or> upper b < lower a then Inr NO_OVERLAP
      else if lower b \<le> lower a \<and> upper a \<le> upper b then Inr COMPLETELY_CONTAINED
      else if lower a < lower b \<and> upper a > upper b then Inr COMPLETELY_CONTAINS
      else if lower a \<ge> lower b \<and> upper a > upper b then Inr OVERLAP_START
      else if lower a < lower b \<and> upper a \<le> upper b then Inr OVERLAP_END
      else Inl (Throw ''bad case in get_overlap''))"

section \<open>Base 36\<close>

lemma length_VALID_CHARS [simp]: "length VALID_CHARS = 36"
  by (simp add: VALID_CHARS_def)

lemma GRANULARITY_OPTS_eq: "GRANULARITY_OPTS = [1, 36, 1296, 46656, 1679616]"
  by (simp add: GRANULARITY_OPTS_def MAX_GRANULARITY_def upt_rec)

lemma length_GRANULARITY_OPTS [simp]: "length GRANULARITY_OPTS = 5"
  by (simp add: GRANULARITY_OPTS_eq)

lemma GRANULARITY_OPTS_nth [simp]: "k < 5 \<Longrightarrow> GRANULARITY_OPTS ! k = 36 ^ k"
proof -
  assume "k < 5"
  then consider "k = 0" | "k = 1" | "k = 2" | "k = 3" | "k = 4" by linarith
  then show ?thesis by cases (simp_all add: GRANULARITY_OPTS_eq)
qed

lemma VALID_CHARS_bytes: "map byte_of VALID_CHARS = [48..<58] @ [65..<91]"
  by (simp add: VALID_CHARS_def)

lemma VALID_CHARS_sorted: "sorted_wrt (<) VALID_CHARS"
proof -
  have "sorted_wrt (<) (map byte_of VALID_CHARS)"
    unfolding VALID_CHARS_bytes sorted_wrt_append using sorted_wrt_upt by auto
  moreover have "(\<lambda>x y. byte_of x < byte_of y) = (<)"
    by (simp add: fun_eq_iff less_char_def)
  ultimately show ?thesis by (simp only: sorted_wrt_map)
qed

lemma VALID_CHARS_toupper: "c \<in> set VALID_CHARS \<Longrightarrow> toupper c = c"
proof -
  have "list_all (\<lambda>c. toupper c = c) VALID_CHARS"
    by (simp add: VALID_CHARS_def toupper_def less_eq_char_def)
  then show "c \<in> set VALID_CHARS \<Longrightarrow> toupper c = c" by (simp add: list_all_iff)
qed

lemma distinct_VALID_CHARS: "distinct VALID_CHARS"
  using VALID_CHARS_sorted by (simp add: strict_sorted_iff)

text \<open>The digits of a bucket number, most significant first, and the number of a digit list.\<close>

fun digits :: "nat \<Rightarrow> nat \<Rightarrow> nat list" where
  "digits 0 b = []"
| "digits (Suc k) b = b div 36 ^ k # digits k (b mod 36 ^ k)"

fun undigits :: "nat list \<Rightarrow> nat" where
  "undigits [] = 0"
| "undigits (d # ds) = d * 36 ^ length ds + undigits ds"

lemma length_digits [simp]: "length (digits k b) = k"
  by (induction k arbitrary: b) auto

lemma digits_less: "b < 36 ^ k \<Longrightarrow> d \<in> set (digits k b) \<Longrightarrow> d < 36"
proof (induction k arbitrary: b)
  case (Suc k)
  have "b mod 36 ^ k < 36 ^ k" by simp
  with Suc.IH [of "b mod 36 ^ k"] Suc.prems show ?case
    by (auto simp: less_mult_imp_div_less)
qed simp

lemma undigits_digits: "b < 36 ^ k \<Longrightarrow> undigits (digits k b) = b"
proof (induction k arbitrary: b)
  case (Suc k)
  have "b mod 36 ^ k < 36 ^ k" by simp
  then have "undigits (digits k (b mod 36 ^ k)) = b mod 36 ^ k" by (rule Suc.IH)
  then show ?case by (simp only: digits.simps undigits.simps length_digits div_mult_mod_eq)
qed simp

lemma undigits_less: "\<forall>d \<in> set ds. d < 36 \<Longrightarrow> undigits ds < 36 ^ length ds"
proof (induction ds)
  case (Cons d ds)
  then have "undigits ds < 36 ^ length ds" and "d * 36 ^ length ds \<le> 35 * 36 ^ length ds"
    by (auto intro: mult_le_mono1)
  then have "d * 36 ^ length ds + undigits ds < 35 * 36 ^ length ds + 36 ^ length ds"
    by linarith
  then show ?case by simp
qed simp

lemma digits_undigits: "\<forall>d \<in> set ds. d < 36 \<Longrightarrow> digits (length ds) (undigits ds) = ds"
  by (induction ds) (auto simp: undigits_less)

lemma digits_less_iff: "a < 36 ^ k \<Longrightarrow> b < 36 ^ k \<Longrightarrow> digits k a < digits k b \<longleftrightarrow> a < b"
proof (induction k arbitrary: a b)
  case (Suc k)
  have IH: "digits k (a mod 36 ^ k) < digits k (b mod 36 ^ k) \<longleftrightarrow> a mod 36 ^ k < b mod 36 ^ k"
    by (rule Suc.IH) simp_all
  have "a < b \<longleftrightarrow> a div 36 ^ k < b div 36 ^ k
          \<or> a div 36 ^ k = b div 36 ^ k \<and> a mod 36 ^ k < b mod 36 ^ k"
  proof (cases "a div 36 ^ k" "b div 36 ^ k" rule: linorder_cases)
    case less
    then show ?thesis using div_le_mono [of b a "36 ^ k"] by (meson leD leI)
  next
    case equal
    then show ?thesis
      using div_mult_mod_eq [of a "36 ^ k"] div_mult_mod_eq [of b "36 ^ k"]
      by (metis nat_add_left_cancel_less less_irrefl)
  next
    case greater
    then show ?thesis using div_le_mono [of a b "36 ^ k"] by (auto dest: leD)
  qed
  with IH show ?case by auto
qed simp

section \<open>Buckets and their names\<close>

text \<open>The name of a bucket, as a total function.\<close>

definition bucket_name :: "nat \<Rightarrow> nat \<Rightarrow> string" where
  "bucket_name g b = map ((!) VALID_CHARS) (digits g b)"

definition bucket_key :: "nat \<Rightarrow> string \<Rightarrow> bool" where
  "bucket_key g s \<longleftrightarrow> length s = g \<and> set s \<subseteq> set VALID_CHARS"

lemma length_bucket_name [simp]: "length (bucket_name g b) = g"
  by (simp add: bucket_name_def)

lemma bucket_indices_digits: "k \<le> 5 \<Longrightarrow> bucket_indices k b = Inr (digits k b)"
  by (induction k arbitrary: b) auto

lemma bucket_to_str_name:
  "g \<le> 4 \<Longrightarrow> b < 36 ^ g \<Longrightarrow> bucket_to_str b g = Inr (bucket_name g b)"
  by (auto simp: bucket_to_str_def MAX_GRANULARITY_def bucket_indices_digits bucket_name_def
      digits_less intro!: mapE_all_Inr)

lemma valid_char_mono: "i < 36 \<Longrightarrow> j < 36 \<Longrightarrow> VALID_CHARS ! i < VALID_CHARS ! j \<longleftrightarrow> i < j"
  using sorted_wrt_nth_less [OF VALID_CHARS_sorted]
  by (metis length_VALID_CHARS linorder_neq_iff not_less_iff_gr_or_eq)

lemma bucket_name_less_iff:
  "a < 36 ^ g \<Longrightarrow> b < 36 ^ g \<Longrightarrow> bucket_name g a < bucket_name g b \<longleftrightarrow> a < b"
  unfolding bucket_name_def
  by (subst list_less_map_strict_mono [where A = "{..<36}"])
    (auto simp: valid_char_mono digits_less digits_less_iff)

lemma bucket_name_le_iff:
  "a < 36 ^ g \<Longrightarrow> b < 36 ^ g \<Longrightarrow> bucket_name g a \<le> bucket_name g b \<longleftrightarrow> a \<le> b"
  by (meson bucket_name_less_iff leD leI)

lemma bucket_key_name: "b < 36 ^ g \<Longrightarrow> bucket_key g (bucket_name g b)"
  by (auto simp: bucket_key_def bucket_name_def digits_less)

lemma bucket_key_ex:
  assumes "bucket_key g s"
  shows "\<exists>b < 36 ^ g. s = bucket_name g b \<and> b = undigits (map (\<lambda>c. find_pos c VALID_CHARS) s)"
proof -
  let ?ds = "map (\<lambda>c. find_pos c VALID_CHARS) s"
  have s: "length s = g" "\<And>c. c \<in> set s \<Longrightarrow> c \<in> set VALID_CHARS"
    using assms by (auto simp: bucket_key_def)
  have ds: "\<forall>d \<in> set ?ds. d < 36"
    using s(2) find_pos_less_iff [of _ VALID_CHARS] by auto
  have "map ((!) VALID_CHARS) ?ds = s"
    using s(2) by (auto simp: nth_find_pos intro: map_idI)
  then have "s = bucket_name g (undigits ?ds)"
    using digits_undigits [OF ds] s(1) by (simp add: bucket_name_def)
  moreover have "undigits ?ds < 36 ^ g"
    using undigits_less [OF ds] s(1) by simp
  ultimately show ?thesis by blast
qed

lemma str_to_bucket_loop_undigits:
  "length s \<le> 5 \<Longrightarrow> \<forall>c \<in> set s. toupper c \<in> set VALID_CHARS \<Longrightarrow>
   str_to_bucket_loop s acc = Inr (acc + undigits (map (\<lambda>c. find_pos (toupper c) VALID_CHARS) s))"
proof (induction s arbitrary: acc)
  case (Cons c s)
  then have "find_pos (toupper c) VALID_CHARS < 36"
    using find_pos_less_iff [of "toupper c" VALID_CHARS] by simp
  with Cons show ?case by (simp add: Let_def)
qed simp

lemma str_to_bucket_name:
  assumes "g \<le> 4" and "b < 36 ^ g"
  shows "str_to_bucket (bucket_name g b) = Inr b"
proof -
  let ?s = "bucket_name g b"
  have key: "set ?s \<subseteq> set VALID_CHARS"
    using bucket_key_name [OF assms(2)] by (simp add: bucket_key_def)
  have "map (\<lambda>c. find_pos (toupper c) VALID_CHARS) ?s = map (\<lambda>c. find_pos c VALID_CHARS) ?s"
    using key VALID_CHARS_toupper by auto
  also have "\<dots> = digits g b"
    by (auto simp: bucket_name_def find_pos_nth [OF distinct_VALID_CHARS] digits_less [OF assms(2)]
        intro: map_idI)
  finally show ?thesis
    using assms key VALID_CHARS_toupper
    by (subst str_to_bucket_def, subst str_to_bucket_loop_undigits)
      (auto simp: undigits_digits subset_iff)
qed

lemma contains_bucket:
  assumes "lo < 36 ^ g" "up < 36 ^ g" "b < 36 ^ g" "take g key = bucket_name g b"
  shows "contains \<lparr>lower = bucket_name g lo, upper = bucket_name g up\<rparr> key = Inr (lo \<le> b \<and> b \<le> up)"
  using assms by (simp add: contains_def granularity_def bucket_name_le_iff)

section \<open>Splitting the key space\<close>

lemma choose_granularity_eq:
  "choose_granularity n [1..<MAX_GRANULARITY + 1] =
     (if n \<le> 36 then (36, 1) else if n \<le> 36 ^ 2 then (36 ^ 2, 2)
      else if n \<le> 36 ^ 3 then (36 ^ 3, 3) else if n \<le> 36 ^ 4 then (36 ^ 4, 4) else (0, 0))"
proof -
  have "[1..<MAX_GRANULARITY + 1] = [1, 2, 3, 4]"
    by (simp add: MAX_GRANULARITY_def upt_rec)
  then show ?thesis by simp
qed

lemma choose_granularity_cases:
  assumes "0 < n" and "n \<le> 36 ^ 4"
  obtains g where "choose_granularity n [1..<MAX_GRANULARITY + 1] = (36 ^ g, g)"
    and "1 \<le> g" and "g \<le> 4" and "n \<le> 36 ^ g" and "\<And>h. 1 \<le> h \<Longrightarrow> h < g \<Longrightarrow> 36 ^ h < n"
proof -
  consider "n \<le> 36" | "36 < n" "n \<le> 36 ^ 2" | "36 ^ 2 < n" "n \<le> 36 ^ 3" | "36 ^ 3 < n"
    by linarith
  then show thesis
  proof cases
    case 1
    show thesis by (rule that [of 1]) (use 1 in \<open>auto simp only: choose_granularity_eq if_True\<close>, simp_all)
  next
    case 2
    show thesis
    proof (rule that [of 2])
      fix h :: nat
      assume "1 \<le> h" "h < 2"
      then have "h = 1" by linarith
      with 2 show "36 ^ h < n" by simp
    qed (use 2 in \<open>simp_all only: choose_granularity_eq, simp_all\<close>)
  next
    case 3
    show thesis
    proof (rule that [of 3])
      fix h :: nat
      assume "1 \<le> h" "h < 3"
      then consider "h = 1" | "h = 2" by linarith
      then show "36 ^ h < n" by cases (use 3 in simp_all)
    qed (use 3 in \<open>simp_all only: choose_granularity_eq, simp_all\<close>)
  next
    case 4
    show thesis
    proof (rule that [of 4])
      fix h :: nat
      assume "1 \<le> h" "h < 4"
      then consider "h = 1" | "h = 2" | "h = 3" by linarith
      then show "36 ^ h < n" by cases (use 4 in simp_all)
    qed (use 4 assms in \<open>simp_all only: choose_granularity_eq, simp_all\<close>)
  qed
qed

lemma length_shard_sizes [simp]: "length (shard_sizes nb n) = n"
  by (simp add: shard_sizes_def)

lemma sum_list_shard_sizes: "0 < n \<Longrightarrow> sum_list (shard_sizes nb n) = nb"
proof -
  assume n: "0 < n"
  let ?q = "nb div n" and ?r = "nb mod n"
  have "sum_list (shard_sizes nb n) = (\<Sum>i<n. ?q + (if i < ?r then 1 else 0))"
    by (auto simp: shard_sizes_def interv_sum_list_conv_sum_set_nat atLeast0LessThan intro: sum.cong)
  also have "\<dots> = n * ?q + (\<Sum>i<n. if i < ?r then 1 else 0)"
    by (simp add: sum.distrib)
  also have "(\<Sum>i<n. if i < ?r then 1 else 0) = card {i \<in> {..<n}. i < ?r}"
    by (subst card_eq_sum, subst sum.inter_filter) simp_all
  also have "{i \<in> {..<n}. i < ?r} = {..<?r}"
    using n by (auto intro: less_trans)
  finally show ?thesis by simp
qed

lemma shard_sizes_pos: "0 < n \<Longrightarrow> n \<le> nb \<Longrightarrow> sz \<in> set (shard_sizes nb n) \<Longrightarrow> 0 < sz"
  by (auto simp: shard_sizes_def div_greater_zero_iff)

lemma shard_sizes_balanced:
  "sz \<in> set (shard_sizes nb n) \<Longrightarrow> sz = nb div n \<or> sz = nb div n + 1"
  by (auto simp: shard_sizes_def)

definition bucket_shard :: "nat \<Rightarrow> nat \<Rightarrow> nat \<Rightarrow> shard" where
  "bucket_shard g lo sz = \<lparr>lower = bucket_name g lo, upper = bucket_name g (lo + sz - 1)\<rparr>"

lemma split_into_loop_eq:
  assumes "g \<le> 4"
  shows "\<forall>sz \<in> set szs. 0 < sz \<Longrightarrow> lo + sum_list szs \<le> 36 ^ g \<Longrightarrow>
    split_into_loop g lo szs = Inr (map2 (bucket_shard g) (starts lo szs) szs)"
proof (induction szs arbitrary: lo)
  case (Cons sz szs)
  then have "lo + sz \<le> 36 ^ g" and "0 < sz" by auto
  then have lo: "lo < 36 ^ g" and up: "size_t_sub (lo + sz) 1 = lo + sz - 1" "lo + sz - 1 < 36 ^ g"
    by (auto simp: size_t_sub_def)
  with Cons assms show ?case
    by (simp add: bucket_to_str_name bucket_shard_def Let_def add.assoc)
qed simp

lemma split_into_eq:
  assumes "0 < n" and "n \<le> 36 ^ 4"
  obtains g where "1 \<le> g" and "g \<le> 4" and "n \<le> 36 ^ g" and "\<And>h. 1 \<le> h \<Longrightarrow> h < g \<Longrightarrow> 36 ^ h < n"
    and "split_into n = Inr (map2 (bucket_shard g) (starts 0 (shard_sizes (36 ^ g) n)) (shard_sizes (36 ^ g) n))"
proof (rule choose_granularity_cases [OF assms])
  fix g
  assume g: "choose_granularity n [1..<MAX_GRANULARITY + 1] = (36 ^ g, g)" "1 \<le> g" "g \<le> 4"
    "n \<le> 36 ^ g" "\<And>h. 1 \<le> h \<Longrightarrow> h < g \<Longrightarrow> 36 ^ h < n"
  have "split_into_loop g 0 (shard_sizes (36 ^ g) n)
      = Inr (map2 (bucket_shard g) (starts 0 (shard_sizes (36 ^ g) n)) (shard_sizes (36 ^ g) n))"
    using assms g by (intro split_into_loop_eq) (auto simp: sum_list_shard_sizes shard_sizes_pos)
  with g assms show thesis by (intro that [of g]) (simp_all add: split_into_def)
qed

lemma split_into_nth:
  assumes "i < n"
  shows "map2 (bucket_shard g) (starts 0 (shard_sizes nb n)) (shard_sizes nb n) ! i
    = bucket_shard g (starts 0 (shard_sizes nb n) ! i) (shard_sizes nb n ! i)"
  using assms by simp

lemma contains_bucket_shard:
  assumes "0 < sz" "lo + sz \<le> 36 ^ g" "b < 36 ^ g" "take g key = bucket_name g b"
  shows "contains (bucket_shard g lo sz) key = Inr (lo \<le> b \<and> b < lo + sz)"
proof -
  have "contains (bucket_shard g lo sz) key = Inr (lo \<le> b \<and> b \<le> lo + sz - 1)"
    unfolding bucket_shard_def using assms by (intro contains_bucket) auto
  with assms(1) show ?thesis by auto
qed

lemma split_into_unique:
  assumes "0 < n" and "n \<le> 36 ^ g" and "bucket_key g (take g key)"
  shows "\<exists>!i. i < n \<and> contains (map2 (bucket_shard g) (starts 0 (shard_sizes (36 ^ g) n)) (shard_sizes (36 ^ g) n) ! i) key
    = Inr True"
proof -
  let ?sz = "shard_sizes (36 ^ g) n" and ?st = "starts 0 (shard_sizes (36 ^ g) n)"
  let ?shards = "map2 (bucket_shard g) ?st ?sz"
  have sum: "sum_list ?sz = 36 ^ g" using assms(1) by (rule sum_list_shard_sizes)
  obtain b where b: "b < 36 ^ g" "take g key = bucket_name g b"
    using bucket_key_ex [OF assms(3)] by blast
  have "contains (?shards ! i) key = Inr (?st ! i \<le> b \<and> b < ?st ! i + ?sz ! i)" if "i < n" for i
  proof -
    have "0 < ?sz ! i" using shard_sizes_pos [OF assms(1,2)] that by simp
    moreover have "?st ! i + ?sz ! i \<le> 36 ^ g" using starts_bound [of i ?sz 0] that sum by simp
    ultimately show ?thesis using that b by (simp add: contains_bucket_shard)
  qed
  moreover have "\<exists>!i. i < n \<and> ?st ! i \<le> b \<and> b < ?st ! i + ?sz ! i"
    using intervals_partition [of 0 b ?sz] b sum by simp
  ultimately show ?thesis by (simp cong: conj_cong)
qed



section \<open>The remaining operations\<close>

text \<open>
  Bucket numbers and bucket names are in a one-to-one, order-preserving
  correspondence: below \<open>36 ^ g\<close> the two conversions are inverse to each other, and
  the string order of the names is the order of the numbers.
\<close>

theorem bucket_str_roundtrip:
  assumes "g \<le> MAX_GRANULARITY" and "b < 36 ^ g" and "c < 36 ^ g" and "bucket_key g s"
  shows "\<exists>sb sc n. bucket_to_str b g = Inr sb \<and> bucket_to_str c g = Inr sc
    \<and> str_to_bucket sb = Inr b \<and> is_valid sb \<and> (sb < sc \<longleftrightarrow> b < c)
    \<and> str_to_bucket s = Inr n \<and> bucket_to_str n g = Inr s"
proof -
  have g: "g \<le> 4" using assms(1) by (simp add: MAX_GRANULARITY_def)
  obtain n where n: "n < 36 ^ g" "s = bucket_name g n" using bucket_key_ex [OF assms(4)] by blast
  have "is_valid (bucket_name g b)"
    using bucket_key_name [OF assms(2)] VALID_CHARS_toupper
    by (auto simp: is_valid_def list_all_iff bucket_key_def subset_iff)
  then show ?thesis
    using assms g n by (simp add: bucket_to_str_name str_to_bucket_name bucket_name_less_iff)
qed

theorem bucket_str_roundtrip_witness:
  "\<exists>sb. bucket_to_str 1337 3 = Inr sb \<and> str_to_bucket sb = Inr 1337"
proof -
  have "3 \<le> MAX_GRANULARITY" and "1337 < (36::nat) ^ 3" and "0 < (36::nat) ^ 3"
    by (simp_all add: MAX_GRANULARITY_def)
  moreover have "bucket_key 3 ''115''" by (simp add: bucket_key_def VALID_CHARS_def)
  ultimately show ?thesis using bucket_str_roundtrip [of 3 1337 0 "''115''"] by blast
qed

lemma contains_name:
  "lo < 36 ^ g \<Longrightarrow> up < 36 ^ g \<Longrightarrow> b < 36 ^ g \<Longrightarrow>
   contains \<lparr>lower = bucket_name g lo, upper = bucket_name g up\<rparr> (bucket_name g b) = Inr (lo \<le> b \<and> b \<le> up)"
  by (rule contains_bucket) simp_all

text \<open>A well-formed shard: bounds of the same granularity, in order.\<close>

definition wf_shard :: "nat \<Rightarrow> shard \<Rightarrow> bool" where
  "wf_shard g sh \<longleftrightarrow> g \<le> 4 \<and> bucket_key g (lower sh) \<and> bucket_key g (upper sh) \<and> lower sh \<le> upper sh"

lemma wf_shardE:
  assumes "wf_shard g sh"
  obtains lo up where "g \<le> 4" and "lo \<le> up" and "up < 36 ^ g"
    and "sh = \<lparr>lower = bucket_name g lo, upper = bucket_name g up\<rparr>"
proof -
  obtain lo up where "lo < 36 ^ g" "lower sh = bucket_name g lo" "up < 36 ^ g" "upper sh = bucket_name g up"
    using assms bucket_key_ex unfolding wf_shard_def by meson
  with assms show thesis
    by (intro that [of lo up]) (auto simp: wf_shard_def bucket_name_le_iff)
qed

text \<open>Two shards divide a third one: every key of its granularity is in the whole iff it is in exactly one part.\<close>

definition divides :: "nat \<Rightarrow> shard \<Rightarrow> shard \<times> shard \<Rightarrow> bool" where
  "divides g sh parts \<longleftrightarrow>
     lower (fst parts) = lower sh \<and> upper (snd parts) = upper sh
     \<and> (\<forall>key. bucket_key g (take g key) \<longrightarrow>
          (\<exists>w a b. contains sh key = Inr w \<and> contains (fst parts) key = Inr a
             \<and> contains (snd parts) key = Inr b \<and> w = (a \<or> b) \<and> \<not> (a \<and> b)))"

lemma divides_bucketsI:
  assumes "lo \<le> m" and "m < up" and "up < 36 ^ g"
  shows "divides g \<lparr>lower = bucket_name g lo, upper = bucket_name g up\<rparr>
    (\<lparr>lower = bucket_name g lo, upper = bucket_name g m\<rparr>,
     \<lparr>lower = bucket_name g (Suc m), upper = bucket_name g up\<rparr>)"
proof -
  have "\<exists>b. b < 36 ^ g \<and> take g key = bucket_name g b" if "bucket_key g (take g key)" for key
    using bucket_key_ex [OF that] by blast
  with assms show ?thesis
    by (fastforce simp: divides_def contains_bucket)
qed

lemma pow36_64: "g \<le> 4 \<Longrightarrow> (36::nat) ^ g < 2 ^ 63"
proof -
  assume "g \<le> 4"
  then have "(36::nat) ^ g \<le> 36 ^ 4" by (intro power_increasing) simp_all
  then show ?thesis by (rule le_less_trans) simp
qed

lemma split_shard_buckets:
  assumes "g \<le> 4" and "lo < up" and "up < 36 ^ g"
  shows "split_shard \<lparr>lower = bucket_name g lo, upper = bucket_name g up\<rparr> =
    Inr (\<lparr>lower = bucket_name g lo, upper = bucket_name g (lo + (up - lo) div 2)\<rparr>,
         \<lparr>lower = bucket_name g (lo + (up - lo) div 2 + 1), upper = bucket_name g up\<rparr>)"
proof -
  have "up < 2 ^ 63" using pow36_64 [OF assms(1)] assms(3) by linarith
  moreover have "lo + (up - lo) div 2 < up" using assms(2) by linarith
  moreover have "bucket_name g lo \<noteq> bucket_name g up"
    using assms bucket_name_less_iff [of lo g up] by auto
  ultimately show ?thesis
    using assms by (simp add: split_shard_def granularity_def str_to_bucket_name bucket_to_str_name
        size_t_sub_def Let_def)
qed

text \<open>
  Splitting a shard of more than one bucket at its midpoint succeeds and
  divides it: the two halves keep the outer bounds, every key of the shard is in exactly
  one half, and the first half has as many buckets as the second or one more.
\<close>

theorem split_shard_divides:
  assumes "wf_shard g sh" and "lower sh \<noteq> upper sh"
  shows "\<exists>a b la ua lb ub. split_shard sh = Inr (a, b) \<and> divides g sh (a, b)
    \<and> str_to_bucket (lower a) = Inr la \<and> str_to_bucket (upper a) = Inr ua
    \<and> str_to_bucket (lower b) = Inr lb \<and> str_to_bucket (upper b) = Inr ub
    \<and> lb = ua + 1 \<and> (ua - la = ub - lb \<or> ua - la = ub - lb + 1)"
proof -
  obtain lo up where s: "g \<le> 4" "lo \<le> up" "up < 36 ^ g"
    and sh: "sh = \<lparr>lower = bucket_name g lo, upper = bucket_name g up\<rparr>"
    using wf_shardE [OF assms(1)] by blast
  with assms(2) have lt: "lo < up" by (cases "lo = up") auto
  let ?m = "lo + (up - lo) div 2"
  have m: "lo \<le> ?m" "?m < up" using lt by linarith+
  have "?m - lo = up - (?m + 1) \<or> ?m - lo = up - (?m + 1) + 1" using lt by linarith
  with s m lt show ?thesis
    by (simp add: sh split_shard_buckets divides_bucketsI str_to_bucket_name)
qed

theorem split_shard_divides_witness:
  "\<exists>a b. split_shard \<lparr>lower = ''A0'', upper = ''AZ''\<rparr> = Inr (a, b)
     \<and> divides 2 \<lparr>lower = ''A0'', upper = ''AZ''\<rparr> (a, b)"
proof -
  have "wf_shard 2 \<lparr>lower = ''A0'', upper = ''AZ''\<rparr>"
    by (simp add: wf_shard_def bucket_key_def VALID_CHARS_def less_char_def)
  moreover have "lower \<lparr>lower = ''A0'', upper = ''AZ''\<rparr> \<noteq> upper \<lparr>lower = ''A0'', upper = ''AZ''\<rparr>" by simp
  ultimately show ?thesis using split_shard_divides by blast
qed

lemma split_shard_at_first:
  assumes "g \<le> 4" and "lo \<le> p" and "p \<le> up" and "lo < up" and "up < 36 ^ g" and "Suc p < 36 ^ g"
  shows "split_shard_at \<lparr>lower = bucket_name g lo, upper = bucket_name g up\<rparr> (bucket_name g p) True =
    Inr (\<lparr>lower = bucket_name g lo, upper = bucket_name g p\<rparr>,
         \<lparr>lower = bucket_name g (Suc p), upper = bucket_name g up\<rparr>)"
proof -
  have "bucket_name g lo < bucket_name g up" using assms by (simp add: bucket_name_less_iff)
  then have "bucket_name g lo \<noteq> bucket_name g up" by simp
  with assms show ?thesis
    by (simp add: split_shard_at_def granularity_def str_to_bucket_name bucket_to_str_name
        size_t_sub_def bucket_name_le_iff)
qed

lemma split_shard_at_second:
  assumes "g \<le> 4" and "lo \<le> Suc m" and "Suc m \<le> up" and "lo < up" and "up < 36 ^ g"
  shows "split_shard_at \<lparr>lower = bucket_name g lo, upper = bucket_name g up\<rparr> (bucket_name g (Suc m)) False =
    Inr (\<lparr>lower = bucket_name g lo, upper = bucket_name g m\<rparr>,
         \<lparr>lower = bucket_name g (Suc m), upper = bucket_name g up\<rparr>)"
proof -
  have "bucket_name g lo < bucket_name g up" using assms by (simp add: bucket_name_less_iff)
  then have "bucket_name g lo \<noteq> bucket_name g up" by simp
  with assms show ?thesis
    by (simp add: split_shard_at_def granularity_def str_to_bucket_name bucket_to_str_name
        size_t_sub_def bucket_name_le_iff)
qed

text \<open>
  Splitting at a key. With the location given to the first half it must lie
  below the upper bound, with the location given to the second half above the lower
  bound; then the two parts divide the shard.
\<close>

theorem split_shard_at_divides:
  assumes "wf_shard g sh" and "bucket_key g loc" and "lower sh \<le> loc" and "loc \<le> upper sh"
    and "if first then loc \<noteq> upper sh else loc \<noteq> lower sh"
  shows "\<exists>parts. split_shard_at sh loc first = Inr parts \<and> divides g sh parts
    \<and> contains (if first then fst parts else snd parts) loc = Inr True"
proof -
  obtain lo up where s: "g \<le> 4" "lo \<le> up" "up < 36 ^ g"
    and sh: "sh = \<lparr>lower = bucket_name g lo, upper = bucket_name g up\<rparr>"
    using wf_shardE [OF assms(1)] by blast
  obtain p where p: "p < 36 ^ g" "loc = bucket_name g p"
    using bucket_key_ex [OF assms(2)] by blast
  have lp: "lo \<le> p" "p \<le> up" using assms(3,4) s p by (auto simp: sh bucket_name_le_iff)
  show ?thesis
  proof (cases first)
    case True
    with assms(5) p lp have "p < up" by (auto simp: sh nat_less_le)
    with True s p lp show ?thesis
      by (auto simp: sh split_shard_at_first contains_name intro!: divides_bucketsI)
  next
    case False
    with assms(5) p lp have "lo < p" by (auto simp: sh nat_less_le)
    then obtain m where m: "p = Suc m" by (cases p) auto
    with False s p lp \<open>lo < p\<close> show ?thesis
      by (auto simp: sh split_shard_at_second contains_name intro!: divides_bucketsI)
  qed
qed

theorem split_shard_at_divides_witness:
  "\<exists>parts. split_shard_at \<lparr>lower = ''A'', upper = ''F''\<rparr> ''C'' True = Inr parts
     \<and> divides 1 \<lparr>lower = ''A'', upper = ''F''\<rparr> parts"
proof -
  have "wf_shard 1 \<lparr>lower = ''A'', upper = ''F''\<rparr>" "bucket_key 1 ''C''"
    "lower \<lparr>lower = ''A'', upper = ''F''\<rparr> \<le> ''C''" "''C'' \<le> upper \<lparr>lower = ''A'', upper = ''F''\<rparr>"
    "if True then ''C'' \<noteq> upper \<lparr>lower = ''A'', upper = ''F''\<rparr> else ''C'' \<noteq> lower \<lparr>lower = ''A'', upper = ''F''\<rparr>"
    by (simp_all add: wf_shard_def bucket_key_def VALID_CHARS_def less_char_def)
  from split_shard_at_divides [OF this] show ?thesis by blast
qed

text \<open>
  The documented precondition of splitting at a key, that the location is
  within the shard, is not enough. At the upper bound with \<open>first\<close> the second half
  is an inverted range that holds no key; and when that bound is the last bucket, or the
  location is bucket 0 with \<open>first\<close> unset, a bound outside the alphabet is computed.
\<close>

theorem split_shard_at_edges:
  "(g \<le> 4 \<and> lo < up \<and> Suc up < 36 ^ g \<longrightarrow>
      (\<exists>a b. split_shard_at \<lparr>lower = bucket_name g lo, upper = bucket_name g up\<rparr> (bucket_name g up) True = Inr (a, b)
        \<and> upper b < lower b \<and> (\<forall>key. bucket_key g (take g key) \<longrightarrow> contains b key = Inr False)))
   \<and> split_shard_at \<lparr>lower = ''A'', upper = ''Z''\<rparr> ''Z'' True = Inl OutOfBounds
   \<and> split_shard_at \<lparr>lower = ''0'', upper = ''Z''\<rparr> ''0'' False = Inl OutOfBounds"
proof (intro conjI impI)
  assume h: "g \<le> 4 \<and> lo < up \<and> Suc up < 36 ^ g"
  have "contains \<lparr>lower = bucket_name g (Suc up), upper = bucket_name g up\<rparr> key = Inr False"
    if key: "bucket_key g (take g key)" for key
  proof -
    obtain b where "b < 36 ^ g" "take g key = bucket_name g b" using bucket_key_ex [OF key] by blast
    with h show ?thesis by (subst contains_bucket) auto
  qed
  with h show "\<exists>a b. split_shard_at \<lparr>lower = bucket_name g lo, upper = bucket_name g up\<rparr> (bucket_name g up) True
      = Inr (a, b) \<and> upper b < lower b \<and> (\<forall>key. bucket_key g (take g key) \<longrightarrow> contains b key = Inr False)"
    by (simp add: split_shard_at_first bucket_name_less_iff)
next
  show "split_shard_at \<lparr>lower = ''A'', upper = ''Z''\<rparr> ''Z'' True = Inl OutOfBounds"
    by (simp add: split_shard_at_def str_to_bucket_def granularity_def bucket_to_str_def MAX_GRANULARITY_def
        at_def VALID_CHARS_def toupper_def less_char_def size_t_sub_def)
  show "split_shard_at \<lparr>lower = ''0'', upper = ''Z''\<rparr> ''0'' False = Inl OutOfBounds"
    by (simp add: split_shard_at_def str_to_bucket_def granularity_def bucket_to_str_def MAX_GRANULARITY_def
        at_def VALID_CHARS_def toupper_def less_char_def size_t_sub_def)
qed

theorem split_shard_at_edges_witness:
  "\<exists>a b. split_shard_at \<lparr>lower = bucket_name 1 3, upper = bucket_name 1 5\<rparr> (bucket_name 1 5) True = Inr (a, b)
     \<and> upper b < lower b"
  using split_shard_at_edges [of 1 3 5] by auto

text \<open>
  \<open>get_overlap\<close> never reaches its exception, and on ranges that are in
  order its answer is the set relation of the two intervals of strings.
\<close>

theorem get_overlap_correct:
  "\<exists>st. get_overlap a b = Inr st
     \<and> (lower a \<le> upper a \<and> lower b \<le> upper b \<longrightarrow>
          (st = NO_OVERLAP \<longleftrightarrow> {lower a..upper a} \<inter> {lower b..upper b} = {})
        \<and> (st = COMPLETELY_CONTAINED \<longleftrightarrow> {lower a..upper a} \<subseteq> {lower b..upper b})
        \<and> (st = COMPLETELY_CONTAINS \<longrightarrow> {lower b..upper b} \<subset> {lower a..upper a})
        \<and> (st = OVERLAP_START \<longrightarrow> lower a \<in> {lower b..upper b} \<and> upper a \<notin> {lower b..upper b})
        \<and> (st = OVERLAP_END \<longrightarrow> lower a \<notin> {lower b..upper b} \<and> upper a \<in> {lower b..upper b}))"
  by (auto simp: get_overlap_def not_less disjoint_iff)

theorem get_overlap_correct_witness:
  "get_overlap \<lparr>lower = ''A'', upper = ''C''\<rparr> \<lparr>lower = ''B'', upper = ''Z''\<rparr> = Inr OVERLAP_END
   \<and> ''A'' \<notin> {''B''..''Z''}"
proof -
  have "get_overlap \<lparr>lower = ''A'', upper = ''C''\<rparr> \<lparr>lower = ''B'', upper = ''Z''\<rparr> = Inr OVERLAP_END"
    by (simp add: get_overlap_def less_char_def)
  with get_overlap_correct [of "\<lparr>lower = ''A'', upper = ''C''\<rparr>" "\<lparr>lower = ''B'', upper = ''Z''\<rparr>"]
  show ?thesis by (auto simp: less_char_def)
qed

text \<open>With 37 shards the key \<open>1\<close> lies outside each of them.\<close>

lemma short_key_outside:
  fixes i :: nat
  assumes i: "i < 37"
  shows "contains (bucket_shard 2 (starts 0 (shard_sizes (36 ^ 2) 37) ! i) (shard_sizes (36 ^ 2) 37 ! i)) ''1'' = Inr False"
proof -
  let ?szs = "shard_sizes (36 ^ 2) 37"
  have szs: "i < 37 \<Longrightarrow> ?szs ! i = (if i = 0 then 36 else 35)" for i
    by (simp add: shard_sizes_def)
  show ?thesis
  proof (cases i)
    case 0
    have "upper (bucket_shard 2 0 36) = ''0Z''"
      by (simp add: bucket_shard_def bucket_name_def VALID_CHARS_def numeral_2_eq_2)
    then show ?thesis using 0 szs [of 0]
      by (simp add: starts_nth contains_def granularity_def bucket_shard_def less_char_def)
  next
    case (Suc j)
    let ?lo = "starts 0 ?szs ! i"
    have "36 = ?szs ! 0" using szs [of 0] by simp
    also have "\<dots> \<le> ?lo"
    proof -
      have "?szs \<noteq> []" by (simp add: shard_sizes_def)
      then obtain z zs where zs: "?szs = z # zs" by (cases ?szs) auto
      then have "length zs = 36" using length_shard_sizes [of "36 ^ 2" 37] by simp
      then show ?thesis using zs i Suc starts_ge [of j zs z] by simp
    qed
    finally have "36 \<le> ?lo" .
    moreover have "?lo < 36 ^ 2"
      using starts_bound [of i ?szs 0] i szs [of i] by (simp add: sum_list_shard_sizes split: if_splits)
    ultimately have "bucket_name 2 36 \<le> bucket_name 2 ?lo" by (simp add: bucket_name_le_iff)
    moreover have "bucket_name 2 36 = ''10''"
      by (simp add: bucket_name_def VALID_CHARS_def numeral_2_eq_2)
    moreover have "''1'' < ''10''" by simp
    ultimately have "''1'' < bucket_name 2 ?lo" by (metis less_le_trans)
    then have "\<not> bucket_name 2 ?lo \<le> ''1''" by (simp only: not_le)
    then show ?thesis by (simp add: contains_def granularity_def bucket_shard_def)
  qed
qed

text \<open>
  A key shorter than the granularity can belong to no shard. With 37 shards
  the granularity is 2 and the first boundary is between buckets \<open>0Z\<close> and
  \<open>10\<close>; the key \<open>1\<close> compares above the first and below the second.
\<close>

theorem short_key_uncovered:
  "\<exists>shards. split_into 37 = Inr shards \<and> length shards = 37
     \<and> list_all (\<lambda>s. contains s ''1'' = Inr False) shards"
proof -
  have "0 < (37::nat)" and "(37::nat) \<le> 36 ^ 4" by simp_all
  then obtain g where g: "1 \<le> g" "g \<le> 4" "37 \<le> (36::nat) ^ g" "\<And>h. 1 \<le> h \<Longrightarrow> h < g \<Longrightarrow> (36::nat) ^ h < 37"
    and eq: "split_into 37 = Inr (map2 (bucket_shard g) (starts 0 (shard_sizes (36 ^ g) 37)) (shard_sizes (36 ^ g) 37))"
    by (rule split_into_eq) (rule that)
  have "g \<noteq> 1" using g(3) by auto
  moreover have "g \<le> 2" using g(4) [of 2] by (cases "2 < g") auto
  ultimately have g2: "g = 2" using g(1) by linarith
  show ?thesis using eq short_key_outside unfolding g2 by (auto simp: list_all_iff in_set_conv_nth)
qed

end
