(* ===== verification/Config.thy ===== *)
theory Config
  imports Shard
begin

text \<open>
  The shardmaster configuration of \<open>kvstore/common/config.hpp\<close> and
  \<open>config.cpp\<close>: servers with their shards, the search for the server of a key, and
  the printed form.
\<close>

section \<open>Definitions\<close>

record server_config =
  server :: string
  shards :: "shard list"

record shardmaster_config =
  servers :: "server_config list"

text \<open>\<open>operator<<\<close> of a shard.\<close>

definition show_shard :: "shard \<Rightarrow> string" where
  "show_shard s = ''['' @ lower s @ '', '' @ upper s @ '']''"

fun print_shards :: "shard list \<Rightarrow> shard \<Rightarrow> string" where
  "print_shards [] back = []"
| "print_shards (s # ss) back = show_shard s @ (if s \<noteq> back then '', '' else []) @ print_shards ss back"

definition newline :: char where
  "newline = char_of (10::nat)"

fun print_servers :: "server_config list \<Rightarrow> string" where
  "print_servers [] = []"
| "print_servers (sc # scs) =
     ''- '' @ server sc @ '': '' @ print_shards (shards sc) (last (shards sc)) @ [newline] @ print_servers scs"

definition config_print :: "shardmaster_config \<Rightarrow> string" where
  "config_print c = ''Shardmaster configuration: '' @ [newline] @ print_servers (servers c)"

text \<open>The lambda of \<open>get_server\<close>: a loop over the shards of one server.\<close>

fun any_contains :: "shard list \<Rightarrow> string \<Rightarrow> bool cpp" where
  "any_contains [] key = Inr False"
| "any_contains (s # ss) key =
     bindE (contains s key) (\<lambda>b. if b then Inr True else any_contains ss key)"

fun find_server :: "server_config list \<Rightarrow> string \<Rightarrow> string option cpp" where
  "find_server [] key = Inr None"
| "find_server (sc # scs) key =
     bindE (any_contains (shards sc) key) (\<lambda>b. if b then Inr (Some (server sc)) else find_server scs key)"

definition get_server :: "shardmaster_config \<Rightarrow> string \<Rightarrow> string option cpp" where
  "get_server c key = find_server (servers c) (to_upper key)"

section \<open>Searching\<close>

definition wf_ranges :: "shard list \<Rightarrow> bool" where
  "wf_ranges ss \<longleftrightarrow> (\<forall>s \<in> set ss. length (lower s) = length (upper s))"

definition holds :: "shard \<Rightarrow> string \<Rightarrow> bool" where
  "holds s key \<longleftrightarrow> contains s key = Inr True"

lemma contains_holds: "length (lower s) = length (upper s) \<Longrightarrow> contains s key = Inr (holds s key)"
  by (auto simp: contains_def granularity_def holds_def)

lemma any_contains_eq: "wf_ranges ss \<Longrightarrow> any_contains ss key = Inr (\<exists>s \<in> set ss. holds s key)"
  by (induction ss) (auto simp: wf_ranges_def contains_holds)

definition wf_config :: "shardmaster_config \<Rightarrow> bool" where
  "wf_config c \<longleftrightarrow> (\<forall>sc \<in> set (servers c). wf_ranges (shards sc))"

lemma find_server_eq:
  "\<forall>sc \<in> set scs. wf_ranges (shards sc) \<Longrightarrow>
   find_server scs key = Inr (map_option server (find (\<lambda>sc. \<exists>s \<in> set (shards sc). holds s key) scs))"
  by (induction scs) (auto simp: any_contains_eq)

lemma get_server_eq:
  "wf_config c \<Longrightarrow>
   get_server c key =
     Inr (map_option server (find (\<lambda>sc. \<exists>s \<in> set (shards sc). holds s (to_upper key)) (servers c)))"
  by (simp add: get_server_def wf_config_def find_server_eq)

text \<open>The configuration that gives the \<open>i\<close>-th of \<open>n\<close> equal shards to the \<open>i\<close>-th server.\<close>

definition even_config :: "string list \<Rightarrow> shard list \<Rightarrow> shardmaster_config" where
  "even_config names shs = \<lparr>servers = map2 (\<lambda>n s. \<lparr>server = n, shards = [s]\<rparr>) names shs\<rparr>"

lemma find_unique:
  assumes "i < length xs" and "P (xs ! i)" and "\<And>j. j < length xs \<Longrightarrow> P (xs ! j) \<Longrightarrow> j = i"
  shows "find P xs = Some (xs ! i)"
proof -
  have "\<not> P (xs ! j)" if "j < i" for j
    using assms(1) assms(3) [of j] that by auto
  with assms(1,2) show ?thesis unfolding find_Some_iff by blast
qed

lemma length_even_config [simp]:
  "length (servers (even_config names shs)) = min (length names) (length shs)"
  by (simp add: even_config_def)

lemma even_config_nth:
  "j < length names \<Longrightarrow> j < length shs \<Longrightarrow>
   servers (even_config names shs) ! j = \<lparr>server = names ! j, shards = [shs ! j]\<rparr>"
  by (simp add: even_config_def)

lemma wf_even_config:
  assumes "wf_ranges shs"
  shows "wf_config (even_config names shs)"
  unfolding wf_config_def
proof
  fix sc
  assume "sc \<in> set (servers (even_config names shs))"
  then obtain n s where sc: "sc = \<lparr>server = n, shards = [s]\<rparr>" and "(n, s) \<in> set (zip names shs)"
    by (auto simp: even_config_def)
  then have "s \<in> set shs" by (auto dest: set_zip_rightD)
  with assms sc show "wf_ranges (shards sc)" by (simp add: wf_ranges_def)
qed

lemma get_server_unique:
  assumes len: "length names = length shs" and wf: "wf_ranges shs"
    and i: "i < length shs" "holds (shs ! i) (to_upper key)"
    and uniq: "\<And>j. j < length shs \<Longrightarrow> holds (shs ! j) (to_upper key) \<Longrightarrow> j = i"
  shows "get_server (even_config names shs) key = Inr (Some (names ! i))"
proof -
  let ?scs = "servers (even_config names shs)"
  let ?P = "\<lambda>sc. \<exists>s \<in> set (shards sc). holds s (to_upper key)"
  have nth: "?scs ! j = \<lparr>server = names ! j, shards = [shs ! j]\<rparr>" if "j < length shs" for j
    using that len by (simp add: even_config_nth)
  have "find ?P ?scs = Some (?scs ! i)"
  proof (rule find_unique)
    show "i < length ?scs" using i(1) len by simp
    show "?P (?scs ! i)" using i by (simp add: nth)
    fix j
    assume "j < length ?scs" "?P (?scs ! j)"
    then have "j < length shs" "holds (shs ! j) (to_upper key)" using len by (simp_all add: nth)
    then show "j = i" by (rule uniq)
  qed
  then show ?thesis using wf_even_config [OF wf] by (simp add: get_server_eq nth [OF i(1)])
qed

lemma wf_ranges_bucket_shards: "wf_ranges (map2 (bucket_shard g) as ns)"
  by (auto simp: wf_ranges_def bucket_shard_def)

lemma split_into_routing:
  assumes "0 < n" and "n \<le> 36 ^ 4"
  obtains g shs where "split_into n = Inr shs" and "n \<le> 36 ^ g" and "length shs = n" and "wf_ranges shs"
    and "\<And>key. bucket_key g (take g key) \<Longrightarrow> \<exists>!i. i < n \<and> holds (shs ! i) key"
proof (rule split_into_eq [OF assms])
  fix g
  let ?sz = "shard_sizes (36 ^ g) n"
  let ?shs = "map2 (bucket_shard g) (starts 0 ?sz) ?sz"
  assume le: "n \<le> 36 ^ g" and eq: "split_into n = Inr ?shs"
  have "length ?shs = n" by simp
  moreover have "\<exists>!i. i < n \<and> holds (?shs ! i) key" if "bucket_key g (take g key)" for key
    unfolding holds_def by (rule split_into_unique [OF assms(1) le that])
  ultimately show thesis by (rule that [OF eq le _ wf_ranges_bucket_shards])
qed



end
