(* ===== verification/Messages.thy ===== *)
theory Messages
  imports Zpp Config
begin

text \<open>
  The messages between clients, servers and the shardmaster
  (\<open>kvstore/net/server_commands.hpp\<close>, \<open>shardmaster_commands.hpp\<close>,
  \<open>network_messages.hpp\<close>) and their serialization
  (\<open>network_messages.cpp\<close>). A \<open>std::variant\<close> is a datatype with one
  constructor per alternative; the type field of a received message is an arbitrary
  32-bit number.
\<close>

section \<open>Definitions\<close>

datatype Request =
    JoinRequest string
  | LeaveRequest string
  | MoveRequest string "shard list"
  | QueryRequest
  | GetRequest string
  | PutRequest string string
  | AppendRequest string string
  | DeleteRequest string
  | MultiGetRequest "string list"
  | MultiPutRequest "string list" "string list"

datatype Response =
    JoinResponse
  | LeaveResponse
  | MoveResponse
  | QueryResponse shardmaster_config
  | GetResponse string
  | PutResponse
  | AppendResponse
  | DeleteResponse string
  | MultiGetResponse "string list"
  | MultiPutResponse
  | ErrorResponse string

datatype MessageType =
    GET | PUT | APPEND | DELETE | MULTI_GET | MULTI_PUT | JOIN | LEAVE | MOVE | QUERY | ERROR

definition message_types :: "MessageType list" where
  "message_types = [GET, PUT, APPEND, DELETE, MULTI_GET, MULTI_PUT, JOIN, LEAVE, MOVE, QUERY, ERROR]"

text \<open>The value of an enumerator, and the enumerator of a received value.\<close>

fun type_code :: "MessageType \<Rightarrow> 32 word" where
  "type_code GET = 0"
| "type_code PUT = 1"
| "type_code APPEND = 2"
| "type_code DELETE = 3"
| "type_code MULTI_GET = 4"
| "type_code MULTI_PUT = 5"
| "type_code JOIN = 6"
| "type_code LEAVE = 7"
| "type_code MOVE = 8"
| "type_code QUERY = 9"
| "type_code ERROR = 10"

definition type_of_code :: "32 word \<Rightarrow> MessageType option" where
  "type_of_code w = find (\<lambda>t. type_code t = w) message_types"

record message =
  msg_type :: "32 word"
  msg_sz :: "64 word"
  msg_buf :: "byte list"

text \<open>The structures of the messages, member by member.\<close>

definition out_shard :: "shard \<Rightarrow> writer" where
  "out_shard s = out_pair out_string out_string (lower s, upper s)"

definition in_shard :: "shard reader" where
  "in_shard data pos =
     bindE (in_pair in_string in_string data pos) (\<lambda>((l, u), pos). Inr (\<lparr>lower = l, upper = u\<rparr>, pos))"

definition out_server_config :: "server_config \<Rightarrow> writer" where
  "out_server_config sc = out_pair out_string (out_vector out_shard) (server sc, shards sc)"

definition in_server_config :: "server_config reader" where
  "in_server_config data pos =
     bindE (in_pair in_string (in_vector in_shard) data pos)
       (\<lambda>((n, ss), pos). Inr (\<lparr>server = n, shards = ss\<rparr>, pos))"

definition out_config :: "shardmaster_config \<Rightarrow> writer" where
  "out_config c = out_vector out_server_config (servers c)"

definition in_config :: "shardmaster_config reader" where
  "in_config data pos =
     bindE (in_vector in_server_config data pos) (\<lambda>(scs, pos). Inr (\<lparr>servers = scs\<rparr>, pos))"

fun request_type :: "Request \<Rightarrow> MessageType" where
  "request_type (JoinRequest _) = JOIN"
| "request_type (LeaveRequest _) = LEAVE"
| "request_type (MoveRequest _ _) = MOVE"
| "request_type QueryRequest = QUERY"
| "request_type (GetRequest _) = GET"
| "request_type (PutRequest _ _) = PUT"
| "request_type (AppendRequest _ _) = APPEND"
| "request_type (DeleteRequest _) = DELETE"
| "request_type (MultiGetRequest _) = MULTI_GET"
| "request_type (MultiPutRequest _ _) = MULTI_PUT"

fun out_request :: "Request \<Rightarrow> writer" where
  "out_request (JoinRequest sv) = out_string sv"
| "out_request (LeaveRequest sv) = out_string sv"
| "out_request (MoveRequest sv ss) = out_pair out_string (out_vector out_shard) (sv, ss)"
| "out_request QueryRequest = out_nothing ()"
| "out_request (GetRequest k) = out_string k"
| "out_request (PutRequest k v) = out_pair out_string out_string (k, v)"
| "out_request (AppendRequest k v) = out_pair out_string out_string (k, v)"
| "out_request (DeleteRequest k) = out_string k"
| "out_request (MultiGetRequest ks) = out_vector out_string ks"
| "out_request (MultiPutRequest ks vs) = out_pair (out_vector out_string) (out_vector out_string) (ks, vs)"

definition make_message :: "MessageType \<Rightarrow> errc + byte list \<Rightarrow> message option" where
  "make_message t res =
     (case res of Inl _ \<Rightarrow> None
      | Inr bs \<Rightarrow> Some \<lparr>msg_type = type_code t, msg_sz = word_of_nat (length bs), msg_buf = bs\<rparr>)"

definition serialize_request :: "Request \<Rightarrow> message option" where
  "serialize_request request = make_message (request_type request) (zpp_output (out_request request))"

definition invalid_type_error :: string where
  "invalid_type_error = ''Invalid message type! Please post privately on Edstem if this occurs.''"

text \<open>One \<open>case\<close> of a deserialization switch: read the structure, \<open>nullopt\<close> on failure.\<close>

definition in_case :: "('a \<Rightarrow> 'b) \<Rightarrow> 'a reader \<Rightarrow> message \<Rightarrow> 'b option cpp" where
  "in_case f r m = Inr (case zpp_input r (msg_buf m) of Inl _ \<Rightarrow> None | Inr x \<Rightarrow> Some (f x))"

definition deserialize_request :: "message \<Rightarrow> Request option cpp" where
  "deserialize_request m =
     (case type_of_code (msg_type m) of
        Some JOIN \<Rightarrow> in_case JoinRequest in_string m
      | Some LEAVE \<Rightarrow> in_case LeaveRequest in_string m
      | Some MOVE \<Rightarrow> in_case (\<lambda>(sv, ss). MoveRequest sv ss) (in_pair in_string (in_vector in_shard)) m
      | Some QUERY \<Rightarrow> in_case (\<lambda>_. QueryRequest) in_nothing m
      | Some GET \<Rightarrow> in_case GetRequest in_string m
      | Some PUT \<Rightarrow> in_case (\<lambda>(k, v). PutRequest k v) (in_pair in_string in_string) m
      | Some APPEND \<Rightarrow> in_case (\<lambda>(k, v). AppendRequest k v) (in_pair in_string in_string) m
      | Some DELETE \<Rightarrow> in_case DeleteRequest in_string m
      | Some MULTI_GET \<Rightarrow> in_case MultiGetRequest (in_vector in_string) m
      | Some MULTI_PUT \<Rightarrow>
          in_case (\<lambda>(ks, vs). MultiPutRequest ks vs) (in_pair (in_vector in_string) (in_vector in_string)) m
      | _ \<Rightarrow> Inl (Throw invalid_type_error))"

fun response_type :: "Response \<Rightarrow> MessageType" where
  "response_type JoinResponse = JOIN"
| "response_type LeaveResponse = LEAVE"
| "response_type MoveResponse = MOVE"
| "response_type (QueryResponse _) = QUERY"
| "response_type (GetResponse _) = GET"
| "response_type PutResponse = PUT"
| "response_type AppendResponse = APPEND"
| "response_type (DeleteResponse _) = DELETE"
| "response_type (MultiGetResponse _) = MULTI_GET"
| "response_type MultiPutResponse = MULTI_PUT"
| "response_type (ErrorResponse _) = ERROR"

fun out_response :: "Response \<Rightarrow> writer" where
  "out_response (QueryResponse c) = out_config c"
| "out_response (GetResponse v) = out_string v"
| "out_response (DeleteResponse v) = out_string v"
| "out_response (MultiGetResponse vs) = out_vector out_string vs"
| "out_response (ErrorResponse e) = out_string e"
| "out_response _ = out_nothing ()"

definition serialize_response :: "Response \<Rightarrow> message option" where
  "serialize_response response = make_message (response_type response) (zpp_output (out_response response))"

definition deserialize_response :: "message \<Rightarrow> Response option cpp" where
  "deserialize_response m =
     (case type_of_code (msg_type m) of
        Some JOIN \<Rightarrow> in_case (\<lambda>_. JoinResponse) in_nothing m
      | Some LEAVE \<Rightarrow> in_case (\<lambda>_. LeaveResponse) in_nothing m
      | Some MOVE \<Rightarrow> in_case (\<lambda>_. MoveResponse) in_nothing m
      | Some QUERY \<Rightarrow> in_case QueryResponse in_config m
      | Some GET \<Rightarrow> in_case GetResponse in_string m
      | Some PUT \<Rightarrow> in_case (\<lambda>_. PutResponse) in_nothing m
      | Some APPEND \<Rightarrow> in_case (\<lambda>_. AppendResponse) in_nothing m
      | Some DELETE \<Rightarrow> in_case DeleteResponse in_string m
      | Some MULTI_GET \<Rightarrow> in_case MultiGetResponse (in_vector in_string) m
      | Some MULTI_PUT \<Rightarrow> in_case (\<lambda>_. MultiPutResponse) in_nothing m
      | Some ERROR \<Rightarrow> in_case ErrorResponse in_string m
      | None \<Rightarrow> Inl (Throw invalid_type_error))"

section \<open>Codecs of the structures\<close>

definition shard_bytes :: "shard \<Rightarrow> byte list" where
  "shard_bytes s = string_bytes (lower s) @ string_bytes (upper s)"

definition valid_shard :: "shard \<Rightarrow> bool" where
  "valid_shard s \<longleftrightarrow> valid_string (lower s) \<and> valid_string (upper s)"

interpretation shrd: codec out_shard in_shard shard_bytes valid_shard
proof -
  have iso: "(\<lambda>(l, u). \<lparr>lower = l, upper = u\<rparr>) (lower s, upper s) = s" for s :: shard by simp
  have "codec out_shard (\<lambda>data pos. bindE (in_pair in_string in_string data pos)
      (\<lambda>(x, pos). Inr ((\<lambda>(l, u). \<lparr>lower = l, upper = u\<rparr>) x, pos))) shard_bytes valid_shard"
    using codec.image_codec [OF str2.pair_codec, of "\<lambda>(l, u). \<lparr>lower = l, upper = u\<rparr>" "\<lambda>s. (lower s, upper s)"]
    by (simp add: out_shard_def [abs_def] shard_bytes_def [abs_def] valid_shard_def [abs_def])
  then show "codec out_shard in_shard shard_bytes valid_shard"
    by (simp add: in_shard_def [abs_def] case_prod_unfold)
qed

definition shards_bytes :: "shard list \<Rightarrow> byte list" where
  "shards_bytes ss = le32 (word_of_nat (length ss)) @ concat (map shard_bytes ss)"

definition valid_shards :: "shard list \<Rightarrow> bool" where
  "valid_shards ss \<longleftrightarrow> length ss < 2 ^ 32 \<and> (\<forall>s \<in> set ss. valid_shard s)"

interpretation shrds: codec "out_vector out_shard" "in_vector in_shard" shards_bytes valid_shards
  unfolding shards_bytes_def [abs_def] valid_shards_def [abs_def] by (rule shrd.vector_codec)

interpretation named_shards: codec_pair out_string in_string string_bytes valid_string
  "out_vector out_shard" "in_vector in_shard" shards_bytes valid_shards ..

definition server_config_bytes :: "server_config \<Rightarrow> byte list" where
  "server_config_bytes sc = string_bytes (server sc) @ shards_bytes (shards sc)"

definition valid_server_config :: "server_config \<Rightarrow> bool" where
  "valid_server_config sc \<longleftrightarrow> valid_string (server sc) \<and> valid_shards (shards sc)"

interpretation srv: codec out_server_config in_server_config server_config_bytes valid_server_config
proof -
  have "codec out_server_config (\<lambda>data pos. bindE (in_pair in_string (in_vector in_shard) data pos)
      (\<lambda>(x, pos). Inr ((\<lambda>(n, ss). \<lparr>server = n, shards = ss\<rparr>) x, pos))) server_config_bytes valid_server_config"
    using codec.image_codec [OF named_shards.pair_codec, of "\<lambda>(n, ss). \<lparr>server = n, shards = ss\<rparr>" "\<lambda>sc. (server sc, shards sc)"]
    by (simp add: out_server_config_def [abs_def] server_config_bytes_def [abs_def] valid_server_config_def [abs_def])
  then show "codec out_server_config in_server_config server_config_bytes valid_server_config"
    by (simp add: in_server_config_def [abs_def] case_prod_unfold)
qed

definition config_bytes :: "shardmaster_config \<Rightarrow> byte list" where
  "config_bytes c = le32 (word_of_nat (length (servers c))) @ concat (map server_config_bytes (servers c))"

definition valid_config :: "shardmaster_config \<Rightarrow> bool" where
  "valid_config c \<longleftrightarrow> length (servers c) < 2 ^ 32 \<and> (\<forall>sc \<in> set (servers c). valid_server_config sc)"

interpretation cfg: codec out_config in_config config_bytes valid_config
  using codec.image_codec [OF srv.vector_codec, of "\<lambda>scs. \<lparr>servers = scs\<rparr>" servers]
  by (simp add: out_config_def [abs_def] in_config_def [abs_def] config_bytes_def [abs_def] valid_config_def [abs_def])

section \<open>Round trips\<close>

fun valid_request :: "Request \<Rightarrow> bool" where
  "valid_request (JoinRequest sv) = valid_string sv"
| "valid_request (LeaveRequest sv) = valid_string sv"
| "valid_request (MoveRequest sv ss) = (valid_string sv \<and> valid_shards ss)"
| "valid_request QueryRequest = True"
| "valid_request (GetRequest k) = valid_string k"
| "valid_request (PutRequest k v) = (valid_string k \<and> valid_string v)"
| "valid_request (AppendRequest k v) = (valid_string k \<and> valid_string v)"
| "valid_request (DeleteRequest k) = valid_string k"
| "valid_request (MultiGetRequest ks) = valid_strings ks"
| "valid_request (MultiPutRequest ks vs) = (valid_strings ks \<and> valid_strings vs)"

fun request_bytes :: "Request \<Rightarrow> byte list" where
  "request_bytes (JoinRequest sv) = string_bytes sv"
| "request_bytes (LeaveRequest sv) = string_bytes sv"
| "request_bytes (MoveRequest sv ss) = string_bytes sv @ shards_bytes ss"
| "request_bytes QueryRequest = []"
| "request_bytes (GetRequest k) = string_bytes k"
| "request_bytes (PutRequest k v) = string_bytes k @ string_bytes v"
| "request_bytes (AppendRequest k v) = string_bytes k @ string_bytes v"
| "request_bytes (DeleteRequest k) = string_bytes k"
| "request_bytes (MultiGetRequest ks) = strings_bytes ks"
| "request_bytes (MultiPutRequest ks vs) = strings_bytes ks @ strings_bytes vs"

fun valid_response :: "Response \<Rightarrow> bool" where
  "valid_response (QueryResponse c) = valid_config c"
| "valid_response (GetResponse v) = valid_string v"
| "valid_response (DeleteResponse v) = valid_string v"
| "valid_response (MultiGetResponse vs) = valid_strings vs"
| "valid_response (ErrorResponse e) = valid_string e"
| "valid_response _ = True"

fun response_bytes :: "Response \<Rightarrow> byte list" where
  "response_bytes (QueryResponse c) = config_bytes c"
| "response_bytes (GetResponse v) = string_bytes v"
| "response_bytes (DeleteResponse v) = string_bytes v"
| "response_bytes (MultiGetResponse vs) = strings_bytes vs"
| "response_bytes (ErrorResponse e) = string_bytes e"
| "response_bytes _ = []"

lemma type_of_code_code [simp]: "type_of_code (type_code t) = Some t"
  by (cases t) (simp_all add: type_of_code_def message_types_def)

lemma type_of_code_values [simp]:
  "type_of_code 0 = Some GET" "type_of_code 1 = Some PUT" "type_of_code 2 = Some APPEND"
  "type_of_code 3 = Some DELETE" "type_of_code 4 = Some MULTI_GET" "type_of_code 5 = Some MULTI_PUT"
  "type_of_code 6 = Some JOIN" "type_of_code 7 = Some LEAVE" "type_of_code 8 = Some MOVE"
  "type_of_code 9 = Some QUERY" "type_of_code 10 = Some ERROR"
  by (simp_all add: type_of_code_def message_types_def)

lemma type_of_code_None: "type_of_code w = None \<longleftrightarrow> 10 < w"
proof -
  have "type_of_code w = None \<longleftrightarrow> w \<notin> set [0, 1, 2, 3, 4, 5, 6, 7, 8, 9, 10]"
    by (simp add: type_of_code_def message_types_def eq_commute [of _ w])
  also have "\<dots> \<longleftrightarrow> 10 < w"
  proof
    assume out: "w \<notin> set [0, 1, 2, 3, 4, 5, 6, 7, 8, 9, 10]"
    show "10 < w"
    proof (rule ccontr)
      assume "\<not> 10 < w"
      then have "unat w \<le> 10" by (simp add: word_less_nat_alt)
      then obtain n where w: "w = word_of_nat n" and n: "n \<le> 10" by (intro that [of "unat w"]) simp_all
      from n have "n \<in> set [0, 1, 2, 3, 4, 5, 6, 7, 8, 9, 10]" by simp presburger
      with w out show False by auto
    qed
  qed auto
  finally show ?thesis .
qed

lemma type_of_code_ERROR: "type_of_code w = Some ERROR \<longleftrightarrow> w = 10"
  by (auto simp: type_of_code_def message_types_def split: if_splits)

lemma emits_request: "valid_request r \<Longrightarrow> emits (out_request r) (request_bytes r)"
  using str2.pair_codec [THEN codec.enc_emits] strs2.pair_codec [THEN codec.enc_emits]
    named_shards.pair_codec [THEN codec.enc_emits] nothing.enc_emits
  by (cases r) (auto intro: str.enc_emits strs.enc_emits)

lemma emits_response: "valid_response r \<Longrightarrow> emits (out_response r) (response_bytes r)"
  using nothing.enc_emits by (cases r) (auto intro: str.enc_emits strs.enc_emits cfg.enc_emits)

lemma serialize_request_eq:
  "valid_request r \<Longrightarrow> 6 * length (request_bytes r) < 2 ^ 64 \<Longrightarrow>
   serialize_request r = Some \<lparr>msg_type = type_code (request_type r),
     msg_sz = word_of_nat (length (request_bytes r)), msg_buf = request_bytes r\<rparr>"
  by (simp add: serialize_request_def make_message_def zpp_output_emits [OF emits_request])

lemma serialize_response_eq:
  "valid_response r \<Longrightarrow> 6 * length (response_bytes r) < 2 ^ 64 \<Longrightarrow>
   serialize_response r = Some \<lparr>msg_type = type_code (response_type r),
     msg_sz = word_of_nat (length (response_bytes r)), msg_buf = response_bytes r\<rparr>"
  by (simp add: serialize_response_def make_message_def zpp_output_emits [OF emits_response])

lemma deserialize_request_eq:
  "valid_request r \<Longrightarrow> msg_type m = type_code (request_type r) \<Longrightarrow> msg_buf m = request_bytes r \<Longrightarrow>
   deserialize_request m = Inr (Some r)"
  using codec.input_value [OF str2.pair_codec] codec.input_value [OF strs2.pair_codec]
    codec.input_value [OF named_shards.pair_codec] nothing.input_value
  by (cases r) (auto simp: deserialize_request_def in_case_def str.input_value strs.input_value)

lemma deserialize_response_eq:
  "valid_response r \<Longrightarrow> msg_type m = type_code (response_type r) \<Longrightarrow> msg_buf m = response_bytes r \<Longrightarrow>
   deserialize_response m = Inr (Some r)"
  using nothing.input_value
  by (cases r) (auto simp: deserialize_response_def in_case_def str.input_value strs.input_value cfg.input_value)

text \<open>
  C28: a request whose strings and vectors have fewer than \<open>2^32\<close> elements, and
  whose encoding is small enough for the archive to grow, is serialized to a message whose
  size field is the length of its buffer, and that message deserializes to the request.
\<close>

theorem request_roundtrip:
  assumes "valid_request r" and "6 * length (request_bytes r) < 2 ^ 64"
  shows "\<exists>m. serialize_request r = Some m \<and> unat (msg_sz m) = length (msg_buf m)
    \<and> deserialize_request m = Inr (Some r)"
proof -
  have "length (request_bytes r) < 2 ^ 64" using assms(2) by simp
  then have "unat (word_of_nat (length (request_bytes r)) :: 64 word) = length (request_bytes r)"
    by (simp add: unat_of_nat)
  with assms show ?thesis by (simp add: serialize_request_eq deserialize_request_eq)
qed

theorem request_roundtrip_witness:
  "\<exists>m. serialize_request (MultiPutRequest [''a'', ''bc''] [''1'', '''']) = Some m
    \<and> unat (msg_sz m) = length (msg_buf m)
    \<and> deserialize_request m = Inr (Some (MultiPutRequest [''a'', ''bc''] [''1'', '''']))"
  by (rule request_roundtrip)
    (simp_all add: valid_strings_def strings_bytes_def string_bytes_def)

text \<open>
  The same for the responses, error responses and whole shardmaster
  configurations included.
\<close>

theorem response_roundtrip:
  assumes "valid_response r" and "6 * length (response_bytes r) < 2 ^ 64"
  shows "\<exists>m. serialize_response r = Some m \<and> unat (msg_sz m) = length (msg_buf m)
    \<and> deserialize_response m = Inr (Some r)"
proof -
  have "length (response_bytes r) < 2 ^ 64" using assms(2) by simp
  then have "unat (word_of_nat (length (response_bytes r)) :: 64 word) = length (response_bytes r)"
    by (simp add: unat_of_nat)
  with assms show ?thesis by (simp add: serialize_response_eq deserialize_response_eq)
qed

theorem response_roundtrip_witness:
  "\<exists>m. serialize_response (QueryResponse \<lparr>servers = [\<lparr>server = ''h:1'', shards = [\<lparr>lower = ''A'', upper = ''Z''\<rparr>]\<rparr>]\<rparr>) = Some m
    \<and> unat (msg_sz m) = length (msg_buf m)
    \<and> deserialize_response m
        = Inr (Some (QueryResponse \<lparr>servers = [\<lparr>server = ''h:1'', shards = [\<lparr>lower = ''A'', upper = ''Z''\<rparr>]\<rparr>]\<rparr>))"
  by (rule response_roundtrip)
    (simp_all add: valid_config_def valid_server_config_def valid_shards_def valid_shard_def
      config_bytes_def server_config_bytes_def shards_bytes_def shard_bytes_def string_bytes_def)

text \<open>
  \<open>deserialize_request\<close> throws exactly on the type codes that are not
  requests, the error type of a response among them; any other malformed message gives
  \<open>nullopt\<close>. The comment of \<open>recv_request\<close> promises an empty optional
  for every error.
\<close>

theorem deserialize_request_throws:
  "(\<exists>e. deserialize_request m = Inl e) \<longleftrightarrow> 10 \<le> msg_type m"
proof -
  have "(\<exists>e. deserialize_request m = Inl e) \<longleftrightarrow> type_of_code (msg_type m) \<in> {None, Some ERROR}"
    by (simp add: deserialize_request_def in_case_def split: option.split MessageType.split)
  also have "\<dots> \<longleftrightarrow> 10 < msg_type m \<or> msg_type m = 10"
    by (simp add: type_of_code_None type_of_code_ERROR)
  also have "\<dots> \<longleftrightarrow> 10 \<le> msg_type m" by (auto simp: le_less)
  finally show ?thesis .
qed

end
