(* ===== verification/Network.thy ===== *)
theory Network
  imports Messages
begin

text \<open>
  Sockets, framing and connections: \<open>kvstore/net/network_helpers.cpp\<close>,
  \<open>send_message\<close> and \<open>recv_message\<close> of \<open>network_messages.cpp\<close>, and
  \<open>network_conn.cpp\<close>.

  The kernel is a script of events, one per round of a transfer loop: the clock has passed
  the timeout, the call fails, or the call moves up to a number of bytes. \<open>send\<close> and
  \<open>recv\<close> may move fewer bytes than asked for, as documented; a script that runs out
  means that the call never returns. \<open>errno\<close> only selects what is logged and is left
  out.
\<close>

section \<open>Definitions\<close>

datatype net_event = Expired | Failed | Ready nat

record socket =
  tx :: "byte list"
  rx :: "byte list"
  events :: "net_event list"

definition ETIMEOUT :: int where
  "ETIMEOUT = -2"

text \<open>Conversion to a 32-bit \<open>int\<close>.\<close>

definition to_int :: "nat \<Rightarrow> int" where
  "to_int n = sint (word_of_nat n :: 32 word)"

fun sendall_loop ::
    "bool \<Rightarrow> byte list \<Rightarrow> nat \<Rightarrow> byte list \<Rightarrow> net_event list \<Rightarrow> (int \<times> byte list \<times> net_event list) cpp" where
  "sendall_loop timed data n_sent out [] =
     (if n_sent < length data then Inl Blocks else Inr (to_int n_sent, out, []))"
| "sendall_loop timed data n_sent out (e # es) =
     (if n_sent < length data then
        (case e of
           Expired \<Rightarrow> if timed then Inr (ETIMEOUT, out, es) else sendall_loop timed data n_sent out es
         | Failed \<Rightarrow> Inr (-1, out, es)
         | Ready k \<Rightarrow>
             let moved = min k (length data - n_sent); curr = to_int moved in
             if curr \<le> 0 then Inr (curr, out @ take moved (drop n_sent data), es)
             else sendall_loop timed data (n_sent + nat curr) (out @ take moved (drop n_sent data)) es)
      else Inr (to_int n_sent, out, e # es))"

definition sendall :: "byte list \<Rightarrow> nat \<Rightarrow> socket \<Rightarrow> (int \<times> socket) cpp" where
  "sendall data timeout sk =
     bindE (sendall_loop (timeout > 0) data 0 (tx sk) (events sk))
       (\<lambda>(curr, out, es). Inr (curr, sk\<lparr>tx := out, events := es\<rparr>))"

text \<open>\<open>recv\<close> returns 0 when the peer has closed and nothing is left to read.\<close>

fun recvall_loop ::
    "bool \<Rightarrow> nat \<Rightarrow> byte list \<Rightarrow> byte list \<Rightarrow> net_event list \<Rightarrow> (int \<times> byte list \<times> byte list \<times> net_event list) cpp" where
  "recvall_loop timed len buf inp [] =
     (if length buf < len then Inl Blocks else Inr (to_int (length buf), buf, inp, []))"
| "recvall_loop timed len buf inp (e # es) =
     (if length buf < len then
        (case e of
           Expired \<Rightarrow> if timed then Inr (ETIMEOUT, buf, inp, es) else recvall_loop timed len buf inp es
         | Failed \<Rightarrow> Inr (-1, buf, inp, es)
         | Ready k \<Rightarrow>
             let moved = min k (min (len - length buf) (length inp)); curr = to_int moved in
             if curr \<le> 0 then Inr (curr, buf @ take moved inp, drop moved inp, es)
             else recvall_loop timed len (buf @ take moved inp) (drop moved inp) es)
      else Inr (to_int (length buf), buf, inp, e # es))"

definition recvall :: "nat \<Rightarrow> nat \<Rightarrow> socket \<Rightarrow> (int \<times> byte list \<times> socket) cpp" where
  "recvall len timeout sk =
     bindE (recvall_loop (timeout > 0) len [] (rx sk) (events sk))
       (\<lambda>(curr, buf, inp, es). Inr (curr, buf, sk\<lparr>rx := inp, events := es\<rparr>))"

definition bswap32 :: "32 word \<Rightarrow> 32 word" where
  "bswap32 w = of_le32 (rev (le32 w))"

definition le64 :: "64 word \<Rightarrow> byte list" where
  "le64 w = le32 (ucast w) @ le32 (ucast (drop_bit 32 w))"

definition of_le64 :: "byte list \<Rightarrow> 64 word" where
  "of_le64 bs = ucast (of_le32 (take 4 bs)) OR push_bit 32 (ucast (of_le32 (drop 4 bs)))"

text \<open>\<open>htonl\<close> and \<open>ntohl\<close> take a 32-bit value; the result is widened to \<open>size_t\<close> again.\<close>

definition htonl :: "64 word \<Rightarrow> 64 word" where
  "htonl w = ucast (bswap32 (ucast w))"

definition send_message :: "message \<Rightarrow> nat \<Rightarrow> socket \<Rightarrow> (bool \<times> socket) cpp" where
  "send_message msg timeout sk =
     bindE (assertE (timeout > 0)) (\<lambda>_.
     bindE (assertE (msg_sz msg = word_of_nat (length (msg_buf msg)))) (\<lambda>_.
     bindE (sendall (le32 (msg_type msg)) 0 sk) (\<lambda>(curr, sk).
       if curr < 0 then Inr (False, sk) else
     bindE (assertE (curr = 4)) (\<lambda>_.
     bindE (sendall (le64 (htonl (msg_sz msg))) 0 sk) (\<lambda>(curr, sk).
       if curr < 0 then Inr (False, sk) else
     bindE (assertE (curr = 8)) (\<lambda>_.
       if msg_sz msg > 0 then
         bindE (sendall (msg_buf msg) timeout sk) (\<lambda>(curr, sk).
           if curr < 0 then Inr (False, sk) else
         bindE (assertE (curr = int (unat (msg_sz msg)))) (\<lambda>_. Inr (True, sk)))
       else Inr (True, sk)))))))"

text \<open>The message is returned only with the result true: no caller reads it otherwise.\<close>

definition recv_message :: "nat \<Rightarrow> socket \<Rightarrow> (message option \<times> socket) cpp" where
  "recv_message timeout sk =
     bindE (assertE (timeout > 0)) (\<lambda>_.
     bindE (recvall 4 0 sk) (\<lambda>(curr, tb, sk).
       if curr = 0 then Inr (None, sk) else if curr < 0 then Inr (None, sk) else
     bindE (assertE (curr = 4)) (\<lambda>_.
     bindE (recvall 8 0 sk) (\<lambda>(curr, sb, sk).
       if curr = 0 then Inr (None, sk) else if curr < 0 then Inr (None, sk) else
       let sz = htonl (of_le64 sb) in
     bindE (assertE (curr = 8)) (\<lambda>_.
       if sz > 0 then
         bindE (recvall (unat sz) timeout sk) (\<lambda>(curr, buf, sk).
           if curr = 0 then Inr (None, sk) else if curr < 0 then Inr (None, sk) else
         bindE (assertE (curr = int (unat sz))) (\<lambda>_.
           Inr (Some \<lparr>msg_type = of_le32 tb, msg_sz = sz, msg_buf = buf\<rparr>, sk)))
       else Inr (Some \<lparr>msg_type = of_le32 tb, msg_sz = sz, msg_buf = []\<rparr>, sk))))))"

text \<open>The four calls of the connection classes, with the default timeout of 100 ms.\<close>

definition recv_with :: "(message \<Rightarrow> 'a option cpp) \<Rightarrow> socket \<Rightarrow> ('a option \<times> socket) cpp" where
  "recv_with deser sk =
     bindE (recv_message 100 sk) (\<lambda>(m, sk).
       case m of None \<Rightarrow> Inr (None, sk) | Some msg \<Rightarrow> bindE (deser msg) (\<lambda>r. Inr (r, sk)))"

definition send_with :: "message option \<Rightarrow> socket \<Rightarrow> (bool \<times> socket) cpp" where
  "send_with m sk = (case m of None \<Rightarrow> Inr (False, sk) | Some msg \<Rightarrow> send_message msg 100 sk)"

definition recv_request :: "socket \<Rightarrow> (Request option \<times> socket) cpp" where
  "recv_request sk = recv_with deserialize_request sk"

definition send_response :: "Response \<Rightarrow> socket \<Rightarrow> (bool \<times> socket) cpp" where
  "send_response response sk = send_with (serialize_response response) sk"

definition send_request :: "Request \<Rightarrow> socket \<Rightarrow> (bool \<times> socket) cpp" where
  "send_request req sk = send_with (serialize_request req) sk"

definition recv_response :: "socket \<Rightarrow> (Response option \<times> socket) cpp" where
  "recv_response sk = recv_with deserialize_response sk"

section \<open>Transfers\<close>

definition all_ready :: "net_event list \<Rightarrow> bool" where
  "all_ready es \<longleftrightarrow> (\<forall>e \<in> set es. \<exists>k > 0. e = Ready k)"

lemma all_ready_Cons: "all_ready (e # es) \<longleftrightarrow> (\<exists>k > 0. e = Ready k) \<and> all_ready es"
  by (simp add: all_ready_def)

lemma to_int_small: "n < 2 ^ 31 \<Longrightarrow> to_int n = int n"
proof -
  assume n: "n < 2 ^ 31"
  have "sint (word_of_nat n :: 32 word) = signed_take_bit 31 (int n)"
    using n by (simp add: sint_uint unsigned_of_nat take_bit_nat_eq_self)
  also have "\<dots> = int n" using n by (intro signed_take_bit_int_eq_self) simp_all
  finally show ?thesis by (simp add: to_int_def)
qed

lemma sendall_loop_ready:
  "all_ready es \<Longrightarrow> length data < 2 ^ 31 \<Longrightarrow> n \<le> length data \<Longrightarrow> length data \<le> n + length es \<Longrightarrow>
   \<exists>es'. sendall_loop timed data n out es = Inr (int (length data), out @ drop n data, es')
     \<and> all_ready es' \<and> length es \<le> length es' + (length data - n)"
proof (induction es arbitrary: n out)
  case Nil
  then show ?case by (simp add: to_int_small all_ready_def)
next
  case (Cons e es)
  show ?case
  proof (cases "n < length data")
    case True
    from Cons.prems(1) obtain k where e: "e = Ready k" "0 < k" and rdy: "all_ready es"
      by (auto simp: all_ready_Cons)
    define m where "m = min k (length data - n)"
    have m: "0 < m" "m \<le> length data - n" "to_int m = int m"
      using e True Cons.prems(2) by (auto simp: m_def intro: to_int_small)
    then have side: "n + m \<le> length data" "length data \<le> n + m + length es"
      using True Cons.prems(4) by simp_all
    obtain es' where "sendall_loop timed data (n + m) (out @ take m (drop n data)) es
        = Inr (int (length data), (out @ take m (drop n data)) @ drop (n + m) data, es')"
      "all_ready es'" "length es \<le> length es' + (length data - (n + m))"
      using Cons.IH [OF rdy Cons.prems(2) side] by blast
    moreover have "take m (drop n data) @ drop (n + m) data = drop n data"
      by (metis append_take_drop_id drop_drop add.commute)
    ultimately show ?thesis using e m side True by (auto simp: Let_def m_def [symmetric])
  next
    case False
    with Cons.prems show ?thesis by (simp add: to_int_small)
  qed
qed

lemma recvall_loop_ready:
  "all_ready es \<Longrightarrow> length buf + length data < 2 ^ 31 \<Longrightarrow> length data \<le> length es \<Longrightarrow>
   \<exists>es'. recvall_loop timed (length buf + length data) buf (data @ rest) es
      = Inr (int (length buf + length data), buf @ data, rest, es')
     \<and> all_ready es' \<and> length es \<le> length es' + length data"
proof (induction es arbitrary: buf data)
  case Nil
  then show ?case by (simp add: to_int_small all_ready_def)
next
  case (Cons e es)
  show ?case
  proof (cases "data = []")
    case False
    from Cons.prems(1) obtain k where e: "e = Ready k" "0 < k" and rdy: "all_ready es"
      by (auto simp: all_ready_Cons)
    define m where "m = min k (length data)"
    have m: "0 < m" "m \<le> length data" "to_int m = int m"
      using e False Cons.prems(2) by (auto simp: m_def intro: to_int_small)
    then have side: "length (buf @ take m data) + length (drop m data) < 2 ^ 31" "length (drop m data) \<le> length es"
      using Cons.prems(2,3) by simp_all
    have len: "length (buf @ take m data) + length (drop m data) = length buf + length data" by simp
    obtain es' where es': "recvall_loop timed (length buf + length data) (buf @ take m data) (drop m data @ rest) es
        = Inr (int (length buf + length data), (buf @ take m data) @ drop m data, rest, es')"
      "all_ready es'" "length es \<le> length es' + length (drop m data)"
      using Cons.IH [OF rdy side] unfolding len by blast
    have moved: "min k (min (length buf + length data - length buf) (length (data @ rest))) = m" by (simp add: m_def)
    have split: "take m (data @ rest) = take m data" "drop m (data @ rest) = drop m data @ rest"
      using m by simp_all
    have "recvall_loop timed (length buf + length data) buf (data @ rest) (e # es)
        = recvall_loop timed (length buf + length data) (buf @ take m data) (drop m data @ rest) es"
      using e m False by (simp only: recvall_loop.simps moved split Let_def net_event.case) simp
    with es' m show ?thesis by (auto simp: min_def)
  next
    case True
    with Cons.prems show ?thesis by (simp add: to_int_small)
  qed
qed

lemma sendall_ready:
  assumes "all_ready (events sk)" and "length data < 2 ^ 31" and "length data \<le> length (events sk)"
  shows "\<exists>es'. sendall data t sk = Inr (int (length data), sk\<lparr>tx := tx sk @ data, events := es'\<rparr>)
    \<and> all_ready es' \<and> length (events sk) \<le> length es' + length data"
  using sendall_loop_ready [OF assms(1,2), of 0 "t > 0" "tx sk"] assms(3) by (auto simp: sendall_def)

lemma recvall_ready:
  assumes "all_ready (events sk)" and "rx sk = data @ rest" and "length data < 2 ^ 31"
    and "length data \<le> length (events sk)"
  shows "\<exists>es'. recvall (length data) t sk = Inr (int (length data), data, sk\<lparr>rx := rest, events := es'\<rparr>)
    \<and> all_ready es' \<and> length (events sk) \<le> length es' + length data"
  using recvall_loop_ready [OF assms(1), of "[]" data "t > 0" rest] assms(2,3,4) by (auto simp: recvall_def)

lemma bswap32_bswap32 [simp]: "bswap32 (bswap32 w) = w"
proof -
  have "le32 (of_le32 [a, b, c, d]) = [a, b, c, d]" for a b c d
    by (auto simp: le32_def intro!: bit_word_eqI) (auto simp: bit_simps dest: bit_imp_le_length)
  then have "le32 (of_le32 (rev (le32 w))) = rev (le32 w)" by (simp add: le32_def)
  then show ?thesis by (simp add: bswap32_def of_le32_le32)
qed

lemma of_le64_le64 [simp]: "of_le64 (le64 w) = w"
proof -
  have "of_le64 (le64 w) = ucast (ucast w :: 32 word) OR push_bit 32 (ucast (ucast (drop_bit 32 w) :: 32 word))"
    by (simp add: of_le64_def le64_def of_le32_le32)
  also have "\<dots> = w" by (rule bit_word_eqI) (auto simp: bit_simps)
  finally show ?thesis .
qed

lemma length_le64 [simp]: "length (le64 w) = 8"
  by (simp add: le64_def)

lemma htonl_htonl: "unat w < 2 ^ 32 \<Longrightarrow> htonl (htonl w) = w"
proof -
  assume "unat w < 2 ^ 32"
  then have "ucast (ucast w :: 32 word) = w"
    by (simp add: word_unat_eq_iff unsigned_ucast_eq unsigned_take_bit_eq take_bit_nat_eq_self)
  moreover have "ucast (ucast (v :: 32 word) :: 64 word) = v" for v
    by (rule bit_word_eqI) (simp add: bit_simps)
  ultimately show ?thesis by (simp add: htonl_def)
qed

text \<open>The bytes of a message on the wire: type, size in network order, payload.\<close>

definition frame :: "message \<Rightarrow> byte list" where
  "frame msg = le32 (msg_type msg) @ le64 (htonl (msg_sz msg)) @ msg_buf msg"

definition wf_message :: "message \<Rightarrow> bool" where
  "wf_message msg \<longleftrightarrow> length (msg_buf msg) < 2 ^ 31 \<and> msg_sz msg = word_of_nat (length (msg_buf msg))"

lemma wf_message_sz: "wf_message msg \<Longrightarrow> unat (msg_sz msg) = length (msg_buf msg)"
  by (simp add: wf_message_def unat_of_nat)

lemma send_message_ready:
  assumes "wf_message msg" and "all_ready (events sk)" and "length (frame msg) \<le> length (events sk)" and "0 < t"
  shows "\<exists>es'. send_message msg t sk = Inr (True, sk\<lparr>tx := tx sk @ frame msg, events := es'\<rparr>)
    \<and> all_ready es' \<and> length (events sk) \<le> length es' + length (frame msg)"
proof -
  let ?n = "length (msg_buf msg)"
  have n: "?n < 2 ^ 31" and sz: "msg_sz msg = word_of_nat ?n" "unat (msg_sz msg) = ?n"
    using assms(1) wf_message_sz by (auto simp: wf_message_def)
  have room: "12 + ?n \<le> length (events sk)" using assms(3) by (simp add: frame_def)
  obtain e1 where 1: "sendall (le32 (msg_type msg)) 0 sk = Inr (4, sk\<lparr>tx := tx sk @ le32 (msg_type msg), events := e1\<rparr>)"
    "all_ready e1" "length (events sk) \<le> length e1 + 4"
    using sendall_ready [OF assms(2), of "le32 (msg_type msg)" 0] room by auto
  let ?s1 = "sk\<lparr>tx := tx sk @ le32 (msg_type msg), events := e1\<rparr>"
  obtain e2 where 2: "sendall (le64 (htonl (msg_sz msg))) 0 ?s1
      = Inr (8, ?s1\<lparr>tx := tx ?s1 @ le64 (htonl (msg_sz msg)), events := e2\<rparr>)"
    "all_ready e2" "length e1 \<le> length e2 + 8"
    using sendall_ready [of ?s1 "le64 (htonl (msg_sz msg))" 0] 1 room by auto
  let ?s2 = "?s1\<lparr>tx := tx ?s1 @ le64 (htonl (msg_sz msg)), events := e2\<rparr>"
  have "?n \<le> length e2" using 1(3) 2(3) room by simp
  then obtain e3 where 3: "sendall (msg_buf msg) t ?s2 = Inr (int ?n, ?s2\<lparr>tx := tx ?s2 @ msg_buf msg, events := e3\<rparr>)"
    "all_ready e3" "length e2 \<le> length e3 + ?n"
    using sendall_ready [of ?s2 "msg_buf msg" t] 2(2) n by auto
  have pos: "msg_sz msg > 0 \<longleftrightarrow> ?n \<noteq> 0" by (simp add: word_less_nat_alt sz(2))
  have len: "length (frame msg) = 12 + ?n" by (simp add: frame_def)
  show ?thesis
  proof (cases "?n = 0")
    case True
    then have "\<not> msg_sz msg > 0" using pos by simp
    with 1 2 True assms(4) sz len show ?thesis
      by (intro exI [of _ e2]) (simp add: send_message_def frame_def)
  next
    case False
    then have "msg_sz msg > 0" using pos by simp
    with 1 2 3 False assms(4) sz len show ?thesis
      by (intro exI [of _ e3]) (simp add: send_message_def frame_def)
  qed
qed

lemma recv_message_ready:
  assumes "wf_message msg" and "all_ready (events sk)" and "length (frame msg) \<le> length (events sk)" and "0 < t"
    and "rx sk = frame msg @ rest"
  shows "\<exists>es'. recv_message t sk = Inr (Some msg, sk\<lparr>rx := rest, events := es'\<rparr>)
    \<and> all_ready es' \<and> length (events sk) \<le> length es' + length (frame msg)"
proof -
  let ?n = "length (msg_buf msg)" and ?sb = "le64 (htonl (msg_sz msg))"
  have n: "?n < 2 ^ 31" and sz: "msg_sz msg = word_of_nat ?n" "unat (msg_sz msg) = ?n"
    using assms(1) wf_message_sz by (auto simp: wf_message_def)
  have room: "12 + ?n \<le> length (events sk)" using assms(3) by (simp add: frame_def)
  have dec: "htonl (htonl (msg_sz msg)) = msg_sz msg" using n sz(2) by (simp add: htonl_htonl)
  obtain e1 where 1: "recvall 4 0 sk = Inr (4, le32 (msg_type msg), sk\<lparr>rx := ?sb @ msg_buf msg @ rest, events := e1\<rparr>)"
    "all_ready e1" "length (events sk) \<le> length e1 + 4"
    using recvall_ready [OF assms(2), of "le32 (msg_type msg)" "?sb @ msg_buf msg @ rest" 0] room assms(5)
    by (auto simp: frame_def)
  let ?s1 = "sk\<lparr>rx := ?sb @ msg_buf msg @ rest, events := e1\<rparr>"
  obtain e2 where 2: "recvall 8 0 ?s1 = Inr (8, ?sb, ?s1\<lparr>rx := msg_buf msg @ rest, events := e2\<rparr>)"
    "all_ready e2" "length e1 \<le> length e2 + 8"
    using recvall_ready [of ?s1 ?sb "msg_buf msg @ rest" 0] 1 room by auto
  let ?s2 = "?s1\<lparr>rx := msg_buf msg @ rest, events := e2\<rparr>"
  have "?n \<le> length e2" using 1(3) 2(3) room by simp
  then obtain e3 where 3: "recvall ?n t ?s2 = Inr (int ?n, msg_buf msg, ?s2\<lparr>rx := rest, events := e3\<rparr>)"
    "all_ready e3" "length e2 \<le> length e3 + ?n"
    using recvall_ready [of ?s2 "msg_buf msg" rest t] 2(2) n by auto
  have len: "length (frame msg) = 12 + ?n" by (simp add: frame_def)
  have pos: "msg_sz msg > 0 \<longleftrightarrow> ?n \<noteq> 0" by (simp add: word_less_nat_alt sz(2))
  show ?thesis
  proof (cases "?n = 0")
    case True
    then have "\<not> msg_sz msg > 0" using pos by simp
    with 1 2 True assms(4) len show ?thesis
      by (intro exI [of _ e2]) (simp add: recv_message_def dec of_le32_le32 Let_def)
  next
    case False
    then have "msg_sz msg > 0" using pos by simp
    with 1 2 3 False assms(4) sz(2) len show ?thesis
      by (intro exI [of _ e3]) (simp add: recv_message_def dec of_le32_le32 Let_def)
  qed
qed

text \<open>
  Whatever the fragmentation of the transfers, a request sent by
  \<open>ServerConn::send_request\<close> over a connection that never fails arrives whole at
  \<open>ClientConn::recv_request\<close>, and the bytes that follow it are left unread.
\<close>

theorem request_transport:
  assumes "valid_request r" and "length (request_bytes r) < 2 ^ 31"
    and "all_ready (events sk)" and "length (request_bytes r) + 12 \<le> length (events sk)"
    and "all_ready (events pk)" and "length (request_bytes r) + 12 \<le> length (events pk)"
  shows "\<exists>wire es. send_request r sk = Inr (True, sk\<lparr>tx := tx sk @ wire, events := es\<rparr>)
    \<and> (\<forall>rest. rx pk = wire @ rest \<longrightarrow>
        (\<exists>es'. recv_request pk = Inr (Some r, pk\<lparr>rx := rest, events := es'\<rparr>)))"
proof -
  let ?m = "\<lparr>msg_type = type_code (request_type r), msg_sz = word_of_nat (length (request_bytes r)),
    msg_buf = request_bytes r\<rparr>"
  have ser: "serialize_request r = Some ?m"
    using assms(1,2) by (intro serialize_request_eq) simp_all
  have wf: "wf_message ?m" using assms(2) by (simp add: wf_message_def)
  have len: "length (frame ?m) = length (request_bytes r) + 12" by (simp add: frame_def)
  obtain es where "send_message ?m 100 sk = Inr (True, sk\<lparr>tx := tx sk @ frame ?m, events := es\<rparr>)"
    using send_message_ready [OF wf assms(3), of 100] assms(4) len by auto
  then have "send_request r sk = Inr (True, sk\<lparr>tx := tx sk @ frame ?m, events := es\<rparr>)"
    by (simp add: send_request_def send_with_def ser)
  moreover have "\<exists>es'. recv_request pk = Inr (Some r, pk\<lparr>rx := rest, events := es'\<rparr>)"
    if rx: "rx pk = frame ?m @ rest" for rest
  proof -
    obtain es' where "recv_message 100 pk = Inr (Some ?m, pk\<lparr>rx := rest, events := es'\<rparr>)"
      using recv_message_ready [OF wf assms(5) _ _ rx, of 100] assms(6) len by auto
    moreover have "deserialize_request ?m = Inr (Some r)" using assms(1) by (simp add: deserialize_request_eq)
    ultimately show ?thesis by (auto simp: recv_request_def recv_with_def)
  qed
  ultimately show ?thesis by blast
qed

theorem request_transport_witness:
  "\<exists>wire es. send_request (GetRequest ''k'') \<lparr>tx = [], rx = [], events = replicate 20 (Ready 3)\<rparr>
    = Inr (True, \<lparr>tx = wire, rx = [], events = es\<rparr>)"
proof -
  let ?sk = "\<lparr>tx = [], rx = [], events = replicate 20 (Ready 3)\<rparr>"
  have "valid_request (GetRequest ''k'')" "length (request_bytes (GetRequest ''k'')) < 2 ^ 31"
    "all_ready (events ?sk)" "length (request_bytes (GetRequest ''k'')) + 12 \<le> length (events ?sk)"
    by (simp_all add: all_ready_def string_bytes_def)
  from request_transport [OF this this(3,4)] show ?thesis by auto
qed

end
