(* ===== verification/Connection.thy ===== *)
theory Connection
  imports Network
begin

text \<open>
  Opening, accepting and releasing connections: the rest of
  \<open>kvstore/net/network_helpers.cpp\<close>, \<open>network_conn.hpp\<close> and
  \<open>network_conn.cpp\<close>. The system calls are parameters: \<open>getaddrinfo\<close> gives the
  candidates, each candidate says which of its calls succeed. What the code does to the system
  is a log of events, from which the descriptors still open are computed.
\<close>

section \<open>Definitions\<close>

datatype os_event = GetAddrInfo | FreeAddrInfo | OpenFd int | CloseFd int | ShutdownFd int

fun live :: "os_event list \<Rightarrow> int list \<Rightarrow> int list" where
  "live [] fds = fds"
| "live (OpenFd f # es) fds = live es (f # fds)"
| "live (CloseFd f # es) fds = live es (remove1 f fds)"
| "live (_ # es) fds = live es fds"

text \<open>One address of the list returned by \<open>getaddrinfo\<close> and the outcome of the calls on it.\<close>

record candidate =
  cand_fd :: int
  setsockopt_ok :: bool
  bind_ok :: bool
  connect_ok :: bool

text \<open>\<open>address.find(':')\<close> and the two \<open>substr\<close> calls.\<close>

definition split_address :: "string \<Rightarrow> (string \<times> string) option" where
  "split_address addr =
     (case string_find (CHR '':'') addr of None \<Rightarrow> None | Some i \<Rightarrow> Some (take i addr, drop (i + 1) addr))"

fun listener_loop :: "candidate list \<Rightarrow> int option \<times> os_event list" where
  "listener_loop [] = (None, [])"
| "listener_loop (cur # rest) =
     (if cand_fd cur = -1 then listener_loop rest
      else if \<not> setsockopt_ok cur then
        (case listener_loop rest of (r, log) \<Rightarrow> (r, OpenFd (cand_fd cur) # CloseFd (cand_fd cur) # log))
      else if \<not> bind_ok cur then
        (case listener_loop rest of (r, log) \<Rightarrow> (r, OpenFd (cand_fd cur) # CloseFd (cand_fd cur) # log))
      else (Some (cand_fd cur), [OpenFd (cand_fd cur)]))"

definition open_listener_socket ::
    "(string option \<Rightarrow> string \<Rightarrow> candidate list option) \<Rightarrow> (int \<Rightarrow> bool) \<Rightarrow> string \<Rightarrow> int \<times> os_event list" where
  "open_listener_socket getaddrinfo listen_ok addr =
     (case split_address addr of None \<Rightarrow> (-1, [])
      | Some (hostname, port) \<Rightarrow>
          (case getaddrinfo None port of None \<Rightarrow> (-1, [])
           | Some res \<Rightarrow>
               (case listener_loop res of
                  (None, log) \<Rightarrow> (-1, GetAddrInfo # log @ (if res \<noteq> [] then [FreeAddrInfo] else []))
                | (Some listener_fd, log) \<Rightarrow>
                    if \<not> listen_ok listener_fd
                    then (-1, GetAddrInfo # log @ [FreeAddrInfo, CloseFd listener_fd])
                    else (listener_fd, GetAddrInfo # log @ [FreeAddrInfo]))))"

fun connect_loop :: "candidate list \<Rightarrow> int option \<times> os_event list" where
  "connect_loop [] = (None, [])"
| "connect_loop (cur # rest) =
     (if cand_fd cur = -1 then connect_loop rest
      else if \<not> connect_ok cur then
        (case connect_loop rest of (r, log) \<Rightarrow> (r, OpenFd (cand_fd cur) # CloseFd (cand_fd cur) # log))
      else (Some (cand_fd cur), [OpenFd (cand_fd cur)]))"

definition connect_to_address ::
    "(string option \<Rightarrow> string \<Rightarrow> candidate list option) \<Rightarrow> string \<Rightarrow> int \<times> os_event list" where
  "connect_to_address getaddrinfo addr =
     (case split_address addr of None \<Rightarrow> (-1, [])
      | Some (hostname, port) \<Rightarrow>
          (case getaddrinfo (Some hostname) port of None \<Rightarrow> (-1, [])
           | Some res \<Rightarrow>
               (case connect_loop res of
                  (None, log) \<Rightarrow> (-1, GetAddrInfo # log)
                | (Some cfd, log) \<Rightarrow> (cfd, GetAddrInfo # log))))"

definition get_host_address :: "string \<Rightarrow> string \<Rightarrow> string" where
  "get_host_address hostname port = hostname @ '':'' @ port"

record client_conn =
  client_fd :: int
  client_address :: string
  is_connected :: bool

record server_conn =
  server_fd :: int
  server_address :: string

definition client_close :: "client_conn \<Rightarrow> client_conn \<times> os_event list" where
  "client_close c = (if is_connected c then (c\<lparr>is_connected := False\<rparr>, [CloseFd (client_fd c)]) else (c, []))"

definition client_shutdown :: "client_conn \<Rightarrow> client_conn \<times> os_event list" where
  "client_shutdown c = (if is_connected c then (c\<lparr>is_connected := False\<rparr>, [ShutdownFd (client_fd c)]) else (c, []))"

definition client_destroy :: "client_conn \<Rightarrow> client_conn \<times> os_event list" where
  "client_destroy c = (if is_connected c then (c\<lparr>is_connected := False\<rparr>, [CloseFd (client_fd c)]) else (c, []))"

definition server_close :: "server_conn \<Rightarrow> os_event list" where
  "server_close c = [CloseFd (server_fd c)]"

definition server_shutdown :: "server_conn \<Rightarrow> os_event list" where
  "server_shutdown c = [ShutdownFd (server_fd c)]"

definition server_destroy :: "server_conn \<Rightarrow> os_event list" where
  "server_destroy c = [ShutdownFd (server_fd c)]"

definition accept_client :: "int \<Rightarrow> (string \<times> string) option \<Rightarrow> client_conn option \<times> os_event list" where
  "accept_client cfd nameinfo =
     (if cfd < 0 then (None, [])
      else (case nameinfo of None \<Rightarrow> (None, [OpenFd cfd])
            | Some (hostbuf, servbuf) \<Rightarrow>
                (Some \<lparr>client_fd = cfd, client_address = hostbuf @ '':'' @ servbuf, is_connected = True\<rparr>, [OpenFd cfd])))"

definition connect_to_server ::
    "(string option \<Rightarrow> string \<Rightarrow> candidate list option) \<Rightarrow> string \<Rightarrow> server_conn option \<times> os_event list" where
  "connect_to_server getaddrinfo addr =
     (case connect_to_address getaddrinfo addr of (sfd, log) \<Rightarrow>
        if sfd < 0 then (None, log) else (Some \<lparr>server_fd = sfd, server_address = addr\<rparr>, log))"

text \<open>A sequence of calls on a client connection, ended by its destructor.\<close>

datatype conn_call = Close | Shutdown

fun client_calls :: "conn_call list \<Rightarrow> client_conn \<Rightarrow> os_event list" where
  "client_calls [] c = snd (client_destroy c)"
| "client_calls (k # ks) c =
     (case (case k of Close \<Rightarrow> client_close c | Shutdown \<Rightarrow> client_shutdown c) of
        (c', log) \<Rightarrow> log @ client_calls ks c')"

section \<open>Addresses\<close>

lemma find_pos_append: "x \<notin> set xs \<Longrightarrow> find_pos x (xs @ x # ys) = length xs"
  by (induction xs) auto

text \<open>
  The address built by \<open>get_host_address\<close> is taken apart again into its
  host name and its port, as long as the host name has no colon of its own; the port may
  contain any character.
\<close>

lemma split_host_address:
  assumes "CHR '':'' \<notin> set hostname"
  shows "split_address (get_host_address hostname port) = Some (hostname, port)"
  using assms by (simp add: split_address_def get_host_address_def string_find_def find_pos_append)

section \<open>Descriptors\<close>

lemma live_append: "live (log @ log') fds = live log' (live log fds)"
  by (induction log fds rule: live.induct) auto

definition keeps :: "int option \<Rightarrow> int list \<Rightarrow> int list" where
  "keeps r fds = (case r of None \<Rightarrow> fds | Some f \<Rightarrow> f # fds)"

lemma listener_loop_live: "listener_loop cs = (r, log) \<Longrightarrow> live log fds = keeps r fds"
  by (induction cs arbitrary: r log) (auto simp: keeps_def split: if_splits prod.splits)

lemma connect_loop_live: "connect_loop cs = (r, log) \<Longrightarrow> live log fds = keeps r fds"
  by (induction cs arbitrary: r log) (auto simp: keeps_def split: if_splits prod.splits)

lemma listener_loop_valid: "listener_loop cs = (Some f, log) \<Longrightarrow> f \<noteq> -1"
  by (induction cs arbitrary: log) (auto split: if_splits prod.splits)

lemma connect_loop_valid: "connect_loop cs = (Some f, log) \<Longrightarrow> f \<noteq> -1"
  by (induction cs arbitrary: log) (auto split: if_splits prod.splits)

text \<open>
  Whichever system calls fail, \<open>open_listener_socket\<close> leaves open exactly the
  descriptor it returns, and none when it returns -1.
\<close>

theorem open_listener_no_leak:
  "case open_listener_socket getaddrinfo listen_ok addr of (fd, log) \<Rightarrow>
     live log [] = (if fd = -1 then [] else [fd])"
proof -
  have "live log [] = keeps r []" if "listener_loop cs = (r, log)" for cs r log
    using listener_loop_live [OF that] .
  then show ?thesis
    by (auto simp: open_listener_socket_def live_append keeps_def
        dest: listener_loop_valid split: option.splits prod.splits)
qed

text \<open>Of descriptors \<open>connect_to_address\<close> leaks none either.\<close>

lemma connect_no_leak:
  "case connect_to_address getaddrinfo addr of (fd, log) \<Rightarrow> live log [] = (if fd = -1 then [] else [fd])"
proof -
  have "live log [] = keeps r []" if "connect_loop cs = (r, log)" for cs r log
    using connect_loop_live [OF that] .
  then show ?thesis
    by (auto simp: connect_to_address_def keeps_def dest: connect_loop_valid split: option.splits prod.splits)
qed

text \<open>
  The address list is freed by \<open>open_listener_socket\<close>, never by
  \<open>connect_to_address\<close>.
\<close>

lemma connect_loop_no_free: "connect_loop cs = (r, log) \<Longrightarrow> FreeAddrInfo \<notin> set log"
  by (induction cs arbitrary: r log) (auto split: if_splits prod.splits)

text \<open>
  A connection attempt that resolves its address obtains one address list and never
  frees it, whether it succeeds or fails; of descriptors it keeps only the one it returns.
\<close>

theorem connect_leaks_addrinfo:
  assumes "split_address addr = Some (hostname, port)" and "getaddrinfo (Some hostname) port = Some cs"
  shows "\<exists>fd log. connect_to_address getaddrinfo addr = (fd, GetAddrInfo # log) \<and> FreeAddrInfo \<notin> set log
    \<and> live log [] = (if fd = -1 then [] else [fd])"
proof -
  obtain r log where "connect_loop cs = (r, log)" by (cases "connect_loop cs")
  then have "\<exists>fd. connect_to_address getaddrinfo addr = (fd, GetAddrInfo # log)" and "FreeAddrInfo \<notin> set log"
    using assms by (auto simp: connect_to_address_def dest: connect_loop_no_free split: option.split)
  moreover from this obtain fd where "connect_to_address getaddrinfo addr = (fd, GetAddrInfo # log)" by blast
  ultimately show ?thesis using connect_no_leak [of getaddrinfo addr] by auto
qed

theorem connect_leaks_addrinfo_witness:
  "\<exists>fd log. connect_to_address (\<lambda>h p. Some []) (get_host_address ''a'' ''1'') = (fd, GetAddrInfo # log)
    \<and> FreeAddrInfo \<notin> set log"
proof -
  have "split_address (get_host_address ''a'' ''1'') = Some (''a'', ''1'')" by (rule split_host_address) simp
  from connect_leaks_addrinfo [OF this, of "\<lambda>h p. Some []" "[]"] show ?thesis by blast
qed

lemma client_calls_disconnected: "\<not> is_connected c \<Longrightarrow> client_calls ks c = []"
  by (induction ks) (auto simp: client_close_def client_shutdown_def client_destroy_def split: conn_call.split)

text \<open>
  Over the life of a client connection exactly one call reaches its descriptor:
  the first one. So the descriptor is never closed twice, and a connection whose first call is
  \<open>shutdown\<close> is never closed, not even by its destructor.
\<close>

theorem client_conn_one_call:
  assumes "is_connected c"
  shows "client_calls ks c = [if ks \<noteq> [] \<and> hd ks = Shutdown then ShutdownFd (client_fd c) else CloseFd (client_fd c)]"
proof (cases ks)
  case Nil
  with assms show ?thesis by (simp add: client_destroy_def)
next
  case (Cons k ks')
  with assms show ?thesis
    by (cases k) (simp_all add: client_close_def client_shutdown_def client_calls_disconnected)
qed

theorem client_conn_one_call_witness:
  "client_calls [Shutdown, Close] \<lparr>client_fd = 4, client_address = ''h:1'', is_connected = True\<rparr> = [ShutdownFd 4]"
  using client_conn_one_call [of "\<lparr>client_fd = 4, client_address = ''h:1'', is_connected = True\<rparr>" "[Shutdown, Close]"]
  by simp

end
