(* ===== verification/SyncQueue.thy ===== *)
theory SyncQueue
  imports Prelude
begin

text \<open>
  The thread-safe queue \<open>synchronized_queue\<close>
  (\<open>kvstore/server/synchronized_queue.hpp\<close> and \<open>.cpp\<close>) as a transition system:
  any number of threads call \<open>size\<close>, \<open>pop\<close>, \<open>push\<close>, \<open>flush\<close> and
  \<open>stop\<close>, and their statements interleave. The program counter of a thread names the next
  statement that touches shared state; the mutex has an owner; waiting on the condition variable
  releases it. Two history variables record what was pushed and what was taken out.
\<close>

section \<open>Definitions\<close>

datatype 'a call = Size | Pop | Push 'a | Flush | Stop

datatype 'a pc =
    Idle
  | PopEnter | PopCheck | PopLoop | PopLoopStop | PopAboutToWait | PopWaiting | PopRelock | PopTake
  | PopDone "'a option"
  | PushEnter 'a | PushHolds 'a | PushNotify
  | FlushEnter | FlushHolds | FlushDone "'a list"
  | SizeEnter | SizeHolds | SizeDone nat
  | StopEnter | StopNotify
  | CallDone

record 'a qstate =
  q :: "'a list"
  mtx_owner :: "nat option"
  is_stopped :: bool
  pcs :: "nat \<Rightarrow> 'a pc"
  pushed :: "'a list"
  removed :: "'a list"

definition q_init :: "'a qstate" where
  "q_init = \<lparr>q = [], mtx_owner = None, is_stopped = False, pcs = \<lambda>_. Idle, pushed = [], removed = []\<rparr>"

definition goto :: "nat \<Rightarrow> 'a pc \<Rightarrow> 'a qstate \<Rightarrow> 'a qstate" where
  "goto t p s = s\<lparr>pcs := (pcs s)(t := p)\<rparr>"

definition acquire :: "nat \<Rightarrow> 'a pc \<Rightarrow> 'a qstate \<Rightarrow> 'a qstate option" where
  "acquire t p s = (if mtx_owner s = None then Some (goto t p (s\<lparr>mtx_owner := Some t\<rparr>)) else None)"

definition release :: "nat \<Rightarrow> 'a pc \<Rightarrow> 'a qstate \<Rightarrow> 'a qstate" where
  "release t p s = goto t p (s\<lparr>mtx_owner := None\<rparr>)"

definition notify_all :: "'a qstate \<Rightarrow> 'a qstate" where
  "notify_all s = s\<lparr>pcs := \<lambda>t. if pcs s t = PopWaiting then PopRelock else pcs s t\<rparr>"

definition pop_step :: "nat \<Rightarrow> 'a qstate \<Rightarrow> 'a qstate option" where
  "pop_step t s =
     (case pcs s t of
        PopEnter \<Rightarrow> acquire t PopCheck s
      | PopCheck \<Rightarrow> Some (if is_stopped s then release t (PopDone None) s else goto t PopLoop s)
      | PopLoop \<Rightarrow> Some (goto t (if q s = [] then PopLoopStop else PopTake) s)
      | PopLoopStop \<Rightarrow> Some (if is_stopped s then release t (PopDone None) s else goto t PopAboutToWait s)
      | PopAboutToWait \<Rightarrow> Some (release t PopWaiting s)
      | PopRelock \<Rightarrow> acquire t PopLoop s
      | PopTake \<Rightarrow>
          (case q s of [] \<Rightarrow> None
           | x # xs \<Rightarrow> Some (release t (PopDone (Some x)) (s\<lparr>q := xs, removed := removed s @ [x]\<rparr>)))
      | _ \<Rightarrow> None)"

definition push_step :: "nat \<Rightarrow> 'a qstate \<Rightarrow> 'a qstate option" where
  "push_step t s =
     (case pcs s t of
        PushEnter x \<Rightarrow> acquire t (PushHolds x) s
      | PushHolds x \<Rightarrow>
          Some (release t (if q s = [] then PushNotify else CallDone)
                 (s\<lparr>q := q s @ [x], pushed := pushed s @ [x]\<rparr>))
      | PushNotify \<Rightarrow> Some (goto t CallDone (notify_all s))
      | _ \<Rightarrow> None)"

definition flush_step :: "nat \<Rightarrow> 'a qstate \<Rightarrow> 'a qstate option" where
  "flush_step t s =
     (case pcs s t of
        FlushEnter \<Rightarrow> acquire t FlushHolds s
      | FlushHolds \<Rightarrow> Some (release t (FlushDone (q s)) (s\<lparr>q := [], removed := removed s @ q s\<rparr>))
      | _ \<Rightarrow> None)"

definition size_step :: "nat \<Rightarrow> 'a qstate \<Rightarrow> 'a qstate option" where
  "size_step t s =
     (case pcs s t of
        SizeEnter \<Rightarrow> acquire t SizeHolds s
      | SizeHolds \<Rightarrow> Some (release t (SizeDone (length (q s))) s)
      | _ \<Rightarrow> None)"

definition stop_step :: "nat \<Rightarrow> 'a qstate \<Rightarrow> 'a qstate option" where
  "stop_step t s =
     (case pcs s t of
        StopEnter \<Rightarrow> Some (goto t StopNotify (s\<lparr>is_stopped := True\<rparr>))
      | StopNotify \<Rightarrow> Some (goto t CallDone (notify_all s))
      | _ \<Rightarrow> None)"

fun enter :: "'a call \<Rightarrow> 'a pc" where
  "enter Size = SizeEnter"
| "enter Pop = PopEnter"
| "enter (Push x) = PushEnter x"
| "enter Flush = FlushEnter"
| "enter Stop = StopEnter"

text \<open>
  A transition: a thread outside any call starts one, a thread runs its next statement, or a
  waiting thread wakes up spuriously.
\<close>

fun finished :: "'a pc \<Rightarrow> bool" where
  "finished Idle = True"
| "finished (PopDone _) = True"
| "finished (FlushDone _) = True"
| "finished (SizeDone _) = True"
| "finished CallDone = True"
| "finished _ = False"

inductive qstep :: "'a qstate \<Rightarrow> 'a qstate \<Rightarrow> bool" where
  start: "finished (pcs s t) \<Longrightarrow> qstep s (goto t (enter c) s)"
| pop: "pop_step t s = Some s' \<Longrightarrow> qstep s s'"
| push: "push_step t s = Some s' \<Longrightarrow> qstep s s'"
| flush: "flush_step t s = Some s' \<Longrightarrow> qstep s s'"
| size: "size_step t s = Some s' \<Longrightarrow> qstep s s'"
| stop: "stop_step t s = Some s' \<Longrightarrow> qstep s s'"
| spurious: "pcs s t = PopWaiting \<Longrightarrow> qstep s (goto t PopRelock s)"

inductive reachable :: "'a qstate \<Rightarrow> bool" where
  init: "reachable q_init"
| step: "reachable s \<Longrightarrow> qstep s s' \<Longrightarrow> reachable s'"

section \<open>Invariants\<close>

fun holding :: "'a pc \<Rightarrow> bool" where
  "holding PopCheck = True"
| "holding PopLoop = True"
| "holding PopLoopStop = True"
| "holding PopAboutToWait = True"
| "holding PopTake = True"
| "holding (PushHolds _) = True"
| "holding FlushHolds = True"
| "holding SizeHolds = True"
| "holding _ = False"

definition mutex_inv :: "'a qstate \<Rightarrow> bool" where
  "mutex_inv s \<longleftrightarrow> (\<forall>t. holding (pcs s t) \<longleftrightarrow> mtx_owner s = Some t)"

definition fifo_inv :: "'a qstate \<Rightarrow> bool" where
  "fifo_inv s \<longleftrightarrow> pushed s = removed s @ q s"

text \<open>What the thread in the critical section has found out about the queue still holds.\<close>

definition local_inv :: "'a qstate \<Rightarrow> bool" where
  "local_inv s \<longleftrightarrow> (\<forall>t. (pcs s t \<in> {PopLoopStop, PopAboutToWait} \<longrightarrow> q s = []) \<and> (pcs s t = PopTake \<longrightarrow> q s \<noteq> [])
     \<and> (pcs s t = PopDone None \<longrightarrow> is_stopped s))"

definition wakeup_inv :: "'a qstate \<Rightarrow> bool" where
  "wakeup_inv s \<longleftrightarrow> (\<exists>t. pcs s t = PopWaiting) \<longrightarrow> q s = [] \<or> (\<exists>u. pcs s u = PushNotify)"

lemmas step_defs = pop_step_def push_step_def flush_step_def size_step_def stop_step_def
lemmas move_defs = goto_def acquire_def release_def notify_all_def

lemma not_holding_enter [simp]: "\<not> holding (enter c)"
  by (cases c) auto

lemma finished_not_holding: "finished p \<Longrightarrow> \<not> holding p"
  by (cases p) auto

lemma fifo_inv_step: "qstep s s' \<Longrightarrow> fifo_inv s \<Longrightarrow> fifo_inv s'"
  by (induction rule: qstep.induct)
    (auto simp: fifo_inv_def step_defs move_defs split: pc.splits if_splits list.splits)

lemma notify_pc: "pcs (notify_all s) t = (if pcs s t = PopWaiting then PopRelock else pcs s t)"
  by (simp add: notify_all_def)

lemma mutex_inv_frame [simp]:
  "mutex_inv (s\<lparr>q := a\<rparr>) = mutex_inv s"
  "mutex_inv (s\<lparr>q := a, removed := b\<rparr>) = mutex_inv s"
  "mutex_inv (s\<lparr>q := a, pushed := b\<rparr>) = mutex_inv s"
  "mutex_inv (s\<lparr>is_stopped := c\<rparr>) = mutex_inv s"
  by (simp_all add: mutex_inv_def)

lemma mutex_inv_goto: "mutex_inv s \<Longrightarrow> holding (pcs s t) = holding p \<Longrightarrow> mutex_inv (goto t p s)"
  by (simp add: mutex_inv_def goto_def)

lemma mutex_inv_acquire:
  "acquire t p s = Some s' \<Longrightarrow> mutex_inv s \<Longrightarrow> holding p \<Longrightarrow> mutex_inv s'"
  by (auto simp: mutex_inv_def acquire_def goto_def split: if_splits)

lemma mutex_inv_release:
  assumes "mutex_inv s" and "holding (pcs s t)" and "\<not> holding p"
  shows "mutex_inv (release t p s)"
proof -
  from assms have "mtx_owner s = Some t" by (simp add: mutex_inv_def)
  with assms show ?thesis by (auto simp: mutex_inv_def release_def goto_def)
qed

lemma mutex_inv_notify: "mutex_inv s \<Longrightarrow> mutex_inv (notify_all s)"
proof -
  assume inv: "mutex_inv s"
  have "holding (pcs (notify_all s) t) = holding (pcs s t)" for t by (simp add: notify_pc)
  moreover have "mtx_owner (notify_all s) = mtx_owner s" by (simp add: notify_all_def)
  ultimately show ?thesis using inv by (simp add: mutex_inv_def)
qed

lemma mutex_inv_pop: "pop_step t s = Some s' \<Longrightarrow> mutex_inv s \<Longrightarrow> mutex_inv s'"
  by (cases "pcs s t") (auto simp: pop_step_def intro: mutex_inv_goto mutex_inv_release
      dest: mutex_inv_acquire split: list.splits if_splits)

lemma mutex_inv_push: "push_step t s = Some s' \<Longrightarrow> mutex_inv s \<Longrightarrow> mutex_inv s'"
  by (cases "pcs s t") (auto simp: push_step_def notify_pc intro: mutex_inv_goto mutex_inv_release mutex_inv_notify
      dest: mutex_inv_acquire split: if_splits)

lemma mutex_inv_flush: "flush_step t s = Some s' \<Longrightarrow> mutex_inv s \<Longrightarrow> mutex_inv s'"
  by (cases "pcs s t") (auto simp: flush_step_def intro: mutex_inv_release dest: mutex_inv_acquire)

lemma mutex_inv_size: "size_step t s = Some s' \<Longrightarrow> mutex_inv s \<Longrightarrow> mutex_inv s'"
  by (cases "pcs s t") (auto simp: size_step_def intro: mutex_inv_release dest: mutex_inv_acquire)

lemma mutex_inv_stop: "stop_step t s = Some s' \<Longrightarrow> mutex_inv s \<Longrightarrow> mutex_inv s'"
  by (cases "pcs s t") (auto simp: stop_step_def notify_pc intro: mutex_inv_goto mutex_inv_notify)

lemma mutex_inv_step: "qstep s s' \<Longrightarrow> mutex_inv s \<Longrightarrow> mutex_inv s'"
proof (induction rule: qstep.induct)
  case (start s t c)
  then show ?case by (auto intro!: mutex_inv_goto dest: finished_not_holding)
qed (auto intro: mutex_inv_goto mutex_inv_pop mutex_inv_push mutex_inv_flush mutex_inv_size mutex_inv_stop)

text \<open>
  While a thread holds the mutex no other thread changes the queue or enters the critical
  section, so what it has tested is still true.
\<close>

lemma owner_unique: "mutex_inv s \<Longrightarrow> holding (pcs s t) \<Longrightarrow> holding (pcs s u) \<Longrightarrow> t = u"
  by (auto simp: mutex_inv_def)

lemma local_inv_goto_other:
  assumes "local_inv s" and "p \<notin> {PopLoopStop, PopAboutToWait, PopTake, PopDone None}"
  shows "local_inv (goto t p s)"
  using assms by (auto simp: local_inv_def goto_def)

lemma local_inv_release:
  assumes inv: "local_inv s" "mutex_inv s" and "holding (pcs s t)"
    and p: "p \<notin> {PopLoopStop, PopAboutToWait, PopTake}" "p = PopDone None \<longrightarrow> is_stopped s"
    and s': "pcs s' = (pcs s)(t := p)" "is_stopped s' = is_stopped s"
  shows "local_inv s'"
  unfolding local_inv_def
proof (intro allI conjI impI)
  fix u
  have other: "\<not> holding (pcs s u)" if "u \<noteq> t" using owner_unique [OF inv(2) assms(3), of u] that by blast
  show "q s' = []" if "pcs s' u \<in> {PopLoopStop, PopAboutToWait}"
    using that p other by (cases "u = t") (auto simp: s')
  show "q s' \<noteq> []" if "pcs s' u = PopTake"
    using that p other by (cases "u = t") (auto simp: s')
  show "is_stopped s'" if "pcs s' u = PopDone None"
    using that p inv(1) by (cases "u = t") (auto simp: s' local_inv_def)
qed

lemma local_inv_pop:
  assumes step: "pop_step t s = Some s'" and inv: "local_inv s" "mutex_inv s"
  shows "local_inv s'"
proof (cases "pcs s t = PopTake")
  case True
  then show ?thesis using step inv
    by (intro local_inv_release [OF inv, of t "pcs s' t"])
      (auto simp: pop_step_def release_def goto_def fun_eq_iff split: list.splits)
qed (use step inv(1) in \<open>auto simp: pop_step_def local_inv_def move_defs split: pc.splits if_splits\<close>)

lemma local_inv_push:
  assumes step: "push_step t s = Some s'" and inv: "local_inv s" "mutex_inv s"
  shows "local_inv s'"
proof (cases "pcs s t")
  case (PushHolds x)
  then show ?thesis using step inv
    by (intro local_inv_release [OF inv, of t "pcs s' t"]) (auto simp: push_step_def release_def goto_def fun_eq_iff split: if_splits)
qed (use step inv(1) in \<open>auto simp: push_step_def local_inv_def move_defs split: if_splits\<close>)

lemma local_inv_flush:
  assumes step: "flush_step t s = Some s'" and inv: "local_inv s" "mutex_inv s"
  shows "local_inv s'"
proof (cases "pcs s t")
  case FlushHolds
  then show ?thesis using step inv
    by (intro local_inv_release [OF inv, of t "pcs s' t"]) (auto simp: flush_step_def release_def goto_def fun_eq_iff)
qed (use step inv(1) in \<open>auto simp: flush_step_def local_inv_def move_defs split: if_splits\<close>)

lemma enter_cases: "enter c \<in> {SizeEnter, PopEnter, FlushEnter, StopEnter} \<union> range PushEnter"
  by (cases c) auto

lemma local_inv_step: "qstep s s' \<Longrightarrow> local_inv s \<Longrightarrow> mutex_inv s \<Longrightarrow> local_inv s'"
proof (induction rule: qstep.induct)
  case (start s t c)
  then show ?case using enter_cases [of c] by (intro local_inv_goto_other) auto
next
  case (size t s s')
  then show ?case by (cases "pcs s t") (auto simp: size_step_def local_inv_def move_defs split: if_splits)
next
  case (stop t s s')
  then show ?case by (cases "pcs s t") (auto simp: stop_step_def local_inv_def move_defs split: if_splits)
next
  case (spurious s t)
  then show ?case by (intro local_inv_goto_other) auto
qed (auto intro: local_inv_pop local_inv_push local_inv_flush)

lemma notify_none_waiting: "pcs (goto t CallDone (notify_all s)) u \<noteq> PopWaiting"
  by (simp add: goto_def notify_all_def)

lemma wakeup_inv_move:
  assumes inv: "wakeup_inv s" and "pcs s t \<noteq> PushNotify" and "pcs s' = (pcs s)(t := p)"
    and "p = PopWaiting \<Longrightarrow> q s' = []" and "q s = [] \<Longrightarrow> q s' = [] \<or> p = PushNotify"
  shows "wakeup_inv s'"
  unfolding wakeup_inv_def
proof
  assume "\<exists>u. pcs s' u = PopWaiting"
  then obtain u where u: "pcs s' u = PopWaiting" by blast
  show "q s' = [] \<or> (\<exists>u. pcs s' u = PushNotify)"
  proof (cases "u = t")
    case True
    with u assms(3,4) show ?thesis by simp
  next
    case False
    with u assms(3) have "pcs s u = PopWaiting" by simp
    with inv consider "q s = []" | v where "pcs s v = PushNotify" unfolding wakeup_inv_def by blast
    then show ?thesis
    proof cases
      case 1
      then show ?thesis using assms(3,5) by auto
    next
      case 2
      then have "pcs s' v = PushNotify" using assms(2,3) by auto
      then show ?thesis by blast
    qed
  qed
qed

lemma wakeup_inv_step:
  "qstep s s' \<Longrightarrow> wakeup_inv s \<Longrightarrow> local_inv s \<Longrightarrow> wakeup_inv s'"
proof (induction rule: qstep.induct)
  case (start s t c)
  have "pcs s t \<noteq> PushNotify" using start(1) by auto
  moreover have "enter c \<noteq> PopWaiting" by (cases c) auto
  ultimately show ?case using start(2)
    by (intro wakeup_inv_move [of s t "goto t (enter c) s" "enter c"]) (auto simp: goto_def)
next
  case (pop t s s')
  then have "q s = []" if "pcs s t = PopAboutToWait" using that by (auto simp: local_inv_def)
  with pop show ?case
    by (intro wakeup_inv_move [of s t s' "pcs s' t"])
      (auto simp: pop_step_def move_defs fun_eq_iff split: pc.splits if_splits list.splits)
next
  case (push t s s')
  show ?case
  proof (cases "pcs s t = PushNotify")
    case True
    with push(1) have "s' = goto t CallDone (notify_all s)" by (simp add: push_step_def)
    then show ?thesis by (simp add: wakeup_inv_def notify_none_waiting)
  next
    case False
    with push show ?thesis
      by (intro wakeup_inv_move [of s t s' "pcs s' t"])
        (auto simp: push_step_def move_defs fun_eq_iff split: pc.splits if_splits)
  qed
next
  case (flush t s s')
  then show ?case
    by (intro wakeup_inv_move [of s t s' "pcs s' t"])
      (auto simp: flush_step_def move_defs fun_eq_iff split: pc.splits if_splits)
next
  case (size t s s')
  then show ?case
    by (intro wakeup_inv_move [of s t s' "pcs s' t"])
      (auto simp: size_step_def move_defs fun_eq_iff split: pc.splits if_splits)
next
  case (stop t s s')
  show ?case
  proof (cases "pcs s t = StopNotify")
    case True
    with stop(1) have "s' = goto t CallDone (notify_all s)" by (simp add: stop_step_def)
    then show ?thesis by (simp add: wakeup_inv_def notify_none_waiting)
  next
    case False
    with stop show ?thesis
      by (intro wakeup_inv_move [of s t s' "pcs s' t"])
        (auto simp: stop_step_def move_defs fun_eq_iff split: pc.splits if_splits)
  qed
next
  case (spurious s t)
  then show ?case
    by (intro wakeup_inv_move [of s t "goto t PopRelock s" PopRelock]) (auto simp: goto_def)
qed

section \<open>What the queue guarantees\<close>

lemma reachable_inv: "reachable s \<Longrightarrow> mutex_inv s \<and> local_inv s \<and> fifo_inv s \<and> wakeup_inv s"
proof (induction rule: reachable.induct)
  case init
  show ?case by (auto simp: q_init_def mutex_inv_def local_inv_def fifo_inv_def wakeup_inv_def)
next
  case (step s s')
  then show ?case using mutex_inv_step local_inv_step fifo_inv_step wakeup_inv_step by blast
qed



text \<open>
  No wake-up of a push is lost: while a thread waits in \<open>pop\<close> and the queue
  is not empty, the push that made it non-empty has its notification still to come.
\<close>

theorem push_wakes_waiters:
  assumes "reachable s" and "pcs s t = PopWaiting" and "q s \<noteq> []"
  shows "\<exists>u s'. pcs s u = PushNotify \<and> push_step u s = Some s' \<and> pcs s' t = PopRelock"
proof -
  from reachable_inv [OF assms(1)] assms(2,3) obtain u where u: "pcs s u = PushNotify"
    by (auto simp: wakeup_inv_def)
  with assms(2) have "t \<noteq> u" by auto
  with u assms(2) show ?thesis
    by (auto simp: push_step_def goto_def notify_all_def intro!: exI [of _ u])
qed

text \<open>
  A \<open>pop\<close> that enters its critical section after the queue was stopped
  returns true at once and takes nothing.
\<close>

lemma pop_after_stop:
  assumes "is_stopped s" and "pcs s t = PopEnter" and "mtx_owner s = None"
  shows "\<exists>s1 s2. pop_step t s = Some s1 \<and> pop_step t s1 = Some s2 \<and> pcs s2 t = PopDone None
    \<and> q s2 = q s \<and> removed s2 = removed s \<and> mtx_owner s2 = None"
  using assms by (simp add: pop_step_def acquire_def goto_def release_def)

lemma steps_intro:
  assumes "reachable s"
  shows "pop_step t s = Some s' \<Longrightarrow> reachable s'" and "push_step t s = Some s' \<Longrightarrow> reachable s'"
    and "stop_step t s = Some s' \<Longrightarrow> reachable s'" and "finished (pcs s t) \<Longrightarrow> reachable (goto t (enter c) s)"
  using assms by (auto intro: reachable.step qstep.intros)

lemmas run_defs = pop_step_def push_step_def stop_step_def acquire_def release_def notify_all_def goto_def q_init_def

text \<open>Two runs: thread 0 is about to wait; thread 0 waits while thread 1 is about to notify.\<close>

lemma reach_about_to_wait:
  "reachable (q_init\<lparr>mtx_owner := Some 0, pcs := (\<lambda>_. Idle)(0 := PopAboutToWait)\<rparr> :: 'a qstate)"
proof -
  have 1: "reachable (q_init\<lparr>pcs := (\<lambda>_. Idle)(0 := PopEnter)\<rparr> :: 'a qstate)"
    using steps_intro(4) [OF reachable.init, of 0 Pop] by (simp add: run_defs)
  have 2: "reachable (q_init\<lparr>mtx_owner := Some 0, pcs := (\<lambda>_. Idle)(0 := PopCheck)\<rparr> :: 'a qstate)"
    using steps_intro(1) [OF 1, of 0] by (simp add: run_defs)
  have 3: "reachable (q_init\<lparr>mtx_owner := Some 0, pcs := (\<lambda>_. Idle)(0 := PopLoop)\<rparr> :: 'a qstate)"
    using steps_intro(1) [OF 2, of 0] by (simp add: run_defs)
  have 4: "reachable (q_init\<lparr>mtx_owner := Some 0, pcs := (\<lambda>_. Idle)(0 := PopLoopStop)\<rparr> :: 'a qstate)"
    using steps_intro(1) [OF 3, of 0] by (simp add: run_defs)
  show ?thesis using steps_intro(1) [OF 4, of 0] by (simp add: run_defs)
qed

lemma reach_push_notify:
  "reachable (q_init\<lparr>q := [x], pushed := [x], pcs := (\<lambda>_. Idle)(0 := PopWaiting, 1 := PushNotify)\<rparr>)"
proof -
  have 1: "reachable (q_init\<lparr>pcs := (\<lambda>_. Idle)(0 := PopWaiting)\<rparr> :: 'a qstate)"
    using steps_intro(1) [OF reach_about_to_wait, of 0] by (simp add: run_defs)
  have 2: "reachable (q_init\<lparr>pcs := (\<lambda>_. Idle)(0 := PopWaiting, 1 := PushEnter x)\<rparr>)"
    using steps_intro(4) [OF 1, of 1 "Push x"] by (simp add: run_defs)
  have 3: "reachable (q_init\<lparr>mtx_owner := Some 1, pcs := (\<lambda>_. Idle)(0 := PopWaiting, 1 := PushHolds x)\<rparr>)"
    using steps_intro(2) [OF 2, of 1] by (simp add: run_defs)
  show ?thesis using steps_intro(2) [OF 3, of 1] by (simp add: run_defs)
qed

theorem push_wakes_waiters_witness:
  "\<exists>u s'. push_step u (q_init\<lparr>q := [5 :: nat], pushed := [5], pcs := (\<lambda>_. Idle)(0 := PopWaiting, 1 := PushNotify)\<rparr>) = Some s'
    \<and> pcs s' 0 = PopRelock"
  using push_wakes_waiters [OF reach_push_notify [of "5 :: nat"], of 0] by auto

text \<open>
  C33: \<open>stop\<close> sets the flag without holding the mutex, so its notification can fall
  between the test of the flag in \<open>pop\<close> and the wait. There is a run after which the
  queue is stopped and empty, every other thread is done, and the thread in \<open>pop\<close> waits
  with no statement of any thread left to wake it.
\<close>

theorem stop_lost_wakeup:
  "\<exists>s :: 'a qstate. reachable s \<and> is_stopped s \<and> pcs s 0 = PopWaiting \<and> (\<forall>t. t = 0 \<or> finished (pcs s t))
    \<and> (\<forall>t. pop_step t s = None \<and> push_step t s = None \<and> flush_step t s = None
         \<and> size_step t s = None \<and> stop_step t s = None)"
proof -
  let ?pc = "\<lambda>p r. (\<lambda>_. Idle)(0 := p, 1 := r) :: nat \<Rightarrow> 'a pc"
  have 1: "reachable (q_init\<lparr>mtx_owner := Some 0, pcs := ?pc PopAboutToWait StopEnter\<rparr>)"
    using steps_intro(4) [OF reach_about_to_wait, of 1 Stop] by (simp add: run_defs)
  have 2: "reachable (q_init\<lparr>mtx_owner := Some 0, is_stopped := True, pcs := ?pc PopAboutToWait StopNotify\<rparr>)"
    using steps_intro(3) [OF 1, of 1] by (simp add: run_defs)
  have eq: "goto 1 CallDone (notify_all (q_init\<lparr>mtx_owner := Some 0, is_stopped := True, pcs := ?pc PopAboutToWait StopNotify\<rparr>))
      = q_init\<lparr>mtx_owner := Some 0, is_stopped := True, pcs := ?pc PopAboutToWait CallDone\<rparr>"
    by (simp add: goto_def notify_all_def q_init_def fun_eq_iff)
  have 3: "reachable (q_init\<lparr>mtx_owner := Some 0, is_stopped := True, pcs := ?pc PopAboutToWait CallDone\<rparr>)"
    by (rule steps_intro(3) [OF 2, of 1]) (simp add: stop_step_def eq [simplified])
  have "reachable (q_init\<lparr>is_stopped := True, pcs := ?pc PopWaiting CallDone\<rparr>)" (is "reachable ?s")
    using steps_intro(1) [OF 3, of 0] by (simp add: run_defs fun_upd_twist)
  moreover have "pop_step t ?s = None \<and> push_step t ?s = None \<and> flush_step t ?s = None
      \<and> size_step t ?s = None \<and> stop_step t ?s = None" for t
    by (simp add: step_defs)
  ultimately show ?thesis by (intro exI [of _ ?s]) simp
qed

text \<open>
  A \<open>pop\<close> that was waiting when an element was pushed and the queue then
  stopped still returns that element with the result false; the comment says that a pop on a
  stopped queue returns true with no element set.
\<close>

theorem pop_returns_after_stop:
  "\<exists>s s1 s2 s3. reachable s \<and> is_stopped s \<and> pcs s 0 = PopRelock
    \<and> pop_step 0 s = Some s1 \<and> pop_step 0 s1 = Some s2 \<and> pop_step 0 s2 = Some s3
    \<and> pcs s3 0 = PopDone (Some x)"
proof -
  let ?pc = "\<lambda>r. (\<lambda>_. Idle)(0 := PopRelock, 1 := r)"
  have eq: "goto 1 CallDone (notify_all (q_init\<lparr>q := [x], pushed := [x], pcs := (\<lambda>_. Idle)(0 := PopWaiting, 1 := PushNotify)\<rparr>))
      = q_init\<lparr>q := [x], pushed := [x], pcs := ?pc CallDone\<rparr>"
    by (simp add: goto_def notify_all_def q_init_def fun_eq_iff)
  have 1: "reachable (q_init\<lparr>q := [x], pushed := [x], pcs := ?pc CallDone\<rparr>)"
    by (rule steps_intro(2) [OF reach_push_notify [of x], of 1]) (simp add: push_step_def eq [simplified])
  have 2: "reachable (q_init\<lparr>q := [x], pushed := [x], pcs := ?pc StopEnter\<rparr>)"
    using steps_intro(4) [OF 1, of 1 Stop] by (simp add: run_defs)
  have "reachable (q_init\<lparr>q := [x], pushed := [x], is_stopped := True, pcs := ?pc StopNotify\<rparr>)" (is "reachable ?s")
    using steps_intro(3) [OF 2, of 1] by (simp add: run_defs)
  then show ?thesis by - (rule exI [of _ ?s], simp add: run_defs)
qed

end
