(* ===== verification/StdMap.thy ===== *)
theory StdMap
  imports Prelude
begin

text \<open>
  The operations of \<open>std::map\<close> the sources use: an association list kept in
  strictly increasing key order, which is the order of its iterator. What it stands for is
  \<open>map_of\<close> of the list.
\<close>

type_synonym ('k, 'v) std_map = "('k \<times> 'v) list"

fun sm_put :: "'k::linorder \<Rightarrow> 'v \<Rightarrow> ('k, 'v) std_map \<Rightarrow> ('k, 'v) std_map" where
  "sm_put k v [] = [(k, v)]"
| "sm_put k v ((k', v') # m) =
     (if k < k' then (k, v) # (k', v') # m else if k = k' then (k, v) # m else (k', v') # sm_put k v m)"

definition sm_count :: "'k \<Rightarrow> ('k, 'v) std_map \<Rightarrow> nat" where
  "sm_count k m = (if map_of m k = None then 0 else 1)"

text \<open>\<open>insert\<close> keeps an existing value; \<open>operator[]\<close> as an rvalue inserts a default one.\<close>

definition sm_insert :: "'k::linorder \<Rightarrow> 'v \<Rightarrow> ('k, 'v) std_map \<Rightarrow> ('k, 'v) std_map" where
  "sm_insert k v m = (if sm_count k m = 0 then sm_put k v m else m)"

definition sm_index :: "'v \<Rightarrow> 'k::linorder \<Rightarrow> ('k, 'v) std_map \<Rightarrow> 'v \<times> ('k, 'v) std_map" where
  "sm_index dflt k m = (case map_of m k of Some v \<Rightarrow> (v, m) | None \<Rightarrow> (dflt, sm_put k dflt m))"

definition sm_erase :: "'k \<Rightarrow> ('k, 'v) std_map \<Rightarrow> ('k, 'v) std_map" where
  "sm_erase k m = filter (\<lambda>(k', _). k' \<noteq> k) m"

definition sm_wf :: "('k::linorder, 'v) std_map \<Rightarrow> bool" where
  "sm_wf m \<longleftrightarrow> sorted_wrt (<) (map fst m)"

lemma sm_wf_Nil [simp]: "sm_wf []"
  by (simp add: sm_wf_def)

lemma fst_set_sm_put [simp]: "fst ` set (sm_put k v m) = insert k (fst ` set m)"
proof (induction m)
  case (Cons p m)
  obtain k' v' where "p = (k', v')" by (cases p)
  with Cons.IH show ?case by (simp add: insert_commute)
qed simp

lemma sm_wf_put [simp]: "sm_wf m \<Longrightarrow> sm_wf (sm_put k v m)"
proof (induction m)
  case (Cons p m)
  obtain k' v' where p: "p = (k', v')" by (cases p)
  from Cons.prems p have wf: "sm_wf m" and lt: "\<forall>x \<in> fst ` set m. k' < x"
    by (auto simp: sm_wf_def)
  have "\<forall>x \<in> fst ` set (sm_put k v m). k' < x" if "k' < k"
    using that lt by auto
  with Cons.IH [OF wf] wf lt p show ?case
    by (auto simp: sm_wf_def not_less_iff_gr_or_eq intro: less_trans)
qed (simp add: sm_wf_def)

lemma map_of_sm_put: "sm_wf m \<Longrightarrow> map_of (sm_put k v m) = (map_of m)(k \<mapsto> v)"
  by (induction m) (auto simp: sm_wf_def fun_eq_iff)

lemma sm_count_0 [simp]: "sm_count k m = 0 \<longleftrightarrow> map_of m k = None"
  by (simp add: sm_count_def)

lemma sm_insert_new [simp]: "map_of m k = None \<Longrightarrow> sm_insert k v m = sm_put k v m"
  by (simp add: sm_insert_def)

lemma sm_index_present [simp]: "map_of m k = Some v \<Longrightarrow> sm_index d k m = (v, m)"
  by (simp add: sm_index_def)

lemma sm_wf_erase [simp]: "sm_wf m \<Longrightarrow> sm_wf (sm_erase k m)"
  by (induction m) (auto simp: sm_wf_def sm_erase_def)

lemma map_of_sm_erase: "map_of (sm_erase k m) = (map_of m)(k := None)"
  by (induction m) (auto simp: sm_erase_def fun_eq_iff)

lemma sm_wf_distinct: "sm_wf m \<Longrightarrow> distinct (map fst m)"
  by (simp add: sm_wf_def strict_sorted_iff)

end
