(* ===== verification/KvStore.thy ===== *)
theory KvStore
  imports StdMap
begin

text \<open>
  The abstract class \<open>KvStore\<close> (\<open>kvstore/kvstore/kvstore.hpp\<close>) as a record of
  its virtual methods, the contract every implementation is meant to satisfy as a locale over
  a finite map, and the first implementation, \<open>SimpleKvStore\<close>
  (\<open>simple_kvstore.hpp\<close>, \<open>simple_kvstore.cpp\<close>): a \<open>std::map\<close> behind one
  mutex.

  A method takes the members of its request and the current contents of its response, and
  returns its boolean result, the response and the new state. A call that waits for a mutex
  that is already held is \<open>Inl Blocks\<close>: no other thread will release it during the call
  unless it is holding it in the middle of an operation, which the step relation of the theory
  \<open>Locking\<close> describes.
\<close>

section \<open>The interface\<close>

record 's kvstore =
  Get :: "string \<Rightarrow> string \<Rightarrow> 's \<Rightarrow> ((bool \<times> string) \<times> 's) cpp"
  Put :: "string \<Rightarrow> string \<Rightarrow> 's \<Rightarrow> (bool \<times> 's) cpp"
  Append :: "string \<Rightarrow> string \<Rightarrow> 's \<Rightarrow> (bool \<times> 's) cpp"
  Delete :: "string \<Rightarrow> string \<Rightarrow> 's \<Rightarrow> ((bool \<times> string) \<times> 's) cpp"
  MultiGet :: "string list \<Rightarrow> string list \<Rightarrow> 's \<Rightarrow> ((bool \<times> string list) \<times> 's) cpp"
  MultiPut :: "string list \<Rightarrow> string list \<Rightarrow> 's \<Rightarrow> (bool \<times> 's) cpp"
  AllKeys :: "'s \<Rightarrow> (string list \<times> 's) cpp"

type_synonym kv_map = "string \<rightharpoonup> string"

definition value_or :: "string \<Rightarrow> string option \<Rightarrow> string" where
  "value_or r v = (case v of None \<Rightarrow> r | Some w \<Rightarrow> w)"

definition appended :: "kv_map \<Rightarrow> string \<Rightarrow> string \<Rightarrow> kv_map" where
  "appended m k v = m(k \<mapsto> value_or [] (m k) @ v)"

lemma map_upds_nth:
  "length ks = length vs \<Longrightarrow> distinct ks \<Longrightarrow> i < length ks \<Longrightarrow> (m(ks [\<mapsto>] vs)) (ks ! i) = Some (vs ! i)"
proof (induction ks vs arbitrary: m i rule: list_induct2)
  case (Cons k ks v vs)
  show ?case
  proof (cases i)
    case 0
    with Cons.prems show ?thesis by (simp add: map_upds_apply_nontin)
  next
    case (Suc j)
    with Cons.prems Cons.hyps Cons.IH [of j "m(k \<mapsto> v)"] show ?thesis
      by (simp only: map_upds_Cons nth_Cons_Suc distinct.simps length_Cons Suc_less_eq)
  qed
qed simp

locale kvstore_contract =
  fixes ops :: "'s kvstore" and abs :: "'s \<Rightarrow> kv_map" and inv :: "'s \<Rightarrow> bool"
  assumes get_ok: "inv s \<Longrightarrow>
      \<exists>s'. Get ops k r s = Inr ((abs s k \<noteq> None, value_or r (abs s k)), s') \<and> inv s' \<and> abs s' = abs s"
    and put_ok: "inv s \<Longrightarrow> \<exists>s'. Put ops k v s = Inr (True, s') \<and> inv s' \<and> abs s' = (abs s)(k \<mapsto> v)"
    and append_ok: "inv s \<Longrightarrow> \<exists>s'. Append ops k v s = Inr (True, s') \<and> inv s' \<and> abs s' = appended (abs s) k v"
    and delete_ok: "inv s \<Longrightarrow>
      \<exists>s'. Delete ops k r s = Inr ((abs s k \<noteq> None, value_or r (abs s k)), s')
        \<and> inv s' \<and> abs s' = (abs s)(k := None)"
    and multi_get_ok: "inv s \<Longrightarrow> set ks \<subseteq> dom (abs s) \<Longrightarrow>
      \<exists>s'. MultiGet ops ks rs s = Inr ((True, rs @ map (\<lambda>k. the (abs s k)) ks), s') \<and> inv s' \<and> abs s' = abs s"
    and multi_put_ok: "inv s \<Longrightarrow>
      \<exists>s'. MultiPut ops ks vs s = Inr (length ks = length vs, s') \<and> inv s'
        \<and> abs s' = (if length ks = length vs then (abs s)(ks [\<mapsto>] vs) else abs s)"
    and all_keys_ok: "inv s \<Longrightarrow>
      \<exists>ks s'. AllKeys ops s = Inr (ks, s') \<and> distinct ks \<and> set ks = dom (abs s) \<and> inv s' \<and> abs s' = abs s"
begin

lemma put_then_get:
  assumes "inv s"
  shows "\<exists>s1 s2. Put ops k v s = Inr (True, s1) \<and> Get ops k' r s1
    = Inr ((k' = k \<or> abs s k' \<noteq> None, if k' = k then v else value_or r (abs s k')), s2) \<and> inv s2"
proof -
  obtain s1 where 1: "Put ops k v s = Inr (True, s1)" "inv s1" "abs s1 = (abs s)(k \<mapsto> v)"
    using put_ok [OF assms] by blast
  obtain s2 where "Get ops k' r s1 = Inr ((abs s1 k' \<noteq> None, value_or r (abs s1 k')), s2)" "inv s2"
    using get_ok [OF 1(2)] by blast
  with 1 show ?thesis by (auto simp: value_or_def)
qed

lemma delete_then_get:
  assumes "inv s"
  shows "\<exists>b v s1 s2. Delete ops k r s = Inr ((b, v), s1) \<and> Get ops k q s1 = Inr ((False, q), s2) \<and> inv s2"
proof -
  obtain s1 where 1: "Delete ops k r s = Inr ((abs s k \<noteq> None, value_or r (abs s k)), s1)" "inv s1"
    "abs s1 = (abs s)(k := None)"
    using delete_ok [OF assms] by blast
  obtain s2 where "Get ops k q s1 = Inr ((abs s1 k \<noteq> None, value_or q (abs s1 k)), s2)" "inv s2"
    using get_ok [OF 1(2)] by blast
  with 1 show ?thesis by (simp add: value_or_def)
qed

lemma multi_put_then_multi_get:
  assumes "inv s" and "length ks = length vs" and "distinct ks"
  shows "\<exists>s1 s2. MultiPut ops ks vs s = Inr (True, s1) \<and> MultiGet ops ks [] s1 = Inr ((True, vs), s2) \<and> inv s2"
proof -
  obtain s1 where 1: "MultiPut ops ks vs s = Inr (True, s1)" "inv s1" "abs s1 = (abs s)(ks [\<mapsto>] vs)"
    using multi_put_ok [OF assms(1), of ks vs] assms(2) by auto
  have look: "((abs s)(ks [\<mapsto>] vs)) (ks ! i) = Some (vs ! i)" if "i < length ks" for i
    using that assms(2,3) by (simp add: map_upds_nth)
  have "set ks \<subseteq> dom (abs s1)" using look unfolding 1(3) by (metis domI in_set_conv_nth subsetI)
  from multi_get_ok [OF 1(2) this, of "[]"] obtain s2
    where "MultiGet ops ks [] s1 = Inr ((True, map (\<lambda>k. the (abs s1 k)) ks), s2)" "inv s2"
    by auto
  moreover have "map (\<lambda>k. the (abs s1 k)) ks = vs"
    using assms(2) look by (simp add: list_eq_iff_nth_eq 1(3))
  ultimately show ?thesis using 1(1) by auto
qed

end

text \<open>
  The rest of the contract: a \<open>MultiGet\<close> with a missing key returns false and leaves
  the store usable.
\<close>

locale kvstore_total = kvstore_contract +
  assumes multi_get_missing: "inv s \<Longrightarrow> \<not> set ks \<subseteq> dom (abs s) \<Longrightarrow>
      \<exists>rs' s'. MultiGet ops ks rs s = Inr ((False, rs'), s') \<and> inv s' \<and> abs s' = abs s"
begin

lemma multi_get_total:
  assumes "inv s"
  shows "\<exists>r' s'. MultiGet ops ks r s = Inr ((set ks \<subseteq> dom (abs s), r'), s') \<and> inv s' \<and> abs s' = abs s"
proof (cases "set ks \<subseteq> dom (abs s)")
  case True
  with multi_get_ok [OF assms this, of r] show ?thesis by auto
next
  case False
  with multi_get_missing [OF assms this, of r] show ?thesis by auto
qed

end

section \<open>SimpleKvStore\<close>

record simple_kvstore =
  KeyValueMap :: "(string, string) std_map"
  mutex_1 :: bool

definition simple_lock :: "simple_kvstore \<Rightarrow> simple_kvstore cpp" where
  "simple_lock s = (if mutex_1 s then Inl Blocks else Inr (s\<lparr>mutex_1 := True\<rparr>))"

definition simple_unlock :: "simple_kvstore \<Rightarrow> simple_kvstore cpp" where
  "simple_unlock s = (if mutex_1 s then Inr (s\<lparr>mutex_1 := False\<rparr>) else Inl Undefined)"

definition simple_get :: "string \<Rightarrow> string \<Rightarrow> simple_kvstore \<Rightarrow> ((bool \<times> string) \<times> simple_kvstore) cpp" where
  "simple_get key r s =
     bindE (simple_lock s) (\<lambda>s.
       if sm_count key (KeyValueMap s) = 0
       then bindE (simple_unlock s) (\<lambda>s. Inr ((False, r), s))
       else (case sm_index [] key (KeyValueMap s) of (v, m) \<Rightarrow>
         bindE (simple_unlock (s\<lparr>KeyValueMap := m\<rparr>)) (\<lambda>s. Inr ((True, v), s))))"

definition simple_put :: "string \<Rightarrow> string \<Rightarrow> simple_kvstore \<Rightarrow> (bool \<times> simple_kvstore) cpp" where
  "simple_put key val s =
     bindE (simple_lock s) (\<lambda>s.
       let s = (if sm_count key (KeyValueMap s) = 0
                then s\<lparr>KeyValueMap := sm_insert key val (KeyValueMap s)\<rparr>
                else s\<lparr>KeyValueMap := sm_put key val (KeyValueMap s)\<rparr>)
       in bindE (simple_unlock s) (\<lambda>s. Inr (True, s)))"

definition simple_append :: "string \<Rightarrow> string \<Rightarrow> simple_kvstore \<Rightarrow> (bool \<times> simple_kvstore) cpp" where
  "simple_append key val s =
     bindE (simple_lock s) (\<lambda>s.
       let s = (if sm_count key (KeyValueMap s) = 0
                then s\<lparr>KeyValueMap := sm_insert key val (KeyValueMap s)\<rparr>
                else (case sm_index [] key (KeyValueMap s) of (v, m) \<Rightarrow>
                  s\<lparr>KeyValueMap := sm_put key (v @ val) m\<rparr>))
       in bindE (simple_unlock s) (\<lambda>s. Inr (True, s)))"

definition simple_delete :: "string \<Rightarrow> string \<Rightarrow> simple_kvstore \<Rightarrow> ((bool \<times> string) \<times> simple_kvstore) cpp" where
  "simple_delete key r s =
     bindE (simple_lock s) (\<lambda>s.
       if sm_count key (KeyValueMap s) = 0
       then bindE (simple_unlock s) (\<lambda>s. Inr ((False, r), s))
       else (case sm_index [] key (KeyValueMap s) of (v, m) \<Rightarrow>
         bindE (simple_unlock (s\<lparr>KeyValueMap := sm_erase key m\<rparr>)) (\<lambda>s. Inr ((True, v), s))))"

fun simple_multi_get_loop ::
    "string list \<Rightarrow> bool \<Rightarrow> string list \<Rightarrow> (string, string) std_map \<Rightarrow> (bool \<times> string list \<times> (string, string) std_map)"
where
  "simple_multi_get_loop [] ifGet r m = (ifGet, r, m)"
| "simple_multi_get_loop (k # ks) ifGet r m =
     (if sm_count k m \<noteq> 0
      then (case sm_index [] k m of (v, m) \<Rightarrow> simple_multi_get_loop ks ifGet (r @ [v]) m)
      else simple_multi_get_loop ks False r m)"

definition simple_multi_get ::
    "string list \<Rightarrow> string list \<Rightarrow> simple_kvstore \<Rightarrow> ((bool \<times> string list) \<times> simple_kvstore) cpp" where
  "simple_multi_get keys r s =
     bindE (simple_lock s) (\<lambda>s.
       case simple_multi_get_loop keys True r (KeyValueMap s) of (ifGet, r, m) \<Rightarrow>
         bindE (simple_unlock (s\<lparr>KeyValueMap := m\<rparr>)) (\<lambda>s. Inr ((ifGet, r), s)))"

fun simple_multi_put_loop :: "string list \<Rightarrow> string list \<Rightarrow> (string, string) std_map \<Rightarrow> (string, string) std_map cpp"
where
  "simple_multi_put_loop [] vs m = Inr m"
| "simple_multi_put_loop (k # ks) [] m = Inl OutOfBounds"
| "simple_multi_put_loop (k # ks) (v # vs) m =
     simple_multi_put_loop ks vs (if sm_count k m \<noteq> 0 then sm_put k v m else sm_insert k v m)"

definition simple_multi_put :: "string list \<Rightarrow> string list \<Rightarrow> simple_kvstore \<Rightarrow> (bool \<times> simple_kvstore) cpp" where
  "simple_multi_put keys vals s =
     bindE (simple_lock s) (\<lambda>s.
       if length keys \<noteq> length vals
       then bindE (simple_unlock s) (\<lambda>s. Inr (False, s))
       else bindE (simple_multi_put_loop keys vals (KeyValueMap s)) (\<lambda>m.
         bindE (simple_unlock (s\<lparr>KeyValueMap := m\<rparr>)) (\<lambda>s. Inr (True, s))))"

definition simple_all_keys :: "simple_kvstore \<Rightarrow> (string list \<times> simple_kvstore) cpp" where
  "simple_all_keys s =
     bindE (simple_lock s) (\<lambda>s. bindE (simple_unlock s) (\<lambda>s. Inr (map fst (KeyValueMap s), s)))"

definition SimpleKvStore :: "simple_kvstore kvstore" where
  "SimpleKvStore = \<lparr>Get = simple_get, Put = simple_put, Append = simple_append, Delete = simple_delete,
     MultiGet = simple_multi_get, MultiPut = simple_multi_put, AllKeys = simple_all_keys\<rparr>"

definition simple_init :: simple_kvstore where
  "simple_init = \<lparr>KeyValueMap = [], mutex_1 = False\<rparr>"

section \<open>SimpleKvStore satisfies the contract\<close>

definition simple_abs :: "simple_kvstore \<Rightarrow> kv_map" where
  "simple_abs s = map_of (KeyValueMap s)"

definition simple_inv :: "simple_kvstore \<Rightarrow> bool" where
  "simple_inv s \<longleftrightarrow> sm_wf (KeyValueMap s) \<and> \<not> mutex_1 s"

lemmas simple_defs = simple_lock_def simple_unlock_def simple_inv_def simple_abs_def

lemma simple_multi_get_loop_eq:
  "simple_multi_get_loop ks b r m =
     (b \<and> set ks \<subseteq> dom (map_of m), r @ map (\<lambda>k. the (map_of m k)) (filter (\<lambda>k. map_of m k \<noteq> None) ks), m)"
  by (induction ks arbitrary: b r) (auto simp: dom_def)

lemma simple_multi_put_loop_eq:
  "sm_wf m \<Longrightarrow> length ks = length vs \<Longrightarrow>
   \<exists>m'. simple_multi_put_loop ks vs m = Inr m' \<and> sm_wf m' \<and> map_of m' = (map_of m)(ks [\<mapsto>] vs)"
proof (induction ks vs m rule: simple_multi_put_loop.induct)
  case (3 k ks v vs m)
  let ?m = "if sm_count k m \<noteq> 0 then sm_put k v m else sm_insert k v m"
  have m: "?m = sm_put k v m" by simp
  have "map_of ?m = (map_of m)(k \<mapsto> v)" using m 3(2) by (simp only: map_of_sm_put)
  moreover have "sm_wf ?m" using m 3(2) by (simp only: sm_wf_put)
  ultimately obtain m' where "simple_multi_put_loop ks vs ?m = Inr m'" "sm_wf m'"
    "map_of m' = (map_of m)(k \<mapsto> v, ks [\<mapsto>] vs)"
    using 3(1) 3(3) by (metis length_Cons nat.inject)
  then show ?case by (intro exI [of _ m'] conjI) (simp_all only: simple_multi_put_loop.simps map_upds_Cons)
qed auto

interpretation simple: kvstore_total SimpleKvStore simple_abs simple_inv
proof
  fix s k r v
  assume inv: "simple_inv s"
  show "\<exists>s'. Get SimpleKvStore k r s = Inr ((simple_abs s k \<noteq> None, value_or r (simple_abs s k)), s')
      \<and> simple_inv s' \<and> simple_abs s' = simple_abs s"
    using inv by (cases "map_of (KeyValueMap s) k")
      (simp_all add: SimpleKvStore_def simple_get_def simple_defs value_or_def)
  show "\<exists>s'. Put SimpleKvStore k v s = Inr (True, s') \<and> simple_inv s' \<and> simple_abs s' = (simple_abs s)(k \<mapsto> v)"
    using inv by (cases "map_of (KeyValueMap s) k")
      (simp_all add: SimpleKvStore_def simple_put_def simple_defs map_of_sm_put)
  show "\<exists>s'. Append SimpleKvStore k v s = Inr (True, s') \<and> simple_inv s' \<and> simple_abs s' = appended (simple_abs s) k v"
    using inv by (cases "map_of (KeyValueMap s) k")
      (simp_all add: SimpleKvStore_def simple_append_def simple_defs map_of_sm_put appended_def value_or_def)
  show "\<exists>s'. Delete SimpleKvStore k r s = Inr ((simple_abs s k \<noteq> None, value_or r (simple_abs s k)), s')
      \<and> simple_inv s' \<and> simple_abs s' = (simple_abs s)(k := None)"
    using inv by (cases "map_of (KeyValueMap s) k")
      (simp_all add: SimpleKvStore_def simple_delete_def simple_defs map_of_sm_erase value_or_def fun_upd_idem)
next
  fix s ks r
  assume inv: "simple_inv s" and sub: "set ks \<subseteq> dom (simple_abs s)"
  from sub have "filter (\<lambda>k. map_of (KeyValueMap s) k \<noteq> None) ks = ks"
    by (auto simp: filter_id_conv simple_abs_def)
  with inv sub show "\<exists>s'. MultiGet SimpleKvStore ks r s = Inr ((True, r @ map (\<lambda>k. the (simple_abs s k)) ks), s')
      \<and> simple_inv s' \<and> simple_abs s' = simple_abs s"
    by (simp add: SimpleKvStore_def simple_multi_get_def simple_defs simple_multi_get_loop_eq)
next
  fix s ks vs
  assume inv: "simple_inv s"
  then show "\<exists>s'. MultiPut SimpleKvStore ks vs s = Inr (length ks = length vs, s') \<and> simple_inv s'
      \<and> simple_abs s' = (if length ks = length vs then (simple_abs s)(ks [\<mapsto>] vs) else simple_abs s)"
    using simple_multi_put_loop_eq [of "KeyValueMap s" ks vs]
    by (auto simp: SimpleKvStore_def simple_multi_put_def simple_defs)
  show "\<exists>ks s'. AllKeys SimpleKvStore s = Inr (ks, s') \<and> distinct ks \<and> set ks = dom (simple_abs s)
      \<and> simple_inv s' \<and> simple_abs s' = simple_abs s"
    using inv by (simp add: SimpleKvStore_def simple_all_keys_def simple_defs sm_wf_distinct dom_map_of_conv_image_fst)
next
  fix s ks r
  assume "simple_inv s" and "\<not> set ks \<subseteq> dom (simple_abs s)"
  then show "\<exists>r' s'. MultiGet SimpleKvStore ks r s = Inr ((False, r'), s')
      \<and> simple_inv s' \<and> simple_abs s' = simple_abs s"
    by (simp add: SimpleKvStore_def simple_multi_get_def simple_defs simple_multi_get_loop_eq)
qed

end
