(* ===== verification/ConcurrentStore.thy ===== *)
theory ConcurrentStore
  imports KvStore
begin

text \<open>
  \<open>ConcurrentKvStore\<close> (\<open>kvstore/kvstore/concurrent_kvstore.hpp\<close> and
  \<open>.cpp\<close>): a hash table of 60 buckets with one reader-writer mutex per bucket.
  \<open>std::hash\<close> is the parameter \<open>hash\<close>, of which nothing is assumed. The
  calls are sequential here: a lock that is not free makes the call block; the interleaving of
  calls is in the theory \<open>Locking\<close>.
\<close>

section \<open>Definitions\<close>

text \<open>\<open>std::shared_mutex\<close>: free, held by a number of readers, or by one writer.\<close>

datatype shared_mutex = Free | Shared nat | Exclusive

fun sm_lock :: "shared_mutex \<Rightarrow> shared_mutex cpp" where
  "sm_lock Free = Inr Exclusive"
| "sm_lock _ = Inl Blocks"

fun sm_unlock :: "shared_mutex \<Rightarrow> shared_mutex cpp" where
  "sm_unlock Exclusive = Inr Free"
| "sm_unlock _ = Inl Undefined"

fun sm_lock_shared :: "shared_mutex \<Rightarrow> shared_mutex cpp" where
  "sm_lock_shared Free = Inr (Shared 1)"
| "sm_lock_shared (Shared n) = Inr (Shared (Suc n))"
| "sm_lock_shared Exclusive = Inl Blocks"

fun sm_unlock_shared :: "shared_mutex \<Rightarrow> shared_mutex cpp" where
  "sm_unlock_shared (Shared n) = (if n \<le> 1 then Inr Free else Inr (Shared (n - 1)))"
| "sm_unlock_shared _ = Inl Undefined"

record db_item =
  db_key :: string
  db_value :: string

definition BUCKET_COUNT :: nat where
  "BUCKET_COUNT = 60"

record db_map =
  buckets :: "db_item list list"
  mtx :: "shared_mutex list"

definition bucket :: "(string \<Rightarrow> nat) \<Rightarrow> string \<Rightarrow> nat" where
  "bucket hash key = hash key mod BUCKET_COUNT"

fun find_item :: "string \<Rightarrow> db_item list \<Rightarrow> db_item option" where
  "find_item key [] = None"
| "find_item key (it # its) = (if db_key it = key then Some it else find_item key its)"

definition getIfExists :: "nat \<Rightarrow> string \<Rightarrow> db_map \<Rightarrow> db_item option cpp" where
  "getIfExists b key st =
     bindE (assertE (b < BUCKET_COUNT)) (\<lambda>_. bindE (at (buckets st) b) (\<lambda>its. Inr (find_item key its)))"

fun insert_item :: "string \<Rightarrow> string \<Rightarrow> db_item list \<Rightarrow> db_item list" where
  "insert_item key val [] = [\<lparr>db_key = key, db_value = val\<rparr>]"
| "insert_item key val (it # its) =
     (if db_key it = key then it\<lparr>db_value := val\<rparr> # its else it # insert_item key val its)"

definition insertItem :: "nat \<Rightarrow> string \<Rightarrow> string \<Rightarrow> db_map \<Rightarrow> db_map cpp" where
  "insertItem b key val st =
     bindE (assertE (b < BUCKET_COUNT)) (\<lambda>_. bindE (at (buckets st) b) (\<lambda>its.
       Inr (st\<lparr>buckets := (buckets st)[b := insert_item key val its]\<rparr>)))"

definition removeItem :: "nat \<Rightarrow> string \<Rightarrow> db_map \<Rightarrow> (bool \<times> db_map) cpp" where
  "removeItem b key st =
     bindE (assertE (b < BUCKET_COUNT)) (\<lambda>_. bindE (at (buckets st) b) (\<lambda>its.
       let its' = filter (\<lambda>it. db_key it \<noteq> key) its;
           num_removed = length its - length its'
       in Inr (num_removed > 0, st\<lparr>buckets := (buckets st)[b := its']\<rparr>)))"

text \<open>One operation on the mutex of a bucket, and a loop of them over a list of buckets.\<close>

definition on_mtx :: "(shared_mutex \<Rightarrow> shared_mutex cpp) \<Rightarrow> nat \<Rightarrow> shared_mutex list \<Rightarrow> shared_mutex list cpp" where
  "on_mtx f b m = bindE (at m b) (\<lambda>x. bindE (f x) (\<lambda>y. Inr (m[b := y])))"

fun on_all :: "(shared_mutex \<Rightarrow> shared_mutex cpp) \<Rightarrow> nat list \<Rightarrow> shared_mutex list \<Rightarrow> shared_mutex list cpp" where
  "on_all f [] m = Inr m"
| "on_all f (b # bs) m = bindE (on_mtx f b m) (on_all f bs)"

definition mtx_all :: "(shared_mutex \<Rightarrow> shared_mutex cpp) \<Rightarrow> nat list \<Rightarrow> db_map \<Rightarrow> db_map cpp" where
  "mtx_all f bs st = bindE (on_all f bs (mtx st)) (\<lambda>m. Inr (st\<lparr>mtx := m\<rparr>))"

definition cks_get ::
    "(string \<Rightarrow> nat) \<Rightarrow> string \<Rightarrow> string \<Rightarrow> db_map \<Rightarrow> ((bool \<times> string) \<times> db_map) cpp" where
  "cks_get hash key r st =
     (let b = bucket hash key in
      bindE (mtx_all sm_lock_shared [b] st) (\<lambda>st.
      bindE (getIfExists b key st) (\<lambda>ifGet.
      bindE (mtx_all sm_unlock_shared [b] st) (\<lambda>st.
        case ifGet of Some it \<Rightarrow> Inr ((True, db_value it), st) | None \<Rightarrow> Inr ((False, r), st)))))"

definition cks_put :: "(string \<Rightarrow> nat) \<Rightarrow> string \<Rightarrow> string \<Rightarrow> db_map \<Rightarrow> (bool \<times> db_map) cpp" where
  "cks_put hash key val st =
     (let b = bucket hash key in
      bindE (mtx_all sm_lock [b] st) (\<lambda>st.
      bindE (insertItem b key val st) (\<lambda>st.
      bindE (mtx_all sm_unlock [b] st) (\<lambda>st. Inr (True, st)))))"

definition cks_append :: "(string \<Rightarrow> nat) \<Rightarrow> string \<Rightarrow> string \<Rightarrow> db_map \<Rightarrow> (bool \<times> db_map) cpp" where
  "cks_append hash key val st =
     (let b = bucket hash key in
      bindE (mtx_all sm_lock [b] st) (\<lambda>st.
      bindE (getIfExists b key st) (\<lambda>ifGet.
      let finalValue = (case ifGet of None \<Rightarrow> val | Some it \<Rightarrow> db_value it @ val) in
      bindE (insertItem b key finalValue st) (\<lambda>st.
      bindE (mtx_all sm_unlock [b] st) (\<lambda>st. Inr (True, st))))))"

definition cks_delete ::
    "(string \<Rightarrow> nat) \<Rightarrow> string \<Rightarrow> string \<Rightarrow> db_map \<Rightarrow> ((bool \<times> string) \<times> db_map) cpp" where
  "cks_delete hash key r st =
     (let b = bucket hash key in
      bindE (mtx_all sm_lock [b] st) (\<lambda>st.
      bindE (getIfExists b key st) (\<lambda>ifGet.
      bindE (removeItem b key st) (\<lambda>(removed, st).
      bindE (mtx_all sm_unlock [b] st) (\<lambda>st.
        if \<not> removed then Inr ((False, r), st)
        else (case ifGet of Some it \<Rightarrow> Inr ((True, db_value it), st) | None \<Rightarrow> Inl Undefined))))))"

text \<open>\<open>std::sort\<close>, \<open>std::unique\<close> and \<open>erase\<close> on the bucket numbers of the keys.\<close>

definition bucket_nums :: "(string \<Rightarrow> nat) \<Rightarrow> string list \<Rightarrow> nat list" where
  "bucket_nums hash keys = remdups_adj (sort (map (bucket hash) keys))"

fun cks_multi_get_loop ::
    "(string \<Rightarrow> nat) \<Rightarrow> string list \<Rightarrow> string list \<Rightarrow> db_map \<Rightarrow> (bool \<times> string list) cpp" where
  "cks_multi_get_loop hash [] r st = Inr (True, r)"
| "cks_multi_get_loop hash (k # ks) r st =
     bindE (getIfExists (bucket hash k) k st) (\<lambda>opt.
       case opt of None \<Rightarrow> Inr (False, r)
       | Some it \<Rightarrow> cks_multi_get_loop hash ks (r @ [db_value it]) st)"

text \<open>The early return of the loop skips the loop that unlocks.\<close>

definition cks_multi_get ::
    "(string \<Rightarrow> nat) \<Rightarrow> string list \<Rightarrow> string list \<Rightarrow> db_map \<Rightarrow> ((bool \<times> string list) \<times> db_map) cpp" where
  "cks_multi_get hash keys r st =
     (let bs = bucket_nums hash keys in
      bindE (mtx_all sm_lock_shared bs st) (\<lambda>st.
      bindE (cks_multi_get_loop hash keys r st) (\<lambda>(ok, r).
        if \<not> ok then Inr ((False, r), st)
        else bindE (mtx_all sm_unlock_shared bs st) (\<lambda>st. Inr ((True, r), st)))))"

fun cks_multi_put_loop ::
    "(string \<Rightarrow> nat) \<Rightarrow> string list \<Rightarrow> string list \<Rightarrow> db_map \<Rightarrow> db_map cpp" where
  "cks_multi_put_loop hash [] vs st = Inr st"
| "cks_multi_put_loop hash (k # ks) [] st = Inl OutOfBounds"
| "cks_multi_put_loop hash (k # ks) (v # vs) st =
     bindE (getIfExists (bucket hash k) k st) (\<lambda>opt.
     bindE (insertItem (bucket hash k) k v st) (cks_multi_put_loop hash ks vs))"

definition cks_multi_put ::
    "(string \<Rightarrow> nat) \<Rightarrow> string list \<Rightarrow> string list \<Rightarrow> db_map \<Rightarrow> (bool \<times> db_map) cpp" where
  "cks_multi_put hash keys vals st =
     (if length keys \<noteq> length vals then Inr (False, st)
      else
        let bs = bucket_nums hash keys in
        bindE (mtx_all sm_lock bs st) (\<lambda>st.
        bindE (cks_multi_put_loop hash keys vals st) (\<lambda>st.
        bindE (mtx_all sm_unlock bs st) (\<lambda>st. Inr (True, st)))))"

fun cks_all_keys_loop :: "nat list \<Rightarrow> string list \<Rightarrow> db_map \<Rightarrow> (string list \<times> db_map) cpp" where
  "cks_all_keys_loop [] r st = Inr (r, st)"
| "cks_all_keys_loop (i # is) r st =
     bindE (mtx_all sm_lock_shared [i] st) (\<lambda>st.
     bindE (at (buckets st) i) (\<lambda>its.
     bindE (mtx_all sm_unlock_shared [i] st) (\<lambda>st. cks_all_keys_loop is (r @ map db_key its) st)))"

definition cks_all_keys :: "db_map \<Rightarrow> (string list \<times> db_map) cpp" where
  "cks_all_keys st = cks_all_keys_loop [0..<BUCKET_COUNT] [] st"

definition ConcurrentKvStore :: "(string \<Rightarrow> nat) \<Rightarrow> db_map kvstore" where
  "ConcurrentKvStore hash = \<lparr>Get = cks_get hash, Put = cks_put hash, Append = cks_append hash,
     Delete = cks_delete hash, MultiGet = cks_multi_get hash, MultiPut = cks_multi_put hash,
     AllKeys = cks_all_keys\<rparr>"

definition cks_init :: db_map where
  "cks_init = \<lparr>buckets = replicate BUCKET_COUNT [], mtx = replicate BUCKET_COUNT Free\<rparr>"

section \<open>Invariant and abstraction\<close>

definition bucket_ok :: "(string \<Rightarrow> nat) \<Rightarrow> nat \<Rightarrow> db_item list \<Rightarrow> bool" where
  "bucket_ok hash i its \<longleftrightarrow> distinct (map db_key its) \<and> (\<forall>it \<in> set its. bucket hash (db_key it) = i)"

definition db_wf :: "(string \<Rightarrow> nat) \<Rightarrow> db_map \<Rightarrow> bool" where
  "db_wf hash st \<longleftrightarrow> length (buckets st) = BUCKET_COUNT \<and> length (mtx st) = BUCKET_COUNT
     \<and> (\<forall>i < BUCKET_COUNT. bucket_ok hash i (buckets st ! i))"

definition all_free :: "db_map \<Rightarrow> bool" where
  "all_free st \<longleftrightarrow> (\<forall>i < BUCKET_COUNT. mtx st ! i = Free)"

definition cks_inv :: "(string \<Rightarrow> nat) \<Rightarrow> db_map \<Rightarrow> bool" where
  "cks_inv hash st \<longleftrightarrow> db_wf hash st \<and> all_free st"

definition cks_abs :: "(string \<Rightarrow> nat) \<Rightarrow> db_map \<Rightarrow> kv_map" where
  "cks_abs hash st k = map_option db_value (find_item k (buckets st ! bucket hash k))"

lemma bucket_less [simp]: "bucket hash k < BUCKET_COUNT"
  by (simp add: bucket_def BUCKET_COUNT_def)

lemma find_item_insert [simp]:
  "map_option db_value (find_item k (insert_item k' v its)) = (if k = k' then Some v else map_option db_value (find_item k its))"
  by (induction its) auto

lemma find_item_remove [simp]:
  "find_item k (filter (\<lambda>it. db_key it \<noteq> k') its) = (if k = k' then None else find_item k its)"
  by (induction its) auto

lemma find_item_None: "find_item k its = None \<longleftrightarrow> k \<notin> db_key ` set its"
  by (induction its) auto

lemma removed_iff:
  "0 < length its - length (filter (\<lambda>it. db_key it \<noteq> k) its) \<longleftrightarrow> k \<in> db_key ` set its"
proof (induction its)
  case (Cons it its)
  have "length (filter (\<lambda>it. db_key it \<noteq> k) its) \<le> length its" by simp
  with Cons show ?case by (auto simp: less_Suc_eq_le)
qed simp

lemma keys_insert_item: "db_key ` set (insert_item k v its) = insert k (db_key ` set its)"
  by (induction its) auto

lemma bucket_ok_insert: "bucket_ok hash (bucket hash k) its \<Longrightarrow> bucket_ok hash (bucket hash k) (insert_item k v its)"
proof (induction its)
  case (Cons it its)
  then show ?case using keys_insert_item [of k v its] by (auto simp: bucket_ok_def)
qed (simp add: bucket_ok_def)

lemma bucket_ok_remove: "bucket_ok hash i its \<Longrightarrow> bucket_ok hash i (filter P its)"
  by (induction its) (auto simp: bucket_ok_def)

lemma getIfExists_eq [simp]:
  "db_wf hash st \<Longrightarrow> getIfExists (bucket hash k) k st = Inr (find_item k (buckets st ! bucket hash k))"
  by (simp add: getIfExists_def db_wf_def)

lemma insertItem_eq:
  assumes "db_wf hash st"
  obtains st' where "insertItem (bucket hash k) k v st = Inr st'" and "db_wf hash st'" and "mtx st' = mtx st"
    and "cks_abs hash st' = (cks_abs hash st)(k \<mapsto> v)"
proof
  let ?b = "bucket hash k"
  let ?st = "st\<lparr>buckets := (buckets st)[?b := insert_item k v (buckets st ! ?b)]\<rparr>"
  show "insertItem ?b k v st = Inr ?st" using assms by (simp add: insertItem_def db_wf_def)
  show "db_wf hash ?st" using assms by (auto simp: db_wf_def nth_list_update bucket_ok_insert)
  show "mtx ?st = mtx st" by simp
  show "cks_abs hash ?st = (cks_abs hash st)(k \<mapsto> v)"
    using assms by (auto simp: cks_abs_def fun_eq_iff nth_list_update db_wf_def)
qed

lemma removeItem_eq:
  assumes "db_wf hash st"
  obtains st' where "removeItem (bucket hash k) k st = Inr (cks_abs hash st k \<noteq> None, st')"
    and "db_wf hash st'" and "mtx st' = mtx st" and "cks_abs hash st' = (cks_abs hash st)(k := None)"
proof
  let ?b = "bucket hash k"
  let ?its = "filter (\<lambda>it. db_key it \<noteq> k) (buckets st ! ?b)"
  let ?st = "st\<lparr>buckets := (buckets st)[?b := ?its]\<rparr>"
  have "0 < length (buckets st ! ?b) - length ?its \<longleftrightarrow> find_item k (buckets st ! ?b) \<noteq> None"
    by (simp only: removed_iff find_item_None not_not)
  then show "removeItem ?b k st = Inr (cks_abs hash st k \<noteq> None, ?st)"
    using assms by (simp add: removeItem_def db_wf_def cks_abs_def Let_def)
  show "db_wf hash ?st" using assms by (auto simp: db_wf_def nth_list_update bucket_ok_remove)
  show "mtx ?st = mtx st" by simp
  show "cks_abs hash ?st = (cks_abs hash st)(k := None)"
    using assms by (auto simp: cks_abs_def fun_eq_iff nth_list_update db_wf_def)
qed

section \<open>Locking and unlocking\<close>

definition set_all :: "nat list \<Rightarrow> shared_mutex \<Rightarrow> shared_mutex list \<Rightarrow> shared_mutex list" where
  "set_all bs v m = map (\<lambda>i. if i \<in> set bs then v else m ! i) [0..<length m]"

lemma set_all_Cons: "b < length m \<Longrightarrow> set_all bs v (m[b := v]) = set_all (b # bs) v m"
  by (auto simp: set_all_def nth_list_update)

lemma on_all_uniform:
  "f u = Inr v \<Longrightarrow> distinct bs \<Longrightarrow> \<forall>b \<in> set bs. b < length m \<and> m ! b = u \<Longrightarrow>
   on_all f bs m = Inr (set_all bs v m)"
proof (induction bs arbitrary: m)
  case Nil
  then show ?case by (auto simp: set_all_def intro: nth_equalityI)
next
  case (Cons b bs)
  then have "on_all f bs (m[b := v]) = Inr (set_all bs v (m[b := v]))"
    by (intro Cons.IH) (auto simp: nth_list_update)
  with Cons.prems show ?case by (simp add: on_mtx_def set_all_Cons)
qed

lemma set_all_restore:
  "\<forall>b \<in> set bs. b < length m \<and> m ! b = u \<Longrightarrow> set_all bs u (set_all bs v m) = m"
  by (auto simp: set_all_def intro!: nth_equalityI)

lemma set_bucket_nums: "set (bucket_nums hash ks) = bucket hash ` set ks"
  by (simp add: bucket_nums_def)

text \<open>
  The bucket numbers are strictly increasing, so no mutex is locked twice and every call
  locks in the same order.
\<close>

lemma sorted_bucket_nums: "sorted_wrt (<) (bucket_nums hash ks)"
  by (simp add: bucket_nums_def strict_sorted_remdups_adj)

lemma distinct_bucket_nums: "distinct (bucket_nums hash ks)"
  using sorted_bucket_nums [of hash ks] by (simp add: strict_sorted_iff)

definition locked :: "nat list \<Rightarrow> shared_mutex \<Rightarrow> db_map \<Rightarrow> db_map" where
  "locked bs v st = st\<lparr>mtx := set_all bs v (mtx st)\<rparr>"

lemma locked_simps [simp]:
  "buckets (locked bs v st) = buckets st"
  "db_wf hash (locked bs v st) = db_wf hash st"
  "cks_abs hash (locked bs v st) = cks_abs hash st"
  by (simp_all add: locked_def set_all_def db_wf_def cks_abs_def fun_eq_iff)

lemma lock_all:
  assumes "cks_inv hash st" and "distinct bs" and "\<forall>b \<in> set bs. b < BUCKET_COUNT" and "f Free = Inr v"
  shows "mtx_all f bs st = Inr (locked bs v st)"
  using assms by (simp add: mtx_all_def locked_def cks_inv_def db_wf_def all_free_def on_all_uniform)

text \<open>Unlocking what was locked, after any change that leaves the mutexes alone.\<close>

lemma unlock_all:
  assumes inv: "cks_inv hash st" and bs: "distinct bs" "\<forall>b \<in> set bs. b < BUCKET_COUNT" and "f v = Inr Free"
    and st': "db_wf hash st'" "mtx st' = mtx (locked bs v st)"
  shows "\<exists>st''. mtx_all f bs st' = Inr st'' \<and> cks_inv hash st'' \<and> cks_abs hash st'' = cks_abs hash st'"
proof -
  have len: "length (mtx st) = BUCKET_COUNT" and free: "\<forall>i < BUCKET_COUNT. mtx st ! i = Free"
    using inv by (auto simp: cks_inv_def db_wf_def all_free_def)
  have "on_all f bs (mtx st') = Inr (set_all bs Free (mtx st'))"
    using assms len by (intro on_all_uniform) (auto simp: locked_def set_all_def)
  moreover have "set_all bs Free (mtx st') = mtx st"
    using bs len free by (simp add: st' locked_def set_all_restore)
  moreover have "cks_inv hash (st'\<lparr>mtx := mtx st\<rparr>)"
    using st'(1) len free by (auto simp: cks_inv_def db_wf_def all_free_def)
  ultimately show ?thesis by (auto simp: mtx_all_def cks_abs_def fun_eq_iff)
qed

lemmas lock_one = lock_all [where bs = "[b]" for b, simplified]
lemmas unlock_one = unlock_all [where bs = "[b]" for b, simplified]

lemma cks_inv_wf: "cks_inv hash st \<Longrightarrow> db_wf hash st"
  by (simp add: cks_inv_def)

section \<open>The contract, but for a MultiGet that misses a key\<close>

lemma cks_get_ok:
  assumes "cks_inv hash st"
  shows "\<exists>st'. cks_get hash k r st = Inr ((cks_abs hash st k \<noteq> None, value_or r (cks_abs hash st k)), st')
    \<and> cks_inv hash st' \<and> cks_abs hash st' = cks_abs hash st"
proof -
  let ?b = "bucket hash k" and ?st = "locked [bucket hash k] (Shared 1) st"
  have "mtx_all sm_lock_shared [?b] st = Inr ?st" using assms by (intro lock_one) auto
  moreover obtain st' where "mtx_all sm_unlock_shared [?b] ?st = Inr st'" "cks_inv hash st'"
    "cks_abs hash st' = cks_abs hash st"
    using unlock_one [OF assms, of ?b sm_unlock_shared "Shared 1" ?st] assms
    by (auto simp: cks_inv_wf)
  ultimately show ?thesis using assms
    by (auto simp: cks_get_def cks_inv_wf cks_abs_def value_or_def split: option.split)
qed

lemma cks_put_ok:
  assumes "cks_inv hash st"
  shows "\<exists>st'. cks_put hash k v st = Inr (True, st') \<and> cks_inv hash st' \<and> cks_abs hash st' = (cks_abs hash st)(k \<mapsto> v)"
proof -
  let ?b = "bucket hash k" and ?st = "locked [bucket hash k] Exclusive st"
  have wf: "db_wf hash ?st" using assms by (simp add: cks_inv_wf)
  have "mtx_all sm_lock [?b] st = Inr ?st" using assms by (intro lock_one) auto
  moreover obtain st1 where 1: "insertItem ?b k v ?st = Inr st1" "db_wf hash st1" "mtx st1 = mtx ?st"
    "cks_abs hash st1 = (cks_abs hash ?st)(k \<mapsto> v)"
    by (rule insertItem_eq [OF wf])
  moreover obtain st' where "mtx_all sm_unlock [?b] st1 = Inr st'" "cks_inv hash st'"
    "cks_abs hash st' = cks_abs hash st1"
    using unlock_one [OF assms, of ?b sm_unlock Exclusive st1] 1 by auto
  ultimately show ?thesis by (simp add: cks_put_def)
qed

lemma cks_append_ok:
  assumes "cks_inv hash st"
  shows "\<exists>st'. cks_append hash k v st = Inr (True, st') \<and> cks_inv hash st'
    \<and> cks_abs hash st' = appended (cks_abs hash st) k v"
proof -
  let ?b = "bucket hash k" and ?st = "locked [bucket hash k] Exclusive st"
  let ?v = "case find_item k (buckets st ! ?b) of None \<Rightarrow> v | Some it \<Rightarrow> db_value it @ v"
  have wf: "db_wf hash ?st" using assms by (simp add: cks_inv_wf)
  have "mtx_all sm_lock [?b] st = Inr ?st" using assms by (intro lock_one) auto
  moreover obtain st1 where 1: "insertItem ?b k ?v ?st = Inr st1" "db_wf hash st1" "mtx st1 = mtx ?st"
    "cks_abs hash st1 = (cks_abs hash ?st)(k \<mapsto> ?v)"
    by (rule insertItem_eq [OF wf])
  moreover obtain st' where "mtx_all sm_unlock [?b] st1 = Inr st'" "cks_inv hash st'"
    "cks_abs hash st' = cks_abs hash st1"
    using unlock_one [OF assms, of ?b sm_unlock Exclusive st1] 1 by auto
  moreover have "?v = value_or [] (cks_abs hash st k) @ v"
    by (simp add: cks_abs_def value_or_def split: option.split)
  ultimately show ?thesis using assms by (simp add: cks_append_def cks_inv_wf appended_def)
qed

lemma cks_delete_ok:
  assumes "cks_inv hash st"
  shows "\<exists>st'. cks_delete hash k r st = Inr ((cks_abs hash st k \<noteq> None, value_or r (cks_abs hash st k)), st')
    \<and> cks_inv hash st' \<and> cks_abs hash st' = (cks_abs hash st)(k := None)"
proof -
  let ?b = "bucket hash k" and ?st = "locked [bucket hash k] Exclusive st"
  have wf: "db_wf hash ?st" using assms by (simp add: cks_inv_wf)
  have "mtx_all sm_lock [?b] st = Inr ?st" using assms by (intro lock_one) auto
  moreover obtain st1 where 1: "removeItem ?b k ?st = Inr (cks_abs hash ?st k \<noteq> None, st1)" "db_wf hash st1"
    "mtx st1 = mtx ?st" "cks_abs hash st1 = (cks_abs hash ?st)(k := None)"
    by (rule removeItem_eq [OF wf])
  moreover obtain st' where "mtx_all sm_unlock [?b] st1 = Inr st'" "cks_inv hash st'"
    "cks_abs hash st' = cks_abs hash st1"
    using unlock_one [OF assms, of ?b sm_unlock Exclusive st1] 1 by auto
  ultimately show ?thesis using assms
    by (auto simp: cks_delete_def cks_inv_wf cks_abs_def value_or_def split: option.split)
qed

lemma cks_multi_get_loop_eq:
  "db_wf hash st \<Longrightarrow> \<exists>r'. cks_multi_get_loop hash ks r st = Inr (set ks \<subseteq> dom (cks_abs hash st), r')
     \<and> (set ks \<subseteq> dom (cks_abs hash st) \<longrightarrow> r' = r @ map (\<lambda>k. the (cks_abs hash st k)) ks)"
proof (induction ks arbitrary: r)
  case (Cons k ks)
  show ?case
  proof (cases "find_item k (buckets st ! bucket hash k)")
    case None
    then have "k \<notin> dom (cks_abs hash st)" by (simp add: cks_abs_def domIff)
    with None Cons.prems show ?thesis by simp
  next
    case (Some it)
    then have k: "cks_abs hash st k = Some (db_value it)" by (simp add: cks_abs_def)
    with Some Cons.prems Cons.IH [OF Cons.prems, of "r @ [db_value it]"] show ?thesis by auto
  qed
qed simp

lemma cks_multi_put_loop_eq:
  assumes "db_wf hash st" and "length ks = length vs"
  shows "\<exists>st'. cks_multi_put_loop hash ks vs st = Inr st' \<and> db_wf hash st' \<and> mtx st' = mtx st
    \<and> cks_abs hash st' = (cks_abs hash st)(ks [\<mapsto>] vs)"
  using assms
proof (induction hash ks vs st rule: cks_multi_put_loop.induct)
  case (3 hash k ks v vs st)
  obtain st1 where 1: "insertItem (bucket hash k) k v st = Inr st1" "db_wf hash st1" "mtx st1 = mtx st"
    "cks_abs hash st1 = (cks_abs hash st)(k \<mapsto> v)"
    using insertItem_eq [OF 3(2)] by blast
  with 3 obtain st' where "cks_multi_put_loop hash ks vs st1 = Inr st'" "db_wf hash st'" "mtx st' = mtx st1"
    "cks_abs hash st' = (cks_abs hash st1)(ks [\<mapsto>] vs)"
    by (metis getIfExists_eq length_Cons nat.inject)
  with 1 3(2) show ?case by (intro exI [of _ st']) simp
qed auto

lemma bucket_nums_ok: "distinct (bucket_nums hash ks)" "\<forall>b \<in> set (bucket_nums hash ks). b < BUCKET_COUNT"
  by (auto simp: distinct_bucket_nums set_bucket_nums)

lemma cks_multi_get_ok:
  assumes "cks_inv hash st" and "set ks \<subseteq> dom (cks_abs hash st)"
  shows "\<exists>st'. cks_multi_get hash ks r st = Inr ((True, r @ map (\<lambda>k. the (cks_abs hash st k)) ks), st')
    \<and> cks_inv hash st' \<and> cks_abs hash st' = cks_abs hash st"
proof -
  let ?bs = "bucket_nums hash ks" and ?st = "locked (bucket_nums hash ks) (Shared 1) st"
  have wf: "db_wf hash ?st" using assms by (simp add: cks_inv_wf)
  have "mtx_all sm_lock_shared ?bs st = Inr ?st"
    using assms by (intro lock_all bucket_nums_ok) auto
  moreover have "cks_multi_get_loop hash ks r ?st = Inr (True, r @ map (\<lambda>k. the (cks_abs hash st k)) ks)"
    using cks_multi_get_loop_eq [OF wf, of ks r] assms(2) by auto
  moreover obtain st' where "mtx_all sm_unlock_shared ?bs ?st = Inr st'" "cks_inv hash st'"
    "cks_abs hash st' = cks_abs hash st"
    using unlock_all [OF assms(1) bucket_nums_ok, of sm_unlock_shared "Shared 1" ?st] wf by auto
  ultimately show ?thesis by (simp add: cks_multi_get_def)
qed

lemma cks_multi_put_ok:
  assumes "cks_inv hash st"
  shows "\<exists>st'. cks_multi_put hash ks vs st = Inr (length ks = length vs, st') \<and> cks_inv hash st'
    \<and> cks_abs hash st' = (if length ks = length vs then (cks_abs hash st)(ks [\<mapsto>] vs) else cks_abs hash st)"
proof (cases "length ks = length vs")
  case True
  let ?bs = "bucket_nums hash ks" and ?st = "locked (bucket_nums hash ks) Exclusive st"
  have wf: "db_wf hash ?st" using assms by (simp add: cks_inv_wf)
  have "mtx_all sm_lock ?bs st = Inr ?st"
    using assms by (intro lock_all bucket_nums_ok) auto
  moreover obtain st1 where 1: "cks_multi_put_loop hash ks vs ?st = Inr st1" "db_wf hash st1" "mtx st1 = mtx ?st"
    "cks_abs hash st1 = (cks_abs hash ?st)(ks [\<mapsto>] vs)"
    using cks_multi_put_loop_eq [OF wf True] by blast
  moreover obtain st' where "mtx_all sm_unlock ?bs st1 = Inr st'" "cks_inv hash st'"
    "cks_abs hash st' = cks_abs hash st1"
    using unlock_all [OF assms(1) bucket_nums_ok, of sm_unlock Exclusive st1] 1 by auto
  ultimately show ?thesis using True by (simp add: cks_multi_put_def)
qed (use assms in \<open>simp add: cks_multi_put_def\<close>)

lemma cks_all_keys_loop_eq:
  "cks_inv hash st \<Longrightarrow> \<forall>i \<in> set is. i < BUCKET_COUNT \<Longrightarrow>
   cks_all_keys_loop is r st = Inr (r @ concat (map (\<lambda>i. map db_key (buckets st ! i)) is), st)"
proof (induction "is" arbitrary: r)
  case (Cons i "is")
  have len: "length (mtx st) = BUCKET_COUNT" and free: "mtx st ! i = Free" and buck: "length (buckets st) = BUCKET_COUNT"
    using Cons.prems by (auto simp: cks_inv_def db_wf_def all_free_def)
  have "mtx_all sm_lock_shared [i] st = Inr (st\<lparr>mtx := (mtx st)[i := Shared 1]\<rparr>)"
    using len free Cons.prems by (simp add: mtx_all_def on_mtx_def)
  moreover have "mtx_all sm_unlock_shared [i] (st\<lparr>mtx := (mtx st)[i := Shared 1]\<rparr>) = Inr st"
    using len free Cons.prems by (simp add: mtx_all_def on_mtx_def list_update_same_conv)
  ultimately show ?case using Cons buck by simp
qed simp

lemma distinct_bucket_keys:
  assumes "db_wf hash st" and "n \<le> BUCKET_COUNT"
  shows "distinct (concat (map (\<lambda>i. map db_key (buckets st ! i)) [0..<n]))"
  using assms(2)
proof (induction n)
  case (Suc n)
  have ok: "bucket_ok hash i (buckets st ! i)" if "i \<le> n" for i
    using assms(1) that Suc.prems by (simp add: db_wf_def)
  have "db_key it \<noteq> db_key it'" if "i < n" "it \<in> set (buckets st ! i)" "it' \<in> set (buckets st ! n)" for i it it'
    using ok [of i] ok [of n] that by (fastforce simp: bucket_ok_def)
  then have "(\<Union>i < n. db_key ` set (buckets st ! i)) \<inter> db_key ` set (buckets st ! n) = {}" by blast
  with ok [of n] Suc show ?case by (simp add: bucket_ok_def atLeast0LessThan)
qed simp

lemma set_bucket_keys:
  assumes "db_wf hash st"
  shows "set (concat (map (\<lambda>i. map db_key (buckets st ! i)) [0..<BUCKET_COUNT])) = dom (cks_abs hash st)"
proof -
  have "k \<in> dom (cks_abs hash st) \<longleftrightarrow> (\<exists>i < BUCKET_COUNT. k \<in> db_key ` set (buckets st ! i))" for k
  proof -
    have "k \<in> dom (cks_abs hash st) \<longleftrightarrow> k \<in> db_key ` set (buckets st ! bucket hash k)"
      using find_item_None [of k "buckets st ! bucket hash k"] by (auto simp: cks_abs_def dom_def)
    also have "\<dots> \<longleftrightarrow> (\<exists>i < BUCKET_COUNT. k \<in> db_key ` set (buckets st ! i))"
    proof
      assume "\<exists>i < BUCKET_COUNT. k \<in> db_key ` set (buckets st ! i)"
      then obtain i where i: "i < BUCKET_COUNT" "k \<in> db_key ` set (buckets st ! i)" by blast
      then have "bucket hash k = i" using assms by (auto simp: db_wf_def bucket_ok_def)
      with i show "k \<in> db_key ` set (buckets st ! bucket hash k)" by simp
    qed (use bucket_less in blast)
    finally show ?thesis .
  qed
  then have "dom (cks_abs hash st) = (\<Union>i < BUCKET_COUNT. db_key ` set (buckets st ! i))" by blast
  then show ?thesis by (simp add: atLeast0LessThan)
qed

lemma cks_all_keys_ok:
  assumes "cks_inv hash st"
  shows "\<exists>ks st'. cks_all_keys st = Inr (ks, st') \<and> distinct ks \<and> set ks = dom (cks_abs hash st)
    \<and> cks_inv hash st' \<and> cks_abs hash st' = cks_abs hash st"
  using assms cks_all_keys_loop_eq [OF assms, of "[0..<BUCKET_COUNT]" "[]"]
    distinct_bucket_keys [OF cks_inv_wf [OF assms] order_refl] set_bucket_keys [OF cks_inv_wf [OF assms]]
  by (simp add: cks_all_keys_def)

interpretation concurrent: kvstore_contract "ConcurrentKvStore hash" "cks_abs hash" "cks_inv hash"
  for hash
  by unfold_locales
    (simp_all only: ConcurrentKvStore_def kvstore.simps cks_get_ok cks_put_ok cks_append_ok cks_delete_ok
      cks_multi_get_ok cks_multi_put_ok cks_all_keys_ok)

lemma cks_inv_init: "cks_inv hash cks_init"
  by (simp add: cks_inv_def cks_init_def db_wf_def all_free_def bucket_ok_def)

section \<open>The missing unlock\<close>

text \<open>
  C32: a MultiGet with a missing key returns false with the reader locks of all its
  buckets still held, so that every later Put, Append or Delete on a key of those buckets
  waits for ever.
\<close>

theorem multi_get_leaks_locks:
  assumes "cks_inv hash st" and "\<not> set ks \<subseteq> dom (cks_abs hash st)"
    and "bucket hash k \<in> bucket hash ` set ks"
  shows "\<exists>r' st'. cks_multi_get hash ks r st = Inr ((False, r'), st')
    \<and> cks_put hash k v st' = Inl Blocks \<and> cks_append hash k v st' = Inl Blocks
    \<and> cks_delete hash k q st' = Inl Blocks"
proof -
  let ?bs = "bucket_nums hash ks" and ?st = "locked (bucket_nums hash ks) (Shared 1) st"
  have wf: "db_wf hash ?st" using assms by (simp add: cks_inv_wf)
  have "mtx_all sm_lock_shared ?bs st = Inr ?st"
    using assms by (intro lock_all bucket_nums_ok) auto
  moreover obtain r' where "cks_multi_get_loop hash ks r ?st = Inr (False, r')"
    using cks_multi_get_loop_eq [OF wf, of ks r] assms(2) by auto
  ultimately have "cks_multi_get hash ks r st = Inr ((False, r'), ?st)" by (simp add: cks_multi_get_def)
  moreover have "mtx_all sm_lock [bucket hash k] ?st = Inl Blocks"
  proof -
    have "length (mtx st) = BUCKET_COUNT" using assms(1) by (simp add: cks_inv_def db_wf_def)
    then have "mtx ?st ! bucket hash k = Shared 1" "bucket hash k < length (mtx ?st)"
      using assms(3) by (simp_all add: locked_def set_all_def set_bucket_nums)
    then show ?thesis by (simp add: mtx_all_def on_mtx_def)
  qed
  ultimately show ?thesis by (simp add: cks_put_def cks_append_def cks_delete_def)
qed

theorem multi_get_leaks_locks_witness:
  "\<exists>r' st'. cks_multi_get length [''a''] [] cks_init = Inr ((False, r'), st') \<and> cks_put length ''b'' ''v'' st' = Inl Blocks"
proof -
  have "\<not> set [''a''] \<subseteq> dom (cks_abs length cks_init)"
    by (simp add: cks_abs_def cks_init_def domIff BUCKET_COUNT_def bucket_def)
  moreover have "bucket length ''b'' \<in> bucket length ` set [''a'']" by (simp add: bucket_def)
  ultimately show ?thesis
    using multi_get_leaks_locks [OF cks_inv_init, of "[''a'']" length "''b''"] by blast
qed

end
