(* ===== verification/Server.thy ===== *)
theory Server
  imports ConcurrentStore Messages
begin

text \<open>
  The request handler of the key-value server (\<open>kvstore/server/server.cpp\<close>):
  \<open>process_request\<close> over any \<open>KvStore\<close>, \<open>responsible_for\<close> and
  \<open>all_kvpairs\<close>. The server calls the store through its virtual methods, so the
  handler takes the record of methods as an argument; its lemmas are proved in the contract
  locales and hold for both stores.
\<close>

section \<open>Definitions\<close>

definition responsible_for :: "string \<Rightarrow> string \<Rightarrow> bool" where
  "responsible_for shardmaster_address key = (if shardmaster_address = [] then True else True)"

definition responsible_for_all :: "string \<Rightarrow> string list \<Rightarrow> bool" where
  "responsible_for_all shardmaster_address keys = (if shardmaster_address = [] then True else True)"

definition query_shardmaster :: bool where
  "query_shardmaster = True"

text \<open>
  The common shape of the six branches: the store is called only when the server is
  responsible; a false result gives the error response of the branch.
\<close>

definition answer ::
    "bool \<Rightarrow> ((bool \<times> 'a) \<times> 's) cpp \<Rightarrow> ('a \<Rightarrow> Response) \<Rightarrow> string \<Rightarrow> string \<Rightarrow> 's \<Rightarrow> (Response \<times> 's) cpp" where
  "answer responsible call ok not_resp failed s =
     (if responsible
      then bindE call (\<lambda>((b, x), s). Inr (if b then ok x else ErrorResponse failed, s))
      else Inr (ErrorResponse not_resp, s))"

definition no_value :: "(bool \<times> 's) cpp \<Rightarrow> ((bool \<times> unit) \<times> 's) cpp" where
  "no_value call = bindE call (\<lambda>(b, s). Inr ((b, ()), s))"

fun process_request :: "'s kvstore \<Rightarrow> string \<Rightarrow> Request \<Rightarrow> 's \<Rightarrow> (Response \<times> 's) cpp" where
  "process_request ops sm (GetRequest k) s =
     answer (responsible_for sm k) (Get ops k [] s) GetResponse
       ''server not responsible for key'' ''key does not exist in the KVStore'' s"
| "process_request ops sm (PutRequest k v) s =
     answer (responsible_for sm k) (no_value (Put ops k v s)) (\<lambda>_. PutResponse)
       ''server not responsible for key'' ''internal KVStore error'' s"
| "process_request ops sm (AppendRequest k v) s =
     answer (responsible_for sm k) (no_value (Append ops k v s)) (\<lambda>_. AppendResponse)
       ''server not responsible for key'' ''internal KVStore error'' s"
| "process_request ops sm (DeleteRequest k) s =
     answer (responsible_for sm k) (Delete ops k [] s) DeleteResponse
       ''server not responsible for key'' ''key does not exist in the KVStore'' s"
| "process_request ops sm (MultiGetRequest ks) s =
     answer (responsible_for_all sm ks) (MultiGet ops ks [] s) MultiGetResponse
       ''server not responsible for key(s)'' ''key(s) do not exist in the KVStore'' s"
| "process_request ops sm (MultiPutRequest ks vs) s =
     answer (responsible_for_all sm ks) (no_value (MultiPut ops ks vs s)) (\<lambda>_. MultiPutResponse)
       ''server not responsible for key(s)'' ''internal KVStore error'' s"
| "process_request ops sm _ s = Inl (Throw ''invalid variant!'')"

fun kvpairs_loop :: "'s kvstore \<Rightarrow> string list \<Rightarrow> (string, string) std_map \<Rightarrow> 's \<Rightarrow> ((string, string) std_map \<times> 's) cpp"
where
  "kvpairs_loop ops [] m s = Inr (m, s)"
| "kvpairs_loop ops (k # ks) m s =
     bindE (Get ops k [] s) (\<lambda>((b, v), s). kvpairs_loop ops ks (if b then sm_put k v m else m) s)"

definition all_kvpairs :: "'s kvstore \<Rightarrow> 's \<Rightarrow> ((string, string) std_map \<times> 's) cpp" where
  "all_kvpairs ops s = bindE (AllKeys ops s) (\<lambda>(keys, s). kvpairs_loop ops keys [] s)"

text \<open>A history of requests, answered one after the other.\<close>

fun run_requests :: "'s kvstore \<Rightarrow> string \<Rightarrow> Request list \<Rightarrow> 's \<Rightarrow> (Response list \<times> 's) cpp" where
  "run_requests ops sm [] s = Inr ([], s)"
| "run_requests ops sm (r # rs) s =
     bindE (process_request ops sm r s) (\<lambda>(res, s).
     bindE (run_requests ops sm rs s) (\<lambda>(ress, s). Inr (res # ress, s)))"

section \<open>The abstract server\<close>

text \<open>What the server promises: a map from keys to values, with an error for every missing key.\<close>

fun kv_request :: "Request \<Rightarrow> bool" where
  "kv_request (JoinRequest _) = False"
| "kv_request (LeaveRequest _) = False"
| "kv_request (MoveRequest _ _) = False"
| "kv_request QueryRequest = False"
| "kv_request _ = True"

fun spec_process :: "Request \<Rightarrow> kv_map \<Rightarrow> Response \<times> kv_map" where
  "spec_process (GetRequest k) m =
     (case m k of Some v \<Rightarrow> GetResponse v | None \<Rightarrow> ErrorResponse ''key does not exist in the KVStore'', m)"
| "spec_process (PutRequest k v) m = (PutResponse, m(k \<mapsto> v))"
| "spec_process (AppendRequest k v) m = (AppendResponse, appended m k v)"
| "spec_process (DeleteRequest k) m =
     (case m k of Some v \<Rightarrow> DeleteResponse v | None \<Rightarrow> ErrorResponse ''key does not exist in the KVStore'', m(k := None))"
| "spec_process (MultiGetRequest ks) m =
     (if set ks \<subseteq> dom m then MultiGetResponse (map (\<lambda>k. the (m k)) ks)
      else ErrorResponse ''key(s) do not exist in the KVStore'', m)"
| "spec_process (MultiPutRequest ks vs) m =
     (if length ks = length vs then (MultiPutResponse, m(ks [\<mapsto>] vs))
      else (ErrorResponse ''internal KVStore error'', m))"
| "spec_process _ m = (ErrorResponse ''invalid variant!'', m)"

fun spec_run :: "Request list \<Rightarrow> kv_map \<Rightarrow> Response list \<times> kv_map" where
  "spec_run [] m = ([], m)"
| "spec_run (r # rs) m =
     (case spec_process r m of (res, m) \<Rightarrow> (case spec_run rs m of (ress, m) \<Rightarrow> (res # ress, m)))"

text \<open>A request, and a history, in which no MultiGet asks for a missing key.\<close>

fun no_miss :: "Request \<Rightarrow> kv_map \<Rightarrow> bool" where
  "no_miss (MultiGetRequest ks) m = (set ks \<subseteq> dom m)"
| "no_miss _ m = True"

fun no_misses :: "Request list \<Rightarrow> kv_map \<Rightarrow> bool" where
  "no_misses [] m = True"
| "no_misses (r # rs) m = (no_miss r m \<and> no_misses rs (snd (spec_process r m)))"

lemma responsible [simp]: "responsible_for sm k" "responsible_for_all sm ks"
  by (simp_all add: responsible_for_def responsible_for_all_def)

section \<open>Refinement\<close>

context kvstore_contract
begin

lemma process_no_miss:
  assumes "inv s" and "kv_request r" and "no_miss r (abs s)"
  shows "\<exists>s'. process_request ops sm r s = Inr (fst (spec_process r (abs s)), s')
    \<and> inv s' \<and> abs s' = snd (spec_process r (abs s))"
proof (cases r)
  case (GetRequest k)
  then show ?thesis using get_ok [OF assms(1), of k "[]"] by (auto simp: answer_def value_or_def)
next
  case (PutRequest k v)
  then show ?thesis using put_ok [OF assms(1), of k v] by (auto simp: answer_def no_value_def)
next
  case (AppendRequest k v)
  then show ?thesis using append_ok [OF assms(1), of k v] by (auto simp: answer_def no_value_def)
next
  case (DeleteRequest k)
  then show ?thesis using delete_ok [OF assms(1), of k "[]"] by (auto simp: answer_def value_or_def)
next
  case (MultiGetRequest ks)
  then show ?thesis using multi_get_ok [OF assms(1), of ks "[]"] assms(3) by (auto simp: answer_def)
next
  case (MultiPutRequest ks vs)
  then show ?thesis using multi_put_ok [OF assms(1), of ks vs] by (auto simp: answer_def no_value_def)
qed (use assms(2) in auto)

lemma run_no_misses:
  "inv s \<Longrightarrow> \<forall>r \<in> set rs. kv_request r \<Longrightarrow> no_misses rs (abs s) \<Longrightarrow>
   \<exists>s'. run_requests ops sm rs s = Inr (fst (spec_run rs (abs s)), s') \<and> inv s' \<and> abs s' = snd (spec_run rs (abs s))"
proof (induction rs arbitrary: s)
  case (Cons r rs)
  then obtain s1 where 1: "process_request ops sm r s = Inr (fst (spec_process r (abs s)), s1)" "inv s1"
    "abs s1 = snd (spec_process r (abs s))"
    using process_no_miss [of s r sm] by auto
  with Cons obtain s2 where "run_requests ops sm rs s1 = Inr (fst (spec_run rs (abs s1)), s2)" "inv s2"
    "abs s2 = snd (spec_run rs (abs s1))"
    by (metis list.set_intros(2) no_misses.simps(2))
  with 1 show ?case by (simp add: case_prod_unfold)
qed simp

lemma kvpairs_loop_eq:
  "inv s \<Longrightarrow> set ks \<subseteq> dom (abs s) \<Longrightarrow> sm_wf m \<Longrightarrow> map_of m \<subseteq>\<^sub>m abs s \<Longrightarrow>
   \<exists>m' s'. kvpairs_loop ops ks m s = Inr (m', s') \<and> sm_wf m' \<and> map_of m' \<subseteq>\<^sub>m abs s
     \<and> dom (map_of m') = set ks \<union> dom (map_of m) \<and> inv s' \<and> abs s' = abs s"
proof (induction ks arbitrary: m s)
  case (Cons k ks)
  then obtain v where v: "abs s k = Some v" by auto
  obtain s1 where s1: "Get ops k [] s = Inr ((True, v), s1)" "inv s1" "abs s1 = abs s"
    using get_ok [OF Cons.prems(1), of k "[]"] v by (auto simp: value_or_def)
  have m: "sm_wf (sm_put k v m)" "map_of (sm_put k v m) = (map_of m)(k \<mapsto> v)"
    using Cons.prems(3) by (simp_all add: map_of_sm_put)
  have sub: "set ks \<subseteq> dom (abs s1)" using Cons.prems(2) s1(3) by simp
  have le: "map_of (sm_put k v m) \<subseteq>\<^sub>m abs s1" using Cons.prems(4) v by (auto simp: map_le_def m s1(3))
  obtain m' s' where "kvpairs_loop ops ks (sm_put k v m) s1 = Inr (m', s')" "sm_wf m'"
    "map_of m' \<subseteq>\<^sub>m abs s1" "dom (map_of m') = set ks \<union> dom (map_of (sm_put k v m))" "inv s'" "abs s' = abs s1"
    using Cons.IH [OF s1(2) sub m(1) le] by blast
  with s1 m show ?case by auto
qed simp

lemma all_kvpairs_eq:
  assumes "inv s"
  shows "\<exists>m s'. all_kvpairs ops s = Inr (m, s') \<and> sm_wf m \<and> map_of m = abs s \<and> inv s' \<and> abs s' = abs s"
proof -
  obtain ks s1 where 1: "AllKeys ops s = Inr (ks, s1)" "set ks = dom (abs s)" "inv s1" "abs s1 = abs s"
    using all_keys_ok [OF assms] by blast
  then obtain m s' where m: "kvpairs_loop ops ks [] s1 = Inr (m, s')" "sm_wf m" "map_of m \<subseteq>\<^sub>m abs s1"
    "dom (map_of m) = set ks" "inv s'" "abs s' = abs s1"
    using kvpairs_loop_eq [OF 1(3), of ks "[]"] by (auto simp: map_le_def)
  have "map_of m = abs s"
    by (rule map_le_antisym) (use m 1 in \<open>auto simp: map_le_def\<close>)
  with m 1 show ?thesis by (simp add: all_kvpairs_def)
qed

end

context kvstore_total
begin

lemma process_total:
  assumes "inv s" and "kv_request r"
  shows "\<exists>s'. process_request ops sm r s = Inr (fst (spec_process r (abs s)), s')
    \<and> inv s' \<and> abs s' = snd (spec_process r (abs s))"
proof (cases "no_miss r (abs s)")
  case True
  with assms show ?thesis by (rule process_no_miss)
next
  case False
  then obtain ks where "r = MultiGetRequest ks" "\<not> set ks \<subseteq> dom (abs s)" by (cases r) auto
  with multi_get_missing [OF assms(1), of ks "[]"] show ?thesis by (auto simp: answer_def)
qed

lemma run_total:
  "inv s \<Longrightarrow> \<forall>r \<in> set rs. kv_request r \<Longrightarrow>
   \<exists>s'. run_requests ops sm rs s = Inr (fst (spec_run rs (abs s)), s') \<and> inv s' \<and> abs s' = snd (spec_run rs (abs s))"
proof (induction rs arbitrary: s)
  case (Cons r rs)
  then obtain s1 where 1: "process_request ops sm r s = Inr (fst (spec_process r (abs s)), s1)" "inv s1"
    "abs s1 = snd (spec_process r (abs s))"
    using process_total [of s r sm] by auto
  with Cons obtain s2 where "run_requests ops sm rs s1 = Inr (fst (spec_run rs (abs s1)), s2)" "inv s2"
    "abs s2 = snd (spec_run rs (abs s1))"
    by (metis list.set_intros(2))
  with 1 show ?case by (simp add: case_prod_unfold)
qed simp

end

lemma simple_init_ok: "simple_inv simple_init" "simple_abs simple_init = Map.empty"
  by (simp_all add: simple_inv_def simple_init_def simple_abs_def)

lemma cks_abs_init: "cks_abs hash cks_init = Map.empty"
proof
  fix k
  show "cks_abs hash cks_init k = None" using bucket_less [of hash k] by (simp add: cks_abs_def cks_init_def)
qed

text \<open>
  C1: the server over \<open>SimpleKvStore\<close> refines the abstract server. Any history
  of key-value requests is answered in full, without blocking, with the responses of a map
  from keys to values, and the store then holds that map.
\<close>

theorem simple_server_refines:
  assumes "\<forall>r \<in> set rs. kv_request r"
  shows "\<exists>s'. run_requests SimpleKvStore sm rs simple_init = Inr (fst (spec_run rs Map.empty), s')
    \<and> simple_inv s' \<and> simple_abs s' = snd (spec_run rs Map.empty)"
  using simple.run_total [OF simple_init_ok(1) assms, of sm] by (simp only: simple_init_ok(2))

theorem simple_server_refines_witness:
  "\<exists>s'. run_requests SimpleKvStore [] [PutRequest ''a'' ''1'', AppendRequest ''a'' ''2'', MultiGetRequest [''a'', ''b'']] simple_init
      = Inr ([PutResponse, AppendResponse, ErrorResponse ''key(s) do not exist in the KVStore''], s')"
proof -
  let ?rs = "[PutRequest ''a'' ''1'', AppendRequest ''a'' ''2'', MultiGetRequest [''a'', ''b'']]"
  have "\<forall>r \<in> set ?rs. kv_request r" by simp
  from simple_server_refines [OF this, of "[]"] obtain s'
    where "run_requests SimpleKvStore [] ?rs simple_init = Inr (fst (spec_run ?rs Map.empty), s')"
    by blast
  then show ?thesis by (simp add: appended_def)
qed

text \<open>
  C2: for every hash function, the server over \<open>ConcurrentKvStore\<close> gives the same
  responses as the one over \<open>SimpleKvStore\<close> on every history in which no MultiGet asks
  for a missing key.
\<close>

theorem concurrent_server_equivalent:
  assumes "\<forall>r \<in> set rs. kv_request r" and "no_misses rs Map.empty"
  shows "\<exists>ress s t. run_requests SimpleKvStore sm rs simple_init = Inr (ress, s)
    \<and> run_requests (ConcurrentKvStore hash) sm rs cks_init = Inr (ress, t)
    \<and> cks_inv hash t \<and> cks_abs hash t = simple_abs s"
proof -
  obtain s where "run_requests SimpleKvStore sm rs simple_init = Inr (fst (spec_run rs Map.empty), s)"
    "simple_abs s = snd (spec_run rs Map.empty)"
    using simple.run_total [OF simple_init_ok(1) assms(1), of sm] unfolding simple_init_ok(2) by blast
  moreover obtain t where "run_requests (ConcurrentKvStore hash) sm rs cks_init = Inr (fst (spec_run rs Map.empty), t)"
    "cks_inv hash t" "cks_abs hash t = snd (spec_run rs Map.empty)"
    using concurrent.run_no_misses [OF cks_inv_init assms(1), of hash sm] assms(2) unfolding cks_abs_init by blast
  ultimately show ?thesis by metis
qed

theorem concurrent_server_equivalent_witness:
  "\<exists>ress s t. run_requests SimpleKvStore [] [PutRequest ''a'' ''1'', MultiGetRequest [''a'', ''a'']] simple_init = Inr (ress, s)
    \<and> run_requests (ConcurrentKvStore length) [] [PutRequest ''a'' ''1'', MultiGetRequest [''a'', ''a'']] cks_init = Inr (ress, t)"
proof -
  let ?rs = "[PutRequest ''a'' ''1'', MultiGetRequest [''a'', ''a'']]"
  have "\<forall>r \<in> set ?rs. kv_request r" "no_misses ?rs Map.empty" by simp_all
  from concurrent_server_equivalent [OF this, of "[]" length] show ?thesis by blast
qed

text \<open>
  \<open>all_kvpairs\<close> called alone returns exactly the contents of the concurrent
  store, as a well-formed map.
\<close>

theorem all_kvpairs_concurrent:
  assumes "cks_inv hash s"
  shows "\<exists>m s'. all_kvpairs (ConcurrentKvStore hash) s = Inr (m, s') \<and> sm_wf m \<and> map_of m = cks_abs hash s
    \<and> cks_inv hash s'"
  using concurrent.all_kvpairs_eq [OF assms] by blast

theorem all_kvpairs_concurrent_witness:
  "\<exists>m s'. all_kvpairs (ConcurrentKvStore length) cks_init = Inr (m, s') \<and> map_of m = Map.empty"
  using all_kvpairs_concurrent [OF cks_inv_init, of length] unfolding cks_abs_init by blast

end
