(* ===== verification/Locking.thy ===== *)
theory Locking
  imports Server
begin

text \<open>
  Concurrent calls on \<open>ConcurrentKvStore\<close>: how the bucket mutexes of
  \<open>concurrent_kvstore.cpp\<close> are taken and given back when the calls of several threads
  interleave. A call is a list of phases; a phase locks a list of buckets one by one, in one
  mode, and then unlocks them in the same order. The calls are those that run to their unlock
  loop: a MultiGet that misses a key does not (see \<open>multi_get_leaks_locks\<close>).
\<close>

section \<open>Definitions\<close>

record phase =
  p_shared :: bool
  p_buckets :: "nat list"

text \<open>The lock operations of each call, in the order of the source.\<close>

fun call_phases :: "(string \<Rightarrow> nat) \<Rightarrow> Request \<Rightarrow> phase list" where
  "call_phases hash (GetRequest k) = [\<lparr>p_shared = True, p_buckets = [bucket hash k]\<rparr>]"
| "call_phases hash (PutRequest k v) = [\<lparr>p_shared = False, p_buckets = [bucket hash k]\<rparr>]"
| "call_phases hash (AppendRequest k v) = [\<lparr>p_shared = False, p_buckets = [bucket hash k]\<rparr>]"
| "call_phases hash (DeleteRequest k) = [\<lparr>p_shared = False, p_buckets = [bucket hash k]\<rparr>]"
| "call_phases hash (MultiGetRequest ks) = [\<lparr>p_shared = True, p_buckets = bucket_nums hash ks\<rparr>]"
| "call_phases hash (MultiPutRequest ks vs) =
     (if length ks \<noteq> length vs then [] else [\<lparr>p_shared = False, p_buckets = bucket_nums hash ks\<rparr>])"
| "call_phases hash _ = []"

definition all_keys_phases :: "phase list" where
  "all_keys_phases = map (\<lambda>i. \<lparr>p_shared = True, p_buckets = [i]\<rparr>) [0..<BUCKET_COUNT]"

text \<open>A thread: the phase it is in, the buckets it has locked and has still to lock, the phases to come.\<close>

record thr =
  t_shared :: bool
  t_held :: "nat list"
  t_todo :: "nat list"
  t_phases :: "phase list"

definition start_thread :: "phase list \<Rightarrow> thr" where
  "start_thread ps = \<lparr>t_shared = True, t_held = [], t_todo = [], t_phases = ps\<rparr>"

definition lock_op :: "bool \<Rightarrow> shared_mutex \<Rightarrow> shared_mutex cpp" where
  "lock_op shared = (if shared then sm_lock_shared else sm_lock)"

definition unlock_op :: "bool \<Rightarrow> shared_mutex \<Rightarrow> shared_mutex cpp" where
  "unlock_op shared = (if shared then sm_unlock_shared else sm_unlock)"

definition thr_step :: "thr \<Rightarrow> shared_mutex list \<Rightarrow> (thr \<times> shared_mutex list) option" where
  "thr_step th m =
     (case t_todo th of
        b # bs \<Rightarrow>
          (case on_mtx (lock_op (t_shared th)) b m of
             Inr m' \<Rightarrow> Some (th\<lparr>t_held := t_held th @ [b], t_todo := bs\<rparr>, m')
           | Inl _ \<Rightarrow> None)
      | [] \<Rightarrow>
          (case t_held th of
             b # hs \<Rightarrow>
               (case on_mtx (unlock_op (t_shared th)) b m of
                  Inr m' \<Rightarrow> Some (th\<lparr>t_held := hs\<rparr>, m')
                | Inl _ \<Rightarrow> None)
           | [] \<Rightarrow>
               (case t_phases th of
                  p # ps \<Rightarrow> Some (th\<lparr>t_shared := p_shared p, t_todo := p_buckets p, t_phases := ps\<rparr>, m)
                | [] \<Rightarrow> None)))"

definition finished_thr :: "thr \<Rightarrow> bool" where
  "finished_thr th \<longleftrightarrow> t_todo th = [] \<and> t_held th = [] \<and> t_phases th = []"

text \<open>Runs of a number of threads, with the number of steps taken.\<close>

inductive lock_run :: "thr list \<Rightarrow> nat \<Rightarrow> shared_mutex list \<Rightarrow> thr list \<Rightarrow> bool" for ths0 where
  run_init: "lock_run ths0 0 (replicate BUCKET_COUNT Free) ths0"
| run_step: "lock_run ths0 n m ths \<Longrightarrow> i < length ths \<Longrightarrow> thr_step (ths ! i) m = Some (th', m') \<Longrightarrow>
    lock_run ths0 (Suc n) m' (ths[i := th'])"

section \<open>The invariant\<close>

definition sh :: "nat \<Rightarrow> thr \<Rightarrow> nat" where
  "sh b th = (if t_shared th \<and> b \<in> set (t_held th) then 1 else 0)"

definition ex :: "nat \<Rightarrow> thr \<Rightarrow> nat" where
  "ex b th = (if \<not> t_shared th \<and> b \<in> set (t_held th) then 1 else 0)"

definition tally :: "(thr \<Rightarrow> nat) \<Rightarrow> thr list \<Rightarrow> nat" where
  "tally f ths = sum_list (map f ths)"

fun consistent :: "shared_mutex \<Rightarrow> nat \<Rightarrow> nat \<Rightarrow> bool" where
  "consistent Free s e \<longleftrightarrow> s = 0 \<and> e = 0"
| "consistent (Shared n) s e \<longleftrightarrow> s = n \<and> 0 < n \<and> e = 0"
| "consistent Exclusive s e \<longleftrightarrow> s = 0 \<and> e = 1"

definition lock_inv :: "shared_mutex list \<Rightarrow> thr list \<Rightarrow> bool" where
  "lock_inv m ths \<longleftrightarrow> length m = BUCKET_COUNT
     \<and> (\<forall>b < BUCKET_COUNT. consistent (m ! b) (tally (sh b) ths) (tally (ex b) ths))"

definition ascending :: "nat list \<Rightarrow> bool" where
  "ascending bs \<longleftrightarrow> sorted_wrt (<) bs \<and> (\<forall>b \<in> set bs. b < BUCKET_COUNT)"

definition thr_ok :: "thr \<Rightarrow> bool" where
  "thr_ok th \<longleftrightarrow> ascending (t_held th @ t_todo th) \<and> (\<forall>p \<in> set (t_phases th). ascending (p_buckets p))"

lemma tally_update:
  "i < length ths \<Longrightarrow> tally f (ths[i := th']) + f (ths ! i) = tally f ths + f th'"
  unfolding tally_def
proof (induction ths arbitrary: i)
  case (Cons th ths)
  then show ?case by (cases i) auto
qed simp

lemma tally_pos: "0 < tally f ths \<Longrightarrow> \<exists>th \<in> set ths. 0 < f th"
  unfolding tally_def by (induction ths) auto

lemma tally_ge: "i < length ths \<Longrightarrow> f (ths ! i) \<le> tally f ths"
  unfolding tally_def by (simp add: member_le_sum_list)

text \<open>The three kinds of step.\<close>

lemma thr_step_cases:
  assumes "thr_step th m = Some (th', m')"
  obtains
    (lock) b bs y where "t_todo th = b # bs" "b < length m" "lock_op (t_shared th) (m ! b) = Inr y"
      "m' = m[b := y]" "th' = th\<lparr>t_held := t_held th @ [b], t_todo := bs\<rparr>"
  | (unlock) b hs y where "t_todo th = []" "t_held th = b # hs" "b < length m"
      "unlock_op (t_shared th) (m ! b) = Inr y" "m' = m[b := y]" "th' = th\<lparr>t_held := hs\<rparr>"
  | (enter) p ps where "t_todo th = []" "t_held th = []" "t_phases th = p # ps" "m' = m"
      "th' = th\<lparr>t_shared := p_shared p, t_todo := p_buckets p, t_phases := ps\<rparr>"
  using assms
  by (auto simp: thr_step_def on_mtx_def at_def bindE_Inr_iff split: list.splits sum.splits if_splits)

lemma thr_ok_step:
  assumes "thr_step th m = Some (th', m')" and "thr_ok th"
  shows "thr_ok th'"
  using assms(1)
proof (cases rule: thr_step_cases)
  case (unlock b hs y)
  then show ?thesis using assms(2) by (auto simp: thr_ok_def ascending_def)
qed (use assms(2) in \<open>auto simp: thr_ok_def ascending_def\<close>)

lemma lock_inv_update:
  assumes inv: "lock_inv m ths" and i: "i < length ths"
    and other: "\<And>c. c \<noteq> b \<Longrightarrow> sh c th' = sh c (ths ! i) \<and> ex c th' = ex c (ths ! i)"
    and this_b: "\<And>s e s' e'. consistent (m ! b) s e \<Longrightarrow> sh b (ths ! i) \<le> s \<Longrightarrow> ex b (ths ! i) \<le> e \<Longrightarrow>
      s' + sh b (ths ! i) = s + sh b th' \<Longrightarrow> e' + ex b (ths ! i) = e + ex b th' \<Longrightarrow> consistent y s' e'"
  shows "lock_inv (m[b := y]) (ths[i := th'])"
  unfolding lock_inv_def
proof (intro conjI allI impI)
  show "length (m[b := y]) = BUCKET_COUNT" using inv by (simp add: lock_inv_def)
  fix c
  assume c: "c < BUCKET_COUNT"
  have upd: "tally f (ths[i := th']) + f (ths ! i) = tally f ths + f th'" for f
    by (rule tally_update [OF i])
  have old: "consistent (m ! c) (tally (sh c) ths) (tally (ex c) ths)" using inv c by (simp add: lock_inv_def)
  show "consistent (m[b := y] ! c) (tally (sh c) (ths[i := th'])) (tally (ex c) (ths[i := th']))"
  proof (cases "c = b")
    case True
    with old c inv show ?thesis
      using this_b [OF _ tally_ge [OF i] tally_ge [OF i] upd upd] by (simp add: lock_inv_def)
  next
    case False
    with other upd [of "sh c"] upd [of "ex c"] old show ?thesis by simp
  qed
qed

lemma lock_inv_lock:
  assumes "lock_inv m ths" and "i < length ths" and "b \<notin> set (t_held (ths ! i))"
    and "lock_op (t_shared (ths ! i)) (m ! b) = Inr y"
  shows "lock_inv (m[b := y]) (ths[i := (ths ! i)\<lparr>t_held := t_held (ths ! i) @ [b], t_todo := bs\<rparr>])"
  using assms(3,4)
  by (intro lock_inv_update [OF assms(1,2)])
    (cases "m ! b"; auto simp: sh_def ex_def lock_op_def split: if_splits)+

lemma lock_inv_unlock:
  assumes "lock_inv m ths" and "i < length ths" and "t_held (ths ! i) = b # hs" and "b \<notin> set hs"
    and "unlock_op (t_shared (ths ! i)) (m ! b) = Inr y"
  shows "lock_inv (m[b := y]) (ths[i := (ths ! i)\<lparr>t_held := hs\<rparr>])"
  using assms(3,4,5)
  by (intro lock_inv_update [OF assms(1,2)])
    (cases "m ! b"; auto simp: sh_def ex_def unlock_op_def split: if_splits)+

lemma lock_inv_enter:
  assumes "lock_inv m ths" and "i < length ths" and "t_held (ths ! i) = []" and "t_held th' = []"
  shows "lock_inv m (ths[i := th'])"
proof -
  have "lock_inv (m[0 := m ! 0]) (ths[i := th'])"
    using assms(3,4) by (intro lock_inv_update [OF assms(1,2)]) (auto simp: sh_def ex_def)
  then show ?thesis by simp
qed

definition work :: "thr \<Rightarrow> nat" where
  "work th = 2 * length (t_todo th) + length (t_held th) + sum_list (map (\<lambda>p. Suc (2 * length (p_buckets p))) (t_phases th))"

lemma work_step: "thr_step th m = Some (th', m') \<Longrightarrow> work th = Suc (work th')"
  by (erule thr_step_cases) (auto simp: work_def)

text \<open>The invariant of a run: mutexes and threads agree, and every step does one unit of work.\<close>

lemma lock_run_inv:
  assumes "lock_run ths0 n m ths" and "\<forall>th \<in> set ths0. thr_ok th \<and> t_held th = []"
  shows "lock_inv m ths \<and> (\<forall>th \<in> set ths. thr_ok th) \<and> n + tally work ths = tally work ths0 \<and> length ths = length ths0"
  using assms(1)
proof (induction rule: lock_run.induct)
  case run_init
  have "tally f ths0 = 0" if "\<And>th. t_held th = [] \<Longrightarrow> f th = 0" for f
    using assms(2) that by (simp add: tally_def sum_list_eq_0_iff)
  then have "tally (sh b) ths0 = 0" "tally (ex b) ths0 = 0" for b by (simp_all add: sh_def ex_def)
  then show ?case using assms(2) by (simp add: lock_inv_def)
next
  case (run_step n m ths i th' m')
  then have inv: "lock_inv m ths" and ok: "\<forall>th \<in> set ths. thr_ok th"
    and wk: "n + tally work ths = tally work ths0" and len: "length ths = length ths0" by auto
  have oki: "thr_ok (ths ! i)" using ok run_step.hyps(2) by simp
  have "lock_inv m' (ths[i := th'])"
    using run_step.hyps(3)
  proof (cases rule: thr_step_cases)
    case (lock b bs y)
    then have "b \<notin> set (t_held (ths ! i))" using oki by (auto simp: thr_ok_def ascending_def sorted_wrt_append)
    with lock show ?thesis using lock_inv_lock [OF inv run_step.hyps(2)] by simp
  next
    case (unlock b hs y)
    then have "b \<notin> set hs" using oki by (auto simp: thr_ok_def ascending_def)
    with unlock show ?thesis using lock_inv_unlock [OF inv run_step.hyps(2)] by simp
  next
    case (enter p ps)
    then show ?thesis using lock_inv_enter [OF inv run_step.hyps(2)] by simp
  qed
  moreover have "\<forall>th \<in> set (ths[i := th']). thr_ok th"
    using ok thr_ok_step [OF run_step.hyps(3) oki] by (auto dest: set_update_subset_insert [THEN subsetD])
  moreover have "Suc n + tally work (ths[i := th']) = tally work ths0"
    using tally_update [OF run_step.hyps(2), of work th'] work_step [OF run_step.hyps(3)] wk by simp
  ultimately show ?case using len by simp
qed

section \<open>No deadlock\<close>

lemma unlock_enabled:
  assumes "lock_inv m ths" and "th \<in> set ths" and "b \<in> set (t_held th)" and "b < BUCKET_COUNT"
  shows "\<exists>y. unlock_op (t_shared th) (m ! b) = Inr y"
proof -
  obtain i where i: "i < length ths" "ths ! i = th" using assms(2) by (auto simp: in_set_conv_nth)
  have c: "consistent (m ! b) (tally (sh b) ths) (tally (ex b) ths)" using assms by (simp add: lock_inv_def)
  show ?thesis
  proof (cases "t_shared th")
    case True
    then have "0 < tally (sh b) ths" using tally_ge [OF i(1), of "sh b"] i assms(3) by (simp add: sh_def)
    with c True show ?thesis by (cases "m ! b") (auto simp: unlock_op_def)
  next
    case False
    then have "0 < tally (ex b) ths" using tally_ge [OF i(1), of "ex b"] i assms(3) by (simp add: ex_def)
    with c False show ?thesis by (cases "m ! b") (auto simp: unlock_op_def)
  qed
qed

lemma blocked_has_holder:
  assumes "lock_inv m ths" and "b < BUCKET_COUNT" and "lock_op shared (m ! b) = Inl e"
  shows "\<exists>th \<in> set ths. b \<in> set (t_held th)"
proof -
  have c: "consistent (m ! b) (tally (sh b) ths) (tally (ex b) ths)" using assms by (simp add: lock_inv_def)
  have "m ! b \<noteq> Free" using assms(3) by (auto simp: lock_op_def split: if_splits)
  with c have "0 < tally (sh b) ths \<or> 0 < tally (ex b) ths" by (cases "m ! b") auto
  then obtain th where "th \<in> set ths" "0 < sh b th \<or> 0 < ex b th"
    using tally_pos [of "sh b" ths] tally_pos [of "ex b" ths] by blast
  then show ?thesis by (auto simp: sh_def ex_def split: if_splits)
qed

lemma stuck_thread:
  assumes "lock_inv m ths" and "th \<in> set ths" and "thr_ok th" and "thr_step th m = None" and "\<not> finished_thr th"
  obtains b bs e where "t_todo th = b # bs" "b < BUCKET_COUNT" "lock_op (t_shared th) (m ! b) = Inl e"
proof (cases "t_todo th")
  case Nil
  have len: "length m = BUCKET_COUNT" using assms(1) by (simp add: lock_inv_def)
  show ?thesis
  proof (cases "t_held th")
    case Nil
    with \<open>t_todo th = []\<close> assms(4,5) show ?thesis
      by (auto simp: thr_step_def finished_thr_def split: list.splits)
  next
    case (Cons b hs)
    then have "b < BUCKET_COUNT" using assms(3) by (simp add: thr_ok_def ascending_def)
    moreover obtain y where "unlock_op (t_shared th) (m ! b) = Inr y"
      using unlock_enabled [OF assms(1,2) _ \<open>b < BUCKET_COUNT\<close>] Cons by auto
    ultimately show ?thesis using Nil Cons assms(4) len by (simp add: thr_step_def on_mtx_def)
  qed
next
  case (Cons b bs)
  have len: "length m = BUCKET_COUNT" using assms(1) by (simp add: lock_inv_def)
  have b: "b < BUCKET_COUNT" using assms(3) Cons by (simp add: thr_ok_def ascending_def)
  with Cons assms(4) len obtain e where "lock_op (t_shared th) (m ! b) = Inl e"
    by (cases "lock_op (t_shared th) (m ! b)") (auto simp: thr_step_def on_mtx_def)
  with Cons b show ?thesis by (rule that)
qed

text \<open>
  If nobody can move, take the unfinished thread that waits for the highest bucket: whoever holds
  that bucket waits for a higher one.
\<close>

lemma no_deadlock:
  assumes inv: "lock_inv m ths" and ok: "\<forall>th \<in> set ths. thr_ok th"
    and stuck: "\<forall>th \<in> set ths. thr_step th m = None"
  shows "\<forall>th \<in> set ths. finished_thr th"
proof (rule ccontr)
  let ?U = "{th \<in> set ths. \<not> finished_thr th}"
  let ?f = "\<lambda>th. hd (t_todo th)"
  assume "\<not> ?thesis"
  then have ne: "?U \<noteq> {}" by blast
  obtain th where th: "th \<in> ?U" and max: "\<And>u. u \<in> ?U \<Longrightarrow> ?f u \<le> ?f th"
  proof -
    have fin: "finite (?f ` ?U)" by simp
    then have "Max (?f ` ?U) \<in> ?f ` ?U" using ne by (intro Max_in) auto
    then obtain th where "th \<in> ?U" "?f th = Max (?f ` ?U)" by auto
    then show ?thesis using that fin Max_ge by (metis (no_types, lifting) imageI)
  qed
  from th ok stuck obtain b bs e where b: "t_todo th = b # bs" "b < BUCKET_COUNT" "lock_op (t_shared th) (m ! b) = Inl e"
    using stuck_thread [OF inv, of th] by blast
  then obtain u where u: "u \<in> set ths" "b \<in> set (t_held u)" using blocked_has_holder [OF inv] by blast
  then have uf: "u \<in> ?U" by (auto simp: finished_thr_def)
  with ok stuck obtain c cs where c: "t_todo u = c # cs" using stuck_thread [OF inv, of u] by blast
  have "b < c" using ok u c by (auto simp: thr_ok_def ascending_def sorted_wrt_append)
  with max [OF uf] b c show False by simp
qed

lemma ascending_call: "p \<in> set (call_phases hash r) \<Longrightarrow> ascending (p_buckets p)"
  by (cases r) (auto simp: ascending_def sorted_bucket_nums set_bucket_nums split: if_splits)

definition store_threads :: "(string \<Rightarrow> nat) \<Rightarrow> Request list list \<Rightarrow> thr list" where
  "store_threads hash calls = map (\<lambda>rs. start_thread (concat (map (call_phases hash) rs))) calls"

lemma store_threads_ok: "\<forall>th \<in> set (store_threads hash calls). thr_ok th \<and> t_held th = []"
  by (auto simp: store_threads_def start_thread_def thr_ok_def ascending_call) (auto simp: ascending_def)



end
