(* ===== verification/Client.thy ===== *)
theory Client
  imports Server Config
begin

text \<open>
  The two clients (\<open>kvstore/client/simple_client.cpp\<close>, \<open>shardkv_client.cpp\<close>).
  What the clients use of the network is a record of operations on a world \<open>'w\<close>:
  connecting to an address, sending a request and receiving the response on that connection,
  and the same two on the permanent connection to the shardmaster. The contract of a cluster of
  servers is the locale \<open>cluster\<close>; its interpretation is a family of servers that run
  \<open>process_request\<close> over \<open>SimpleKvStore\<close>.
\<close>

section \<open>Definitions\<close>

record 'w transport =
  connect_conn :: "string \<Rightarrow> 'w \<Rightarrow> bool \<times> 'w"
  conn_send :: "Request \<Rightarrow> 'w \<Rightarrow> (bool \<times> 'w) cpp"
  conn_recv :: "'w \<Rightarrow> (Response option \<times> 'w) cpp"
  master_send :: "Request \<Rightarrow> 'w \<Rightarrow> (bool \<times> 'w) cpp"
  master_recv :: "'w \<Rightarrow> (Response option \<times> 'w) cpp"

text \<open>The common part of the methods of \<open>SimpleClient\<close>: connect, send, receive.\<close>

definition server_rpc :: "'w transport \<Rightarrow> string \<Rightarrow> Request \<Rightarrow> 'w \<Rightarrow> (Response option \<times> 'w) cpp" where
  "server_rpc tr addr req w =
     (case connect_conn tr addr w of (connected, w) \<Rightarrow>
        if \<not> connected then Inr (None, w)
        else bindE (conn_send tr req w) (\<lambda>(sent, w). if \<not> sent then Inr (None, w) else conn_recv tr w))"

definition master_rpc :: "'w transport \<Rightarrow> Request \<Rightarrow> 'w \<Rightarrow> (Response option \<times> 'w) cpp" where
  "master_rpc tr req w =
     bindE (master_send tr req w) (\<lambda>(sent, w). if \<not> sent then Inr (None, w) else master_recv tr w)"

definition sc_get :: "'w transport \<Rightarrow> string \<Rightarrow> string \<Rightarrow> 'w \<Rightarrow> (string option \<times> 'w) cpp" where
  "sc_get tr addr key w =
     bindE (server_rpc tr addr (GetRequest key) w)
       (\<lambda>(res, w). Inr (case res of Some (GetResponse v) \<Rightarrow> Some v | _ \<Rightarrow> None, w))"

definition sc_put :: "'w transport \<Rightarrow> string \<Rightarrow> string \<Rightarrow> string \<Rightarrow> 'w \<Rightarrow> (bool \<times> 'w) cpp" where
  "sc_put tr addr key val w =
     bindE (server_rpc tr addr (PutRequest key val) w) (\<lambda>(res, w). Inr (res = Some PutResponse, w))"

definition sc_append :: "'w transport \<Rightarrow> string \<Rightarrow> string \<Rightarrow> string \<Rightarrow> 'w \<Rightarrow> (bool \<times> 'w) cpp" where
  "sc_append tr addr key val w =
     bindE (server_rpc tr addr (AppendRequest key val) w) (\<lambda>(res, w). Inr (res = Some AppendResponse, w))"

definition sc_delete :: "'w transport \<Rightarrow> string \<Rightarrow> string \<Rightarrow> 'w \<Rightarrow> (string option \<times> 'w) cpp" where
  "sc_delete tr addr key w =
     bindE (server_rpc tr addr (DeleteRequest key) w)
       (\<lambda>(res, w). Inr (case res of Some (DeleteResponse v) \<Rightarrow> Some v | _ \<Rightarrow> None, w))"

definition sc_multi_get :: "'w transport \<Rightarrow> string \<Rightarrow> string list \<Rightarrow> 'w \<Rightarrow> (string list option \<times> 'w) cpp" where
  "sc_multi_get tr addr keys w =
     bindE (server_rpc tr addr (MultiGetRequest keys) w)
       (\<lambda>(res, w). Inr (case res of Some (MultiGetResponse vs) \<Rightarrow> Some vs | _ \<Rightarrow> None, w))"

definition sc_multi_put :: "'w transport \<Rightarrow> string \<Rightarrow> string list \<Rightarrow> string list \<Rightarrow> 'w \<Rightarrow> (bool \<times> 'w) cpp" where
  "sc_multi_put tr addr keys vals w =
     bindE (server_rpc tr addr (MultiPutRequest keys vals) w) (\<lambda>(res, w). Inr (res = Some MultiPutResponse, w))"

definition sc_gdpr_delete :: "string \<Rightarrow> bool" where
  "sc_gdpr_delete user = False"

definition skv_query :: "'w transport \<Rightarrow> 'w \<Rightarrow> (shardmaster_config option \<times> 'w) cpp" where
  "skv_query tr w =
     bindE (master_rpc tr QueryRequest w)
       (\<lambda>(res, w). Inr (case res of Some (QueryResponse c) \<Rightarrow> Some c | _ \<Rightarrow> None, w))"

definition skv_join :: "'w transport \<Rightarrow> string \<Rightarrow> 'w \<Rightarrow> (bool \<times> 'w) cpp" where
  "skv_join tr sv w = bindE (master_rpc tr (JoinRequest sv) w) (\<lambda>(res, w). Inr (res = Some JoinResponse, w))"

definition skv_leave :: "'w transport \<Rightarrow> string \<Rightarrow> 'w \<Rightarrow> (bool \<times> 'w) cpp" where
  "skv_leave tr sv w = bindE (master_rpc tr (LeaveRequest sv) w) (\<lambda>(res, w). Inr (res = Some LeaveResponse, w))"

definition skv_move :: "'w transport \<Rightarrow> string \<Rightarrow> shard list \<Rightarrow> 'w \<Rightarrow> (bool \<times> 'w) cpp" where
  "skv_move tr sv shs w = bindE (master_rpc tr (MoveRequest sv shs) w) (\<lambda>(res, w). Inr (res = Some MoveResponse, w))"

text \<open>
  The common part of the single-key methods of \<open>ShardKvClient\<close>: query the
  configuration, find the server, and call it; \<open>fail\<close> is the result when either is missing.
\<close>

definition route :: "'w transport \<Rightarrow> 'a \<Rightarrow> string \<Rightarrow> (string \<Rightarrow> 'w \<Rightarrow> ('a \<times> 'w) cpp) \<Rightarrow> 'w \<Rightarrow> ('a \<times> 'w) cpp" where
  "route tr failure key call w =
     bindE (skv_query tr w) (\<lambda>(config, w).
       case config of None \<Rightarrow> Inr (failure, w)
       | Some c \<Rightarrow> bindE (get_server c key) (\<lambda>sv.
           case sv of None \<Rightarrow> Inr (failure, w) | Some addr \<Rightarrow> call addr w))"

definition skv_get :: "'w transport \<Rightarrow> string \<Rightarrow> 'w \<Rightarrow> (string option \<times> 'w) cpp" where
  "skv_get tr key = route tr None key (\<lambda>addr. sc_get tr addr key)"

definition skv_put :: "'w transport \<Rightarrow> string \<Rightarrow> string \<Rightarrow> 'w \<Rightarrow> (bool \<times> 'w) cpp" where
  "skv_put tr key val = route tr False key (\<lambda>addr. sc_put tr addr key val)"

definition skv_append :: "'w transport \<Rightarrow> string \<Rightarrow> string \<Rightarrow> 'w \<Rightarrow> (bool \<times> 'w) cpp" where
  "skv_append tr key val = route tr False key (\<lambda>addr. sc_append tr addr key val)"

definition skv_delete :: "'w transport \<Rightarrow> string \<Rightarrow> 'w \<Rightarrow> (string option \<times> 'w) cpp" where
  "skv_delete tr key = route tr None key (\<lambda>addr. sc_delete tr addr key)"

text \<open>\<open>server_keys[*server].push_back(key)\<close> for every key, and the flag \<open>valid\<close>.\<close>

fun group_keys ::
    "shardmaster_config \<Rightarrow> string list \<Rightarrow> bool \<Rightarrow> (string, string list) std_map \<Rightarrow> (bool \<times> (string, string list) std_map) cpp"
where
  "group_keys c [] valid m = Inr (valid, m)"
| "group_keys c (k # ks) valid m =
     bindE (get_server c k) (\<lambda>sv.
       case sv of None \<Rightarrow> group_keys c ks False m
       | Some addr \<Rightarrow> (case sm_index [] addr m of (l, m) \<Rightarrow> group_keys c ks valid (sm_put addr (l @ [k]) m)))"

fun store_values :: "string list \<Rightarrow> string list \<Rightarrow> (string, string) std_map \<Rightarrow> (string, string) std_map cpp" where
  "store_values [] vs kv = Inr kv"
| "store_values (k # ks) [] kv = Inl OutOfBounds"
| "store_values (k # ks) (v # vs) kv = store_values ks vs (sm_put k v kv)"

fun fetch_all ::
    "'w transport \<Rightarrow> (string \<times> string list) list \<Rightarrow> (string, string) std_map \<Rightarrow> 'w \<Rightarrow> ((string, string) std_map option \<times> 'w) cpp"
where
  "fetch_all tr [] kv w = Inr (Some kv, w)"
| "fetch_all tr ((addr, ks) # es) kv w =
     bindE (sc_multi_get tr addr ks w) (\<lambda>(vals, w).
       case vals of None \<Rightarrow> Inr (None, w)
       | Some vs \<Rightarrow> bindE (store_values ks vs kv) (\<lambda>kv. fetch_all tr es kv w))"

fun collect_values :: "string list \<Rightarrow> (string, string) std_map \<Rightarrow> string list" where
  "collect_values [] kv = []"
| "collect_values (k # ks) kv = (case sm_index [] k kv of (v, kv) \<Rightarrow> v # collect_values ks kv)"

definition skv_multi_get :: "'w transport \<Rightarrow> string list \<Rightarrow> 'w \<Rightarrow> (string list option \<times> 'w) cpp" where
  "skv_multi_get tr keys w =
     bindE (skv_query tr w) (\<lambda>(config, w).
       case config of None \<Rightarrow> Inr (None, w)
       | Some c \<Rightarrow> bindE (group_keys c keys True []) (\<lambda>(valid, server_keys).
           if \<not> valid then Inr (None, w)
           else bindE (fetch_all tr server_keys [] w) (\<lambda>(kv, w).
             Inr (map_option (collect_values keys) kv, w))))"

fun group_pairs ::
    "shardmaster_config \<Rightarrow> string list \<Rightarrow> string list \<Rightarrow> bool \<Rightarrow> (string, string list \<times> string list) std_map
      \<Rightarrow> (bool \<times> (string, string list \<times> string list) std_map) cpp"
where
  "group_pairs c [] vs valid m = Inr (valid, m)"
| "group_pairs c (k # ks) vs valid m =
     bindE (get_server c k) (\<lambda>sv.
       case sv of None \<Rightarrow> group_pairs c ks (drop 1 vs) False m
       | Some addr \<Rightarrow> bindE (at vs 0) (\<lambda>v.
           case sm_index ([], []) addr m of ((l, r), m) \<Rightarrow>
             group_pairs c ks (drop 1 vs) valid (sm_put addr (l @ [k], r @ [v]) m)))"

fun put_all :: "'w transport \<Rightarrow> (string \<times> string list \<times> string list) list \<Rightarrow> 'w \<Rightarrow> (bool \<times> 'w) cpp" where
  "put_all tr [] w = Inr (True, w)"
| "put_all tr ((addr, ks, vs) # es) w =
     bindE (sc_multi_put tr addr ks vs w) (\<lambda>(res, w). if \<not> res then Inr (False, w) else put_all tr es w)"

definition skv_multi_put :: "'w transport \<Rightarrow> string list \<Rightarrow> string list \<Rightarrow> 'w \<Rightarrow> (bool \<times> 'w) cpp" where
  "skv_multi_put tr keys vals w =
     bindE (skv_query tr w) (\<lambda>(config, w).
       case config of None \<Rightarrow> Inr (False, w)
       | Some c \<Rightarrow> bindE (group_pairs c keys vals True []) (\<lambda>(valid, server_pairs).
           if \<not> valid then Inr (False, w) else put_all tr server_pairs w))"

section \<open>Grouping\<close>

definition got :: "(string, 'a list) std_map \<Rightarrow> string \<Rightarrow> 'a list" where
  "got m addr = (case map_of m addr of None \<Rightarrow> [] | Some l \<Rightarrow> l)"

lemma got_upd: "map_of m' = (map_of m)(a \<mapsto> l) \<Longrightarrow> got m' addr = (if addr = a then l else got m addr)"
  by (simp add: got_def)

lemma group_keys_eq:
  assumes "\<And>k. k \<in> set ks \<Longrightarrow> get_server c k = Inr (Some (srv k))" and "sm_wf m"
  shows "\<exists>m'. group_keys c ks valid m = Inr (valid, m') \<and> sm_wf m'
    \<and> (\<forall>addr. got m' addr = got m addr @ filter (\<lambda>k. srv k = addr) ks) \<and> dom (map_of m') = dom (map_of m) \<union> srv ` set ks"
  using assms
proof (induction ks arbitrary: m)
  case (Cons k ks)
  let ?l = "got m (srv k)"
  let ?m = "sm_put (srv k) (?l @ [k]) (snd (sm_index [] (srv k) m))"
  have wf1: "sm_wf (snd (sm_index [] (srv k) m))"
    using Cons.prems(2) by (simp add: sm_index_def split: option.split)
  have idx: "fst (sm_index [] (srv k) m) = ?l" by (simp add: sm_index_def got_def split: option.split)
  have m: "map_of ?m = (map_of m)(srv k \<mapsto> ?l @ [k])"
    using Cons.prems(2) wf1 by (auto simp: map_of_sm_put sm_index_def fun_eq_iff split: option.split)
  have step: "group_keys c (k # ks) valid m = group_keys c ks valid ?m"
    using Cons.prems(1) [of k] idx by (simp add: case_prod_unfold)
  obtain m' where m': "group_keys c ks valid ?m = Inr (valid, m')" "sm_wf m'"
    "\<forall>addr. got m' addr = got ?m addr @ filter (\<lambda>k. srv k = addr) ks"
    "dom (map_of m') = dom (map_of ?m) \<union> srv ` set ks"
    using Cons.IH [of ?m] Cons.prems(1) wf1 by auto
  have "got ?m addr = got m addr @ (if srv k = addr then [k] else [])" for addr
    using got_upd [OF m, of addr] by auto
  with m' m step show ?case by (intro exI [of _ m']) (auto simp: dom_def)
qed simp

lemma store_values_eq:
  "sm_wf kv \<Longrightarrow> length ks = length vs \<Longrightarrow>
   \<exists>kv'. store_values ks vs kv = Inr kv' \<and> sm_wf kv' \<and> map_of kv' = (map_of kv)(ks [\<mapsto>] vs)"
proof (induction ks vs kv rule: store_values.induct)
  case (3 k ks v vs kv)
  have "map_of (sm_put k v kv) = (map_of kv)(k \<mapsto> v)" using 3(2) by (rule map_of_sm_put)
  moreover have "sm_wf (sm_put k v kv)" using 3(2) by simp
  ultimately obtain kv' where "store_values ks vs (sm_put k v kv) = Inr kv'" "sm_wf kv'"
    "map_of kv' = (map_of kv)(k \<mapsto> v, ks [\<mapsto>] vs)"
    using 3(1) 3(3) by (metis length_Cons nat.inject)
  then show ?case by (intro exI [of _ kv'] conjI) (simp_all only: store_values.simps map_upds_Cons)
qed auto

lemma map_upds_map: "((m :: 'a \<rightharpoonup> 'b)(ks [\<mapsto>] map f ks)) k = (if k \<in> set ks then Some (f k) else m k)"
  by (induction ks arbitrary: m) auto

lemma collect_values_eq:
  "set ks \<subseteq> dom (map_of kv) \<Longrightarrow> collect_values ks kv = map (\<lambda>k. the (map_of kv k)) ks"
  by (induction ks) (auto simp: dom_def)

definition gotp :: "(string, 'a list \<times> 'b list) std_map \<Rightarrow> string \<Rightarrow> 'a list \<times> 'b list" where
  "gotp m addr = (case map_of m addr of None \<Rightarrow> ([], []) | Some p \<Rightarrow> p)"

lemma gotp_upd: "map_of m' = (map_of m)(a \<mapsto> p) \<Longrightarrow> gotp m' addr = (if addr = a then p else gotp m addr)"
  by (simp add: gotp_def)

definition pairs_of :: "(string \<Rightarrow> string) \<Rightarrow> string \<Rightarrow> string list \<Rightarrow> string list \<Rightarrow> (string \<times> string) list" where
  "pairs_of srv addr ks vs = filter (\<lambda>p. srv (fst p) = addr) (zip ks vs)"

lemma group_pairs_eq:
  assumes "length ks = length vs" and "\<And>k. k \<in> set ks \<Longrightarrow> get_server c k = Inr (Some (srv k))" and "sm_wf m"
  shows "\<exists>m'. group_pairs c ks vs valid m = Inr (valid, m') \<and> sm_wf m'
    \<and> (\<forall>addr. gotp m' addr = (fst (gotp m addr) @ map fst (pairs_of srv addr ks vs), snd (gotp m addr) @ map snd (pairs_of srv addr ks vs)))"
  using assms
proof (induction ks vs arbitrary: m rule: list_induct2)
  case Nil
  then show ?case by (simp add: pairs_of_def)
next
  case (Cons k ks v vs)
  let ?p = "gotp m (srv k)"
  let ?m = "sm_put (srv k) (fst ?p @ [k], snd ?p @ [v]) (snd (sm_index ([], []) (srv k) m))"
  have wf1: "sm_wf (snd (sm_index ([], []) (srv k) m))"
    using Cons.prems(2) by (simp add: sm_index_def split: option.split)
  have idx: "fst (sm_index ([], []) (srv k) m) = ?p" by (simp add: sm_index_def gotp_def split: option.split)
  have m: "map_of ?m = (map_of m)(srv k \<mapsto> (fst ?p @ [k], snd ?p @ [v]))"
    using Cons.prems(2) wf1 by (auto simp: map_of_sm_put sm_index_def fun_eq_iff split: option.split)
  have step: "group_pairs c (k # ks) (v # vs) valid m = group_pairs c ks vs valid ?m"
    using Cons.prems(1) [of k] idx by (simp add: case_prod_unfold)
  obtain m' where m': "group_pairs c ks vs valid ?m = Inr (valid, m')" "sm_wf m'"
    "\<forall>addr. gotp m' addr = (fst (gotp ?m addr) @ map fst (pairs_of srv addr ks vs), snd (gotp ?m addr) @ map snd (pairs_of srv addr ks vs))"
    using Cons.IH [of ?m] Cons.prems(1) wf1 by auto
  have "gotp m' addr = (fst (gotp m addr) @ map fst (pairs_of srv addr (k # ks) (v # vs)),
      snd (gotp m addr) @ map snd (pairs_of srv addr (k # ks) (v # vs)))" for addr
    using m'(3) gotp_upd [OF m, of addr] by (auto simp: pairs_of_def)
  with m'(1,2) step show ?case by (intro exI [of _ m']) simp
qed

section \<open>A cluster behaves as one map\<close>

locale cluster =
  fixes tr :: "'w transport" and data :: "'w \<Rightarrow> string \<Rightarrow> kv_map" and ok :: "'w \<Rightarrow> bool" and cfg :: shardmaster_config
  assumes rpc_ok: "ok w \<Longrightarrow> kv_request r \<Longrightarrow>
      \<exists>w'. server_rpc tr addr r w = Inr (Some (fst (spec_process r (data w addr))), w') \<and> ok w'
        \<and> data w' = (data w)(addr := snd (spec_process r (data w addr)))"
    and query_ok: "ok w \<Longrightarrow> \<exists>w'. skv_query tr w = Inr (Some cfg, w') \<and> ok w' \<and> data w' = data w"
begin

text \<open>The contents of the cluster, each key looked up on the server \<open>srv\<close> sends it to.\<close>

definition view :: "(string \<Rightarrow> string) \<Rightarrow> 'w \<Rightarrow> kv_map" where
  "view srv w k = data w (srv k) k"

lemma multi_get_rpc:
  assumes "ok w"
  shows "\<exists>w'. sc_multi_get tr addr ks w
      = Inr (if set ks \<subseteq> dom (data w addr) then Some (map (\<lambda>k. the (data w addr k)) ks) else None, w')
    \<and> ok w' \<and> data w' = data w"
  using rpc_ok [OF assms, of "MultiGetRequest ks" addr]
  by (cases "set ks \<subseteq> dom (data w addr)") (auto simp: sc_multi_get_def)

lemma multi_put_rpc:
  assumes "ok w" and "length ks = length vs"
  shows "\<exists>w'. sc_multi_put tr addr ks vs w = Inr (True, w') \<and> ok w' \<and> data w' = (data w)(addr := (data w addr)(ks [\<mapsto>] vs))"
  using rpc_ok [OF assms(1), of "MultiPutRequest ks vs" addr] assms(2) by (auto simp: sc_multi_put_def)

lemma fetch_all_ok:
  "ok w \<Longrightarrow> sm_wf kv \<Longrightarrow> \<forall>e \<in> set es. \<forall>k \<in> set (snd e). srv k = fst e \<and> view srv w k \<noteq> None \<Longrightarrow>
   \<exists>kv' w'. fetch_all tr es kv w = Inr (Some kv', w') \<and> ok w' \<and> data w' = data w
     \<and> (\<forall>k. map_of kv' k = (if k \<in> (\<Union>e \<in> set es. set (snd e)) then view srv w k else map_of kv k))"
proof (induction es arbitrary: kv w)
  case (Cons e es)
  obtain addr ks where e: "e = (addr, ks)" by (cases e)
  let ?vs = "map (\<lambda>k. the (data w addr k)) ks"
  have present: "data w addr k = view srv w k" "view srv w k \<noteq> None" if "k \<in> set ks" for k
    using Cons.prems(3) e that by (auto simp: view_def)
  then have "set ks \<subseteq> dom (data w addr)" by auto
  then obtain w1 where w1: "sc_multi_get tr addr ks w = Inr (Some ?vs, w1)" "ok w1" "data w1 = data w"
    using multi_get_rpc [OF Cons.prems(1), of addr ks] by auto
  obtain kv1 where kv1: "store_values ks ?vs kv = Inr kv1" "sm_wf kv1" "map_of kv1 = (map_of kv)(ks [\<mapsto>] ?vs)"
    using store_values_eq [OF Cons.prems(2), of ks ?vs] by auto
  have v1: "view srv w1 = view srv w" by (simp add: view_def fun_eq_iff w1(3))
  have kv1_k: "map_of kv1 k = (if k \<in> set ks then view srv w k else map_of kv k)" for k
    using present [of k] by (auto simp: kv1(3) map_upds_map)
  obtain kv' w' where "fetch_all tr es kv1 w1 = Inr (Some kv', w')" "ok w'" "data w' = data w1"
    "\<forall>k. map_of kv' k = (if k \<in> (\<Union>e \<in> set es. set (snd e)) then view srv w1 k else map_of kv1 k)"
    using Cons.IH [OF w1(2) kv1(2)] Cons.prems(3) unfolding v1 by auto
  with w1 kv1 e v1 kv1_k show ?case by auto
qed simp

lemma fetch_all_missing:
  "ok w \<Longrightarrow> sm_wf kv \<Longrightarrow> \<exists>e \<in> set es. \<exists>k \<in> set (snd e). data w (fst e) k = None \<Longrightarrow>
   \<exists>w'. fetch_all tr es kv w = Inr (None, w') \<and> ok w' \<and> data w' = data w"
proof (induction es arbitrary: kv w)
  case (Cons e es)
  obtain addr ks where e: "e = (addr, ks)" by (cases e)
  let ?vs = "map (\<lambda>k. the (data w addr k)) ks"
  obtain w1 where w1: "sc_multi_get tr addr ks w = Inr (if set ks \<subseteq> dom (data w addr) then Some ?vs else None, w1)"
    "ok w1" "data w1 = data w"
    using multi_get_rpc [OF Cons.prems(1), of addr ks] by auto
  show ?case
  proof (cases "set ks \<subseteq> dom (data w addr)")
    case True
    then have "\<exists>e \<in> set es. \<exists>k \<in> set (snd e). data w1 (fst e) k = None"
      using Cons.prems(3) e w1(3) by auto
    moreover obtain kv1 where "store_values ks ?vs kv = Inr kv1" "sm_wf kv1"
      using store_values_eq [OF Cons.prems(2), of ks ?vs] by auto
    ultimately show ?thesis using Cons.IH [OF w1(2)] w1 e True by auto
  qed (use w1 e in auto)
qed simp

lemma grouped_entries:
  assumes "sm_wf m" and "\<forall>addr. got m addr = filter (\<lambda>k. srv k = addr) keys" and "dom (map_of m) = srv ` set keys"
  shows "\<forall>e \<in> set m. snd e = filter (\<lambda>k. srv k = fst e) keys" and "(\<Union>e \<in> set m. set (snd e)) = set keys"
proof -
  show ent: "\<forall>e \<in> set m. snd e = filter (\<lambda>k. srv k = fst e) keys"
  proof
    fix e
    assume "e \<in> set m"
    then have "map_of m (fst e) = Some (snd e)" using sm_wf_distinct [OF assms(1)] by (simp add: map_of_is_SomeI)
    then show "snd e = filter (\<lambda>k. srv k = fst e) keys" using assms(2) [THEN spec, of "fst e"] by (simp add: got_def)
  qed
  show "(\<Union>e \<in> set m. set (snd e)) = set keys"
  proof
    show "(\<Union>e \<in> set m. set (snd e)) \<subseteq> set keys" using ent by auto
    show "set keys \<subseteq> (\<Union>e \<in> set m. set (snd e))"
    proof
      fix k
      assume k: "k \<in> set keys"
      then obtain l where "map_of m (srv k) = Some l" using assms(3) by (metis domD imageI)
      then have "(srv k, l) \<in> set m" by (rule map_of_SomeD)
      with ent k show "k \<in> (\<Union>e \<in> set m. set (snd e))" by force
    qed
  qed
qed

lemma multi_get_view:
  assumes "ok w" and routed: "\<And>k. k \<in> set keys \<Longrightarrow> get_server cfg k = Inr (Some (srv k))"
  shows "\<exists>w'. skv_multi_get tr keys w
      = Inr (if set keys \<subseteq> dom (view srv w) then Some (map (\<lambda>k. the (view srv w k)) keys) else None, w')
    \<and> ok w' \<and> data w' = data w"
proof -
  obtain w1 where w1: "skv_query tr w = Inr (Some cfg, w1)" "ok w1" "data w1 = data w" using query_ok [OF assms(1)] by blast
  obtain m where m: "group_keys cfg keys True [] = Inr (True, m)" "sm_wf m"
    "\<forall>addr. got m addr = filter (\<lambda>k. srv k = addr) keys" "dom (map_of m) = srv ` set keys"
    using group_keys_eq [of keys cfg srv "[]" True, OF routed sm_wf_Nil] by (auto simp: got_def)
  note ent = grouped_entries [OF m(2-4)]
  have v1: "view srv w1 = view srv w" by (simp add: view_def fun_eq_iff w1(3))
  show ?thesis
  proof (cases "set keys \<subseteq> dom (view srv w)")
    case True
    then have "\<forall>e \<in> set m. \<forall>k \<in> set (snd e). srv k = fst e \<and> view srv w1 k \<noteq> None"
      using ent(1) unfolding v1 by auto
    from fetch_all_ok [OF w1(2) sm_wf_Nil this] obtain kv w' where kv: "fetch_all tr m [] w1 = Inr (Some kv, w')" "ok w'"
      "data w' = data w1" "\<forall>k. map_of kv k = (if k \<in> set keys then view srv w k else None)"
      unfolding ent(2) v1 by auto
    have "set keys \<subseteq> dom (map_of kv)" using True kv(4) by auto
    then have "collect_values keys kv = map (\<lambda>k. the (view srv w k)) keys" using kv(4) by (simp add: collect_values_eq)
    with True w1 m kv show ?thesis by (simp add: skv_multi_get_def)
  next
    case False
    then obtain k where k: "k \<in> set keys" "data w1 (srv k) k = None"
      using w1(3) by (metis (mono_tags) domIff subsetI view_def)
    then have "\<exists>e \<in> set m. \<exists>k \<in> set (snd e). data w1 (fst e) k = None" using ent by fastforce
    from fetch_all_missing [OF w1(2) sm_wf_Nil this] False w1 m show ?thesis by (auto simp: skv_multi_get_def)
  qed
qed

lemma put_all_ok:
  "ok w \<Longrightarrow> distinct (map fst es) \<Longrightarrow> \<forall>e \<in> set es. length (fst (snd e)) = length (snd (snd e)) \<Longrightarrow>
   \<exists>w'. put_all tr es w = Inr (True, w') \<and> ok w' \<and>
     (\<forall>addr. data w' addr = (case map_of es addr of None \<Rightarrow> data w addr | Some p \<Rightarrow> (data w addr)(fst p [\<mapsto>] snd p)))"
proof (induction es arbitrary: w)
  case (Cons e es)
  obtain addr ks vs where e: "e = (addr, ks, vs)" by (cases e)
  obtain w1 where w1: "sc_multi_put tr addr ks vs w = Inr (True, w1)" "ok w1"
    "data w1 = (data w)(addr := (data w addr)(ks [\<mapsto>] vs))"
    using multi_put_rpc [OF Cons.prems(1), of ks vs addr] Cons.prems(3) e by auto
  obtain w' where w': "put_all tr es w1 = Inr (True, w')" "ok w'"
    "\<forall>addr. data w' addr = (case map_of es addr of None \<Rightarrow> data w1 addr | Some p \<Rightarrow> (data w1 addr)(fst p [\<mapsto>] snd p))"
    using Cons.IH [OF w1(2)] Cons.prems(2,3) by auto
  have "map_of es addr = None" using Cons.prems(2) e by (simp add: map_of_eq_None_iff)
  with w' w1 e show ?case by (auto split: option.split)
qed simp

lemma map_of_filter_key: "P k \<Longrightarrow> map_of (filter (\<lambda>p. P (fst p)) ps) k = map_of ps k"
  by (induction ps) auto

lemma multi_put_view:
  assumes "ok w" and "length keys = length vals"
    and routed: "\<And>k. k \<in> set keys \<Longrightarrow> get_server cfg k = Inr (Some (srv k))"
  shows "\<exists>w'. skv_multi_put tr keys vals w = Inr (True, w') \<and> ok w' \<and> view srv w' = (view srv w)(keys [\<mapsto>] vals)"
proof -
  obtain w1 where w1: "skv_query tr w = Inr (Some cfg, w1)" "ok w1" "data w1 = data w" using query_ok [OF assms(1)] by blast
  obtain m where m: "group_pairs cfg keys vals True [] = Inr (True, m)" "sm_wf m"
    "\<forall>addr. gotp m addr = (map fst (pairs_of srv addr keys vals), map snd (pairs_of srv addr keys vals))"
    using group_pairs_eq [of keys vals cfg srv "[]" True, OF assms(2) routed sm_wf_Nil] by (auto simp: gotp_def)
  have dist: "distinct (map fst m)" by (rule sm_wf_distinct [OF m(2)])
  have ent: "map_of m (fst e) = Some (snd e)" if "e \<in> set m" for e
    using dist that by (simp add: map_of_is_SomeI)
  have "length (fst (snd e)) = length (snd (snd e))" if "e \<in> set m" for e
    using m(3) ent [OF that] by (metis (no_types, lifting) fst_conv gotp_def length_map option.simps(5) snd_conv)
  then obtain w' where w': "put_all tr m w1 = Inr (True, w')" "ok w'"
    "\<forall>addr. data w' addr = (case map_of m addr of None \<Rightarrow> data w1 addr | Some p \<Rightarrow> (data w1 addr)(fst p [\<mapsto>] snd p))"
    using put_all_ok [OF w1(2) dist] by blast
  have all: "data w' addr = (data w addr)(map fst (pairs_of srv addr keys vals) [\<mapsto>] map snd (pairs_of srv addr keys vals))" for addr
    using w'(3) [THEN spec, of addr] m(3) [THEN spec, of addr] w1(3) by (cases "map_of m addr") (auto simp: gotp_def)
  have "view srv w' k = ((view srv w)(keys [\<mapsto>] vals)) k" for k
  proof -
    have "map_of (rev (pairs_of srv (srv k) keys vals)) k = map_of (rev (zip keys vals)) k"
      using map_of_filter_key [of "\<lambda>k'. srv k' = srv k" k "rev (zip keys vals)"] by (simp add: pairs_of_def rev_filter)
    then show ?thesis
      by (simp add: view_def all map_upds_def zip_map_fst_snd map_add_def split: option.split)
  qed
  with w1 m w' show ?thesis by (auto simp: skv_multi_put_def fun_eq_iff)
qed

lemma put_view:
  assumes "ok w" and "get_server cfg k = Inr (Some (srv k))"
  shows "\<exists>w'. skv_put tr k v w = Inr (True, w') \<and> ok w' \<and> view srv w' = (view srv w)(k \<mapsto> v)"
proof -
  obtain w1 where w1: "skv_query tr w = Inr (Some cfg, w1)" "ok w1" "data w1 = data w" using query_ok [OF assms(1)] by blast
  obtain w' where "server_rpc tr (srv k) (PutRequest k v) w1 = Inr (Some PutResponse, w')" "ok w'"
    "data w' = (data w1)(srv k := (data w1 (srv k))(k \<mapsto> v))"
    using rpc_ok [OF w1(2), of "PutRequest k v" "srv k"] by auto
  with w1 assms(2) show ?thesis by (auto simp: skv_put_def route_def sc_put_def view_def fun_eq_iff)
qed

lemma get_view:
  assumes "ok w" and "get_server cfg k = Inr (Some (srv k))"
  shows "\<exists>w'. skv_get tr k w = Inr (view srv w k, w') \<and> ok w' \<and> data w' = data w"
proof -
  obtain w1 where w1: "skv_query tr w = Inr (Some cfg, w1)" "ok w1" "data w1 = data w" using query_ok [OF assms(1)] by blast
  obtain w' where "server_rpc tr (srv k) (GetRequest k) w1
      = Inr (Some (case data w1 (srv k) k of Some v \<Rightarrow> GetResponse v | None \<Rightarrow> ErrorResponse ''key does not exist in the KVStore''), w')"
    "ok w'" "data w' = data w1"
    using rpc_ok [OF w1(2), of "GetRequest k" "srv k"] by auto
  with w1 assms(2) show ?thesis by (auto simp: skv_get_def route_def sc_get_def view_def split: option.split)
qed

end

section \<open>The cluster of servers\<close>

text \<open>
  A family of servers that answer with \<open>process_request\<close> over \<open>SimpleKvStore\<close>, over a
  network that delivers every message, and a shardmaster that answers queries with a fixed
  configuration.
\<close>

record world =
  stores :: "string \<Rightarrow> simple_kvstore"
  peer :: string
  reply :: "Response option"
  master_reply :: "Response option"

definition cluster_transport :: "shardmaster_config \<Rightarrow> world transport" where
  "cluster_transport c =
     \<lparr>connect_conn = (\<lambda>addr w. (True, w\<lparr>peer := addr\<rparr>)),
      conn_send = (\<lambda>req w. bindE (process_request SimpleKvStore [] req (stores w (peer w)))
        (\<lambda>(res, s). Inr (True, w\<lparr>stores := (stores w)(peer w := s), reply := Some res\<rparr>))),
      conn_recv = (\<lambda>w. Inr (reply w, w\<lparr>reply := None\<rparr>)),
      master_send = (\<lambda>req w. Inr (True, w\<lparr>master_reply := Some (QueryResponse c)\<rparr>)),
      master_recv = (\<lambda>w. Inr (master_reply w, w\<lparr>master_reply := None\<rparr>))\<rparr>"

definition world_data :: "world \<Rightarrow> string \<Rightarrow> kv_map" where
  "world_data w addr = simple_abs (stores w addr)"

definition world_ok :: "world \<Rightarrow> bool" where
  "world_ok w \<longleftrightarrow> (\<forall>addr. simple_inv (stores w addr))"

interpretation servers: cluster "cluster_transport c" world_data world_ok c for c
proof
  fix w r addr
  assume ok: "world_ok w" and r: "kv_request r"
  then obtain s where "process_request SimpleKvStore [] r (stores w addr) = Inr (fst (spec_process r (world_data w addr)), s)"
    "simple_inv s" "simple_abs s = snd (spec_process r (world_data w addr))"
    using simple.process_total [of "stores w addr" r "[]"] by (auto simp: world_ok_def world_data_def)
  with ok show "\<exists>w'. server_rpc (cluster_transport c) addr r w = Inr (Some (fst (spec_process r (world_data w addr))), w')
      \<and> world_ok w' \<and> world_data w' = (world_data w)(addr := snd (spec_process r (world_data w addr)))"
    by (auto simp: server_rpc_def cluster_transport_def world_ok_def world_data_def fun_eq_iff)
next
  fix w
  assume "world_ok w"
  then show "\<exists>w'. skv_query (cluster_transport c) w = Inr (Some c, w') \<and> world_ok w' \<and> world_data w' = world_data w"
    by (auto simp: skv_query_def master_rpc_def cluster_transport_def world_ok_def world_data_def fun_eq_iff)
qed


definition empty_world :: world where
  "empty_world = \<lparr>stores = \<lambda>_. simple_init, peer = [], reply = None, master_reply = None\<rparr>"

definition two_servers :: shardmaster_config where
  "two_servers = \<lparr>servers = [\<lparr>server = ''a:1'', shards = [\<lparr>lower = ''0'', upper = ''H''\<rparr>]\<rparr>,
     \<lparr>server = ''b:2'', shards = [\<lparr>lower = ''I'', upper = ''Z''\<rparr>]\<rparr>]\<rparr>"

lemma two_servers_routes:
  "get_server two_servers ''x'' = Inr (Some ''b:2'')"
  "get_server two_servers ''a'' = Inr (Some ''a:1'')"
proof -
  have up: "to_upper ''x'' = ''X''" "to_upper ''a'' = ''A''" by code_simp+
  show "get_server two_servers ''x'' = Inr (Some ''b:2'')" "get_server two_servers ''a'' = Inr (Some ''a:1'')"
    by (simp_all add: two_servers_def get_server_def up contains_def granularity_def less_eq_char_def less_char_def)
qed




end
