(* ===== verification/Service.thy ===== *)
theory Service
  imports Client Network
begin

text \<open>
  The request loops of the two services: the inner loop of \<open>KvServer::work_loop\<close>
  (\<open>kvstore/server/server.cpp\<close>), which reads requests from a connection and writes
  responses, and the shardmaster \<open>StaticShardmaster\<close>
  (\<open>kvstore/shardmaster/static_shardmaster.cpp\<close>), whose four operations are stubs.
\<close>

section \<open>Definitions\<close>

text \<open>
  Requests of one client until its connection ends. The first argument bounds the rounds;
  \<open>None\<close> means that the bound was too small, never that the loop stopped.
\<close>

fun client_loop :: "nat \<Rightarrow> 's kvstore \<Rightarrow> string \<Rightarrow> socket \<Rightarrow> 's \<Rightarrow> (socket \<times> 's) cpp option" where
  "client_loop 0 ops sm sk s = None"
| "client_loop (Suc n) ops sm sk s =
     (case recv_request sk of
        Inl e \<Rightarrow> Some (Inl e)
      | Inr (req, sk) \<Rightarrow>
          (case req of None \<Rightarrow> Some (Inr (sk, s))
           | Some r \<Rightarrow>
               (case process_request ops sm r s of
                  Inl e \<Rightarrow> Some (Inl e)
                | Inr (res, s) \<Rightarrow>
                    (case send_response res sk of
                       Inl e \<Rightarrow> Some (Inl e)
                     | Inr (sent, sk) \<Rightarrow> if \<not> sent then Some (Inr (sk, s)) else client_loop n ops sm sk s))))"

definition sm_join :: "string \<Rightarrow> bool" where
  "sm_join sv = True"

definition sm_leave :: "string \<Rightarrow> bool" where
  "sm_leave sv = True"

definition sm_move :: "string \<Rightarrow> shard list \<Rightarrow> bool" where
  "sm_move sv shs = True"

text \<open>\<open>Query\<close> returns true and leaves its default-constructed response alone.\<close>

definition sm_query :: "shardmaster_config \<Rightarrow> bool \<times> shardmaster_config" where
  "sm_query res = (True, res)"

fun sm_process_request :: "Request \<Rightarrow> Response cpp" where
  "sm_process_request (JoinRequest sv) =
     Inr (if sm_join sv then JoinResponse else ErrorResponse ''Failed to process Join request.'')"
| "sm_process_request (LeaveRequest sv) =
     Inr (if sm_leave sv then LeaveResponse else ErrorResponse ''Failed to process Leave request.'')"
| "sm_process_request (MoveRequest sv shs) =
     Inr (if sm_move sv shs then MoveResponse else ErrorResponse ''Failed to process Move request.'')"
| "sm_process_request QueryRequest =
     (case sm_query \<lparr>servers = []\<rparr> of (ok, c) \<Rightarrow>
        Inr (if ok then QueryResponse c else ErrorResponse ''Failed to process Query request.''))"
| "sm_process_request _ = Inl (Throw ''invalid request variant!'')"

section \<open>Serving a connection\<close>

definition request_frame :: "Request \<Rightarrow> byte list" where
  "request_frame r = frame \<lparr>msg_type = type_code (request_type r),
     msg_sz = word_of_nat (length (request_bytes r)), msg_buf = request_bytes r\<rparr>"

definition response_frame :: "Response \<Rightarrow> byte list" where
  "response_frame r = frame \<lparr>msg_type = type_code (response_type r),
     msg_sz = word_of_nat (length (response_bytes r)), msg_buf = response_bytes r\<rparr>"

definition sendable_request :: "Request \<Rightarrow> bool" where
  "sendable_request r \<longleftrightarrow> valid_request r \<and> length (request_bytes r) < 2 ^ 31"

definition sendable_response :: "Response \<Rightarrow> bool" where
  "sendable_response r \<longleftrightarrow> valid_response r \<and> length (response_bytes r) < 2 ^ 31"

lemma recv_request_ready:
  assumes "sendable_request r" and "all_ready (events sk)" and "length (request_frame r) \<le> length (events sk)"
    and "rx sk = request_frame r @ rest"
  shows "\<exists>es'. recv_request sk = Inr (Some r, sk\<lparr>rx := rest, events := es'\<rparr>)
    \<and> all_ready es' \<and> length (events sk) \<le> length es' + length (request_frame r)"
proof -
  let ?m = "\<lparr>msg_type = type_code (request_type r), msg_sz = word_of_nat (length (request_bytes r)),
    msg_buf = request_bytes r\<rparr>"
  have wf: "wf_message ?m" using assms(1) by (simp add: wf_message_def sendable_request_def)
  have "deserialize_request ?m = Inr (Some r)"
    using assms(1) by (simp add: deserialize_request_eq sendable_request_def)
  with recv_message_ready [OF wf assms(2), of 100 rest] assms(3,4) show ?thesis
    by (auto simp: recv_request_def recv_with_def request_frame_def)
qed

lemma send_response_ready:
  assumes "sendable_response r" and "all_ready (events sk)" and "length (response_frame r) \<le> length (events sk)"
  shows "\<exists>es'. send_response r sk = Inr (True, sk\<lparr>tx := tx sk @ response_frame r, events := es'\<rparr>)
    \<and> all_ready es' \<and> length (events sk) \<le> length es' + length (response_frame r)"
proof -
  let ?m = "\<lparr>msg_type = type_code (response_type r), msg_sz = word_of_nat (length (response_bytes r)),
    msg_buf = response_bytes r\<rparr>"
  have wf: "wf_message ?m" using assms(1) by (simp add: wf_message_def sendable_response_def)
  have "serialize_response r = Some ?m"
    using assms(1) by (intro serialize_response_eq) (simp_all add: sendable_response_def)
  with send_message_ready [OF wf assms(2), of 100] assms(3) show ?thesis
    by (auto simp: send_response_def send_with_def response_frame_def)
qed

text \<open>At the end of the stream \<open>recv\<close> returns 0 and the loop ends.\<close>

lemma recv_request_eof:
  assumes "all_ready (events sk)" and "events sk \<noteq> []" and "rx sk = []"
  shows "\<exists>es'. recv_request sk = Inr (None, sk\<lparr>rx := [], events := es'\<rparr>)"
proof -
  obtain k es where "events sk = Ready k # es" using assms(1,2) by (cases "events sk") (auto simp: all_ready_def)
  then show ?thesis
    using assms(3) by (auto simp: recv_request_def recv_with_def recv_message_def recvall_def to_int_def)
qed

text \<open>The bytes that cross the socket for a history of requests, in both directions.\<close>

definition traffic :: "Request list \<Rightarrow> kv_map \<Rightarrow> nat" where
  "traffic rs m = length (concat (map request_frame rs)) + length (concat (map response_frame (fst (spec_run rs m))))"

context kvstore_total
begin

lemma client_loop_serves:
  assumes "inv s" and "\<forall>r \<in> set rs. kv_request r \<and> sendable_request r"
    and "\<forall>res \<in> set (fst (spec_run rs (abs s))). sendable_response res"
    and "rx sk = concat (map request_frame rs)" and "all_ready (events sk)" and "traffic rs (abs s) < length (events sk)"
  shows "\<exists>sk' s'. client_loop (Suc (length rs)) ops sm sk s = Some (Inr (sk', s'))
    \<and> tx sk' = tx sk @ concat (map response_frame (fst (spec_run rs (abs s)))) \<and> rx sk' = []
    \<and> inv s' \<and> abs s' = snd (spec_run rs (abs s))"
  using assms
proof (induction rs arbitrary: s sk)
  case Nil
  then have "events sk \<noteq> []" by auto
  with Nil recv_request_eof [of sk] show ?case by auto
next
  case (Cons r rs)
  let ?res = "fst (spec_process r (abs s))" and ?m = "snd (spec_process r (abs s))"
  have run: "fst (spec_run (r # rs) (abs s)) = ?res # fst (spec_run rs ?m)"
    "snd (spec_run (r # rs) (abs s)) = snd (spec_run rs ?m)"
    by (simp_all add: case_prod_unfold)
  have tr: "traffic (r # rs) (abs s) = length (request_frame r) + length (response_frame ?res) + traffic rs ?m"
    by (simp only: traffic_def run list.map concat.simps length_append)
  have room: "length (request_frame r) + length (response_frame ?res) + traffic rs ?m < length (events sk)"
    using Cons.prems(6) unfolding tr .
  obtain e1 where e1: "recv_request sk = Inr (Some r, sk\<lparr>rx := concat (map request_frame rs), events := e1\<rparr>)"
    "all_ready e1" "length (events sk) \<le> length e1 + length (request_frame r)"
    using recv_request_ready [of r sk "concat (map request_frame rs)"] Cons.prems(2,4,5) room by auto
  obtain s1 where s1: "process_request ops sm r s = Inr (?res, s1)" "inv s1" "abs s1 = ?m"
    using process_total [OF Cons.prems(1), of r sm] Cons.prems(2) by auto
  let ?sk = "sk\<lparr>rx := concat (map request_frame rs), events := e1\<rparr>"
  have "length (response_frame ?res) \<le> length e1" using e1(3) room by simp
  then obtain e2 where e2: "send_response ?res ?sk = Inr (True, ?sk\<lparr>tx := tx ?sk @ response_frame ?res, events := e2\<rparr>)"
    "all_ready e2" "length e1 \<le> length e2 + length (response_frame ?res)"
    using send_response_ready [of ?res ?sk] Cons.prems(3) e1(2) unfolding run by auto
  let ?sk2 = "?sk\<lparr>tx := tx ?sk @ response_frame ?res, events := e2\<rparr>"
  have "traffic rs ?m < length e2" using e1(3) e2(3) room by simp
  then obtain sk' s' where "client_loop (Suc (length rs)) ops sm ?sk2 s1 = Some (Inr (sk', s'))"
    "tx sk' = tx ?sk2 @ concat (map response_frame (fst (spec_run rs ?m)))" "rx sk' = []" "inv s'" "abs s' = snd (spec_run rs ?m)"
    using Cons.IH [of s1 ?sk2] Cons.prems(2,3) s1 e2(2) unfolding run by auto
  with e1 s1 e2 show ?case unfolding run by simp
qed

end



section \<open>The shardmaster is a stub\<close>

definition stub_transport :: "world transport" where
  "stub_transport = (cluster_transport \<lparr>servers = []\<rparr>)\<lparr>master_send := (\<lambda>req w.
     bindE (sm_process_request req) (\<lambda>res. Inr (True, w\<lparr>master_reply := Some res\<rparr>)))\<rparr>"

text \<open>
  With the shardmaster as it is, Join, Leave and Move report success and change
  nothing: a later query still gives the empty configuration, and the sharded client finds no
  server for any key.
\<close>

theorem stub_shardmaster_routes_nothing:
  "\<exists>w1 w2 w3 w4 w5. skv_join stub_transport sv w = Inr (True, w1) \<and> skv_leave stub_transport sv w1 = Inr (True, w2)
    \<and> skv_move stub_transport sv shs w2 = Inr (True, w3)
    \<and> skv_query stub_transport w3 = Inr (Some \<lparr>servers = []\<rparr>, w4)
    \<and> skv_get stub_transport key w4 = Inr (None, w5) \<and> stores w5 = stores w"
proof -
  have "get_server \<lparr>servers = []\<rparr> key = Inr None" by (simp add: get_server_def)
  then show ?thesis
    by (simp add: skv_join_def skv_leave_def skv_move_def skv_get_def route_def skv_query_def master_rpc_def
        stub_transport_def cluster_transport_def sm_join_def sm_leave_def sm_move_def sm_query_def)
qed

end
