(* ===== verification/Commands.thy ===== *)
theory Commands
  imports Service Connection
begin

text \<open>
  The command line of the programs: the command objects of \<open>kvstore/client/*command.cpp\<close>,
  \<open>kvstore/server/printcommand.cpp\<close> and \<open>kvstore/shardmaster/querycommand.cpp\<close>,
  the read-eval-print loop (\<open>kvstore/repl\<close>) and the argument handling of the three
  \<open>main\<close> functions (\<open>kvstore/cmd\<close>).

  A handler maps the rest of its line and the world to the text it writes and the new world. The
  text is a list of writes to standard output (\<open>Out\<close>) and calls of \<open>cerr_color\<close>
  (\<open>Err\<close>, without the colour codes and the source position the macro adds). What the
  clients themselves report on standard error is left out.
\<close>

section \<open>Definitions\<close>

datatype terminal = Out string | Err string

text \<open>The abstract class \<open>Client\<close>, and its two implementations.\<close>

record 'w client_ops =
  client_get :: "string \<Rightarrow> 'w \<Rightarrow> (string option \<times> 'w) cpp"
  client_put :: "string \<Rightarrow> string \<Rightarrow> 'w \<Rightarrow> (bool \<times> 'w) cpp"
  client_append :: "string \<Rightarrow> string \<Rightarrow> 'w \<Rightarrow> (bool \<times> 'w) cpp"
  client_delete :: "string \<Rightarrow> 'w \<Rightarrow> (string option \<times> 'w) cpp"
  client_multi_get :: "string list \<Rightarrow> 'w \<Rightarrow> (string list option \<times> 'w) cpp"
  client_multi_put :: "string list \<Rightarrow> string list \<Rightarrow> 'w \<Rightarrow> (bool \<times> 'w) cpp"
  client_gdpr_delete :: "string \<Rightarrow> 'w \<Rightarrow> (bool \<times> 'w) cpp"

definition SimpleClient :: "'w transport \<Rightarrow> string \<Rightarrow> 'w client_ops" where
  "SimpleClient tr addr =
     \<lparr>client_get = sc_get tr addr, client_put = sc_put tr addr, client_append = sc_append tr addr,
      client_delete = sc_delete tr addr, client_multi_get = sc_multi_get tr addr,
      client_multi_put = sc_multi_put tr addr,
      client_gdpr_delete = (\<lambda>user w. Inr (sc_gdpr_delete user, w))\<rparr>"

definition ShardKvClient :: "'w transport \<Rightarrow> 'w client_ops" where
  "ShardKvClient tr =
     \<lparr>client_get = skv_get tr, client_put = skv_put tr, client_append = skv_append tr,
      client_delete = skv_delete tr, client_multi_get = skv_multi_get tr,
      client_multi_put = skv_multi_put tr, client_gdpr_delete = (\<lambda>user w. Inl AssertFail)\<rparr>"

record 'w ReplCommand =
  cmd_name :: string
  cmd_params :: string
  cmd_description :: string
  cmd_handle :: "string \<Rightarrow> 'w \<Rightarrow> (terminal list \<times> 'w) cpp"

definition cmd_help :: "'w ReplCommand \<Rightarrow> string" where
  "cmd_help c = cmd_name c @ '' '' @ cmd_params c @ '': '' @ cmd_description c"

definition usage :: "string \<Rightarrow> string \<Rightarrow> string" where
  "usage name params = ''Usage: '' @ name @ '' '' @ params"

abbreviation tokens_of :: "string \<Rightarrow> string list" where
  "tokens_of s \<equiv> split s (CHR '' '')"

definition GetCommand :: "'w client_ops \<Rightarrow> 'w ReplCommand" where
  "GetCommand client =
     \<lparr>cmd_name = ''get'', cmd_params = ''<key>'',
      cmd_description = ''Gets <key>'' @ [CHR 39] @ ''s value; prints an error if not found'',
      cmd_handle = (\<lambda>s w. let tokens = tokens_of s in
        if length tokens \<noteq> 1 then Inr ([Err (''Missing key. '' @ usage ''get'' ''<key>'')], w)
        else bindE (client_get client (tokens ! 0) w) (\<lambda>(res, w).
          case res of None \<Rightarrow> Inr ([], w) | Some v \<Rightarrow> Inr ([Out (''Got value: '' @ v @ [CHR 10])], w)))\<rparr>"

text \<open>The value of \<open>put\<close> is every further token followed by a space.\<close>

definition put_value :: "string list \<Rightarrow> string" where
  "put_value tokens = fold (\<lambda>s val. val @ s @ '' '') (drop 1 tokens) []"

definition PutCommand :: "'w client_ops \<Rightarrow> 'w ReplCommand" where
  "PutCommand client =
     \<lparr>cmd_name = ''put'', cmd_params = ''<key> <value>'', cmd_description = ''Sets <key> to <value>'',
      cmd_handle = (\<lambda>s w. let tokens = tokens_of s in
        if length tokens < 2
        then Inr ([Err (''Missing key and/or value. '' @ usage ''put'' ''<key> <value>'')], w)
        else bindE (client_put client (tokens ! 0) (put_value tokens) w) (\<lambda>(res, w). Inr ([], w)))\<rparr>"

definition AppendCommand :: "'w client_ops \<Rightarrow> 'w ReplCommand" where
  "AppendCommand client =
     \<lparr>cmd_name = ''append'', cmd_params = ''<key> <value>'',
      cmd_description = ''Appends <value> to <key>; creates <key> if does not exist'',
      cmd_handle = (\<lambda>s w. let tokens = tokens_of s in
        if length tokens \<noteq> 2
        then Inr ([Err (''Missing key and/or value. '' @ usage ''append'' ''<key> <value>'')], w)
        else bindE (client_append client (tokens ! 0) (tokens ! 1) w) (\<lambda>(res, w). Inr ([], w)))\<rparr>"

definition DeleteCommand :: "'w client_ops \<Rightarrow> 'w ReplCommand" where
  "DeleteCommand client =
     \<lparr>cmd_name = ''delete'', cmd_params = ''<key>'', cmd_description = ''Deletes <key>, and gets its last value'',
      cmd_handle = (\<lambda>s w. let tokens = tokens_of s in
        if length tokens \<noteq> 1 then Inr ([Err (''Missing key. '' @ usage ''delete'' ''<key>'')], w)
        else bindE (client_delete client (tokens ! 0) w) (\<lambda>(res, w).
          case res of None \<Rightarrow> Inr ([], w) | Some v \<Rightarrow> Inr ([Out (''Got value: '' @ v @ [CHR 10])], w)))\<rparr>"

definition MultiGetCommand :: "'w client_ops \<Rightarrow> 'w ReplCommand" where
  "MultiGetCommand client =
     \<lparr>cmd_name = ''multiget'', cmd_params = ''<key1> ...'',
      cmd_description = ''Gets the values of <key1>, ..., <keyn>; prints an error if not any are not found'',
      cmd_handle = (\<lambda>s w. let tokens = tokens_of s in
        if length tokens < 1 then Inr ([Err (''Missing keys. '' @ usage ''multiget'' ''<key1> ...'')], w)
        else bindE (client_multi_get client tokens w) (\<lambda>(res, w).
          case res of None \<Rightarrow> Inr ([], w)
          | Some vs \<Rightarrow> Inr ([Out ''Got values: ''] @ map (\<lambda>v. Out (v @ '' '')) vs @ [Out [CHR 10]], w)))\<rparr>"

text \<open>
  The loop of \<open>multiput\<close> fills \<open>keys[i / 2]\<close> and \<open>values[i / 2]\<close> from the tokens
  \<open>i\<close> and \<open>i + 1\<close>, for even \<open>i\<close>.
\<close>

function multiput_loop :: "string list \<Rightarrow> nat \<Rightarrow> string list \<Rightarrow> string list \<Rightarrow> (string list \<times> string list) cpp" where
  "multiput_loop tokens i keys vals =
     (if i < length tokens then
        bindE (at tokens i) (\<lambda>k. bindE (at tokens (i + 1)) (\<lambda>v.
          if i div 2 < length keys \<and> i div 2 < length vals
          then multiput_loop tokens (i + 2) (keys[i div 2 := k]) (vals[i div 2 := v])
          else Inl OutOfBounds))
      else Inr (keys, vals))"
  by pat_completeness auto
termination
  by (relation "measure (\<lambda>(tokens, i, _). length tokens - i)") auto

declare multiput_loop.simps [simp del]

definition MultiPutCommand :: "'w client_ops \<Rightarrow> 'w ReplCommand" where
  "MultiPutCommand client =
     \<lparr>cmd_name = ''multiput'', cmd_params = ''<key1> <value1> ...'',
      cmd_description = ''Sets the values of <key1>, ..., <keyn> to <value1>, ..., <valuen>'',
      cmd_handle = (\<lambda>s w. let tokens = tokens_of s; n = length tokens div 2 in
        if length tokens < 2 \<or> length tokens mod 2 \<noteq> 0
        then Inr ([Err (''Missing keys and/or values. '' @ usage ''multiput'' ''<key1> <value1> ...'')], w)
        else bindE (multiput_loop tokens 0 (replicate n []) (replicate n [])) (\<lambda>(keys, vals).
          bindE (client_multi_put client keys vals w) (\<lambda>(res, w). Inr ([], w))))\<rparr>"

definition GDPRDeleteCommand :: "'w client_ops \<Rightarrow> 'w ReplCommand" where
  "GDPRDeleteCommand client =
     \<lparr>cmd_name = ''gdprdelete'', cmd_params = ''<user>'',
      cmd_description = ''Deletes <user>'' @ [CHR 39] @ ''s data according to GDPR requirements'',
      cmd_handle = (\<lambda>s w. let tokens = tokens_of s in
        if length tokens \<noteq> 1 then Inr ([Err (''Missing key. '' @ usage ''gdprdelete'' ''<user>'')], w)
        else bindE (client_gdpr_delete client (tokens ! 0) w) (\<lambda>(res, w).
          if \<not> res then Inr ([], w) else Inr ([Out (''Success'' @ [CHR 10])], w)))\<rparr>"

text \<open>A valid address has a colon, and a number after the first colon.\<close>

definition valid_address :: "string \<Rightarrow> bool" where
  "valid_address a = (case string_find (CHR '':'') a of None \<Rightarrow> False | Some idx \<Rightarrow> is_number (drop (idx + 1) a))"

definition JoinCommand :: "'w transport \<Rightarrow> 'w ReplCommand" where
  "JoinCommand client =
     \<lparr>cmd_name = ''join'', cmd_params = ''<address>'',
      cmd_description = ''tells the Shardmaster that the key-value server running on <address> '' @
        ''(hostname:port) is available for shard distribution.'',
      cmd_handle = (\<lambda>s w. let tokens = tokens_of s in
        if length tokens \<noteq> 1 then Inr ([Err (''Missing server address. '' @ usage ''join'' ''<address>'')], w)
        else if \<not> valid_address (tokens ! 0)
        then Inr ([Err (''Invalid server address. '' @ usage ''join'' ''<address>'')], w)
        else bindE (skv_join client (tokens ! 0) w) (\<lambda>(res, w).
          Inr (if res then [] else [Err ''Failed to send Join request to shardmaster.''], w)))\<rparr>"

definition LeaveCommand :: "'w transport \<Rightarrow> 'w ReplCommand" where
  "LeaveCommand client =
     \<lparr>cmd_name = ''leave'', cmd_params = ''<address>'',
      cmd_description = ''tells the Shardmaster that the key-value server on the specified address '' @
        ''(hostname:port) is no longer available for shard distribution.'',
      cmd_handle = (\<lambda>s w. let tokens = tokens_of s in
        if length tokens \<noteq> 1 then Inr ([Err (''Missing server address. '' @ usage ''leave'' ''<address>'')], w)
        else if \<not> valid_address (tokens ! 0)
        then Inr ([Err (''Invalid server address. '' @ usage ''leave'' ''<address>'')], w)
        else bindE (skv_leave client (tokens ! 0) w) (\<lambda>(res, w).
          Inr (if res then [] else [Err ''Failed to send Leave request to shardmaster.''], w)))\<rparr>"

text \<open>
  The loop of \<open>move\<close> over the pairs of bounds: the shards, or the message with which it
  gives up. \<open>tokens[i + 1]\<close> is read only when \<open>tokens[i]\<close> is valid.
\<close>

definition move_usage :: string where
  "move_usage = usage ''move'' ''<address> <s1 lower> <s1 upper> ...''"

function move_loop :: "string list \<Rightarrow> nat \<Rightarrow> shard list \<Rightarrow> (string + shard list) cpp" where
  "move_loop tokens i shs =
     (if i < length tokens then
        bindE (at tokens i) (\<lambda>lo.
        bindE (if \<not> is_valid lo then Inr None
               else bindE (at tokens (i + 1)) (\<lambda>up. Inr (if \<not> is_valid up then None else Some up))) (\<lambda>bound.
        case bound of
          None \<Rightarrow> Inr (Inl (''Invalid shard boundaries; valid characters (case-insensitive): '' @
            [CHR 34] @ VALID_CHARS @ [CHR 34] @ ''.''))
        | Some up \<Rightarrow>
            if length lo \<noteq> length up
            then Inr (Inl (''Invalid shard boundaries; must be same granularity. '' @ move_usage))
            else if i div 2 < length shs
            then move_loop tokens (i + 2) (shs[i div 2 := \<lparr>lower = to_upper lo, upper = to_upper up\<rparr>])
            else Inl OutOfBounds))
      else Inr (Inr shs))"
  by pat_completeness auto
termination
  by (relation "measure (\<lambda>(tokens, i, _). length tokens - i)") auto

declare move_loop.simps [simp del]

definition MoveCommand :: "'w transport \<Rightarrow> 'w ReplCommand" where
  "MoveCommand client =
     \<lparr>cmd_name = ''move'', cmd_params = ''<address> <s1 lower> <s1 upper> ...'',
      cmd_description = ''moves shards s1, ..., sn to the key-value server running on <address> (hostname:port)'',
      cmd_handle = (\<lambda>s w. let tokens = tokens_of s in
        if length tokens < 3
        then Inr ([Err (''Missing server address, or at least 1 shard. '' @ move_usage)], w)
        else let ill = (if length tokens mod 2 = 0 then [Err (''Ill-formed shards. '' @ move_usage)] else []) in
        if \<not> valid_address (tokens ! 0) then Inr (ill @ [Err (''Ill-formed address. '' @ move_usage)], w)
        else bindE (move_loop tokens 1 (replicate ((length tokens - 1) div 2) \<lparr>lower = [], upper = []\<rparr>)) (\<lambda>r.
          case r of Inl msg \<Rightarrow> Inr (ill @ [Err msg], w)
          | Inr shs \<Rightarrow> bindE (skv_move client (tokens ! 0) shs w) (\<lambda>(res, w).
              Inr (ill @ (if res then [] else [Err ''Failed to send Move request to shardmaster.'']), w))))\<rparr>"

definition QueryCommand :: "'w transport \<Rightarrow> 'w ReplCommand" where
  "QueryCommand client =
     \<lparr>cmd_name = ''query'', cmd_params = [], cmd_description = ''Gets the current shardmaster configuration.'',
      cmd_handle = (\<lambda>s w. bindE (skv_query client w) (\<lambda>(config, w).
        Inr (case config of None \<Rightarrow> [Err ''Failed to query shardmaster.''] | Some c \<Rightarrow> [Out (config_print c)], w)))\<rparr>"

text \<open>
  The server's \<open>print\<close>: \<open>get_config().print()\<close> builds a string that is not
  written anywhere.
\<close>

definition print_pairs :: "(string, string) std_map \<Rightarrow> terminal list" where
  "print_pairs res = map (\<lambda>(k, v). Out ([CHR 9] @ k @ '': '' @ v @ [CHR 10])) res"

definition PrintCommand :: "'s kvstore \<Rightarrow> shardmaster_config \<Rightarrow> 's ReplCommand" where
  "PrintCommand ops config =
     \<lparr>cmd_name = ''print'', cmd_params = ''<store|config>'',
      cmd_description = ''Prints either the internal store contents, or the shardmaster configuration.'',
      cmd_handle = (\<lambda>s w. let tokens = tokens_of s in
        if length tokens \<noteq> 1 then Inr ([Err (''Missing print type. '' @ usage ''print'' ''<store|config>'')], w)
        else if to_lower (tokens ! 0) = ''store'' then
          bindE (all_kvpairs ops w) (\<lambda>(res, w). Inr (Out (''Key-value pairs:'' @ [CHR 10]) # print_pairs res, w))
        else if to_lower (tokens ! 0) = ''config'' then
          (let res = config_print config in Inr ([], w))
        else Inr ([Err (''Print type must be either '' @ [CHR 34] @ ''store'' @ [CHR 34] @ '' or '' @
          [CHR 34] @ ''config'' @ [CHR 34] @ ''.'')], w))\<rparr>"

definition SmQueryCommand :: "'w ReplCommand" where
  "SmQueryCommand =
     \<lparr>cmd_name = ''query'', cmd_params = [], cmd_description = ''Gets the current shardmaster configuration.'',
      cmd_handle = (\<lambda>s w. Inr ([Out (config_print (snd (sm_query \<lparr>servers = []\<rparr>)))], w))\<rparr>"

definition add_command :: "'w ReplCommand list \<Rightarrow> 'w ReplCommand \<Rightarrow> 'w ReplCommand list" where
  "add_command commands c = commands @ [c]"

definition repl_help :: "'w ReplCommand list \<Rightarrow> string" where
  "repl_help commands = fold (\<lambda>c res. res @ ''- '' @ cmd_help c @ [CHR 10]) commands (''Available commands:'' @ [CHR 10])"

definition process_line :: "'w ReplCommand list \<Rightarrow> string \<Rightarrow> 'w \<Rightarrow> (terminal list \<times> 'w) cpp" where
  "process_line commands line w =
     (let (cmd, remaining) = (case string_find (CHR '' '') line of
            None \<Rightarrow> (line, []) | Some i \<Rightarrow> (take i line, drop (i + 1) line)) in
      if line = [] then Inr ([], w)
      else if cmd = ''help'' then Inr ([Out (repl_help commands @ [CHR 10])], w)
      else (case find (\<lambda>c. cmd_name c = cmd) commands of
              Some c \<Rightarrow> cmd_handle c remaining w
            | None \<Rightarrow> Inr ([Err ''Invalid command.'', Out (repl_help commands @ [CHR 10])], w)))"

text \<open>
  \<open>Repl::run\<close> over the lines of standard input. An exception is reported and the loop goes
  on; every other error ends the program. The world a throwing call leaves behind is the
  parameter \<open>unwind\<close>.
\<close>

fun repl_loop :: "('w \<Rightarrow> 'w) \<Rightarrow> 'w ReplCommand list \<Rightarrow> string list \<Rightarrow> 'w \<Rightarrow> (terminal list \<times> 'w) cpp" where
  "repl_loop unwind commands [] w = Inr ([], w)"
| "repl_loop unwind commands (line # ls) w =
     (case process_line commands line w of
        Inr (out, w) \<Rightarrow> bindE (repl_loop unwind commands ls w) (\<lambda>(rest, w). Inr (out @ rest, w))
      | Inl (Throw msg) \<Rightarrow> bindE (repl_loop unwind commands ls (unwind w))
          (\<lambda>(rest, w). Inr (Err (''Method failed with error message: '' @ msg) # rest, w))
      | Inl e \<Rightarrow> Inl e)"

definition greeting :: terminal where
  "greeting = Out (''Type '' @ [CHR 39] @ ''help'' @ [CHR 39] @ '' for a list of commands.'' @ [CHR 10])"

definition repl_run :: "('w \<Rightarrow> 'w) \<Rightarrow> 'w ReplCommand list \<Rightarrow> string list \<Rightarrow> 'w \<Rightarrow> (terminal list \<times> 'w) cpp" where
  "repl_run unwind commands ls w = bindE (repl_loop unwind commands ls w)
     (\<lambda>(out, w). Inr (greeting # out, w))"

text \<open>The commands the two clients register, in order.\<close>

definition kv_commands :: "'w client_ops \<Rightarrow> 'w ReplCommand list \<Rightarrow> 'w ReplCommand list" where
  "kv_commands client repl = foldl add_command repl
     [GetCommand client, PutCommand client, AppendCommand client, DeleteCommand client,
      MultiGetCommand client, MultiPutCommand client, GDPRDeleteCommand client]"

definition simple_client_main :: "'w transport \<Rightarrow> string \<Rightarrow> 'w ReplCommand list" where
  "simple_client_main tr addr = kv_commands (SimpleClient tr addr) []"

definition client_main :: "'w transport \<Rightarrow> 'w ReplCommand list" where
  "client_main tr = kv_commands (ShardKvClient tr)
     (foldl add_command [] [JoinCommand tr, LeaveCommand tr, MoveCommand tr, QueryCommand tr])"

text \<open>
  \<open>std::stoi\<close>: white space, an optional sign and at least one digit; what follows the
  digits is ignored.
\<close>

datatype stoi_error = invalid_argument | out_of_range

definition isspace :: "char \<Rightarrow> bool" where
  "isspace c \<longleftrightarrow> c = CHR '' '' \<or> (9 \<le> byte_of c \<and> byte_of c \<le> 13)"

definition digits_value :: "string \<Rightarrow> int" where
  "digits_value ds = foldl (\<lambda>n c. 10 * n + (int (byte_of c) - 48)) 0 ds"

definition stoi :: "string \<Rightarrow> stoi_error + int" where
  "stoi s =
     (let t = dropWhile isspace s;
          (neg, u) = (case t of c # cs \<Rightarrow> if c = CHR ''-'' then (True, cs) else if c = CHR ''+'' then (False, cs) else (False, t)
                      | [] \<Rightarrow> (False, []));
          ds = takeWhile isdigit u;
          n = (if neg then - digits_value ds else digits_value ds)
      in if ds = [] then Inl invalid_argument
         else if n < - (2 ^ 31) \<or> 2 ^ 31 \<le> n then Inl out_of_range else Inr n)"

text \<open>
  The arguments of the server program: \<open>None\<close> when it prints its usage and gives up.
  \<open>argv[argc]\<close> is a null pointer, from which no string can be built.
\<close>

record server_args =
  arg_addr :: string
  arg_shardmaster :: string
  arg_workers :: "64 word"

definition N_WORKERS :: "64 word" where
  "N_WORKERS = 5"

definition argv_string :: "string list \<Rightarrow> nat \<Rightarrow> string cpp" where
  "argv_string argv i = (if i < length argv then Inr (argv ! i) else Inl Undefined)"

definition parse_server_args :: "string \<Rightarrow> string list \<Rightarrow> server_args option cpp" where
  "parse_server_args hostname argv =
     (let argc = length argv in
      if argc < 2 \<or> argc > 4 then Inr None
      else let addr = get_host_address hostname (argv ! 1) in
      if argc = 3 then
        (case stoi (argv ! 2) of
           Inr n \<Rightarrow> Inr (Some \<lparr>arg_addr = addr, arg_shardmaster = [], arg_workers = of_int n\<rparr>)
         | Inl invalid_argument \<Rightarrow>
             bindE (argv_string argv 3) (\<lambda>a.
               Inr (Some \<lparr>arg_addr = addr, arg_shardmaster = a, arg_workers = N_WORKERS\<rparr>))
         | Inl out_of_range \<Rightarrow> Inl (Throw ''stoi''))
      else if argc = 4 then
        (case stoi (argv ! 3) of
           Inr n \<Rightarrow> Inr (Some \<lparr>arg_addr = addr, arg_shardmaster = argv ! 2, arg_workers = of_int n\<rparr>)
         | Inl e \<Rightarrow> Inl (Throw ''stoi''))
      else Inr (Some \<lparr>arg_addr = addr, arg_shardmaster = [], arg_workers = N_WORKERS\<rparr>))"

section \<open>Lines and tokens\<close>

definition word_token :: "string \<Rightarrow> bool" where
  "word_token s \<longleftrightarrow> s \<noteq> [] \<and> CHR '' '' \<notin> set s"

lemma tokens_join: "\<forall>s \<in> set ws. word_token s \<Longrightarrow> tokens_of (join (CHR '' '') ws) = ws"
  by (rule split_join) (simp add: word_token_def)

lemma process_line_command:
  assumes "CHR '' '' \<notin> set n" and "n \<noteq> ''help''" and "find (\<lambda>c. cmd_name c = n) commands = Some c"
  shows "process_line commands (n @ CHR '' '' # rest) w = cmd_handle c rest w"
  using assms by (simp add: process_line_def string_find_def find_pos_append)

lemma put_value_eq: "put_value (k # ws) = concat (map (\<lambda>s. s @ '' '') ws)"
proof -
  have "fold (\<lambda>s val. val @ s @ '' '') ws acc = acc @ concat (map (\<lambda>s. s @ '' '') ws)" for acc
    by (induction ws arbitrary: acc) auto
  then show ?thesis by (simp add: put_value_def)
qed

lemmas command_defs = client_main_def kv_commands_def add_command_def GetCommand_def PutCommand_def AppendCommand_def
  DeleteCommand_def MultiGetCommand_def MultiPutCommand_def GDPRDeleteCommand_def JoinCommand_def LeaveCommand_def
  MoveCommand_def QueryCommand_def

text \<open>A line of the client that starts with the name of a command goes to its handler.\<close>

lemma client_main_lines:
  "process_line (client_main tr) (''put '' @ s) w = cmd_handle (PutCommand (ShardKvClient tr)) s w"
  "process_line (client_main tr) (''get '' @ s) w = cmd_handle (GetCommand (ShardKvClient tr)) s w"
  "process_line (client_main tr) (''multiput '' @ s) w = cmd_handle (MultiPutCommand (ShardKvClient tr)) s w"
  "process_line (client_main tr) (''multiget '' @ s) w = cmd_handle (MultiGetCommand (ShardKvClient tr)) s w"
  "process_line (client_main tr) (''move '' @ s) w = cmd_handle (MoveCommand tr) s w"
proof -
  have cmd: "process_line (client_main tr) (n @ CHR '' '' # s) w = cmd_handle c s w"
    if "find (\<lambda>c. cmd_name c = n) (client_main tr) = Some c" "CHR '' '' \<notin> set n" "n \<noteq> ''help''" for n c
    using that by (rule process_line_command [rotated 2])
  show "process_line (client_main tr) (''put '' @ s) w = cmd_handle (PutCommand (ShardKvClient tr)) s w"
    using cmd [of "''put''"] by (simp add: command_defs)
  show "process_line (client_main tr) (''get '' @ s) w = cmd_handle (GetCommand (ShardKvClient tr)) s w"
    using cmd [of "''get''"] by (simp add: command_defs)
  show "process_line (client_main tr) (''multiput '' @ s) w = cmd_handle (MultiPutCommand (ShardKvClient tr)) s w"
    using cmd [of "''multiput''"] by (simp add: command_defs)
  show "process_line (client_main tr) (''multiget '' @ s) w = cmd_handle (MultiGetCommand (ShardKvClient tr)) s w"
    using cmd [of "''multiget''"] by (simp add: command_defs)
  show "process_line (client_main tr) (''move '' @ s) w = cmd_handle (MoveCommand tr) s w"
    using cmd [of "''move''"] by (simp add: command_defs)
qed

lemma put_handle:
  assumes "tokens_of s = k # v # ws" and "client_put client k (put_value (k # v # ws)) w = Inr (b, w')"
  shows "cmd_handle (PutCommand client) s w = Inr ([], w')"
  using assms by (simp add: PutCommand_def)

lemma get_handle:
  assumes "tokens_of s = [k]" and "client_get client k w = Inr (Some v, w')"
  shows "cmd_handle (GetCommand client) s w = Inr ([Out (''Got value: '' @ v @ [CHR 10])], w')"
  using assms by (simp add: GetCommand_def)

lemma repl_run_two:
  assumes "process_line commands l1 w = Inr (out1, w1)" and "process_line commands l2 w1 = Inr (out2, w2)"
  shows "repl_run unwind commands [l1, l2] w = Inr (greeting # out1 @ out2, w2)"
  using assms by (simp add: repl_run_def)

text \<open>
  What a user types is what is stored, up to spaces. On a cluster, \<open>put k v1 ... vn\<close>
  followed by \<open>get k\<close> prints the words of the value each followed by one space: the stored
  value always ends in a space that was not typed.
\<close>

theorem repl_put_get:
  assumes "\<forall>addr. simple_inv (stores w addr)" and "get_server c k = Inr (Some addr)"
    and "word_token k" and "ws \<noteq> []" and "\<forall>v \<in> set ws. word_token v"
  shows "\<exists>w'. repl_run unwind (client_main (cluster_transport c))
      [''put '' @ join (CHR '' '') (k # ws), ''get '' @ k] w
    = Inr ([greeting, Out (''Got value: '' @ concat (map (\<lambda>v. v @ '' '') ws) @ [CHR 10])], w')"
proof -
  let ?tr = "cluster_transport c" and ?v = "concat (map (\<lambda>v. v @ '' '') ws)"
  have ok: "world_ok w" using assms(1) by (simp add: world_ok_def)
  obtain w1 where w1: "skv_put ?tr k ?v w = Inr (True, w1)" "world_ok w1"
    "servers.view (\<lambda>_. addr) w1 k = Some ?v"
    using servers.put_view [OF ok, of c k "\<lambda>_. addr" ?v] assms(2) by auto
  obtain w2 where w2: "skv_get ?tr k w1 = Inr (Some ?v, w2)"
    using servers.get_view [OF w1(2), of c k "\<lambda>_. addr"] assms(2) w1(3) by auto
  obtain v vs where ws: "ws = v # vs" using assms(4) by (cases ws) auto
  have "tokens_of (join (CHR '' '') (k # ws)) = k # v # vs"
    using assms(3,5) tokens_join [of "k # ws"] by (simp add: ws)
  then have "process_line (client_main ?tr) (''put '' @ join (CHR '' '') (k # ws)) w = Inr ([], w1)"
    unfolding client_main_lines by (rule put_handle) (use w1(1) in \<open>simp add: ShardKvClient_def put_value_eq ws\<close>)
  moreover have "tokens_of k = [k]" using tokens_join [of "[k]"] assms(3) by simp
  then have "process_line (client_main ?tr) (''get '' @ k) w1 = Inr ([Out (''Got value: '' @ ?v @ [CHR 10])], w2)"
    unfolding client_main_lines by (rule get_handle) (use w2 in \<open>simp add: ShardKvClient_def\<close>)
  ultimately have "repl_run unwind (client_main ?tr) [''put '' @ join (CHR '' '') (k # ws), ''get '' @ k] w
      = Inr (greeting # [] @ [Out (''Got value: '' @ ?v @ [CHR 10])], w2)"
    by (rule repl_run_two)
  then show ?thesis by simp
qed

theorem repl_put_get_witness:
  "\<exists>w'. repl_run id (client_main (cluster_transport two_servers)) [''put a b c'', ''get a''] empty_world
    = Inr ([greeting, Out (''Got value: b c '' @ [CHR 10])], w')"
  using repl_put_get [of empty_world two_servers "''a''" "''a:1''" "[''b'', ''c'']" id]
  by (simp add: empty_world_def simple_init_ok two_servers_routes word_token_def)

section \<open>Pairs of arguments\<close>

definition interleave :: "'a list \<Rightarrow> 'a list \<Rightarrow> 'a list" where
  "interleave xs ys = concat (map2 (\<lambda>x y. [x, y]) xs ys)"

lemma interleave_simps [simp]:
  "interleave [] [] = []"
  "interleave (x # xs) (y # ys) = x # y # interleave xs ys"
  by (simp_all add: interleave_def)

lemma length_interleave [simp]: "length xs = length ys \<Longrightarrow> length (interleave xs ys) = 2 * length xs"
  by (induction xs ys rule: list_induct2) auto

lemma nth_interleave:
  "length xs = length ys \<Longrightarrow> j < length xs \<Longrightarrow> interleave xs ys ! (2 * j) = xs ! j"
  "length xs = length ys \<Longrightarrow> j < length xs \<Longrightarrow> interleave xs ys ! Suc (2 * j) = ys ! j"
proof (induction xs ys arbitrary: j rule: list_induct2)
  case (Cons x xs y ys)
  { case 1 then show ?case using Cons.IH(1) [of "j - 1"] by (cases j) simp_all }
  { case 2 then show ?case using Cons.IH(2) [of "j - 1"] by (cases j) simp_all }
qed simp_all

lemma set_interleave: "length xs = length ys \<Longrightarrow> set (interleave xs ys) = set xs \<union> set ys"
  by (induction xs ys rule: list_induct2) auto

lemma take_Suc_update:
  "j < length xs \<Longrightarrow> (take j xs @ replicate (length xs - j) d)[j := xs ! j] = take (Suc j) xs @ replicate (length xs - Suc j) d"
  by (rule nth_equalityI) (auto simp: nth_append nth_list_update min_def less_Suc_eq)

lemma multiput_loop_pairs:
  assumes "length keys = length vals" and "j \<le> length keys"
  shows "multiput_loop (interleave keys vals) (2 * j) (take j keys @ replicate (length keys - j) [])
      (take j vals @ replicate (length vals - j) []) = Inr (keys, vals)"
  using assms(2)
proof (induction rule: inc_induct)
  case base
  show ?case using assms(1) by (subst multiput_loop.simps) simp
next
  case (step j)
  have "2 * j < length (interleave keys vals)" "2 * j + 1 < length (interleave keys vals)"
    using step.hyps assms(1) by auto
  then show ?case
    using step assms(1) take_Suc_update [of j keys "[]"] take_Suc_update [of j vals "[]"]
    by (subst multiput_loop.simps) (simp add: nth_interleave)
qed

lemma multiput_handle:
  assumes "tokens_of s = interleave keys vals" and "length keys = length vals" and "keys \<noteq> []"
    and "client_multi_put client keys vals w = Inr (b, w')"
  shows "cmd_handle (MultiPutCommand client) s w = Inr ([], w')"
  using assms multiput_loop_pairs [OF assms(2), of 0]
  by (cases keys; cases vals) (simp_all add: MultiPutCommand_def Let_def)

lemma multiget_handle:
  assumes "tokens_of s = keys" and "keys \<noteq> []" and "client_multi_get client keys w = Inr (Some vs, w')"
  shows "cmd_handle (MultiGetCommand client) s w
    = Inr ([Out ''Got values: ''] @ map (\<lambda>v. Out (v @ '' '')) vs @ [Out [CHR 10]], w')"
  using assms by (cases keys) (simp_all add: MultiGetCommand_def)



section \<open>Moving shards\<close>

definition good_pair :: "string \<Rightarrow> string \<Rightarrow> bool" where
  "good_pair lo up \<longleftrightarrow> is_valid lo \<and> is_valid up \<and> length lo = length up"

abbreviation move_shards :: "string list \<Rightarrow> string list \<Rightarrow> shard list" where
  "move_shards los ups \<equiv> map2 (\<lambda>lo up. \<lparr>lower = to_upper lo, upper = to_upper up\<rparr>) los ups"

text \<open>
  The loop over well-formed pairs, with whatever tokens \<open>rest\<close> follow them.
\<close>

lemma move_loop_pairs:
  assumes "length los = length ups" and "\<forall>i < length los. good_pair (los ! i) (ups ! i)" and "j \<le> length los"
  shows "move_loop (a # interleave los ups @ rest) (Suc (2 * j)) (take j (move_shards los ups) @ replicate (length los - j) d)
    = move_loop (a # interleave los ups @ rest) (Suc (2 * length los)) (move_shards los ups)"
  using assms(3)
proof (induction rule: inc_induct)
  case base
  show ?case using assms(1) by simp
next
  case (step j)
  let ?ts = "a # interleave los ups @ rest"
  have nth: "?ts ! Suc (2 * j) = los ! j" "?ts ! Suc (Suc (2 * j)) = ups ! j"
    using step.hyps assms(1) by (auto simp: nth_append nth_interleave)
  have "good_pair (los ! j) (ups ! j)" using assms(2) step.hyps by blast
  then show ?case
    using step assms(1) nth take_Suc_update [of j "move_shards los ups" d]
    by (subst move_loop.simps) (simp add: good_pair_def)
qed

lemma move_loop_end:
  "move_loop (a # ts) (Suc (length ts)) shs = Inr (Inr shs)"
  by (subst move_loop.simps) simp

text \<open>
  \<open>move\<close> with an address and well-formed pairs of bounds sends exactly those
  shards, in upper case and in order.
\<close>

theorem move_command_sends:
  assumes "valid_address a" and "los \<noteq> []" and "length los = length ups"
    and "\<forall>i < length los. good_pair (los ! i) (ups ! i)"
    and "\<forall>s \<in> set (a # los @ ups). word_token s"
  shows "cmd_handle (MoveCommand tr) (join (CHR '' '') (a # interleave los ups)) w
    = bindE (skv_move tr a (move_shards los ups) w) (\<lambda>(res, w).
        Inr (if res then [] else [Err ''Failed to send Move request to shardmaster.''], w))"
proof -
  let ?ts = "a # interleave los ups"
  have ts: "tokens_of (join (CHR '' '') ?ts) = ?ts"
    using assms(3,5) by (intro tokens_join) (auto simp: set_interleave)
  have len: "length ?ts = Suc (2 * length los)" using assms(3) by simp
  have "move_loop ?ts 1 (replicate (length los) d) = Inr (Inr (move_shards los ups))" for d
    using move_loop_pairs [OF assms(3,4), of 0 a "[]" d] move_loop_end [of a "interleave los ups"] assms(3) by simp
  then show ?thesis using assms(1,2) len
    by (simp add: MoveCommand_def Let_def ts del: join.simps)
qed

theorem move_command_sends_witness:
  "cmd_handle (MoveCommand (cluster_transport two_servers)) ''h:1 a b'' empty_world
    = bindE (skv_move (cluster_transport two_servers) ''h:1'' [\<lparr>lower = ''A'', upper = ''B''\<rparr>] empty_world)
        (\<lambda>(res, w). Inr (if res then [] else [Err ''Failed to send Move request to shardmaster.''], w))"
proof -
  have "valid_address ''h:1''" "is_valid ''a''" "is_valid ''b''" "to_upper ''a'' = ''A''" "to_upper ''b'' = ''B''"
    by code_simp+
  then show ?thesis
    using move_command_sends [of "''h:1''" "[''a'']" "[''b'']" "cluster_transport two_servers" empty_world]
    by (simp add: good_pair_def word_token_def)
qed

text \<open>
  With one bound too many \<open>move\<close> reports ill-formed shards but does not return:
  the loop goes on to the unpaired bound and reads the token after the last one.
\<close>

theorem move_command_overrun:
  assumes "valid_address a" and "los \<noteq> []" and "length los = length ups"
    and "\<forall>i < length los. good_pair (los ! i) (ups ! i)" and "is_valid lo"
    and "\<forall>s \<in> set (a # los @ ups @ [lo]). word_token s"
  shows "cmd_handle (MoveCommand tr) (join (CHR '' '') (a # interleave los ups @ [lo])) w = Inl OutOfBounds"
proof -
  let ?ts = "a # interleave los ups @ [lo]"
  have ts: "tokens_of (join (CHR '' '') ?ts) = ?ts"
    using assms(3,6) by (intro tokens_join) (auto simp: set_interleave)
  have "move_loop ?ts (Suc (2 * length los)) shs = Inl OutOfBounds" for shs
    using assms(3,5) by (subst move_loop.simps) (simp add: nth_append at_def)
  then have "move_loop ?ts 1 (replicate (length los) d) = Inl OutOfBounds" for d
    using move_loop_pairs [OF assms(3,4), of 0 a "[lo]" d] by simp
  moreover have "length ?ts = Suc (Suc (2 * length los))" using assms(3) by simp
  ultimately show ?thesis using assms(1,2)
    by (simp add: MoveCommand_def Let_def ts del: join.simps)
qed

theorem move_command_overrun_witness:
  "cmd_handle (MoveCommand (cluster_transport two_servers)) ''h:1 a b c'' empty_world = Inl OutOfBounds"
proof -
  have "valid_address ''h:1''" "is_valid ''a''" "is_valid ''b''" "is_valid ''c''" by code_simp+
  then show ?thesis
    using move_command_overrun [of "''h:1''" "[''a'']" "[''b'']" "''c''" "cluster_transport two_servers" empty_world]
    by (simp add: good_pair_def word_token_def)
qed

section \<open>The arguments of the server\<close>

text \<open>
  Of the documented forms of the command line, \<open>server port workers\<close> and
  \<open>server port shardmaster workers\<close> are understood, but
  \<open>server port shardmaster\<close> is not: the code reads the argument after the last one, or,
  when the address starts with digits, takes them for the number of workers and runs without a
  shardmaster.
\<close>

theorem server_arguments:
  "parse_server_args h [prog, port] = Inr (Some \<lparr>arg_addr = h @ '':'' @ port, arg_shardmaster = [], arg_workers = 5\<rparr>)
   \<and> (stoi n = Inr k \<longrightarrow> parse_server_args h [prog, port, n]
        = Inr (Some \<lparr>arg_addr = h @ '':'' @ port, arg_shardmaster = [], arg_workers = of_int k\<rparr>))
   \<and> (stoi n = Inr k \<longrightarrow> parse_server_args h [prog, port, sm, n]
        = Inr (Some \<lparr>arg_addr = h @ '':'' @ port, arg_shardmaster = sm, arg_workers = of_int k\<rparr>))
   \<and> (stoi sm = Inl invalid_argument \<longrightarrow> parse_server_args h [prog, port, sm] = Inl Undefined)
   \<and> parse_server_args h [prog, port, ''127.0.0.1:8000'']
       = Inr (Some \<lparr>arg_addr = h @ '':'' @ port, arg_shardmaster = [], arg_workers = 127\<rparr>)"
proof -
  have "stoi ''127.0.0.1:8000'' = Inr 127" by code_simp
  then show ?thesis
    by (simp add: parse_server_args_def get_host_address_def N_WORKERS_def argv_string_def)
qed

theorem server_arguments_witness:
  "stoi ''8'' = Inr 8 \<and> stoi ''localhost:8000'' = Inl invalid_argument
   \<and> parse_server_args ''host'' [''server'', ''80'', ''localhost:8000''] = Inl Undefined
   \<and> parse_server_args ''host'' [''server'', ''80'', ''localhost:8000'', ''8'']
       = Inr (Some \<lparr>arg_addr = ''host:80'', arg_shardmaster = ''localhost:8000'', arg_workers = 8\<rparr>)"
proof -
  have "stoi ''8'' = Inr 8" "stoi ''localhost:8000'' = Inl invalid_argument" by code_simp+
  then show ?thesis
    using server_arguments [of "''host''" "''server''" "''80''" "''8''" 8 "''localhost:8000''"] by simp
qed

end
