(* ===== verification/Memory.thy ===== *)
theory Memory
  imports Prelude
begin

unbundle bit_operations_syntax

text \<open>
  Byte-addressed memory of a 64-bit machine, little-endian: reading and writing runs of bytes
  and 64-bit words, \<open>memset\<close> and \<open>memcpy\<close> as the allocator and the kernel use them, with the
  framing laws between disjoint regions.
\<close>

section \<open>Definitions\<close>

type_synonym addr = "64 word"
type_synonym memory = "64 word \<Rightarrow> 8 word"

definition write_bytes :: "memory \<Rightarrow> addr \<Rightarrow> 8 word list \<Rightarrow> memory" where
  "write_bytes m a bs = (\<lambda>x. if unat (x - a) < length bs then bs ! unat (x - a) else m x)"

definition read_bytes :: "memory \<Rightarrow> addr \<Rightarrow> nat \<Rightarrow> 8 word list" where
  "read_bytes m a n = map (\<lambda>i. m (a + of_nat i)) [0..<n]"

definition le_bytes :: "64 word \<Rightarrow> 8 word list" where
  "le_bytes v = map (\<lambda>i. ucast (drop_bit (8 * i) v)) [0..<8]"

fun of_le :: "8 word list \<Rightarrow> 64 word" where
  "of_le [] = 0"
| "of_le (b # bs) = ucast b OR push_bit 8 (of_le bs)"

definition load64 :: "memory \<Rightarrow> addr \<Rightarrow> 64 word" where
  "load64 m a = of_le (read_bytes m a 8)"

definition store64 :: "memory \<Rightarrow> addr \<Rightarrow> 64 word \<Rightarrow> memory" where
  "store64 m a v = write_bytes m a (le_bytes v)"

definition fill_bytes :: "memory \<Rightarrow> addr \<Rightarrow> 8 word \<Rightarrow> nat \<Rightarrow> memory" where
  "fill_bytes m a b n = (\<lambda>x. if unat (x - a) < n then b else m x)"

text \<open>Two regions that lie in memory without wrapping around and share no byte.\<close>

definition apart :: "addr \<Rightarrow> nat \<Rightarrow> addr \<Rightarrow> nat \<Rightarrow> bool" where
  "apart a n b k \<longleftrightarrow> unat a + n \<le> 2 ^ 64 \<and> unat b + k \<le> 2 ^ 64 \<and> (unat a + n \<le> unat b \<or> unat b + k \<le> unat a)"

section \<open>Round trip and framing\<close>

lemma bit_of_le:
  "length bs \<le> 8 \<Longrightarrow> bit (of_le bs) n \<longleftrightarrow> n < 8 * length bs \<and> bit (bs ! (n div 8)) (n mod 8)"
proof (induction bs arbitrary: n)
  case (Cons b bs)
  show ?case
  proof (cases "n < 8")
    case True
    then show ?thesis by (simp add: bit_or_iff bit_ucast_iff bit_push_bit_iff)
  next
    case False
    then have d: "n div 8 = Suc ((n - 8) div 8)" "n mod 8 = (n - 8) mod 8"
      by (simp_all add: le_div_geq le_mod_geq)
    have "bit (of_le (b # bs)) n \<longleftrightarrow> n < 64 \<and> bit (of_le bs) (n - 8)"
      using False by (simp add: bit_or_iff bit_ucast_iff bit_push_bit_iff) (auto dest: bit_imp_le_length)
    also have "\<dots> \<longleftrightarrow> n < 64 \<and> n - 8 < 8 * length bs \<and> bit (bs ! ((n - 8) div 8)) ((n - 8) mod 8)"
      using Cons by simp
    also have "\<dots> \<longleftrightarrow> n < 8 * length (b # bs) \<and> bit ((b # bs) ! (n div 8)) (n mod 8)"
      using False Cons.prems d by auto
    finally show ?thesis .
  qed
qed simp

lemma of_le_bytes [simp]: "of_le (le_bytes v) = v"
proof (rule bit_word_eqI)
  fix n
  assume "n < LENGTH(64)"
  then have n: "n < 64" by simp
  then have "n div 8 < 8" by simp
  then have "le_bytes v ! (n div 8) = ucast (drop_bit (8 * (n div 8)) v)" by (simp add: le_bytes_def del: upt_Suc)
  moreover have "8 * (n div 8) + n mod 8 = n" by simp
  ultimately show "bit (of_le (le_bytes v)) n = bit v n"
    using n bit_of_le [of "le_bytes v" n] by (simp add: le_bytes_def bit_simps)
qed

lemma length_le_bytes [simp]: "length (le_bytes v) = 8"
  by (simp add: le_bytes_def)

lemma length_read_bytes [simp]: "length (read_bytes m a n) = n"
  by (simp add: read_bytes_def)

lemma unat_of_nat_small: "i < 2 ^ 64 \<Longrightarrow> unat (of_nat i :: 64 word) = i"
  by (simp add: unat_of_nat take_bit_eq_mod)

lemma read_write_same: "length bs \<le> 2 ^ 64 \<Longrightarrow> read_bytes (write_bytes m a bs) a (length bs) = bs"
  by (rule nth_equalityI) (simp_all add: read_bytes_def write_bytes_def unat_of_nat_small)

lemma load_store_same [simp]: "load64 (store64 m a v) a = v"
  using read_write_same [of "le_bytes v" m a] by (simp add: load64_def store64_def)

lemma apart_offset:
  assumes "apart a n b k" and "i < k"
  shows "n \<le> unat (b + of_nat i - a)"
proof -
  have u: "unat (b + of_nat i) = unat b + i"
    using assms by (simp add: unat_word_ariths apart_def unat_of_nat_small)
  show ?thesis
  proof (cases "unat a + n \<le> unat b")
    case True
    then have "a \<le> b + of_nat i" by (simp add: word_le_nat_alt u)
    then show ?thesis using True by (simp add: unat_sub_if' word_le_nat_alt u)
  next
    case False
    with assms have "unat b + k \<le> unat a" "unat a + n \<le> 2 ^ 64" by (auto simp: apart_def)
    then show ?thesis using assms(2) by (simp add: unat_sub_if' u)
  qed
qed

lemma read_write_apart:
  "apart a (length bs) b k \<Longrightarrow> read_bytes (write_bytes m a bs) b k = read_bytes m b k"
  by (rule nth_equalityI) (auto simp: read_bytes_def write_bytes_def dest: apart_offset)

lemma read_fill_apart: "apart a n b k \<Longrightarrow> read_bytes (fill_bytes m a c n) b k = read_bytes m b k"
  by (rule nth_equalityI) (auto simp: read_bytes_def fill_bytes_def dest: apart_offset)

lemma load_store_apart: "apart a 8 b 8 \<Longrightarrow> load64 (store64 m a v) b = load64 m b"
  by (simp add: load64_def store64_def read_write_apart)

lemma apart_mono: "apart a n b k \<Longrightarrow> unat a' + n' \<le> unat a + n \<Longrightarrow> unat a \<le> unat a' \<Longrightarrow> apart a' n' b k"
  by (auto simp: apart_def)

lemma apart_sym: "apart a n b k \<longleftrightarrow> apart b k a n"
  by (auto simp: apart_def)

section \<open>Changes confined to a region\<close>

definition changes_within :: "memory \<Rightarrow> memory \<Rightarrow> addr \<Rightarrow> nat \<Rightarrow> bool" where
  "changes_within m m' a n \<longleftrightarrow> (\<forall>x. n \<le> unat (x - a) \<longrightarrow> m' x = m x)"

lemma unat_bound64: "unat (w :: 64 word) < 2 ^ 64"
  using unsigned_less [of w, where ?'a = nat] by (simp only: len_bit0 len_num1 mult_1_right) simp

lemma outside_sub:
  fixes x a :: addr
  assumes "n \<le> unat (x - a)" and "k + j \<le> n"
  shows "j \<le> unat (x - (a + of_nat k))"
proof -
  have k: "k < 2 ^ 64" using assms unat_bound64 [of "x - a"] by linarith
  have "(of_nat k :: 64 word) \<le> x - a" using assms k by (simp add: word_le_nat_alt unat_of_nat_small)
  then have "unat ((x - a) - of_nat k) = unat (x - a) - k" using k by (simp only: unat_sub unat_of_nat_small)
  moreover have "x - (a + of_nat k) = (x - a) - of_nat k" by (simp only: diff_diff_eq)
  ultimately have "unat (x - (a + of_nat k)) = unat (x - a) - k" by (simp only:)
  with assms show ?thesis by simp
qed

lemma changes_within_refl [simp]: "changes_within m m a n"
  by (simp add: changes_within_def)

lemma changes_within_trans [trans]:
  "changes_within m m' a n \<Longrightarrow> changes_within m' m'' a n \<Longrightarrow> changes_within m m'' a n"
  by (simp add: changes_within_def)

lemma changes_within_write: "k + length bs \<le> n \<Longrightarrow> changes_within m (write_bytes m (a + of_nat k) bs) a n"
  by (simp add: changes_within_def write_bytes_def leD [OF outside_sub])

lemma changes_within_store: "k + 8 \<le> n \<Longrightarrow> changes_within m (store64 m (a + of_nat k) v) a n"
  unfolding store64_def by (rule changes_within_write) simp

lemma changes_within_fill: "k + l \<le> n \<Longrightarrow> changes_within m (fill_bytes m (a + of_nat k) b l) a n"
  by (simp add: changes_within_def fill_bytes_def leD [OF outside_sub])

lemma changes_within_apart:
  assumes "changes_within m m' a n" and "apart a n b k" and "i < k"
  shows "m' (b + of_nat i) = m (b + of_nat i)"
  using assms apart_offset by (auto simp: changes_within_def)

end
