(* ===== verification/Dmalloc.thy ===== *)
theory Dmalloc
  imports Memory StdMap
begin

text \<open>
  The debugging allocator (\<open>dmalloc/dmalloc.cc\<close>, \<open>dmalloc.hh\<close>) over its base
  allocator (\<open>dmalloc/basealloc.cc\<close>): statistics, the header in front of every block, the
  checks of \<open>dfree\<close>, the leak report. Memory is bytes, so that a header is what is read
  from the 32 bytes before a pointer, whoever wrote them.

  The C library's \<open>malloc\<close> is the parameter \<open>mal\<close>: what the next call would
  return for a size. Messages are recorded with the values handed to \<open>fprintf\<close>, not as
  formatted text.
\<close>

section \<open>Definitions\<close>

record dmalloc_stats =
  nactive :: "64 word"
  active_size :: "64 word"
  ntotal :: "64 word"
  total_size :: "64 word"
  nfail :: "64 word"
  fail_size :: "64 word"
  heap_min :: "64 word"
  heap_max :: "64 word"

text \<open>The 32-byte header: its fields at offsets 0, 8, 16 and 24.\<close>

record metaData =
  ifFree :: "64 word"
  md_length :: "64 word"
  fileName :: "64 word"
  md_line :: "64 word"

definition read_meta :: "memory \<Rightarrow> addr \<Rightarrow> metaData" where
  "read_meta m p = \<lparr>ifFree = load64 m p, md_length = load64 m (p + 8), fileName = load64 m (p + 16),
     md_line = load64 m (p + 24)\<rparr>"

definition write_meta :: "memory \<Rightarrow> addr \<Rightarrow> metaData \<Rightarrow> memory" where
  "write_meta m p h = store64 (store64 (store64 (store64 m (p + 8) (md_length h)) p (ifFree h)) (p + 16) (fileName h))
     (p + 24) (md_line h)"

record heap =
  stature :: dmalloc_stats
  pointerMap :: "(addr, 64 word) std_map"
  bytes :: memory
  allocs :: "addr \<rightharpoonup> 64 word"
  frees :: "(addr \<times> 64 word) list"
  disabled :: int
  rand_x :: "64 word"

definition heap_init :: "memory \<Rightarrow> heap" where
  "heap_init m = \<lparr>stature = \<lparr>nactive = 0, active_size = 0, ntotal = 0, total_size = 0, nfail = 0, fail_size = 0,
       heap_min = 0, heap_max = 0\<rparr>,
     pointerMap = [], bytes = m, allocs = Map.empty, frees = [], disabled = 0, rand_x = 8973443640547502487\<rparr>"

subsection \<open>The base allocator\<close>

definition alloc_random :: "heap \<Rightarrow> 32 word \<times> heap" where
  "alloc_random h = (let x = rand_x h * 6364136223846793005 + 1 in (ucast (drop_bit 32 x), h\<lparr>rand_x := x\<rparr>))"

text \<open>
  The search for a freed block: at most ten tries, each at a random index. A block that is
  found moves to \<open>allocs\<close>, and the last freed block takes its place.
\<close>

fun reuse_loop :: "nat \<Rightarrow> 64 word \<Rightarrow> heap \<Rightarrow> addr \<times> heap" where
  "reuse_loop 0 sz h = (0, h)"
| "reuse_loop (Suc tries) sz h =
     (let (r, h) = alloc_random h; i = unat r mod length (frees h); f = frees h ! i in
      if snd f \<ge> sz then
        (fst f, h\<lparr>allocs := (if allocs h (fst f) = None then (allocs h)(fst f \<mapsto> snd f) else allocs h),
                  frees := butlast ((frees h)[i := last (frees h)])\<rparr>)
      else reuse_loop tries sz h)"

definition base_malloc :: "(64 word \<Rightarrow> addr) \<Rightarrow> 64 word \<Rightarrow> heap \<Rightarrow> addr \<times> heap" where
  "base_malloc mal sz h =
     (if disabled h \<noteq> 0 then (mal sz, h)
      else
        let h = h\<lparr>disabled := disabled h + 1\<rparr>;
            (r, h) = alloc_random h;
            (ptr, h) = (if r mod 4 \<noteq> 0 then reuse_loop (min 10 (length (frees h))) sz h else (0, h));
            ptr = (if ptr = 0 then mal (if sz \<noteq> 0 then sz else 1) else ptr);
            h = (if ptr \<noteq> 0 then h\<lparr>allocs := (allocs h)(ptr \<mapsto> sz)\<rparr> else h)
        in (ptr, h\<lparr>disabled := disabled h - 1\<rparr>))"

text \<open>With the allocator disabled the pointer goes to the C library's \<open>free\<close>.\<close>

definition base_free :: "addr \<Rightarrow> heap \<Rightarrow> heap" where
  "base_free ptr h =
     (if disabled h \<noteq> 0 \<or> ptr = 0 then h
      else
        let h = h\<lparr>disabled := disabled h + 1\<rparr>;
            h = (case allocs h ptr of
                   Some n \<Rightarrow> h\<lparr>frees := frees h @ [(ptr, n)], allocs := (allocs h)(ptr := None)\<rparr>
                 | None \<Rightarrow> h)
        in h\<lparr>disabled := disabled h - 1\<rparr>)"

definition base_allocator_disable :: "bool \<Rightarrow> heap \<Rightarrow> heap" where
  "base_allocator_disable d h = h\<lparr>disabled := of_bool d\<rparr>"

subsection \<open>The debugging allocator\<close>

definition META :: "64 word" where
  "META = 32"

definition count_fail :: "64 word \<Rightarrow> dmalloc_stats \<Rightarrow> dmalloc_stats" where
  "count_fail sz st = st\<lparr>fail_size := fail_size st + sz, nfail := nfail st + 1\<rparr>"

definition count_alloc :: "64 word \<Rightarrow> dmalloc_stats \<Rightarrow> dmalloc_stats" where
  "count_alloc sz st = st\<lparr>nactive := nactive st + 1, active_size := active_size st + sz,
     ntotal := ntotal st + 1, total_size := total_size st + sz\<rparr>"

definition heap_bounds :: "addr \<Rightarrow> 64 word \<Rightarrow> dmalloc_stats \<Rightarrow> dmalloc_stats" where
  "heap_bounds ptr sz st =
     (let st = (if heap_min st = 0 then st\<lparr>heap_min := ptr\<rparr> else st);
          st = (if ptr < heap_min st then st\<lparr>heap_min := ptr\<rparr> else st);
          current_max = ptr + 8 + sz
      in if current_max > heap_max st then st\<lparr>heap_max := current_max\<rparr> else st)"

definition dmalloc :: "(64 word \<Rightarrow> addr) \<Rightarrow> 64 word \<Rightarrow> 64 word \<Rightarrow> 64 word \<Rightarrow> heap \<Rightarrow> addr \<times> heap" where
  "dmalloc mal sz file line h =
     (let len = META + sz in
      if sz > META \<and> len < META then (0, h\<lparr>stature := count_fail sz (stature h)\<rparr>)
      else
        let (ptr, h) = base_malloc mal len h in
        if ptr = 0 then (0, h\<lparr>stature := count_fail sz (stature h)\<rparr>)
        else
          let h = h\<lparr>stature := count_alloc sz (stature h)\<rparr>;
              h = h\<lparr>bytes := write_meta (bytes h) ptr \<lparr>ifFree = 2, md_length = sz, fileName = file, md_line = line\<rparr>\<rparr>;
              ptr = ptr + META;
              h = h\<lparr>stature := heap_bounds ptr sz (stature h)\<rparr>
          in (ptr, h\<lparr>pointerMap := sm_insert ptr sz (pointerMap h)\<rparr>))"

text \<open>
  What \<open>dfree\<close> reports. \<open>InsideGarbled\<close> is the message whose format has one conversion
  more than there are arguments.
\<close>

datatype report =
    NotInHeap "64 word" "64 word" addr
  | NotAllocated "64 word" "64 word" addr
  | InsideGarbled "64 word" "64 word" "64 word"
  | InsideRegion "64 word" "64 word" addr "64 word" "64 word"
  | DoubleFree "64 word" "64 word" addr

type_synonym 'a checked = "(report list \<times> cpp_error) + 'a"

text \<open>
  The last entry of the map that is not above the pointer: the loop up to the first larger key
  and the decrement of the iterator, which is undefined at the first entry.
\<close>

fun first_above :: "addr \<Rightarrow> (addr, 64 word) std_map \<Rightarrow> nat" where
  "first_above p [] = 0"
| "first_above p (e # es) = (if fst e > p then 0 else Suc (first_above p es))"

definition region_before :: "addr \<Rightarrow> (addr, 64 word) std_map \<Rightarrow> (addr \<times> 64 word) option" where
  "region_before p m = (case first_above p m of 0 \<Rightarrow> None | Suc i \<Rightarrow> Some (m ! i))"

definition wild_free :: "(addr \<Rightarrow> 64 word \<Rightarrow> report) \<Rightarrow> 64 word \<Rightarrow> 64 word \<Rightarrow> addr \<Rightarrow> heap \<Rightarrow> 'a checked" where
  "wild_free inside file line ptr h =
     (let msg = NotAllocated file line ptr in
      case region_before ptr (pointerMap h) of
        None \<Rightarrow> Inl ([msg], Undefined)
      | Some (big, wide) \<Rightarrow> Inl (msg # (if big + wide \<ge> ptr then [inside big wide] else []), Abort))"

definition dfree :: "addr \<Rightarrow> 64 word \<Rightarrow> 64 word \<Rightarrow> heap \<Rightarrow> heap checked" where
  "dfree ptr file line h =
     (if ptr = 0 then Inr h
      else
        let ptr1 = ptr - META; st = stature h in
        if ptr < heap_min st \<or> ptr > heap_max st then Inl ([NotInHeap file line ptr], Abort)
        else if ptr1 mod 8 \<noteq> 0 then wild_free (\<lambda>big wide. InsideGarbled file (ptr - big) wide) file line ptr h
        else
          let md = read_meta (bytes h) ptr1 in
          if ifFree md \<noteq> 2 \<and> ifFree md \<noteq> 3
          then wild_free (\<lambda>big wide. InsideRegion file (md_line (read_meta (bytes h) (big - META))) ptr (ptr - big) wide)
            file line ptr h
          else if ifFree md = 3 then Inl ([DoubleFree file line ptr], Abort)
          else
            let h = h\<lparr>stature := st\<lparr>active_size := active_size st - md_length md\<rparr>\<rparr>;
                h = h\<lparr>bytes := store64 (bytes h) ptr1 3\<rparr>;
                h = h\<lparr>stature := (stature h)\<lparr>nactive := nactive (stature h) - 1\<rparr>\<rparr>
            in if map_of (pointerMap h) ptr = None then Inl ([], Undefined)
               else Inr (base_free ptr (h\<lparr>pointerMap := sm_erase ptr (pointerMap h)\<rparr>)))"

text \<open>A division by zero is undefined.\<close>

definition dcalloc :: "(64 word \<Rightarrow> addr) \<Rightarrow> 64 word \<Rightarrow> 64 word \<Rightarrow> 64 word \<Rightarrow> 64 word \<Rightarrow> heap \<Rightarrow> (addr \<times> heap) checked" where
  "dcalloc mal nmemb sz file line h =
     (let len = nmemb * sz in
      if nmemb = 0 then Inl ([], Undefined)
      else if len div nmemb \<noteq> sz then Inr (0, h\<lparr>stature := count_fail (nmemb * sz) (stature h)\<rparr>)
      else
        let (ptr, h) = dmalloc mal (nmemb * sz) file line h in
        Inr (ptr, if ptr \<noteq> 0 then h\<lparr>bytes := fill_bytes (bytes h) ptr 0 (unat (nmemb * sz))\<rparr> else h))"

definition get_statistics :: "heap \<Rightarrow> dmalloc_stats" where
  "get_statistics h = stature h"

text \<open>One line of the leak report: the file, the line, the pointer and the size.\<close>

definition leak_line :: "heap \<Rightarrow> addr \<times> 64 word \<Rightarrow> 64 word \<times> 64 word \<times> addr \<times> 64 word" where
  "leak_line h e = (let md = read_meta (bytes h) (fst e - META) in (fileName md, md_line md, fst e, md_length md))"

definition print_leak_report :: "heap \<Rightarrow> (64 word \<times> 64 word \<times> addr \<times> 64 word) list" where
  "print_leak_report h = (if pointerMap h = [] then [] else map (leak_line h) (pointerMap h))"

section \<open>Headers\<close>

lemma load64_cong: "(\<And>i. i < 8 \<Longrightarrow> m' (a + of_nat i) = m (a + of_nat i)) \<Longrightarrow> load64 m' a = load64 m a"
  by (auto simp: load64_def read_bytes_def intro!: arg_cong [of _ _ of_le])

lemma read_meta_cong:
  assumes "\<And>i. i < 32 \<Longrightarrow> m' (q + of_nat i) = m (q + of_nat i)"
  shows "read_meta m' q = read_meta m q"
proof -
  have "load64 m' (q + of_nat k) = load64 m (q + of_nat k)" if "k + 8 \<le> 32" for k
  proof (rule load64_cong)
    fix i :: nat
    assume "i < 8"
    then show "m' (q + of_nat k + of_nat i) = m (q + of_nat k + of_nat i)"
      using assms [of "k + i"] that by (simp add: add.assoc)
  qed
  from this [of 0] this [of 8] this [of 16] this [of 24] show ?thesis by (simp add: read_meta_def)
qed

lemma write_meta_within: "changes_within m (write_meta m p md) p 32"
proof -
  let ?m1 = "store64 m (p + 8) (md_length md)"
  let ?m2 = "store64 ?m1 p (ifFree md)"
  let ?m3 = "store64 ?m2 (p + 16) (fileName md)"
  note st = changes_within_store [of _ 32 _ p]
  have "changes_within m ?m1 p 32" using st [of 8] by simp
  also have "changes_within ?m1 ?m2 p 32" using st [of 0] by simp
  also have "changes_within ?m2 ?m3 p 32" using st [of 16] by simp
  also have "changes_within ?m3 (write_meta m p md) p 32" using st [of 24] by (simp add: write_meta_def)
  finally show ?thesis .
qed

lemma read_write_meta:
  assumes "unat p + 32 \<le> 2 ^ 64"
  shows "read_meta (write_meta m p md) p = md"
proof -
  have u: "unat (p + of_nat k) = unat p + k" if "k < 32" for k
    using that assms by (simp add: unat_word_ariths unat_of_nat_small)
  have ap: "apart (p + of_nat j) 8 (p + of_nat k) 8" if "j + 8 \<le> k \<or> k + 8 \<le> j" "j \<le> 24" "k \<le> 24" for j k
    using that assms by (auto simp: apart_def u)
  have ld: "load64 (store64 n (p + of_nat j) v) (p + of_nat k) = load64 n (p + of_nat k)"
    if "j + 8 \<le> k \<or> k + 8 \<le> j" "j \<le> 24" "k \<le> 24" for n j k v
    by (rule load_store_apart [OF ap]) (use that in auto)
  note f = ld [of 0 8] ld [of 0 16] ld [of 0 24] ld [of 8 0] ld [of 8 16] ld [of 8 24]
    ld [of 16 0] ld [of 16 8] ld [of 16 24] ld [of 24 0] ld [of 24 8] ld [of 24 16]
  show ?thesis using f [simplified] by (simp add: read_meta_def write_meta_def)
qed

section \<open>The base allocator under the debugging allocator\<close>

text \<open>Without freed blocks the base allocator asks the C library.\<close>

lemma base_malloc_fresh:
  assumes "frees h = []" and "disabled h = 0" and "sz \<noteq> 0"
  shows "\<exists>x. base_malloc mal sz h
    = (mal sz, h\<lparr>rand_x := x, allocs := (if mal sz = 0 then allocs h else (allocs h)(mal sz \<mapsto> sz))\<rparr>)"
  using assms by (cases h) (simp add: base_malloc_def alloc_random_def Let_def)

section \<open>The abstract heap\<close>

text \<open>
  What the statistics and the leak report speak about: the live blocks with their size, file and
  line, the pointers that were freed, and the running totals.
\<close>

record spec =
  live :: "addr \<rightharpoonup> 64 word \<times> 64 word \<times> 64 word"
  dead :: "addr set"
  n_total :: nat
  b_total :: nat
  n_fail :: nat
  b_fail :: nat

definition spec_init :: spec where
  "spec_init = \<lparr>live = Map.empty, dead = {}, n_total = 0, b_total = 0, n_fail = 0, b_fail = 0\<rparr>"

definition spec_alloc :: "addr \<Rightarrow> 64 word \<Rightarrow> 64 word \<Rightarrow> 64 word \<Rightarrow> spec \<Rightarrow> spec" where
  "spec_alloc p sz file line s =
     (if p = 0 then s\<lparr>n_fail := n_fail s + 1, b_fail := b_fail s + unat sz\<rparr>
      else s\<lparr>live := (live s)(p \<mapsto> (sz, file, line)), n_total := n_total s + 1, b_total := b_total s + unat sz\<rparr>)"

definition spec_free :: "addr \<Rightarrow> spec \<Rightarrow> spec" where
  "spec_free p s = s\<lparr>live := (live s)(p := None), dead := insert p (dead s)\<rparr>"

text \<open>
  What is relied on of the C library's \<open>malloc\<close>: a block it returns is aligned, lies in the
  user half of the address space and is separated from the blocks handed out before by at
  least the eight bytes of glibc's size field.
\<close>

definition gap :: "addr \<Rightarrow> 64 word \<Rightarrow> addr \<Rightarrow> 64 word \<Rightarrow> bool" where
  "gap a n b k \<longleftrightarrow> unat a + unat n + 8 \<le> unat b \<or> unat b + unat k + 8 \<le> unat a"

definition sys_malloc_ok :: "(64 word \<Rightarrow> addr) \<Rightarrow> heap \<Rightarrow> bool" where
  "sys_malloc_ok mal h \<longleftrightarrow> (\<forall>n. mal n \<noteq> 0 \<longrightarrow> 16 dvd unat (mal n) \<and> unat (mal n) + unat n + 8 \<le> 2 ^ 48
     \<and> (\<forall>b k. allocs h b = Some k \<longrightarrow> gap (mal n) n b k))"

text \<open>
  The runs of a program that frees only live pointers and writes only into live blocks.
\<close>

inductive reach :: "heap \<Rightarrow> spec \<Rightarrow> bool" where
  init: "reach (heap_init m) spec_init"
| malloc: "reach h s \<Longrightarrow> sys_malloc_ok mal h \<Longrightarrow> dmalloc mal sz file line h = (p, h') \<Longrightarrow>
    reach h' (spec_alloc p sz file line s)"
| calloc: "reach h s \<Longrightarrow> sys_malloc_ok mal h \<Longrightarrow> dcalloc mal n sz file line h = Inr (p, h') \<Longrightarrow>
    reach h' (spec_alloc p (n * sz) file line s)"
| free: "reach h s \<Longrightarrow> live s p \<noteq> None \<Longrightarrow> dfree p file line h = Inr h' \<Longrightarrow> reach h' (spec_free p s)"
| store: "reach h s \<Longrightarrow> live s p = Some (sz, f, l) \<Longrightarrow> i < unat sz \<Longrightarrow>
    reach (h\<lparr>bytes := (bytes h)(p + of_nat i := b)\<rparr>) s"

section \<open>The invariant\<close>

definition block_ok :: "dmalloc_stats \<Rightarrow> addr \<Rightarrow> 64 word \<Rightarrow> bool" where
  "block_ok st a n \<longleftrightarrow> a \<noteq> 0 \<and> 8 dvd unat a \<and> 32 \<le> unat n \<and> unat a + unat n + 8 \<le> 2 ^ 48
     \<and> unat (heap_min st) \<le> unat a + 32 \<and> unat a + unat n + 8 \<le> unat (heap_max st)"

definition blocks_inv :: "heap \<Rightarrow> bool" where
  "blocks_inv h \<longleftrightarrow> frees h = [] \<and> disabled h = 0 \<and> (heap_min (stature h) = 0 \<longrightarrow> allocs h = Map.empty)
     \<and> (\<forall>a n. allocs h a = Some n \<longrightarrow> block_ok (stature h) a n)
     \<and> (\<forall>a n b k. allocs h a = Some n \<and> allocs h b = Some k \<and> a \<noteq> b \<longrightarrow> gap a n b k)"

definition live_inv :: "heap \<Rightarrow> spec \<Rightarrow> bool" where
  "live_inv h s \<longleftrightarrow> (\<forall>p sz f l. live s p = Some (sz, f, l) \<longrightarrow>
     allocs h (p - META) = Some (META + sz) \<and> unat (META + sz) = 32 + unat sz
     \<and> read_meta (bytes h) (p - META) = \<lparr>ifFree = 2, md_length = sz, fileName = f, md_line = l\<rparr>)"

definition dead_inv :: "heap \<Rightarrow> spec \<Rightarrow> bool" where
  "dead_inv h s \<longleftrightarrow> (\<forall>p \<in> dead s. live s p = None \<and> (\<exists>n. allocs h (p - META) = Some n)
     \<and> ifFree (read_meta (bytes h) (p - META)) = 3)"

definition map_inv :: "heap \<Rightarrow> spec \<Rightarrow> bool" where
  "map_inv h s \<longleftrightarrow> sm_wf (pointerMap h) \<and> (\<forall>p. map_of (pointerMap h) p = map_option fst (live s p))"

definition live_bytes :: "spec \<Rightarrow> nat" where
  "live_bytes s = (\<Sum>p \<in> dom (live s). unat (fst (the (live s p))))"

definition stats_inv :: "heap \<Rightarrow> spec \<Rightarrow> bool" where
  "stats_inv h s \<longleftrightarrow> finite (dom (live s))
     \<and> nactive (stature h) = of_nat (card (dom (live s))) \<and> active_size (stature h) = of_nat (live_bytes s)
     \<and> ntotal (stature h) = of_nat (n_total s) \<and> total_size (stature h) = of_nat (b_total s)
     \<and> nfail (stature h) = of_nat (n_fail s) \<and> fail_size (stature h) = of_nat (b_fail s)"

definition heap_inv :: "heap \<Rightarrow> spec \<Rightarrow> bool" where
  "heap_inv h s \<longleftrightarrow> blocks_inv h \<and> live_inv h s \<and> dead_inv h s \<and> map_inv h s \<and> stats_inv h s"

lemma unat_META [simp]: "unat META = 32"
  by (simp add: META_def)

lemma meta_overflow: "META < sz \<and> META + sz < META \<longleftrightarrow> 2 ^ 64 \<le> 32 + unat sz"
proof (cases "32 + unat sz < 2 ^ 64")
  case True
  then have "unat (META + sz) = 32 + unat sz" by (simp add: unat_word_ariths)
  with True show ?thesis by (simp add: word_less_nat_alt)
next
  case False
  have "unat (META + sz) = (32 + unat sz) mod 2 ^ 64" by (simp add: unat_word_ariths)
  also have "\<dots> = 32 + unat sz - 2 ^ 64" using False unat_bound64 [of sz] by (simp add: le_mod_geq)
  finally show ?thesis using False unat_bound64 [of sz] by (simp add: word_less_nat_alt)
qed

lemma unat_block:
  assumes "block_ok st a n" and "i \<le> unat n + 8"
  shows "unat (a + of_nat i) = unat a + i"
  using assms by (simp add: block_ok_def unat_word_ariths unat_of_nat_small)

lemma gap_apart:
  assumes "block_ok st a n" and "block_ok st' b k" and "gap a n b k"
  shows "apart a (unat n) b (unat k)"
  using assms by (auto simp: gap_def apart_def block_ok_def)

text \<open>A change inside one block leaves the header of every other block alone.\<close>

lemma meta_other:
  assumes "blocks_inv h" and "allocs h a = Some n" and "allocs h b = Some k" and "a \<noteq> b"
    and "changes_within (bytes h) m' a (unat n)"
  shows "read_meta m' b = read_meta (bytes h) b"
proof (rule read_meta_cong)
  fix i :: nat
  assume "i < 32"
  have ok: "block_ok (stature h) a n" "block_ok (stature h) b k" and "gap a n b k"
    using assms(1-4) by (auto simp: blocks_inv_def)
  then have "apart a (unat n) b (unat k)" by (rule gap_apart)
  moreover have "i < unat k" using ok(2) \<open>i < 32\<close> by (simp add: block_ok_def)
  ultimately show "m' (b + of_nat i) = bytes h (b + of_nat i)" by (rule changes_within_apart [OF assms(5)])
qed

text \<open>The pointer handed to the program is never the start of a block of the base allocator.\<close>

lemma user_pointer_unknown:
  assumes "blocks_inv h" and "allocs h (p - META) = Some n"
  shows "allocs h p = None"
proof (rule ccontr)
  assume "allocs h p \<noteq> None"
  then obtain k where k: "allocs h p = Some k" by auto
  have ok: "block_ok (stature h) (p - META) n" "block_ok (stature h) p k"
    using assms k by (auto simp: blocks_inv_def)
  have "p - META \<noteq> p" by (simp add: META_def)
  then have "gap (p - META) n p k" using assms k by (auto simp: blocks_inv_def)
  moreover have "unat p = unat (p - META) + 32"
    using unat_block [OF ok(1), of 32] ok(1) by (simp add: META_def block_ok_def)
  ultimately show False using ok by (auto simp: gap_def block_ok_def)
qed

lemma base_free_unknown: "allocs h p = None \<Longrightarrow> base_free p h = h"
  by (cases h) (simp add: base_free_def Let_def)

section \<open>Allocation keeps the invariant\<close>

lemma heap_bounds_simps [simp]:
  "heap_min (heap_bounds p sz st) = (if heap_min st = 0 \<or> p < heap_min st then p else heap_min st)"
  "heap_max (heap_bounds p sz st) = (if p + 8 + sz > heap_max st then p + 8 + sz else heap_max st)"
  "nactive (heap_bounds p sz st) = nactive st" "active_size (heap_bounds p sz st) = active_size st"
  "ntotal (heap_bounds p sz st) = ntotal st" "total_size (heap_bounds p sz st) = total_size st"
  "nfail (heap_bounds p sz st) = nfail st" "fail_size (heap_bounds p sz st) = fail_size st"
  by (simp_all add: heap_bounds_def Let_def)

abbreviation allocated :: "addr \<Rightarrow> 64 word \<Rightarrow> 64 word \<Rightarrow> 64 word \<Rightarrow> 64 word \<Rightarrow> heap \<Rightarrow> heap" where
  "allocated a sz file line x h \<equiv> h\<lparr>rand_x := x, allocs := (allocs h)(a \<mapsto> META + sz),
     stature := heap_bounds (a + META) sz (count_alloc sz (stature h)),
     bytes := write_meta (bytes h) a \<lparr>ifFree = 2, md_length = sz, fileName = file, md_line = line\<rparr>,
     pointerMap := sm_insert (a + META) sz (pointerMap h)\<rparr>"

lemma dmalloc_eq:
  assumes "blocks_inv h"
  shows "\<exists>x. dmalloc mal sz file line h =
    (if 2 ^ 64 \<le> 32 + unat sz \<or> mal (META + sz) = 0 then (0, h\<lparr>rand_x := x, stature := count_fail sz (stature h)\<rparr>)
     else (mal (META + sz) + META, allocated (mal (META + sz)) sz file line x h))"
proof (cases "2 ^ 64 \<le> 32 + unat sz")
  case True
  then have "META < sz \<and> META + sz < META" by (simp only: meta_overflow)
  then show ?thesis using True by (auto simp: dmalloc_def intro: exI [of _ "rand_x h"])
next
  case False
  then have "unat (META + sz) = 32 + unat sz" by (simp add: unat_word_ariths)
  then have "META + sz \<noteq> 0" by (auto simp: unat_eq_0 [symmetric])
  then obtain x where x: "base_malloc mal (META + sz) h = (mal (META + sz),
      h\<lparr>rand_x := x, allocs := (if mal (META + sz) = 0 then allocs h else (allocs h)(mal (META + sz) \<mapsto> META + sz))\<rparr>)"
    using base_malloc_fresh [of h "META + sz" mal] assms(1) by (auto simp: blocks_inv_def)
  have no: "\<not> (META < sz \<and> META + sz < META)" using False unfolding meta_overflow by simp
  show ?thesis using False no x by (auto simp: dmalloc_def Let_def intro!: exI [of _ x])
qed

lemma dmalloc_cases:
  assumes "blocks_inv h" and eq: "dmalloc mal sz file line h = (p, h')"
  obtains (failed) x where "p = 0" "h' = h\<lparr>rand_x := x, stature := count_fail sz (stature h)\<rparr>"
  | (ok) x a where "a = mal (META + sz)" "a \<noteq> 0" "unat (META + sz) = 32 + unat sz" "p = a + META"
      "h' = allocated a sz file line x h"
proof -
  obtain x where x: "(p, h') =
    (if 2 ^ 64 \<le> 32 + unat sz \<or> mal (META + sz) = 0 then (0, h\<lparr>rand_x := x, stature := count_fail sz (stature h)\<rparr>)
     else (mal (META + sz) + META, allocated (mal (META + sz)) sz file line x h))"
    using dmalloc_eq [OF assms(1), of mal sz "file" line] eq by auto
  show thesis
  proof (cases "2 ^ 64 \<le> 32 + unat sz \<or> mal (META + sz) = 0")
    case True
    with x show thesis by (auto intro: failed [of x])
  next
    case False
    then have "unat (META + sz) = 32 + unat sz" by (simp add: unat_word_ariths)
    with False x show thesis by (intro ok [of "mal (META + sz)" x]) auto
  qed
qed

lemma heap_inv_fail:
  assumes "heap_inv h s"
  shows "heap_inv (h\<lparr>rand_x := x, stature := count_fail sz (stature h)\<rparr>) (spec_alloc 0 sz file line s)"
  using assms
  by (simp add: heap_inv_def blocks_inv_def live_inv_def dead_inv_def map_inv_def stats_inv_def block_ok_def
      count_fail_def spec_alloc_def live_bytes_def)

lemma gap_irrefl: "block_ok st a k \<Longrightarrow> \<not> gap a n a k"
  by (auto simp: gap_def block_ok_def)

lemma gap_sym: "gap a n b k \<longleftrightarrow> gap b k a n"
  by (auto simp: gap_def)

lemma new_block_ok:
  assumes "16 dvd unat a" and "a \<noteq> 0" and "unat a + unat (META + sz) + 8 \<le> 2 ^ 48" and "unat (META + sz) = 32 + unat sz"
  shows "block_ok (heap_bounds (a + META) sz st) a (META + sz)"
proof -
  have u: "unat (a + META) = unat a + 32" "unat (a + META + 8 + sz) = unat a + 40 + unat sz"
    using assms by (simp_all add: unat_word_ariths)
  have "8 dvd unat a" using assms(1) by (rule dvd_trans [rotated]) simp
  with assms u show ?thesis by (auto simp: block_ok_def word_less_nat_alt)
qed

lemma old_block_ok:
  assumes "block_ok st b k" and "heap_min st \<noteq> 0"
  shows "block_ok (heap_bounds p sz (count_alloc n st)) b k"
  using assms by (auto simp: block_ok_def count_alloc_def word_less_nat_alt)

lemma blocks_inv_alloc:
  assumes inv: "blocks_inv h" and new: "allocs h a = None" and a: "16 dvd unat a" "a \<noteq> 0"
    "unat a + unat (META + sz) + 8 \<le> 2 ^ 48" "unat (META + sz) = 32 + unat sz"
    and gaps: "\<And>b k. allocs h b = Some k \<Longrightarrow> gap a (META + sz) b k"
    and h': "frees h' = []" "disabled h' = 0" "allocs h' = (allocs h)(a \<mapsto> META + sz)"
      "stature h' = heap_bounds (a + META) sz (count_alloc sz (stature h))"
  shows "blocks_inv h'"
proof -
  have p: "a + META \<noteq> 0" using a by (auto simp: unat_eq_0 [symmetric] unat_word_ariths)
  have ok: "block_ok (stature h') b k" if "allocs h' b = Some k" for b k
  proof (cases "b = a")
    case True
    with that h' new_block_ok [OF a] show ?thesis by simp
  next
    case False
    with that h' have b: "allocs h b = Some k" by simp
    with inv have "block_ok (stature h) b k" "heap_min (stature h) \<noteq> 0" by (auto simp: blocks_inv_def)
    then show ?thesis unfolding h'(4) by (rule old_block_ok)
  qed
  have "gap b k c j" if "allocs h' b = Some k" "allocs h' c = Some j" "b \<noteq> c" for b k c j
    using that gaps [of b k] gaps [of c j] gap_sym inv h'(3)
    by (auto simp: blocks_inv_def split: if_splits)
  moreover have "heap_min (stature h') \<noteq> 0" using p by (simp add: h'(4) count_alloc_def)
  ultimately show ?thesis using ok h'(1,2) by (auto simp: blocks_inv_def)
qed

lemma live_invD:
  assumes "live_inv h s" and "live s p = Some (sz, f, l)"
  shows "allocs h (p - META) = Some (META + sz)" and "unat (META + sz) = 32 + unat sz"
    and "read_meta (bytes h) (p - META) = \<lparr>ifFree = 2, md_length = sz, fileName = f, md_line = l\<rparr>"
  using assms by (auto simp: live_inv_def)

lemma live_alloc:
  assumes inv: "heap_inv h s" and new: "allocs h a = None"
    and h': "allocs h' = (allocs h)(a \<mapsto> META + sz)" and len: "unat (META + sz) = 32 + unat sz"
    and bytes': "changes_within (bytes h) (bytes h') a (unat (META + sz))" "blocks_inv h'"
    and hdr: "read_meta (bytes h') a = \<lparr>ifFree = 2, md_length = sz, fileName = file, md_line = line\<rparr>"
  shows "live_inv h' (spec_alloc (a + META) sz file line s)" and "dead_inv h' (spec_alloc (a + META) sz file line s)"
proof -
  have other: "read_meta (bytes h') b = read_meta (bytes h) b" if "allocs h b = Some k" for b k
  proof -
    have "a \<noteq> b" using that new by auto
    then show ?thesis
      using meta_other [of "h'\<lparr>bytes := bytes h\<rparr>" a "META + sz" b k "bytes h'"] that bytes' h'
      by (simp add: blocks_inv_def)
  qed
  show "live_inv h' (spec_alloc (a + META) sz file line s)"
    using inv other len hdr h' new
    by (auto simp: heap_inv_def live_inv_def spec_alloc_def)
  have "q \<noteq> a + META" if "q \<in> dead s" for q using inv that new by (auto simp: heap_inv_def dead_inv_def)
  then show "dead_inv h' (spec_alloc (a + META) sz file line s)"
    using inv other h' new by (fastforce simp: heap_inv_def dead_inv_def spec_alloc_def)
qed

lemma stats_alloc:
  assumes "stats_inv h s" and "live s p = None" and "p \<noteq> 0"
    and "stature h' = heap_bounds p sz (count_alloc sz (stature h))"
  shows "stats_inv h' (spec_alloc p sz file line s)"
proof -
  have "(\<Sum>q \<in> dom (live s). unat (fst (the (((live s)(p \<mapsto> (sz, file, line))) q)))) = live_bytes s"
    unfolding live_bytes_def using assms(2) by (intro sum.cong) auto
  then have "live_bytes (spec_alloc p sz file line s) = unat sz + live_bytes s"
    using assms(1-3) by (simp add: live_bytes_def spec_alloc_def stats_inv_def domIff)
  with assms show ?thesis
    by (simp add: stats_inv_def spec_alloc_def count_alloc_def domIff)
qed

lemma header_kept:
  assumes "changes_within (write_meta m a md) (g (write_meta m a md)) (a + META) (unat sz)"
    and "unat a + (32 + unat sz) + 8 \<le> 2 ^ 48"
  shows "read_meta (g (write_meta m a md)) a = md"
proof -
  have "read_meta (g (write_meta m a md)) a = read_meta (write_meta m a md) a"
  proof (rule read_meta_cong)
    fix i :: nat
    assume i: "i < 32"
    have "apart (a + META) (unat sz) a 32" using assms(2) by (auto simp: apart_def unat_word_ariths)
    from changes_within_apart [OF assms(1) this i]
    show "g (write_meta m a md) (a + of_nat i) = write_meta m a md (a + of_nat i)" .
  qed
  then show ?thesis using read_write_meta [of a m md] assms(2) by simp
qed

text \<open>
  Allocation, and allocation followed by a change of the new block's user bytes (which is what
  \<open>dcalloc\<close> does): the invariant holds again, with the new block live.
\<close>

lemma heap_inv_alloc:
  assumes inv: "heap_inv h s" and sys: "sys_malloc_ok mal h" and eq: "dmalloc mal sz file line h = (p, h')"
    and fill: "\<And>m. changes_within m (g m) p (unat sz)" and p0: "p \<noteq> 0"
  shows "heap_inv (h'\<lparr>bytes := g (bytes h')\<rparr>) (spec_alloc p sz file line s)"
proof -
  have bi: "blocks_inv h" using inv by (simp add: heap_inv_def)
  from bi eq show ?thesis
  proof (cases rule: dmalloc_cases)
    case (failed x)
    with p0 show ?thesis by simp
  next
    case (ok x a)
    let ?h = "h'\<lparr>bytes := g (bytes h')\<rparr>"
    have a: "16 dvd unat a" "unat a + unat (META + sz) + 8 \<le> 2 ^ 48"
      and gaps: "\<And>b k. allocs h b = Some k \<Longrightarrow> gap a (META + sz) b k"
      using sys ok(1,2) by (auto simp: sys_malloc_ok_def)
    have new: "allocs h a = None"
    proof (rule ccontr)
      assume "allocs h a \<noteq> None"
      then obtain k where "allocs h a = Some k" by auto
      with bi gaps gap_irrefl show False by (metis blocks_inv_def)
    qed
    have bi': "blocks_inv ?h"
      by (rule blocks_inv_alloc [OF bi new a(1) ok(2) a(2) ok(3) gaps]) (use bi ok in \<open>auto simp: blocks_inv_def\<close>)
    have within: "changes_within m (g m) a (unat (META + sz))" for m
      using fill [of m] ok(3) ok(4) outside_sub [of "unat (META + sz)" _ a 32 "unat sz"]
      by (auto simp: changes_within_def META_def)
    have m1: "changes_within (bytes h) (bytes h') a (unat (META + sz))"
      using write_meta_within ok(3,5) by (auto simp: changes_within_def)
    then have ch: "changes_within (bytes h) (bytes ?h) a (unat (META + sz))"
      using changes_within_trans [OF _ within] by simp
    have hdr: "read_meta (bytes ?h) a = \<lparr>ifFree = 2, md_length = sz, fileName = file, md_line = line\<rparr>"
      using header_kept [of "bytes h" a _ g sz] fill a(2) ok(3,4,5) by simp
    have al: "allocs ?h = (allocs h)(a \<mapsto> META + sz)" using ok(5) by simp
    have fresh: "live s p = None"
      using inv new ok(4) live_invD(1) [of h s p] by (cases "live s p") (auto simp: heap_inv_def)
    have "stats_inv ?h (spec_alloc p sz file line s)"
      by (rule stats_alloc [OF _ fresh p0]) (use inv ok in \<open>auto simp: heap_inv_def\<close>)
    moreover have "map_inv ?h (spec_alloc p sz file line s)"
      using inv ok(4,5) fresh p0 by (auto simp: heap_inv_def map_inv_def spec_alloc_def map_of_sm_put)
    ultimately show ?thesis
      using live_alloc [OF inv new al ok(3) ch bi' hdr] bi' ok(4) by (simp add: heap_inv_def)
  qed
qed

section \<open>Freeing and writing keep the invariant\<close>

lemma user_pointer:
  assumes "blocks_inv h" and "allocs h (p - META) = Some n"
  shows "unat p = unat (p - META) + 32" and "p \<noteq> 0" and "heap_min (stature h) \<le> p" and "p \<le> heap_max (stature h)"
    and "(p - META) mod 8 = 0"
proof -
  have ok: "block_ok (stature h) (p - META) n" using assms by (simp add: blocks_inv_def)
  show u: "unat p = unat (p - META) + 32"
    using unat_block [OF ok, of 32] ok by (simp add: META_def block_ok_def)
  then show "p \<noteq> 0" by auto
  show "heap_min (stature h) \<le> p" "p \<le> heap_max (stature h)"
    using ok u by (auto simp: block_ok_def word_le_nat_alt)
  have "unat ((p - META) mod 8) = 0" using ok by (simp add: block_ok_def unat_mod dvd_eq_mod_eq_0)
  then show "(p - META) mod 8 = 0" by (simp only: unat_eq_0)
qed

text \<open>A live pointer is freed, a freed one is reported.\<close>

lemma dfree_live:
  assumes inv: "heap_inv h s" and p: "live s p = Some (sz, f, l)"
  shows "dfree p file line h = Inr (h\<lparr>stature := (stature h)\<lparr>active_size := active_size (stature h) - sz,
      nactive := nactive (stature h) - 1\<rparr>, bytes := store64 (bytes h) (p - META) 3,
      pointerMap := sm_erase p (pointerMap h)\<rparr>)"
proof -
  have bi: "blocks_inv h" and li: "live_inv h s" and mi: "map_inv h s" using inv by (simp_all add: heap_inv_def)
  note live = live_invD [OF li p]
  note ptr = user_pointer [OF bi live(1)]
  have "map_of (pointerMap h) p = Some sz" using mi p by (simp add: map_inv_def)
  moreover have "allocs h p = None" by (rule user_pointer_unknown [OF bi live(1)])
  ultimately show ?thesis using ptr live(3)
    by (simp add: dfree_def Let_def base_free_unknown not_less)
qed

lemma dfree_dead:
  assumes inv: "heap_inv h s" and p: "p \<in> dead s"
  shows "dfree p file line h = Inl ([DoubleFree file line p], Abort)"
proof -
  obtain n where n: "allocs h (p - META) = Some n" "ifFree (read_meta (bytes h) (p - META)) = 3"
    using assms by (auto simp: heap_inv_def dead_inv_def)
  have "blocks_inv h" using inv by (simp add: heap_inv_def)
  note ptr = user_pointer [OF this n(1)]
  show ?thesis using ptr n(2) by (simp add: dfree_def Let_def not_less)
qed

lemma stats_free:
  assumes "stats_inv h s" and p: "live s p = Some (sz, f, l)"
    and "stature h' = (stature h)\<lparr>active_size := active_size (stature h) - sz, nactive := nactive (stature h) - 1\<rparr>"
  shows "stats_inv h' (spec_free p s)"
proof -
  have fin: "finite (dom (live s))" and pin: "p \<in> dom (live s)" using assms(1,2) by (auto simp: stats_inv_def)
  have "live_bytes s = unat sz + (\<Sum>q \<in> dom (live s) - {p}. unat (fst (the (live s q))))"
    unfolding live_bytes_def using sum.remove [OF fin pin, of "\<lambda>q. unat (fst (the (live s q)))"] p by simp
  moreover have "(\<Sum>q \<in> dom (live s) - {p}. unat (fst (the (live s q)))) = live_bytes (spec_free p s)"
    unfolding live_bytes_def by (rule sum.cong) (auto simp: spec_free_def)
  ultimately have b: "live_bytes s = unat sz + live_bytes (spec_free p s)" by simp
  have c: "card (dom (live s)) = Suc (card (dom (live s) - {p}))" by (rule card.remove [OF fin pin])
  show ?thesis using assms b c fin by (simp add: stats_inv_def spec_free_def)
qed

lemma heap_inv_free:
  assumes inv: "heap_inv h s" and p: "live s p = Some (sz, f, l)" and eq: "dfree p file line h = Inr h'"
  shows "heap_inv h' (spec_free p s)"
proof -
  note parts = inv [unfolded heap_inv_def]
  have h': "h' = h\<lparr>stature := (stature h)\<lparr>active_size := active_size (stature h) - sz,
      nactive := nactive (stature h) - 1\<rparr>, bytes := store64 (bytes h) (p - META) 3,
      pointerMap := sm_erase p (pointerMap h)\<rparr>"
    using eq dfree_live [OF inv p] by simp
  note live = live_invD [OF _ p, of h]
  have al: "allocs h (p - META) = Some (META + sz)" using parts live by blast
  have within: "changes_within (bytes h) (store64 (bytes h) (p - META) 3) (p - META) (unat (META + sz))"
    using changes_within_store [of 0 "unat (META + sz)" "bytes h" "p - META" 3] live(2) parts by simp
  have other: "read_meta (bytes h') (q - META) = read_meta (bytes h) (q - META)"
    if "q \<noteq> p" "allocs h (q - META) = Some k" for q k
    using meta_other [OF _ al that(2) _ within] that(1) parts by (simp add: h')
  have "blocks_inv h'" using parts h' by (auto simp: blocks_inv_def block_ok_def)
  moreover have "live_inv h' (spec_free p s)"
    using parts other h' by (auto simp: live_inv_def spec_free_def)
  moreover have "dead_inv h' (spec_free p s)"
  proof -
    have "ifFree (read_meta (bytes h') (p - META)) = 3" by (simp add: h' read_meta_def)
    then show ?thesis using parts other h' al p by (fastforce simp: dead_inv_def spec_free_def)
  qed
  moreover have "map_inv h' (spec_free p s)"
    using parts h' by (simp add: map_inv_def spec_free_def map_of_sm_erase)
  moreover have "stats_inv h' (spec_free p s)"
    by (rule stats_free [OF _ p]) (use parts h' in simp_all)
  ultimately show ?thesis by (simp add: heap_inv_def)
qed

lemma heap_inv_store:
  assumes inv: "heap_inv h s" and p: "live s p = Some (sz, f, l)" and i: "i < unat sz"
  shows "heap_inv (h\<lparr>bytes := (bytes h)(p + of_nat i := b)\<rparr>) s"
proof -
  note parts = inv [unfolded heap_inv_def]
  let ?h = "h\<lparr>bytes := (bytes h)(p + of_nat i := b)\<rparr>"
  note live = live_invD [OF _ p, of h]
  have al: "allocs h (p - META) = Some (META + sz)" and len: "unat (META + sz) = 32 + unat sz"
    using parts live by blast+
  have ok: "block_ok (stature h) (p - META) (META + sz)" using parts al by (auto simp: blocks_inv_def)
  have at: "unat (p + of_nat i - (p - META)) = 32 + i"
  proof -
    have "p + of_nat i - (p - META) = META + of_nat i" by simp
    then show ?thesis using i unat_bound64 [of sz] len unat_bound64 [of "META + sz"]
      by (simp add: unat_word_ariths unat_of_nat_small)
  qed
  have within: "changes_within (bytes h) (bytes ?h) (p - META) (unat (META + sz))"
    using at i len by (auto simp: changes_within_def)
  have own: "read_meta (bytes ?h) (p - META) = read_meta (bytes h) (p - META)"
  proof (rule read_meta_cong)
    fix j :: nat
    assume "j < 32"
    have "p - META + of_nat j \<noteq> p + of_nat i"
    proof
      assume "p - META + of_nat j = p + of_nat i"
      then have "p + of_nat i - (p - META) = of_nat j" by (metis add_diff_cancel_left')
      with at \<open>j < 32\<close> show False by (simp add: unat_of_nat_small)
    qed
    then show "bytes ?h (p - META + of_nat j) = bytes h (p - META + of_nat j)" by simp
  qed
  have other: "read_meta (bytes ?h) (q - META) = read_meta (bytes h) (q - META)" if "allocs h (q - META) = Some k" for q k
    using meta_other [OF _ al that _ within] parts own by (cases "q = p") simp_all
  then show ?thesis
    using parts by (auto simp: heap_inv_def blocks_inv_def live_inv_def dead_inv_def map_inv_def stats_inv_def)
qed

lemma dcalloc_cases:
  assumes "dcalloc mal n sz file line h = Inr (p, h')"
  obtains (overflow) "p = 0" "h' = h\<lparr>stature := count_fail (n * sz) (stature h)\<rparr>" "n \<noteq> 0" "n * sz div n \<noteq> sz"
  | (null) "dmalloc mal (n * sz) file line h = (0, h')" "p = 0" "n \<noteq> 0" "n * sz div n = sz"
  | (filled) h1 where "dmalloc mal (n * sz) file line h = (p, h1)" "p \<noteq> 0" "n \<noteq> 0" "n * sz div n = sz"
      "h' = h1\<lparr>bytes := fill_bytes (bytes h1) p 0 (unat (n * sz))\<rparr>"
  using assms by (auto simp: dcalloc_def Let_def split: if_splits prod.splits)

lemma heap_inv_null:
  assumes inv: "heap_inv h s" and sys: "sys_malloc_ok mal h" and eq: "dmalloc mal sz file line h = (0, h')"
  shows "heap_inv h' (spec_alloc 0 sz file line s)"
proof -
  have "blocks_inv h" using inv by (simp add: heap_inv_def)
  from this eq show ?thesis
  proof (cases rule: dmalloc_cases)
    case (failed x)
    then show ?thesis using heap_inv_fail [OF inv] by simp
  next
    case (ok x a)
    have "unat a + unat (META + sz) + 8 \<le> 2 ^ 48"
      using sys [unfolded sys_malloc_ok_def, THEN spec, of "META + sz"] ok(1,2) by simp
    then have "unat (a + META) = unat a + 32" by (simp add: unat_word_ariths)
    then have "a + META \<noteq> 0" by (auto simp: unat_eq_0 [symmetric])
    with ok show ?thesis by simp
  qed
qed

lemma heap_inv_init: "heap_inv (heap_init m) spec_init"
  by (simp add: heap_inv_def heap_init_def spec_init_def blocks_inv_def live_inv_def dead_inv_def map_inv_def
      stats_inv_def live_bytes_def)

lemma reach_inv: "reach h s \<Longrightarrow> heap_inv h s"
proof (induction rule: reach.induct)
  case (init m)
  show ?case by (rule heap_inv_init)
next
  case (malloc h s mal sz fl ln p h')
  show ?case
  proof (cases "p = 0")
    case True
    with heap_inv_null [OF malloc.IH malloc(2)] malloc(3) show ?thesis by simp
  next
    case False
    from heap_inv_alloc [OF malloc.IH malloc(2,3) _ False, of "\<lambda>m. m"] show ?thesis by simp
  qed
next
  case (calloc h s mal n sz fl ln p h')
  from calloc(3) show ?case
  proof (cases rule: dcalloc_cases)
    case overflow
    then show ?thesis using heap_inv_fail [OF calloc.IH, of "n * sz" "rand_x h" fl ln] by simp
  next
    case null
    with heap_inv_null [OF calloc.IH calloc(2) null(1)] show ?thesis by simp
next
    case (filled h1)
    have fill: "changes_within m (fill_bytes m p 0 (unat (n * sz))) p (unat (n * sz))" for m
      using changes_within_fill [of 0 "unat (n * sz)" "unat (n * sz)" m p 0] by simp
    show ?thesis using heap_inv_alloc [OF calloc.IH calloc(2) filled(1) fill filled(2)] filled(5) by simp
  qed
next
  case (free h s p fl ln h')
  then obtain sz f l where "live s p = Some (sz, f, l)" by (cases "live s p") auto
  from heap_inv_free [OF free.IH this free(3)] show ?case .
next
  case (store h s p sz f l i b)
  from heap_inv_store [OF store.IH store(2,3)] show ?case .
qed

section \<open>Statistics, frees and leaks\<close>

text \<open>
  Over every run of a program that frees only live pointers and writes only into
  live blocks, the statistics count exactly the run: active allocations and bytes, all
  allocations and bytes, failures and their bytes, each modulo \<open>2 ^ 64\<close>.
\<close>

theorem statistics_exact:
  assumes "reach h s"
  shows "nactive (get_statistics h) = of_nat (card (dom (live s)))
    \<and> active_size (get_statistics h) = of_nat (live_bytes s)
    \<and> ntotal (get_statistics h) = of_nat (n_total s) \<and> total_size (get_statistics h) = of_nat (b_total s)
    \<and> nfail (get_statistics h) = of_nat (n_fail s) \<and> fail_size (get_statistics h) = of_nat (b_fail s)"
  using reach_inv [OF assms] by (simp add: heap_inv_def stats_inv_def get_statistics_def)

text \<open>A first block at address 4096, for concrete runs.\<close>

definition mal_4096 :: "64 word \<Rightarrow> addr" where
  "mal_4096 n = (if n \<le> 4096 then 4096 else 0)"

lemma mal_4096_ok: "sys_malloc_ok mal_4096 (heap_init m)"
  by (auto simp: sys_malloc_ok_def mal_4096_def heap_init_def word_le_nat_alt)

definition one_block :: heap where
  "one_block = snd (dmalloc mal_4096 16 7 9 (heap_init (\<lambda>_. 0)))"

lemma dmalloc_4096:
  "32 + unat sz \<le> 4096 \<Longrightarrow> \<exists>x. dmalloc mal_4096 sz file line (heap_init m) = (4128, allocated 4096 sz file line x (heap_init m))"
proof -
  assume sz: "32 + unat sz \<le> 4096"
  have "blocks_inv (heap_init m)" using heap_inv_init by (simp add: heap_inv_def)
  from dmalloc_eq [OF this, of mal_4096 sz "file" line] show ?thesis
    using sz by (simp add: mal_4096_def word_le_nat_alt unat_word_ariths META_def)
qed

lemma one_block_alloc:
  "dmalloc mal_4096 16 7 9 (heap_init (\<lambda>_. 0)) = (4128, one_block)" "allocs one_block = [4096 \<mapsto> 48]"
  using dmalloc_4096 [of 16 7 9 "\<lambda>_. 0"] by (auto simp: one_block_def heap_init_def META_def)

lemma one_block_reach: "reach one_block (spec_alloc 4128 16 7 9 spec_init)"
  by (rule reach.malloc [OF reach.init mal_4096_ok one_block_alloc(1)])

theorem statistics_exact_witness: "nactive (get_statistics one_block) = 1 \<and> active_size (get_statistics one_block) = 16"
  using statistics_exact [OF one_block_reach] by (simp add: spec_alloc_def spec_init_def live_bytes_def)

text \<open>
  C36: \<open>dfree\<close> accepts every live pointer, after which it is no longer live, and
  reports every pointer that was freed before as a double free and aborts, however many
  allocations lie between.
\<close>

theorem dfree_exact:
  assumes "reach h s"
  shows "(live s p \<noteq> None \<longrightarrow> (\<exists>h'. dfree p file line h = Inr h' \<and> reach h' (spec_free p s)
            \<and> map_of (pointerMap h') p = None))
    \<and> (p \<in> dead s \<longrightarrow> dfree p file line h = Inl ([DoubleFree file line p], Abort))"
proof (intro conjI impI)
  note inv = reach_inv [OF assms]
  assume live: "live s p \<noteq> None"
  then obtain sz f l where p: "live s p = Some (sz, f, l)" by (cases "live s p") auto
  obtain h' where h': "dfree p file line h = Inr h'" using dfree_live [OF inv p, of "file" line] by simp
  have r: "reach h' (spec_free p s)" by (rule reach.free [OF assms live h'])
  then have "map_of (pointerMap h') p = None"
    using reach_inv [OF r] by (simp add: heap_inv_def map_inv_def spec_free_def)
  with h' r show "\<exists>h'. dfree p file line h = Inr h' \<and> reach h' (spec_free p s) \<and> map_of (pointerMap h') p = None"
    by blast
next
  assume "p \<in> dead s"
  then show "dfree p file line h = Inl ([DoubleFree file line p], Abort)"
    by (rule dfree_dead [OF reach_inv [OF assms]])
qed

theorem dfree_exact_witness:
  "\<exists>h'. dfree 4128 7 10 one_block = Inr h' \<and> map_of (pointerMap h') 4128 = None"
  using dfree_exact [OF one_block_reach, of 4128 7 10] by (auto simp: spec_alloc_def spec_init_def)

text \<open>
  C38: the leak report lists the live blocks and nothing else, in the order of their
  addresses, each with the file, line and size it was allocated with.
\<close>

theorem leak_report_exact:
  assumes "reach h s"
  shows "set (print_leak_report h) = {(f, l, p, sz) | f l p sz. live s p = Some (sz, f, l)}
    \<and> sorted_wrt (<) (map (\<lambda>(f, l, p, sz). p) (print_leak_report h))"
proof -
  have li: "live_inv h s" and mi: "map_inv h s" using reach_inv [OF assms] by (simp_all add: heap_inv_def)
  have rep: "print_leak_report h = map (leak_line h) (pointerMap h)" by (simp add: print_leak_report_def)
  have dist: "distinct (map fst (pointerMap h))" using mi by (simp add: map_inv_def sm_wf_distinct)
  have mem: "(p, sz) \<in> set (pointerMap h) \<longleftrightarrow> (\<exists>f l. live s p = Some (sz, f, l))" for p sz
    using mi map_of_eq_Some_iff [OF dist] by (auto simp: map_inv_def)
  have line: "leak_line h (p, sz) = (f, l, p, sz)" if "live s p = Some (sz, f, l)" for p sz f l
    using live_invD(3) [OF li that] by (simp add: leak_line_def)
  have "set (print_leak_report h) = {(f, l, p, sz) | f l p sz. live s p = Some (sz, f, l)}"
  proof (intro set_eqI iffI)
    fix x
    assume "x \<in> set (print_leak_report h)"
    then obtain p sz where x: "x = leak_line h (p, sz)" and "(p, sz) \<in> set (pointerMap h)" by (auto simp: rep)
    then obtain f l where "live s p = Some (sz, f, l)" using mem by blast
    with x line show "x \<in> {(f, l, p, sz) | f l p sz. live s p = Some (sz, f, l)}" by auto
  next
    fix x
    assume "x \<in> {(f, l, p, sz) | f l p sz. live s p = Some (sz, f, l)}"
    then obtain f l p sz where x: "x = (f, l, p, sz)" and live: "live s p = Some (sz, f, l)" by auto
    then have "(p, sz) \<in> set (pointerMap h)" using mem by blast
    then have "leak_line h (p, sz) \<in> set (print_leak_report h)" by (simp add: rep)
    with line [OF live] x show "x \<in> set (print_leak_report h)" by simp
  qed
  moreover have "map (\<lambda>(f, l, p, sz). p) (print_leak_report h) = map fst (pointerMap h)"
    by (simp add: rep leak_line_def Let_def)
  ultimately show ?thesis using mi by (simp add: map_inv_def sm_wf_def)
qed

theorem leak_report_exact_witness: "set (print_leak_report one_block) = {(7, 9, 4128, 16)}"
  using leak_report_exact [OF one_block_reach] by (auto simp: spec_alloc_def spec_init_def split: if_splits)

section \<open>Blocks\<close>

text \<open>
  C37: a new block shares no byte with a live one, and allocating it changes no byte of
  a live block.
\<close>

theorem dmalloc_disjoint:
  assumes "reach h s" and "sys_malloc_ok mal h" and "dmalloc mal sz file line h = (p, h')" and "p \<noteq> 0"
    and "live s q = Some (n, f, l)"
  shows "apart p (unat sz) q (unat n) \<and> (\<forall>i < unat n. bytes h' (q + of_nat i) = bytes h (q + of_nat i))"
proof -
  have inv: "heap_inv h s" by (rule reach_inv [OF assms(1)])
  then have bi: "blocks_inv h" and li: "live_inv h s" by (simp_all add: heap_inv_def)
  note q = live_invD [OF li assms(5)]
  have okq: "block_ok (stature h) (q - META) (META + n)" using bi q(1) by (simp add: blocks_inv_def)
  note uq = user_pointer(1) [OF bi q(1)]
  from bi assms(3) show ?thesis
  proof (cases rule: dmalloc_cases)
    case (failed x)
    with assms(4) show ?thesis by simp
  next
    case (ok x a)
    note sys = assms(2) [unfolded sys_malloc_ok_def, THEN spec, of "META + sz"]
    have a: "unat a + unat (META + sz) + 8 \<le> 2 ^ 48" and g: "gap a (META + sz) (q - META) (META + n)"
      using sys ok(1,2) q(1) by simp_all
    have up: "unat p = unat a + 32" using a ok(3,4) by (simp add: unat_word_ariths)
    have pq: "apart p (unat sz) q (unat n)" and ah: "apart a 32 q (unat n)"
      using g a up uq okq ok(3) q(2) by (auto simp: gap_def apart_def block_ok_def)
    have "bytes h' (q + of_nat i) = bytes h (q + of_nat i)" if "i < unat n" for i
      using changes_within_apart [OF write_meta_within ah that] ok(5) by simp
    with pq show ?thesis by blast
  qed
qed

theorem dmalloc_disjoint_witness:
  "apart 8224 8 4128 16"
proof -
  let ?mal = "\<lambda>n :: 64 word. if n \<le> 4096 then 8192 else (0 :: 64 word)"
  have sys: "sys_malloc_ok ?mal one_block" by (auto simp: sys_malloc_ok_def one_block_alloc(2) gap_def word_le_nat_alt)
  have bi: "blocks_inv one_block" using reach_inv [OF one_block_reach] by (simp add: heap_inv_def)
  obtain h' where "dmalloc ?mal 8 1 2 one_block = (8224, h')"
    using dmalloc_eq [OF bi, of ?mal 8 1 2] by (auto simp: META_def)
  then show ?thesis
    using dmalloc_disjoint [OF one_block_reach sys, of 8 1 2 8224 h' 4128 16 7 9] by (simp add: spec_alloc_def spec_init_def)
qed

lemma overflow_check:
  fixes n sz :: "64 word"
  assumes "n \<noteq> 0"
  shows "n * sz div n = sz \<longleftrightarrow> unat n * unat sz < 2 ^ 64"
proof (cases "unat n * unat sz < 2 ^ 64")
  case True
  then have "unat (n * sz) = unat n * unat sz" by (simp add: unat_word_ariths)
  moreover have "unat n \<noteq> 0" using assms by (simp add: unat_eq_0)
  ultimately have "unat (n * sz div n) = unat sz" by (simp add: unat_div)
  with True show ?thesis by (simp add: word_unat_eq_iff)
next
  case False
  have "unat (n * sz) < unat n * unat sz"
    using False unat_bound64 [of "n * sz"] by linarith
  then have "unat (n * sz) div unat n < unat sz" by (simp add: less_mult_imp_div_less mult.commute)
  then have "n * sz div n \<noteq> sz" by (auto simp: word_unat_eq_iff unat_div)
  with False show ?thesis by simp
qed

text \<open>
  \<open>dcalloc\<close> detects exactly the overflow of its product: then it fails and
  counts a failure, otherwise it returns what \<open>dmalloc\<close> returns for the product, filled
  with zeros. Zero members are a division by zero.
\<close>

theorem dcalloc_exact:
  "dcalloc mal n sz file line h =
     (if n = 0 then Inl ([], Undefined)
      else if unat n * unat sz < 2 ^ 64 then
        (case dmalloc mal (n * sz) file line h of (p, h') \<Rightarrow>
           Inr (p, if p = 0 then h' else h'\<lparr>bytes := fill_bytes (bytes h') p 0 (unat n * unat sz)\<rparr>))
      else Inr (0, h\<lparr>stature := count_fail (n * sz) (stature h)\<rparr>))"
proof (cases "n = 0")
  case True
  then show ?thesis by (simp add: dcalloc_def)
next
  case False
  then have c: "n * sz div n = sz \<longleftrightarrow> unat n * unat sz < 2 ^ 64" by (rule overflow_check)
  have "unat (n * sz) = unat n * unat sz" if "unat n * unat sz < 2 ^ 64"
    using that by (simp add: unat_word_ariths)
  with False c show ?thesis
    by (cases "unat n * unat sz < 2 ^ 64"; cases "dmalloc mal (n * sz) file line h") (simp_all add: dcalloc_def Let_def)
qed

text \<open>
  Memory is never reused. \<open>dfree\<close> hands the base allocator the user pointer
  instead of the start of the block, which the base allocator does not know and silently
  ignores; its list of freed blocks stays empty for ever.
\<close>

theorem freed_blocks_lost:
  assumes "reach h s" and "dfree p file line h = Inr h'" and "live s p \<noteq> None"
  shows "frees h' = [] \<and> allocs h' = allocs h"
proof -
  have inv: "heap_inv h s" by (rule reach_inv [OF assms(1)])
  obtain sz f l where "live s p = Some (sz, f, l)" using assms(3) by (cases "live s p") auto
  with assms(2) dfree_live [OF inv this, of "file" line] inv show ?thesis
    by (auto simp: heap_inv_def blocks_inv_def)
qed

theorem freed_blocks_lost_witness: "\<exists>h'. dfree 4128 7 10 one_block = Inr h' \<and> frees h' = []"
proof -
  have live: "live (spec_alloc 4128 16 7 9 spec_init) 4128 = Some (16, 7, 9)" by (simp add: spec_alloc_def)
  obtain h' where "dfree 4128 7 10 one_block = Inr h'"
    using dfree_live [OF reach_inv [OF one_block_reach] live, of 7 10] by blast
  with freed_blocks_lost [OF one_block_reach this] live show ?thesis by simp
qed

text \<open>
  The check for a wild free can be fooled by the program's own data. An aligned
  pointer into a live block with the number 2 in the right place of the block passes every
  check, and \<open>dfree\<close> erases the end iterator of its map, which is undefined.
\<close>

theorem forged_header:
  assumes "reach h s" and "live s p = Some (sz, f, l)" and "8 dvd k" and "32 \<le> k" and "k \<le> unat sz + 8"
    and "load64 (bytes h) (p + of_nat (k - 32)) = 2" and "live s (p + of_nat k) = None"
  shows "dfree (p + of_nat k) file line h = Inl ([], Undefined)"
proof -
  have inv: "heap_inv h s" by (rule reach_inv [OF assms(1)])
  then have bi: "blocks_inv h" and li: "live_inv h s" and mi: "map_inv h s" by (simp_all add: heap_inv_def)
  note p = live_invD [OF li assms(2)]
  have ok: "block_ok (stature h) (p - META) (META + sz)" using bi p(1) by (simp add: blocks_inv_def)
  note up = user_pointer(1) [OF bi p(1)]
  have ur: "unat (p + of_nat k) = unat (p - META) + 32 + k"
    using up ok assms(5) p(2) by (simp add: unat_word_ariths unat_of_nat_small block_ok_def)
  have hdr: "p + of_nat k - META = p + of_nat (k - 32)"
    using assms(4) by (simp add: META_def of_nat_diff)
  have k: "k - 32 < 2 ^ 64" using assms(5) ok p(2) by (auto simp: block_ok_def)
  have "unat (p + of_nat (k - 32)) = unat p + (k - 32)"
    using up ok assms(5) p(2) unat_of_nat_small [OF k] by (auto simp: unat_word_ariths block_ok_def)
  then have "unat (p + of_nat (k - 32)) = unat (p - META) + k" using up assms(4) by simp
  then have "8 dvd unat (p + of_nat (k - 32))" using ok assms(3) by (simp add: block_ok_def)
  then have al: "(p + of_nat k - META) mod 8 = 0"
    unfolding hdr by (simp add: unat_eq_0 [symmetric] unat_mod dvd_eq_mod_eq_0)
  have "p + of_nat k \<noteq> 0" using ur by auto
  moreover have "\<not> p + of_nat k < heap_min (stature h)" "\<not> heap_max (stature h) < p + of_nat k"
    using ok ur assms(5) p(2) by (auto simp: block_ok_def word_less_nat_alt)
  moreover have "ifFree (read_meta (bytes h) (p + of_nat k - META)) = 2" using assms(6) by (simp add: read_meta_def hdr)
  moreover have "map_of (pointerMap h) (p + of_nat k) = None" using mi assms(7) by (simp add: map_inv_def)
  ultimately show ?thesis using al by (simp add: dfree_def Let_def)
qed

theorem forged_header_witness:
  "\<exists>h. dfree 4160 7 10 h = Inl ([], Undefined)"
proof -
  let ?m = "(\<lambda>_. 0)(4128 := 2) :: memory"
  obtain x where eq: "dmalloc mal_4096 32 7 9 (heap_init ?m) = (4128, allocated 4096 32 7 9 x (heap_init ?m))"
    using dmalloc_4096 [of 32 7 9 ?m] by auto
  define h' where "h' = allocated 4096 32 7 9 x (heap_init ?m)"
  have m: "bytes h' = write_meta ?m 4096 \<lparr>ifFree = 2, md_length = 32, fileName = 7, md_line = 9\<rparr>"
    by (simp add: h'_def heap_init_def)
  have r: "reach h' (spec_alloc 4128 32 7 9 spec_init)"
    by (rule reach.malloc [OF reach.init mal_4096_ok]) (use eq in \<open>simp add: h'_def\<close>)
  have "read_bytes (bytes h') 4128 8 = read_bytes ?m 4128 8"
  proof (rule nth_equalityI)
    fix i
    assume "i < length (read_bytes (bytes h') 4128 8)"
    then have "i < 8" by simp
    moreover have "apart 4096 32 4128 8" by (simp add: apart_def)
    ultimately show "read_bytes (bytes h') 4128 8 ! i = read_bytes ?m 4128 8 ! i"
      using changes_within_apart [OF write_meta_within] m by (simp add: read_bytes_def)
  qed simp
  then have "load64 (bytes h') 4128 = 2" by (simp add: load64_def read_bytes_def upt_rec)
  then have "dfree (4128 + of_nat 32) 7 10 h' = Inl ([], Undefined)"
    using forged_header [OF r, of 4128 32 7 9 32 7 10] by (simp add: spec_alloc_def spec_init_def)
  then have "dfree 4160 7 10 h' = Inl ([], Undefined)" by simp
  then show ?thesis by blast
qed

end
