(* ===== verification/CLib.thy ===== *)
theory CLib
  imports Memory
begin

unbundle bit_operations_syntax

text \<open>
  The C library subset of the operating system (\<open>weensyos/lib.cc\<close>, \<open>lib.hh\<close>): the memory and
  string functions over byte memory, number parsing, rounding and the pseudo-random numbers. A
  \<open>size_t\<close> that only counts loop rounds is the natural number it denotes.

  A loop that runs to the terminating zero byte of a string is a \<open>partial_function\<close>: on memory
  without a zero byte it has no result.
\<close>

section \<open>Memory functions\<close>

fun memcpy :: "memory \<Rightarrow> addr \<Rightarrow> addr \<Rightarrow> nat \<Rightarrow> memory" where
  "memcpy m d s 0 = m"
| "memcpy m d s (Suc n) = memcpy (m(d := m s)) (d + 1) (s + 1) n"

text \<open>The loop of \<open>memmove\<close> that copies from the last byte down: both pointers are one past the end.\<close>

fun copy_down :: "memory \<Rightarrow> addr \<Rightarrow> addr \<Rightarrow> nat \<Rightarrow> memory" where
  "copy_down m d s 0 = m"
| "copy_down m d s (Suc n) = copy_down (m(d - 1 := m (s - 1))) (d - 1) (s - 1) n"

definition memmove :: "memory \<Rightarrow> addr \<Rightarrow> addr \<Rightarrow> nat \<Rightarrow> memory" where
  "memmove m d s n =
     (if s < d \<and> s + of_nat n > d then copy_down m (d + of_nat n) (s + of_nat n) n else memcpy m d s n)"

fun memset :: "memory \<Rightarrow> addr \<Rightarrow> 8 word \<Rightarrow> nat \<Rightarrow> memory" where
  "memset m p c 0 = m"
| "memset m p c (Suc n) = memset (m(p := c)) (p + 1) c n"

text \<open>\<open>(x > y) - (x < y)\<close>.\<close>

definition sign_of :: "8 word \<Rightarrow> 8 word \<Rightarrow> int" where
  "sign_of x y = of_bool (x > y) - of_bool (x < y)"

fun memcmp :: "memory \<Rightarrow> addr \<Rightarrow> addr \<Rightarrow> nat \<Rightarrow> int" where
  "memcmp m a b 0 = 0"
| "memcmp m a b (Suc n) = (if m a \<noteq> m b then sign_of (m a) (m b) else memcmp m (a + 1) (b + 1) n)"

fun memchr :: "memory \<Rightarrow> addr \<Rightarrow> 8 word \<Rightarrow> nat \<Rightarrow> addr" where
  "memchr m s c 0 = 0"
| "memchr m s c (Suc n) = (if m s = c then s else memchr m (s + 1) c n)"

section \<open>String functions\<close>

partial_function (option) strlen_loop :: "memory \<Rightarrow> addr \<Rightarrow> 64 word \<Rightarrow> 64 word option" where
  "strlen_loop m s n = (if m s = 0 then Some n else strlen_loop m (s + 1) (n + 1))"

definition strlen :: "memory \<Rightarrow> addr \<Rightarrow> 64 word option" where
  "strlen m s = strlen_loop m s 0"

fun strnlen :: "memory \<Rightarrow> addr \<Rightarrow> nat \<Rightarrow> nat" where
  "strnlen m s 0 = 0"
| "strnlen m s (Suc maxlen) = (if m s = 0 then 0 else Suc (strnlen m (s + 1) maxlen))"

partial_function (option) strcpy :: "memory \<Rightarrow> addr \<Rightarrow> addr \<Rightarrow> memory option" where
  "strcpy m d s = (let m' = m(d := m s) in if m' d = 0 then Some m' else strcpy m' (d + 1) (s + 1))"

partial_function (option) strcmp :: "memory \<Rightarrow> addr \<Rightarrow> addr \<Rightarrow> int option" where
  "strcmp m a b = (if m a = 0 \<or> m b = 0 \<or> m a \<noteq> m b then Some (sign_of (m a) (m b)) else strcmp m (a + 1) (b + 1))"

fun strncmp :: "memory \<Rightarrow> addr \<Rightarrow> addr \<Rightarrow> nat \<Rightarrow> int" where
  "strncmp m a b 0 = 0"
| "strncmp m a b (Suc n) =
     (if m a = 0 \<or> m b = 0 \<or> m a \<noteq> m b then sign_of (m a) (m b) else strncmp m (a + 1) (b + 1) n)"

definition tolower_byte :: "8 word \<Rightarrow> 8 word" where
  "tolower_byte c = (if 65 \<le> c \<and> c \<le> 90 then c + 32 else c)"

partial_function (option) strcasecmp :: "memory \<Rightarrow> addr \<Rightarrow> addr \<Rightarrow> int option" where
  "strcasecmp m a b =
     (let ac = tolower_byte (m a); bc = tolower_byte (m b) in
      if ac = 0 \<or> bc = 0 \<or> ac \<noteq> bc then Some (sign_of ac bc) else strcasecmp m (a + 1) (b + 1))"

fun strncasecmp :: "memory \<Rightarrow> addr \<Rightarrow> addr \<Rightarrow> nat \<Rightarrow> int" where
  "strncasecmp m a b 0 = 0"
| "strncasecmp m a b (Suc n) =
     (let ac = tolower_byte (m a); bc = tolower_byte (m b) in
      if ac = 0 \<or> bc = 0 \<or> ac \<noteq> bc then sign_of ac bc else strncasecmp m (a + 1) (b + 1) n)"

partial_function (option) strchr :: "memory \<Rightarrow> addr \<Rightarrow> 8 word \<Rightarrow> addr option" where
  "strchr m s c =
     (if m s \<noteq> 0 \<and> m s \<noteq> c then strchr m (s + 1) c else Some (if m s = c then s else 0))"

section \<open>Rounding and bits\<close>

definition round_down :: "64 word \<Rightarrow> 32 word \<Rightarrow> 64 word" where
  "round_down x multiple = x - x mod ucast multiple"

definition round_up :: "64 word \<Rightarrow> 32 word \<Rightarrow> 64 word" where
  "round_up x multiple = round_down (x + ucast multiple - 1) multiple"

text \<open>The index of the most significant one bit plus one, and the powers of two around a number.\<close>

fun bit_length :: "nat \<Rightarrow> nat" where
  "bit_length n = (if n = 0 then 0 else Suc (bit_length (n div 2)))"

declare bit_length.simps [simp del]

definition msb64 :: "64 word \<Rightarrow> nat" where
  "msb64 x = bit_length (unat x)"

definition round_down_pow2 :: "64 word \<Rightarrow> 64 word" where
  "round_down_pow2 x = (if x \<noteq> 0 then push_bit (msb64 x - 1) 1 else 0)"

definition round_up_pow2 :: "64 word \<Rightarrow> 64 word" where
  "round_up_pow2 x = (if x \<noteq> 0 then push_bit (msb64 (x - 1)) 1 else 0)"

section \<open>Pseudo-random numbers\<close>

record rand_state =
  rand_seed_set :: bool
  rand_seed :: "64 word"

definition srand :: "32 word \<Rightarrow> rand_state \<Rightarrow> rand_state" where
  "srand seed r = r\<lparr>rand_seed := push_bit 32 (ucast seed) OR ucast seed, rand_seed_set := True\<rparr>"

definition RAND_MAX :: "64 word" where
  "RAND_MAX = 0x7FFFFFFF"

definition rand :: "rand_state \<Rightarrow> 32 word \<times> rand_state" where
  "rand r =
     (let r = (if \<not> rand_seed_set r then srand 819234718 r else r);
          x = rand_seed r * 6364136223846793005 + 1
      in (ucast (drop_bit 32 x AND RAND_MAX), r\<lparr>rand_seed := x\<rparr>))"

text \<open>
  \<open>rand(min, max)\<close>: the asserts compute \<open>max - min\<close> in \<open>int\<close>, where it must not
  overflow; the product and the division are unsigned 64-bit, and the sum is converted back to
  \<open>int\<close>.
\<close>

definition rand_between :: "int \<Rightarrow> int \<Rightarrow> rand_state \<Rightarrow> (int \<times> rand_state) cpp" where
  "rand_between lo hi r =
     bindE (assertE (lo \<le> hi)) (\<lambda>_.
     if hi - lo + 1 \<ge> 2 ^ 31 then Inl Undefined
     else let (x, r) = rand r;
              q = ucast x * of_int (hi - lo + 1) div (RAND_MAX + 1)
          in Inr (sint (ucast (of_int lo + q :: 64 word) :: 32 word), r))"

section \<open>Copying\<close>

lemma unat_minus_Suc:
  fixes x a :: addr
  assumes "x \<noteq> a"
  shows "unat (x - a) = Suc (unat (x - (a + 1)))"
proof -
  have "x - a \<noteq> 0" using assms by simp
  then have "unat (x - a - 1) = unat (x - a) - 1" and "unat (x - a) \<noteq> 0"
    by (simp_all add: unat_minus_one unat_eq_0)
  moreover have "x - (a + 1) = x - a - 1" by (simp only: diff_diff_eq)
  ultimately show ?thesis by (simp only: Suc_pred')
qed

lemma word_of_nat_unat_self: "of_nat (unat x) = (x :: 64 word)"
  by simp

lemma write_bytes_Nil [simp]: "write_bytes m a [] = m"
  by (simp add: write_bytes_def)

lemma write_bytes_Cons:
  assumes "length bs < 2 ^ 64"
  shows "write_bytes m a (b # bs) = write_bytes (m(a := b)) (a + 1) bs"
proof
  fix x
  show "write_bytes m a (b # bs) x = write_bytes (m(a := b)) (a + 1) bs x"
  proof (cases "x = a")
    case True
    have "a - (a + 1) = - 1" by simp
    then have "unat (a - (a + 1)) = unat (- 1 :: addr)" by (simp only:)
    then have "unat (a - (a + 1)) = 2 ^ 64 - 1" by (simp add: unsigned_minus_1_eq_mask mask_eq_exp_minus_1)
    with True assms show ?thesis by (simp add: write_bytes_def)
  next
    case False
    then show ?thesis by (simp add: write_bytes_def unat_minus_Suc [OF False])
  qed
qed

lemma write_bytes_snoc:
  assumes "length bs < 2 ^ 64"
  shows "write_bytes m a (bs @ [b]) = write_bytes (m(a + of_nat (length bs) := b)) a bs"
proof
  fix x
  have "unat (x - a) = length bs \<longleftrightarrow> x = a + of_nat (length bs)"
  proof
    assume "unat (x - a) = length bs"
    then have "x - a = of_nat (length bs)" using word_of_nat_unat_self by metis
    then show "x = a + of_nat (length bs)" by (simp add: algebra_simps)
  next
    assume "x = a + of_nat (length bs)"
    then show "unat (x - a) = length bs" using assms by (simp add: unat_of_nat_small)
  qed
  then show "write_bytes m a (bs @ [b]) x = write_bytes (m(a + of_nat (length bs) := b)) a bs x"
    by (auto simp: write_bytes_def nth_append less_Suc_eq)
qed

lemma read_bytes_Suc: "read_bytes m a (Suc n) = m a # read_bytes m (a + 1) n"
  by (simp add: read_bytes_def upt_conv_Cons map_Suc_upt [symmetric] add.assoc del: upt_Suc)

lemma read_bytes_snoc: "read_bytes m a (Suc n) = read_bytes m a n @ [m (a + of_nat n)]"
  by (simp add: read_bytes_def)

lemma read_bytes_upd:
  assumes "\<And>i. i < n \<Longrightarrow> a + of_nat i \<noteq> x"
  shows "read_bytes (m(x := v)) a n = read_bytes m a n"
  using assms by (simp add: read_bytes_def)

lemma offset_neq:
  assumes "unat (a :: addr) + n \<le> 2 ^ 64" and "i < n" and "unat x < unat a \<or> unat a + n \<le> unat x"
  shows "a + of_nat i \<noteq> x"
proof -
  have "unat (a + of_nat i) = unat a + i" using assms(1,2) by (simp add: unat_word_ariths unat_of_nat_small)
  with assms(2,3) show ?thesis by auto
qed

lemma memcpy_eq:
  assumes "unat s + n \<le> 2 ^ 64" and "unat d + n \<le> 2 ^ 64" and "unat d \<le> unat s \<or> unat s + n \<le> unat d"
  shows "memcpy m d s n = write_bytes m d (read_bytes m s n)"
  using assms
proof (induction n arbitrary: m d s)
  case 0
  then show ?case by (simp add: read_bytes_def)
next
  case (Suc n)
  let ?m = "m(d := m s)"
  show ?case
  proof (cases "n = 0")
    case True
    then show ?thesis by (simp add: read_bytes_def write_bytes_Cons)
  next
    case False
    with Suc.prems have u: "unat (s + 1) = unat s + 1" "unat (d + 1) = unat d + 1"
      by (simp_all add: unat_word_ariths)
    have "read_bytes ?m (s + 1) n = read_bytes m (s + 1) n"
      by (rule read_bytes_upd, rule offset_neq [of _ n]) (use Suc.prems u in auto)
    moreover have "memcpy ?m (d + 1) (s + 1) n = write_bytes ?m (d + 1) (read_bytes ?m (s + 1) n)"
      by (rule Suc.IH) (use Suc.prems u in auto)
    ultimately show ?thesis using Suc.prems(1) by (simp add: read_bytes_Suc write_bytes_Cons)
  qed
qed

lemma copy_down_eq:
  assumes "unat s + n \<le> 2 ^ 64" and "unat d + n \<le> 2 ^ 64" and "unat s \<le> unat d"
  shows "copy_down m (d + of_nat n) (s + of_nat n) n = write_bytes m d (read_bytes m s n)"
  using assms
proof (induction n arbitrary: m)
  case 0
  then show ?case by (simp add: read_bytes_def)
next
  case (Suc n)
  let ?m = "m(d + of_nat n := m (s + of_nat n))"
  have "unat (d + of_nat n) = unat d + n" using Suc.prems by (simp add: unat_word_ariths unat_of_nat_small)
  then have "read_bytes ?m s n = read_bytes m s n"
    by (intro read_bytes_upd offset_neq [of _ n]) (use Suc.prems in auto)
  moreover have "copy_down ?m (d + of_nat n) (s + of_nat n) n = write_bytes ?m d (read_bytes ?m s n)"
    by (rule Suc.IH) (use Suc.prems in auto)
  ultimately show ?case
    using Suc.prems(1) write_bytes_snoc [of "read_bytes m s n" m d] by (simp add: read_bytes_snoc)
qed

text \<open>
  \<open>memmove\<close> copies as if through a buffer, however the two regions overlap, as long as
  neither reaches the end of the address space; \<open>memcpy\<close> does when the target does not start
  inside the source.
\<close>

theorem memmove_exact:
  assumes "unat s + n < 2 ^ 64" and "unat d + n < 2 ^ 64"
  shows "memmove m d s n = write_bytes m d (read_bytes m s n)
    \<and> (\<not> (unat s < unat d \<and> unat d < unat s + n) \<longrightarrow> memcpy m d s n = write_bytes m d (read_bytes m s n))"
proof -
  have u: "unat (s + of_nat n) = unat s + n" using assms(1) by (simp add: unat_word_ariths unat_of_nat_small)
  have cpy: "memcpy m d s n = write_bytes m d (read_bytes m s n)" if "\<not> (unat s < unat d \<and> unat d < unat s + n)"
    by (rule memcpy_eq) (use assms that in auto)
  show ?thesis
  proof (cases "s < d \<and> s + of_nat n > d")
    case True
    then show ?thesis using assms cpy copy_down_eq [of s n d m] by (simp add: memmove_def word_less_nat_alt u)
  next
    case False
    then show ?thesis using cpy by (auto simp: memmove_def word_less_nat_alt u)
  qed
qed

theorem memmove_exact_witness:
  "memmove (\<lambda>a. ucast a) 11 10 3 = write_bytes (\<lambda>a. ucast a) 11 [10, 11, 12]"
proof -
  have "read_bytes (\<lambda>a. ucast a) 10 3 = [10, 11, 12]" by (simp add: read_bytes_def upt_rec)
  with memmove_exact [of 10 3 11 "\<lambda>a. ucast a"] show ?thesis by simp
qed

lemma memset_eq: "n \<le> 2 ^ 64 \<Longrightarrow> memset m p c n = write_bytes m p (replicate n c)"
  by (induction n arbitrary: m p) (simp_all add: write_bytes_Cons)

lemma memset_fill: "n \<le> 2 ^ 64 \<Longrightarrow> memset m p c n = fill_bytes m p c n"
  by (rule ext) (simp add: memset_eq write_bytes_def fill_bytes_def)

section \<open>Strings\<close>

text \<open>The bytes of a string at an address, ended by the first zero byte.\<close>

definition cstring :: "memory \<Rightarrow> addr \<Rightarrow> 8 word list \<Rightarrow> bool" where
  "cstring m a s \<longleftrightarrow> read_bytes m a (length s) = s \<and> m (a + of_nat (length s)) = 0 \<and> 0 \<notin> set s"

lemma cstring_Nil [simp]: "cstring m a [] \<longleftrightarrow> m a = 0"
  by (simp add: cstring_def read_bytes_def)

lemma cstring_Cons [simp]: "cstring m a (c # s) \<longleftrightarrow> m a = c \<and> c \<noteq> 0 \<and> cstring m (a + 1) s"
  by (auto simp: cstring_def read_bytes_Suc add.assoc)

lemma strlen_loop_eq: "cstring m a s \<Longrightarrow> strlen_loop m a n = Some (n + of_nat (length s))"
  by (induction s arbitrary: a n) (subst strlen_loop.simps; simp add: add.assoc)+

lemma strnlen_eq: "cstring m a s \<Longrightarrow> strnlen m a k = min k (length s)"
proof (induction k arbitrary: a s)
  case (Suc k)
  then show ?case by (cases s) auto
qed simp

definition list_sign :: "8 word list \<Rightarrow> 8 word list \<Rightarrow> int" where
  "list_sign s t = (if s = t then 0 else if s < t then - 1 else 1)"

lemma list_sign_simps [simp]:
  "list_sign [] [] = 0" "list_sign (c # s) [] = 1" "list_sign [] (d # t) = - 1"
  "list_sign (c # s) (d # t) = (if c = d then list_sign s t else sign_of c d)"
  by (auto simp: list_sign_def sign_of_def)

lemma sign_of_0 [simp]: "c \<noteq> 0 \<Longrightarrow> sign_of c 0 = 1" "c \<noteq> 0 \<Longrightarrow> sign_of 0 c = - 1" "sign_of c c = 0"
  by (auto simp: sign_of_def word_gt_0)

lemma strcmp_eq: "cstring m a s \<Longrightarrow> cstring m b t \<Longrightarrow> strcmp m a b = Some (list_sign s t)"
proof (induction s arbitrary: a b t)
  case Nil
  then show ?case by (subst strcmp.simps; cases t) auto
next
  case (Cons c s)
  then show ?case by (subst strcmp.simps; cases t) auto
qed

lemma strncmp_eq:
  "cstring m a s \<Longrightarrow> cstring m b t \<Longrightarrow> length s < n \<or> length t < n \<Longrightarrow> strncmp m a b n = list_sign s t"
proof (induction n arbitrary: a b s t)
  case (Suc n)
  then show ?case by (cases s; cases t) auto
qed simp

text \<open>
  On two strings \<open>strlen\<close> returns the length, and \<open>strcmp\<close> and \<open>strncmp\<close> with
  a large enough bound the sign of the lexicographic comparison of the bytes.
\<close>

theorem strings_exact:
  assumes "cstring m a s" and "cstring m b t" and "min (length s) (length t) < n"
  shows "strlen m a = Some (of_nat (length s))
    \<and> strcmp m a b = Some (if s = t then 0 else if s < t then - 1 else 1)
    \<and> strncmp m a b n = (if s = t then 0 else if s < t then - 1 else 1)"
  using assms strlen_loop_eq [OF assms(1), of 0] strcmp_eq [OF assms(1,2)] strncmp_eq [OF assms(1,2), of n]
  by (simp add: strlen_def list_sign_def min_less_iff_disj)

theorem strings_exact_witness:
  "strcmp (\<lambda>a. if a = 8 then 65 else 0) 8 9 = Some 1 \<and> strlen (\<lambda>a. if a = 8 then 65 else 0) 8 = Some 1"
  using strings_exact [of "\<lambda>a. if a = 8 then 65 else 0" 8 "[65]" 9 "[]" 1] by simp

section \<open>Powers of two\<close>

lemma bit_length_bounds: "n \<noteq> 0 \<Longrightarrow> 2 ^ (bit_length n - 1) \<le> n \<and> n < 2 ^ bit_length n \<and> 0 < bit_length n"
proof (induction n rule: bit_length.induct)
  case (1 n)
  show ?case
  proof (cases "n div 2 = 0")
    case True
    with 1 have "n = 1" by auto
    then show ?thesis by (simp add: bit_length.simps)
  next
    case False
    have IH: "2 ^ (bit_length (n div 2) - 1) \<le> n div 2" "n div 2 < 2 ^ bit_length (n div 2)" "0 < bit_length (n div 2)"
      using 1 False by auto
    have step: "bit_length n = Suc (bit_length (n div 2))" using 1(2) by (subst bit_length.simps) simp
    obtain k where k: "bit_length (n div 2) = Suc k" using IH(3) by (cases "bit_length (n div 2)") auto
    show ?thesis using IH(1,2) by (simp add: step k) linarith
  qed
qed

lemma unat_pow2: "k < 64 \<Longrightarrow> unat (2 ^ k :: 64 word) = 2 ^ k"
proof -
  assume "k < 64"
  then have "(2 :: nat) ^ k < 2 ^ 64" by (rule power_strict_increasing) simp
  from unat_of_nat_small [OF this] show ?thesis by simp
qed

lemma bit_length_le: "n < 2 ^ k \<Longrightarrow> bit_length n \<le> k"
proof (cases "n = 0")
  case False
  assume "n < 2 ^ k"
  with bit_length_bounds [OF False] have "(2 :: nat) ^ (bit_length n - 1) < 2 ^ k" by (meson le_less_trans)
  then have "bit_length n - 1 < k" by simp
  then show ?thesis by simp
qed (simp add: bit_length.simps)

text \<open>
  \<open>round_down_pow2\<close> returns the largest power of two that is not above its argument,
  and \<open>round_up_pow2\<close>, up to \<open>2 ^ 63\<close>, the smallest that is not below it.
\<close>

theorem round_pow2_exact:
  assumes "x \<noteq> 0"
  shows "(\<exists>k < 64. unat (round_down_pow2 x) = 2 ^ k \<and> 2 ^ k \<le> unat x \<and> unat x < 2 ^ Suc k)
    \<and> (unat x \<le> 2 ^ 63 \<longrightarrow>
        (\<exists>k < 64. unat (round_up_pow2 x) = 2 ^ k \<and> unat x \<le> 2 ^ k \<and> (k = 0 \<or> 2 ^ (k - 1) < unat x)))"
proof (intro conjI impI)
  have x: "unat x \<noteq> 0" using assms by (simp add: unat_eq_0)
  have le: "bit_length (unat x) \<le> 64" using unat_bound64 by (rule bit_length_le)
  let ?k = "bit_length (unat x) - 1"
  have "?k < 64" "unat (round_down_pow2 x) = 2 ^ ?k" "2 ^ ?k \<le> unat x" "unat x < 2 ^ Suc ?k"
    using bit_length_bounds [OF x] le assms by (simp_all add: round_down_pow2_def msb64_def unat_pow2)
  then show "\<exists>k < 64. unat (round_down_pow2 x) = 2 ^ k \<and> 2 ^ k \<le> unat x \<and> unat x < 2 ^ Suc k" by blast
  assume half: "unat x \<le> 2 ^ 63"
  let ?l = "bit_length (unat x - 1)"
  have pred: "unat (x - 1) = unat x - 1" using assms by (simp add: unat_minus_one)
  have l: "?l \<le> 63" using half x by (intro bit_length_le) simp
  then have "unat (round_up_pow2 x) = 2 ^ ?l" using assms by (simp add: round_up_pow2_def msb64_def pred unat_pow2)
  moreover have "unat x \<le> 2 ^ ?l \<and> (?l = 0 \<or> 2 ^ (?l - 1) < unat x)"
  proof (cases "unat x - 1 = 0")
    case True
    then show ?thesis using x by (simp add: bit_length.simps)
  next
    case False
    with bit_length_bounds [OF False] show ?thesis by linarith
  qed
  ultimately show "\<exists>k < 64. unat (round_up_pow2 x) = 2 ^ k \<and> unat x \<le> 2 ^ k \<and> (k = 0 \<or> 2 ^ (k - 1) < unat x)"
    using l by (intro exI [of _ ?l]) auto
qed

theorem round_pow2_exact_witness: "\<exists>k < 64. unat (round_up_pow2 0x1FABC) = 2 ^ k \<and> unat (0x1FABC :: 64 word) \<le> 2 ^ k"
  using round_pow2_exact [of "0x1FABC"] by auto

end
