(* ===== verification/Numbers.thy ===== *)
theory Numbers
  imports CLib
begin

text \<open>
  Printing and parsing of numbers in the operating system's C library (\<open>weensyos/lib.cc\<close>):
  \<open>fill_numbuf\<close>, \<open>strtoul\<close> and \<open>strtol\<close>. A pointer into a string is the rest of the
  string; reading its end gives the zero byte.
\<close>

section \<open>Definitions\<close>

definition NUMBUFSIZ :: nat where
  "NUMBUFSIZ = 24"

text \<open>
  The digits are written backwards from the end of the buffer, in front of a zero byte; \<open>room\<close>
  is what is left of the buffer.
\<close>

fun numbuf_loop :: "nat \<Rightarrow> 64 word \<Rightarrow> 64 word \<Rightarrow> string \<Rightarrow> string \<Rightarrow> string cpp" where
  "numbuf_loop 0 val base digits acc = Inl OutOfBounds"
| "numbuf_loop (Suc room) val base digits acc =
     bindE (at digits (unat (val mod base))) (\<lambda>d.
       let acc = d # acc; val = val div base in
       if val \<noteq> 0 then numbuf_loop room val base digits acc else Inr acc)"

definition fill_numbuf :: "nat \<Rightarrow> 64 word \<Rightarrow> int \<Rightarrow> string cpp" where
  "fill_numbuf bufsize val base =
     (let (digits, base) = (if base < 0 then (''0123456789abcdef'', - base) else (''0123456789ABCDEF'', base))
      in numbuf_loop (bufsize - 1) val (of_int base) digits [])"

definition peek :: "string \<Rightarrow> nat \<Rightarrow> char" where
  "peek s i = (if i < length s then s ! i else CHR 0x00)"

definition c_isspace :: "char \<Rightarrow> bool" where
  "c_isspace c \<longleftrightarrow> (9 \<le> byte_of c \<and> byte_of c \<le> 13) \<or> c = CHR '' ''"

text \<open>A \<open>char\<close> is signed.\<close>

definition sbyte :: "char \<Rightarrow> int" where
  "sbyte c = (if byte_of c < 128 then int (byte_of c) else int (byte_of c) - 256)"

definition digit_of :: "int \<Rightarrow> char \<Rightarrow> nat option" where
  "digit_of base c =
     (if 48 \<le> sbyte c \<and> sbyte c < 48 + base then Some (nat (sbyte c - 48))
      else if base > 10 \<and> 97 \<le> sbyte c \<and> sbyte c < 97 + base - 10 then Some (nat (sbyte c - 97 + 10))
      else if base > 10 \<and> 65 \<le> sbyte c \<and> sbyte c < 65 + base - 10 then Some (nat (sbyte c - 65 + 10))
      else None)"

fun strtoul_loop :: "int \<Rightarrow> string \<Rightarrow> 64 word \<Rightarrow> bool \<Rightarrow> 64 word \<times> bool \<times> string" where
  "strtoul_loop base [] x overflow = (x, overflow, [])"
| "strtoul_loop base (c # s) x overflow =
     (case digit_of base c of
        None \<Rightarrow> (x, overflow, c # s)
      | Some digit \<Rightarrow>
          if x > (- 1 - of_nat digit) div of_int base then strtoul_loop base s x True
          else strtoul_loop base s (x * of_int base + of_nat digit) overflow)"

definition hex_prefix :: "string \<Rightarrow> bool" where
  "hex_prefix s \<longleftrightarrow> peek s 0 = CHR ''0'' \<and> (peek s 1 = CHR ''x'' \<or> peek s 1 = CHR ''X'')"

definition strtoul :: "string \<Rightarrow> int \<Rightarrow> 64 word \<times> string" where
  "strtoul s base =
     (let s = dropWhile c_isspace s;
          negative = (peek s 0 = CHR ''-'');
          s = (if negative \<or> peek s 0 = CHR ''+'' then drop 1 s else s);
          (base, s) =
            (if base = 0 then
               if hex_prefix s then (16, drop 2 s) else if peek s 0 = CHR ''0'' then (8, s) else (10, s)
             else if base = 16 \<and> hex_prefix s then (base, drop 2 s) else (base, s));
          (x, overflow, s) = strtoul_loop base s 0 False;
          x = (if overflow then - 1 else x);
          x = (if negative then - x else x)
      in (x, s))"

definition strtol :: "string \<Rightarrow> int \<Rightarrow> 64 word \<times> string" where
  "strtol s base =
     (let s = dropWhile c_isspace s;
          negative = (peek s 0 = CHR ''-'');
          s = (if negative then drop 1 s else s);
          (u, s) = strtoul s base;
          bound = 2 ^ 63 - of_bool (\<not> negative);
          u = (if u > bound then bound else u);
          u = (if negative then - u else u)
      in (u, s))"

section \<open>Digits\<close>

text \<open>The value of a sequence of digits.\<close>

definition digits_val :: "nat \<Rightarrow> nat list \<Rightarrow> nat" where
  "digits_val b ds = foldl (\<lambda>n d. n * b + d) 0 ds"

lemma foldl_digits_mono: "b \<noteq> 0 \<Longrightarrow> (n :: nat) \<le> foldl (\<lambda>n d. n * b + d) n ds"
proof (induction ds arbitrary: n)
  case (Cons d ds)
  have "n * 1 \<le> n * b" using Cons.prems by (intro mult_le_mono) auto
  then have "n \<le> n * b + d" by linarith
  also have "\<dots> \<le> foldl (\<lambda>n d. n * b + d) (n * b + d) ds" using Cons by blast
  finally show ?case by simp
qed simp

lemma overflow_iff:
  fixes x :: "64 word"
  assumes "0 < b" and "b \<le> 36" and "d < b"
  shows "x > (- 1 - of_nat d) div of_int (int b) \<longleftrightarrow> 2 ^ 64 \<le> unat x * b + d"
proof -
  have bw: "unat (of_int (int b) :: 64 word) = b" using assms(2) by (simp add: unat_of_nat_small)
  have "unat (- 1 :: 64 word) = 2 ^ 64 - 1" by (simp add: unsigned_minus_1_eq_mask mask_eq_exp_minus_1)
  moreover have "unat (of_nat d :: 64 word) = d" using assms by (simp add: unat_of_nat_small)
  ultimately have "unat (- 1 - of_nat d :: 64 word) = 2 ^ 64 - 1 - d"
    using assms by (simp add: unat_sub word_le_nat_alt)
  then have "unat ((- 1 - of_nat d) div of_int (int b) :: 64 word) = (2 ^ 64 - 1 - d) div b"
    by (simp only: unat_div bw)
  then have "x > (- 1 - of_nat d) div of_int (int b) \<longleftrightarrow> (2 ^ 64 - 1 - d) div b < unat x"
    by (simp only: word_less_nat_alt)
  also have "\<dots> \<longleftrightarrow> 2 ^ 64 - 1 - d < unat x * b" using assms(1) by (simp add: div_less_iff_less_mult)
  also have "\<dots> \<longleftrightarrow> 2 ^ 64 \<le> unat x * b + d" using assms by auto
  finally show ?thesis .
qed

lemma strtoul_loop_digits:
  assumes "2 \<le> b" and "b \<le> 36" and "rest = [] \<or> digit_of (int b) (hd rest) = None"
  shows "map (digit_of (int b)) cs = map Some ds \<Longrightarrow> \<forall>d \<in> set ds. d < b \<Longrightarrow>
    \<exists>y. strtoul_loop (int b) (cs @ rest) x ov =
      (y, ov \<or> 2 ^ 64 \<le> foldl (\<lambda>n d. n * b + d) (unat x) ds, rest)
      \<and> (\<not> ov \<and> foldl (\<lambda>n d. n * b + d) (unat x) ds < 2 ^ 64 \<longrightarrow>
           y = of_nat (foldl (\<lambda>n d. n * b + d) (unat x) ds))"
proof (induction cs arbitrary: x ov ds)
  case Nil
  then show ?case using assms(3) unat_bound64 [of x] by (cases rest) auto
next
  case (Cons c cs)
  then obtain d ds' where ds: "ds = d # ds'" "digit_of (int b) c = Some d" "map (digit_of (int b)) cs = map Some ds'"
    "d < b" "\<forall>d \<in> set ds'. d < b"
    by (cases ds) auto
  note ov = overflow_iff [of b d x]
  show ?case
  proof (cases "2 ^ 64 \<le> unat x * b + d")
    case True
    then have "x > (- 1 - of_nat d) div of_int (int b)" using ov assms(1,2) ds(4) by simp
    moreover have "2 ^ 64 \<le> foldl (\<lambda>n d. n * b + d) (unat x * b + d) ds'"
      using foldl_digits_mono [of b "unat x * b + d" ds'] assms(1) True by linarith
    ultimately show ?thesis using Cons.IH [OF ds(3,5), of x True] ds(1,2) by auto
  next
    case False
    then have "\<not> x > (- 1 - of_nat d) div of_int (int b)" using ov assms(1,2) ds(4) by simp
    moreover have "unat (x * of_int (int b) + of_nat d) = unat x * b + d"
    proof -
      have "x * of_int (int b) + of_nat d = of_nat (unat x * b + d)" by simp
      then show ?thesis using False unat_of_nat_small [of "unat x * b + d"] by (simp only: not_le)
    qed
    ultimately show ?thesis
      using Cons.IH [OF ds(3,5), of "x * of_int (int b) + of_nat d" ov] ds(1,2) by simp
  qed
qed

section \<open>Parsing what was printed\<close>

lemma hex_digits:
  "list_all (\<lambda>d. digit_of 16 (''0123456789abcdef'' ! d) = Some d) [0..<16]"
  "list_all (\<lambda>d. digit_of 16 (''0123456789ABCDEF'' ! d) = Some d) [0..<16]"
  "list_all (\<lambda>d. digit_of 10 (''0123456789ABCDEF'' ! d) = Some d) [0..<10]"
  by code_simp+

text \<open>The three alphabets and bases the printer uses.\<close>

definition numbase :: "int \<Rightarrow> nat" where
  "numbase base = nat (abs base)"

definition alphabet :: "int \<Rightarrow> string" where
  "alphabet base = (if base < 0 then ''0123456789abcdef'' else ''0123456789ABCDEF'')"

lemma digit_of_alphabet:
  assumes "base \<in> {10, 16, - 16}" and "d < numbase base"
  shows "digit_of (int (numbase base)) (alphabet base ! d) = Some d" and "d < length (alphabet base)"
  using assms hex_digits by (auto simp: numbase_def alphabet_def list_all_iff)

lemma digits_val_snoc: "digits_val b (ds @ [d]) = digits_val b ds * b + d"
  by (simp add: digits_val_def)

lemma numbuf_loop_digits:
  assumes base: "base \<in> {10, 16, - 16}"
  shows "unat val < numbase base ^ Suc room \<Longrightarrow>
    \<exists>ds. numbuf_loop (Suc room) val (of_int (int (numbase base))) (alphabet base) acc = Inr (map ((!) (alphabet base)) ds @ acc)
      \<and> ds \<noteq> [] \<and> length ds \<le> Suc room \<and> (\<forall>d \<in> set ds. d < numbase base) \<and> digits_val (numbase base) ds = unat val"
proof (induction room arbitrary: val acc)
  case 0
  have b: "unat (of_int (int (numbase base)) :: 64 word) = numbase base" using base by (auto simp: numbase_def)
  have m: "unat (val mod of_int (int (numbase base))) = unat val mod numbase base"
    and q: "unat (val div of_int (int (numbase base))) = unat val div numbase base"
    by (simp_all only: unat_mod unat_div b)
  have lt: "unat val < numbase base" using 0 by simp
  then have "val div of_int (int (numbase base)) = 0" using q by (simp add: unat_eq_0 [symmetric])
  then show ?case using lt digit_of_alphabet(2) [OF base lt] m
    by (intro exI [of _ "[unat val]"]) (simp add: digits_val_def)
next
  case (Suc room)
  let ?b = "numbase base" and ?q = "val div of_int (int (numbase base))"
  have b: "unat (of_int (int ?b) :: 64 word) = ?b" and bp: "0 < ?b" using base by (auto simp: numbase_def)
  have m: "unat (val mod of_int (int ?b)) = unat val mod ?b" and q: "unat ?q = unat val div ?b"
    by (simp_all only: unat_mod unat_div b)
  have d: "unat val mod ?b < ?b" using bp by simp
  show ?case
  proof (cases "?q = 0")
    case True
    then have "unat val div ?b = 0" using q by simp
    then have "unat val mod ?b = unat val" using bp by (metis div_eq_0_iff mod_less not_less_zero)
    then show ?thesis using True digit_of_alphabet(2) [OF base d] m d
      by (intro exI [of _ "[unat val]"]) (simp add: digits_val_def)
  next
    case False
    have "unat ?q < ?b ^ Suc room" using Suc.prems q bp by (simp add: div_less_iff_less_mult mult.commute)
    from Suc.IH [OF this, of "alphabet base ! (unat val mod ?b) # acc"] obtain ds where
      ds: "numbuf_loop (Suc room) ?q (of_int (int ?b)) (alphabet base) (alphabet base ! (unat val mod ?b) # acc)
        = Inr (map ((!) (alphabet base)) ds @ alphabet base ! (unat val mod ?b) # acc)"
      "ds \<noteq> []" "length ds \<le> Suc room" "\<forall>d \<in> set ds. d < ?b" "digits_val ?b ds = unat ?q" by blast
    have "digits_val ?b (ds @ [unat val mod ?b]) = unat val" using ds(5) q by (simp add: digits_val_snoc)
    then show ?thesis using ds(1-4) False digit_of_alphabet(2) [OF base d] m d
      by (intro exI [of _ "ds @ [unat val mod ?b]"]) simp
  qed
qed

lemma fill_numbuf_digits:
  assumes base: "base \<in> {10, 16, - 16}"
  shows "\<exists>ds. fill_numbuf NUMBUFSIZ val base = Inr (map ((!) (alphabet base)) ds) \<and> ds \<noteq> [] \<and> length ds \<le> 20
    \<and> (\<forall>d \<in> set ds. d < numbase base) \<and> digits_val (numbase base) ds = unat val"
proof -
  have "unat val < 10 ^ 20" using unat_bound64 [of val] by simp
  also have "(10 :: nat) ^ 20 \<le> numbase base ^ 20" using base by (intro power_mono) (auto simp: numbase_def)
  finally have "unat val < numbase base ^ Suc 19" by simp
  from numbuf_loop_digits [OF base this, of "[]"] obtain ds where
    ds: "numbuf_loop 20 val (of_int (int (numbase base))) (alphabet base) [] = Inr (map ((!) (alphabet base)) ds)"
      "ds \<noteq> []" "length ds \<le> 20" "\<forall>d \<in> set ds. d < numbase base" "digits_val (numbase base) ds = unat val"
    by auto
  have more: "numbuf_loop r v bb al acc = Inr y \<Longrightarrow> numbuf_loop (r + k) v bb al acc = Inr y" for r k v bb al acc y
    by (induction r v bb al acc arbitrary: y rule: numbuf_loop.induct) (auto simp: bindE_Inr_iff Let_def split: if_splits)
  have "numbuf_loop 23 val (of_int (int (numbase base))) (alphabet base) [] = Inr (map ((!) (alphabet base)) ds)"
    using more [OF ds(1), of 3] by simp
  moreover have "fill_numbuf NUMBUFSIZ val base = numbuf_loop 23 val (of_int (int (numbase base))) (alphabet base) []"
    using base by (auto simp: fill_numbuf_def NUMBUFSIZ_def numbase_def alphabet_def)
  ultimately show ?thesis using ds(2-5) by auto
qed

lemma digit_chars:
  "list_all (\<lambda>d. \<not> c_isspace (''0123456789abcdef'' ! d) \<and> ''0123456789abcdef'' ! d \<notin> {CHR ''-'', CHR ''+'', CHR ''x'', CHR ''X''}) [0..<16]"
  "list_all (\<lambda>d. \<not> c_isspace (''0123456789ABCDEF'' ! d) \<and> ''0123456789ABCDEF'' ! d \<notin> {CHR ''-'', CHR ''+'', CHR ''x'', CHR ''X''}) [0..<16]"
  by code_simp+

lemma strtoul_digits:
  assumes base: "base \<in> {10, 16, - 16}" and ds: "ds \<noteq> []" "\<forall>d \<in> set ds. d < numbase base"
    and rest: "rest = [] \<or> digit_of (int (numbase base)) (hd rest) = None \<and> hd rest \<notin> {CHR ''x'', CHR ''X''}"
  shows "strtoul (map ((!) (alphabet base)) ds @ rest) (int (numbase base))
    = (if digits_val (numbase base) ds < 2 ^ 64 then of_nat (digits_val (numbase base) ds) else - 1, rest)"
proof -
  let ?cs = "map ((!) (alphabet base)) ds" and ?b = "numbase base"
  have b: "2 \<le> ?b" "?b \<le> 36" "?b \<noteq> 0" using base by (auto simp: numbase_def)
  have ch: "\<not> c_isspace c \<and> c \<notin> {CHR ''-'', CHR ''+'', CHR ''x'', CHR ''X''}" if mem: "c \<in> set ?cs" for c
  proof -
    obtain d where "c = alphabet base ! d" "d < ?b" using mem ds(2) by auto
    then show ?thesis using base digit_chars by (auto simp: alphabet_def numbase_def list_all_iff)
  qed
  obtain c cs where cs: "?cs = c # cs" using ds(1) by (cases ds) auto
  have s: "dropWhile c_isspace (?cs @ rest) = ?cs @ rest" "peek (?cs @ rest) 0 \<notin> {CHR ''-'', CHR ''+''}"
    using ch [of c] by (auto simp: cs peek_def)
  have "peek (?cs @ rest) 1 \<notin> {CHR ''x'', CHR ''X''}"
  proof (cases cs)
    case Nil
    then show ?thesis using rest by (cases rest) (auto simp: cs peek_def)
  next
    case (Cons e es)
    then show ?thesis using ch [of e] by (auto simp: cs peek_def)
  qed
  then have hex: "\<not> hex_prefix (?cs @ rest)" by (auto simp: hex_prefix_def)
  have "map (digit_of (int ?b)) ?cs = map Some ds"
    using digit_of_alphabet(1) [OF base] ds(2) by simp
  then obtain y where "strtoul_loop (int ?b) (?cs @ rest) 0 False = (y, 2 ^ 64 \<le> digits_val ?b ds, rest)"
    "digits_val ?b ds < 2 ^ 64 \<longrightarrow> y = of_nat (digits_val ?b ds)"
    using strtoul_loop_digits [OF b(1,2), of rest ?cs ds 0 False] rest ds(2) by (auto simp: digits_val_def)
  then show ?thesis using s hex b(3) by (simp add: strtoul_def Let_def del: map_append)
qed

text \<open>
  Numbers survive printing and parsing. For every 64-bit value and each of the
  printer's three bases the number fits the buffer of \<open>NUMBUFSIZ\<close> bytes, and \<open>strtoul\<close>
  gives the value back with nothing left over.
\<close>

theorem number_roundtrip:
  assumes "base \<in> {10, 16, - 16}"
  shows "\<exists>s. fill_numbuf NUMBUFSIZ val base = Inr s \<and> length s \<le> 20 \<and> strtoul s \<bar>base\<bar> = (val, [])"
proof -
  obtain ds where ds: "fill_numbuf NUMBUFSIZ val base = Inr (map ((!) (alphabet base)) ds)" "ds \<noteq> []" "length ds \<le> 20"
    "\<forall>d \<in> set ds. d < numbase base" "digits_val (numbase base) ds = unat val"
    using fill_numbuf_digits [OF assms, of val] by blast
  have "int (numbase base) = \<bar>base\<bar>" by (simp add: numbase_def)
  with strtoul_digits [OF assms ds(2,4), of "[]"] ds(5) have "strtoul (map ((!) (alphabet base)) ds) \<bar>base\<bar> = (val, [])"
    using unat_bound64 [of val] by simp
  with ds(1,3) show ?thesis by auto
qed

theorem number_roundtrip_witness: "\<exists>s. fill_numbuf NUMBUFSIZ 255 (- 16) = Inr s \<and> strtoul s 16 = (255, [])"
  using number_roundtrip [of "- 16" 255] by auto

text \<open>The sign and the clamping of \<open>strtol\<close> on decimal digits.\<close>

definition dec_string :: "nat list \<Rightarrow> string" where
  "dec_string ds = map ((!) ''0123456789'') ds"

lemma dec_string_alphabet:
  "list_all (\<lambda>d. ''0123456789'' ! d = ''0123456789ABCDEF'' ! d) [0..<10]"
  by code_simp

lemma strtoul_dec:
  assumes "ds \<noteq> []" and "\<forall>d \<in> set ds. d < 10"
  shows "strtoul (dec_string ds) 10 = (if digits_val 10 ds < 2 ^ 64 then of_nat (digits_val 10 ds) else - 1, [])"
proof -
  have "dec_string ds = map ((!) (alphabet 10)) ds"
    using assms(2) dec_string_alphabet by (auto simp: dec_string_def alphabet_def list_all_iff)
  then show ?thesis using strtoul_digits [of 10 ds "[]"] assms by (simp add: numbase_def)
qed

lemma dec_string_head:
  assumes "ds \<noteq> []" and "\<forall>d \<in> set ds. d < 10"
  shows "dropWhile c_isspace (dec_string ds) = dec_string ds" and "peek (dec_string ds) 0 \<noteq> CHR ''-''"
proof -
  obtain d ds' where ds: "ds = d # ds'" "d < 10" using assms by (cases ds) auto
  have "''0123456789'' ! d = ''0123456789ABCDEF'' ! d" using dec_string_alphabet ds(2) by (auto simp: list_all_iff)
  then have "\<not> c_isspace (''0123456789'' ! d)" "''0123456789'' ! d \<noteq> CHR ''-''"
    using digit_chars(2) ds(2) by (auto simp: list_all_iff)
  then show "dropWhile c_isspace (dec_string ds) = dec_string ds" "peek (dec_string ds) 0 \<noteq> CHR ''-''"
    using ds(1) by (auto simp: dec_string_def peek_def)
qed

lemma sint_of_nat_small: "n < 2 ^ 63 \<Longrightarrow> sint (of_nat n :: 64 word) = int n"
  using sint_sbintrunc' [of "int n", where ?'a = 64] by (simp add: signed_take_bit_int_eq_self)

lemma sint_minus_of_nat: "n \<le> 2 ^ 63 \<Longrightarrow> sint (- of_nat n :: 64 word) = - int n"
  using sint_sbintrunc' [of "- int n", where ?'a = 64] by (simp add: signed_take_bit_int_eq_self)

lemma clamp_word:
  fixes u :: "64 word"
  assumes "u = (if n < 2 ^ 64 then of_nat n else - 1)" and "b \<le> 2 ^ 63"
  shows "(if u > of_nat b then of_nat b else u) = of_nat (min n b)"
proof -
  have b: "unat (of_nat b :: 64 word) = b" using assms(2) by (simp add: unat_of_nat_small)
  have "unat u = min n (2 ^ 64 - 1)"
    using assms(1) by (auto simp: unat_of_nat_small unsigned_minus_1_eq_mask mask_eq_exp_minus_1)
  then have "u > of_nat b \<longleftrightarrow> n > b" unfolding word_less_nat_alt b using assms(2) by auto
  moreover have "n \<le> b \<Longrightarrow> u = of_nat n" using assms by simp
  ultimately show ?thesis by (auto simp: min_def)
qed

lemma strtol_clamped:
  assumes ds: "ds \<noteq> []" "\<forall>d \<in> set ds. d < 10"
  shows "map_prod sint id (strtol (dec_string ds) 10) = (min (int (digits_val 10 ds)) (2 ^ 63 - 1), []) \<and>
    map_prod sint id (strtol (CHR ''-'' # dec_string ds) 10) = (max (- int (digits_val 10 ds)) (- (2 ^ 63)), [])"
proof -
  let ?n = "digits_val 10 ds"
  obtain u where u: "strtoul (dec_string ds) 10 = (u, [])" "u = (if ?n < 2 ^ 64 then of_nat ?n else - 1)"
    using strtoul_dec [OF ds] by blast
  have "strtol (dec_string ds) 10 = (of_nat (min ?n (2 ^ 63 - 1)), [])"
    using clamp_word [OF u(2), of 9223372036854775807] dec_string_head [OF ds] by (auto simp: strtol_def u(1) split: if_splits)
  moreover have "strtol (CHR ''-'' # dec_string ds) 10 = (- of_nat (min ?n (2 ^ 63)), [])"
    using clamp_word [OF u(2), of 9223372036854775808] by (auto split: if_splits simp: strtol_def u(1) peek_def c_isspace_def)
  moreover have "sint (of_nat (min ?n (2 ^ 63 - 1)) :: 64 word) = min (int ?n) (2 ^ 63 - 1)"
    by (subst sint_of_nat_small) (auto simp: min_def)
  moreover have "sint (- of_nat (min ?n (2 ^ 63)) :: 64 word) = max (- int ?n) (- (2 ^ 63))"
    by (subst sint_minus_of_nat) (auto simp: min_def max_def)
  ultimately show ?thesis by (simp del: of_nat_min)
qed

text \<open>
  \<open>strtol\<close> on decimal digits gives their value clamped to the range of \<open>long\<close>: at
  most $2^{63} - 1$, and at least $-2^{63}$ after a minus sign.
\<close>

theorem strtol_saturates:
  assumes ds: "ds \<noteq> []" "\<forall>d \<in> set ds. d < 10"
  shows "map_prod sint id (strtol (dec_string ds) 10) = (min (int (digits_val 10 ds)) (2 ^ 63 - 1), []) \<and>
    map_prod sint id (strtol (CHR ''-'' # dec_string ds) 10) = (max (- int (digits_val 10 ds)) (- (2 ^ 63)), [])"
  using strtol_clamped [OF ds] .

theorem strtol_saturates_witness:
  "map_prod sint id (strtol (CHR ''-'' # dec_string [4, 2]) 10) = (max (- int (digits_val 10 [4, 2])) (- (2 ^ 63)), [])"
  using strtol_saturates [of "[4, 2]"] by auto

lemma digit_of_dec: "digit_of 10 CHR ''5'' = Some 5" "digit_of 10 CHR ''9'' = Some 9"
  by code_simp+

text \<open>
  Two things \<open>strtol\<close> accepts that the C standard does not. Both \<open>strtol\<close> and the
  \<open>strtoul\<close> it calls consume a sign, so \<open>--5\<close> parses as the clamped value of a huge
  unsigned number instead of stopping at the second sign; and \<open>strtoul\<close> negates the
  overflow value, giving 1 for a huge number behind a minus sign.
\<close>

theorem number_sign_quirks:
  "strtol ''--5'' 10 = (of_nat (2 ^ 63), []) \<and> strtoul ''-99999999999999999999'' 10 = (1, [])"
  by (simp add: strtol_def strtoul_def peek_def c_isspace_def digit_of_dec hex_prefix_def)

end
