(* ===== verification/Printf.thy ===== *)
theory Printf
  imports Numbers
begin

unbundle bit_operations_syntax

text \<open>
  The formatted printer of the operating system's C library (\<open>weensyos/lib.cc\<close>):
  \<open>printer::vprintf\<close>, and the printer into a sized buffer behind \<open>vsnprintf\<close> and
  \<open>snprintf\<close>. The output of \<open>vprintf\<close> is the sequence of its calls of the virtual \<open>putc\<close>,
  which never acts back on the formatting.

  The arguments behind the ellipsis are a list of typed values; \<open>va_arg\<close> at a wider type or past
  the end is undefined, and so is the overflow of an \<open>int\<close>.
\<close>

section \<open>Definitions\<close>

datatype va = VInt "32 word" | VLong "64 word" | VPtr addr | VStr string

type_synonym va_list = "va list"
type_synonym putc_call = "char \<times> int"

text \<open>
  The kernel and its processes run on x86-64 only, where every integer or pointer argument takes
  one 8-byte slot: reading an \<open>int\<close> from the slot of a \<open>long\<close> or pointer gives its low half,
  and a \<open>long\<close> and a pointer read alike.
\<close>

fun va_slot :: "va \<Rightarrow> 64 word option" where
  "va_slot (VLong w) = Some w"
| "va_slot (VPtr w) = Some w"
| "va_slot _ = None"

definition va_half :: "va_list \<Rightarrow> (32 word \<times> va_list) cpp" where
  "va_half val =
     (case val of
        [] \<Rightarrow> Inl Undefined
      | VInt w # val \<Rightarrow> Inr (w, val)
      | v # val \<Rightarrow> (case va_slot v of Some w \<Rightarrow> Inr (ucast w, val) | None \<Rightarrow> Inl Undefined))"

definition va_int :: "va_list \<Rightarrow> (int \<times> va_list) cpp" where
  "va_int val = bindE (va_half val) (\<lambda>(w, val). Inr (sint w, val))"

definition va_unsigned :: "va_list \<Rightarrow> (64 word \<times> va_list) cpp" where
  "va_unsigned val = bindE (va_half val) (\<lambda>(w, val). Inr (ucast w, val))"

definition va_long :: "va_list \<Rightarrow> (64 word \<times> va_list) cpp" where
  "va_long val =
     (case val of
        [] \<Rightarrow> Inl Undefined
      | v # val \<Rightarrow> (case va_slot v of Some w \<Rightarrow> Inr (w, val) | None \<Rightarrow> Inl Undefined))"

definition va_ptr :: "va_list \<Rightarrow> (64 word \<times> va_list) cpp" where
  "va_ptr val = va_long val"

text \<open>A string argument reads as its bytes in front of the terminating zero.\<close>

fun va_str :: "va_list \<Rightarrow> (string \<times> va_list) cpp" where
  "va_str (VStr s # val) = Inr (takeWhile (\<lambda>c. c \<noteq> CHR 0x00) s, val)"
| "va_str val = Inl Undefined"

definition int32_ok :: "int \<Rightarrow> bool" where
  "int32_ok n \<longleftrightarrow> - (2 ^ 31) \<le> n \<and> n < 2 ^ 31"

definition wrap32 :: "int \<Rightarrow> int" where
  "wrap32 n = sint (word_of_int n :: 32 word)"

text \<open>The flags are the bits of an \<open>int\<close>; the constants are the bit numbers.\<close>

definition FLAG_ALT :: nat where "FLAG_ALT = 0"
definition FLAG_ZERO :: nat where "FLAG_ZERO = 1"
definition FLAG_LEFTJUSTIFY :: nat where "FLAG_LEFTJUSTIFY = 2"
definition FLAG_SPACEPOSITIVE :: nat where "FLAG_SPACEPOSITIVE = 3"
definition FLAG_PLUSPOSITIVE :: nat where "FLAG_PLUSPOSITIVE = 4"
definition FLAG_NUMERIC :: nat where "FLAG_NUMERIC = 5"
definition FLAG_SIGNED :: nat where "FLAG_SIGNED = 6"
definition FLAG_NEGATIVE :: nat where "FLAG_NEGATIVE = 7"
definition FLAG_ALT2 :: nat where "FLAG_ALT2 = 8"

definition flag_chars :: string where
  "flag_chars = ''#0- +''"

fun index_of :: "char \<Rightarrow> string \<Rightarrow> nat option" where
  "index_of c [] = None"
| "index_of c (d # s) = (if c = d then Some 0 else map_option Suc (index_of c s))"

fun parse_flags :: "string \<Rightarrow> 32 word \<Rightarrow> 32 word \<times> string" where
  "parse_flags [] flags = (flags, [])"
| "parse_flags (c # format) flags =
     (case index_of c flag_chars of
        Some i \<Rightarrow> parse_flags format (set_bit i flags)
      | None \<Rightarrow> (flags, c # format))"

definition is_dec :: "char \<Rightarrow> bool" where
  "is_dec c \<longleftrightarrow> 48 \<le> byte_of c \<and> byte_of c \<le> 57"

text \<open>In \<open>10 * width + *format++ - '0'\<close> the sum before the subtraction is the largest value.\<close>

fun parse_num :: "int \<Rightarrow> string \<Rightarrow> (int \<times> string) cpp" where
  "parse_num n [] = Inr (n, [])"
| "parse_num n (c # format) =
     (if is_dec c then
        if int32_ok (10 * n + int (byte_of c)) then parse_num (10 * n + int (byte_of c) - 48) format else Inl Undefined
      else Inr (n, c # format))"

definition parse_width :: "string \<Rightarrow> va_list \<Rightarrow> (int \<times> string \<times> va_list) cpp" where
  "parse_width format val =
     (if is_dec (peek format 0) \<and> peek format 0 \<noteq> CHR ''0'' then
        bindE (parse_num 0 format) (\<lambda>(width, format). Inr (width, format, val))
      else if peek format 0 = CHR ''*'' then
        bindE (va_int val) (\<lambda>(width, val). Inr (width, drop 1 format, val))
      else Inr (- 1, format, val))"

definition parse_precision :: "string \<Rightarrow> va_list \<Rightarrow> (int \<times> string \<times> va_list) cpp" where
  "parse_precision format val =
     (if peek format 0 = CHR ''.'' then
        let format = drop 1 format in
        bindE (if is_dec (peek format 0) then
                 bindE (parse_num 0 format) (\<lambda>(precision, format). Inr (precision, format, val))
               else if peek format 0 = CHR ''*'' then
                 bindE (va_int val) (\<lambda>(precision, val). Inr (precision, drop 1 format, val))
               else Inr (- 1, format, val))
          (\<lambda>(precision, format, val). Inr (if precision < 0 then 0 else precision, format, val))
      else Inr (- 1, format, val))"

definition parse_length :: "string \<Rightarrow> bool \<times> string" where
  "parse_length format =
     (if peek format 0 \<in> {CHR ''l'', CHR ''t'', CHR ''z''} then (True, drop 1 format)
      else if peek format 0 = CHR ''h'' then (False, drop 1 format)
      else (False, format))"

text \<open>The main conversion character: a new colour, or a field to print.\<close>

datatype conversion = Color int | Field "32 word" int "64 word" string

definition format_unsigned :: "bool \<Rightarrow> int \<Rightarrow> 32 word \<Rightarrow> va_list \<Rightarrow> (conversion \<times> va_list) cpp" where
  "format_unsigned lng base flags val =
     bindE (if lng then va_long val else va_unsigned val) (\<lambda>(num, val).
     Inr (Field (set_bit FLAG_NUMERIC flags) base num [], val))"

definition format_signed :: "bool \<Rightarrow> 32 word \<Rightarrow> va_list \<Rightarrow> (conversion \<times> va_list) cpp" where
  "format_signed lng flags val =
     bindE (if lng then bindE (va_long val) (\<lambda>(w, val). Inr (sint w, val)) else va_int val) (\<lambda>(x, val).
     if x = - (2 ^ 63) then Inl Undefined else
     let flags = set_bit FLAG_SIGNED (set_bit FLAG_NUMERIC flags) in
     if x < 0 then Inr (Field (set_bit FLAG_NEGATIVE flags) 10 (word_of_int (- x)) [], val)
     else Inr (Field flags 10 (word_of_int x) [], val))"

definition convert :: "bool \<Rightarrow> 32 word \<Rightarrow> string \<Rightarrow> va_list \<Rightarrow> (conversion \<times> va_list) cpp" where
  "convert lng flags format val =
     (let c = peek format 0 in
      if c = CHR ''d'' \<or> c = CHR ''i'' then format_signed lng flags val
      else if c = CHR ''u'' then format_unsigned lng 10 flags val
      else if c = CHR ''x'' then format_unsigned lng (- 16) flags val
      else if c = CHR ''X'' then format_unsigned lng 16 flags val
      else if c = CHR ''p'' then
        bindE (va_ptr val) (\<lambda>(num, val).
        Inr (Field (set_bit FLAG_NUMERIC (set_bit FLAG_ALT2 (set_bit FLAG_ALT flags))) (- 16) num [], val))
      else if c = CHR ''s'' then bindE (va_str val) (\<lambda>(data, val). Inr (Field flags 10 0 data, val))
      else if c = CHR ''C'' then bindE (va_int val) (\<lambda>(color, val). Inr (Color color, val))
      else if c = CHR ''c'' then
        bindE (va_int val) (\<lambda>(i, val).
        Inr (Field flags 10 0 (takeWhile (\<lambda>c. c \<noteq> CHR 0x00) [char_of (nat (i mod 256))]), val))
      else Inr (Field flags 10 0 [if c \<noteq> CHR 0x00 then c else CHR ''%''], val))"

definition field_prefix :: "32 word \<Rightarrow> int \<Rightarrow> 64 word \<Rightarrow> string" where
  "field_prefix flags base num =
     (if bit flags FLAG_NUMERIC \<and> bit flags FLAG_SIGNED then
        if bit flags FLAG_NEGATIVE then ''-''
        else if bit flags FLAG_PLUSPOSITIVE then ''+''
        else if bit flags FLAG_SPACEPOSITIVE then '' ''
        else ''''
      else if bit flags FLAG_NUMERIC \<and> bit flags FLAG_ALT \<and> (base = 16 \<or> base = - 16)
        \<and> (num \<noteq> 0 \<or> bit flags FLAG_ALT2) then
        if base = - 16 then ''0x'' else ''0X''
      else '''')"

definition field_zeros :: "32 word \<Rightarrow> int \<Rightarrow> int \<Rightarrow> string \<Rightarrow> int \<Rightarrow> int" where
  "field_zeros flags precision datalen prefix width =
     (if bit flags FLAG_NUMERIC \<and> precision \<ge> 0 then
        if precision > datalen then precision - datalen else 0
      else if bit flags FLAG_NUMERIC \<and> bit flags FLAG_ZERO \<and> \<not> bit flags FLAG_LEFTJUSTIFY
        \<and> datalen + int (length prefix) < width then
        width - datalen - int (length prefix)
      else 0)"

text \<open>
  The layout of a field: blanks in front unless left-justified, the prefix, the zeros, the data
  and blanks behind. The width is reduced in unsigned arithmetic and converted back to \<open>int\<close>;
  the two loops of blanks share it, so only one of them runs.
\<close>

definition print_field :: "32 word \<Rightarrow> int \<Rightarrow> int \<Rightarrow> int \<Rightarrow> 64 word \<Rightarrow> string \<Rightarrow> string cpp" where
  "print_field flags width precision base num data =
     bindE (if bit flags FLAG_NUMERIC then fill_numbuf NUMBUFSIZ num base else Inr data) (\<lambda>data.
     let prefix = field_prefix flags base num;
         datalen =
           (if precision \<ge> 0 \<and> \<not> bit flags FLAG_NUMERIC then wrap32 (min (int (length data)) precision)
            else wrap32 (int (length data)));
         zeros = field_zeros flags precision datalen prefix width;
         width = wrap32 (width - (datalen + zeros + int (length prefix)));
         before = (if \<not> bit flags FLAG_LEFTJUSTIFY then nat width else 0);
         after = nat width - before
     in Inr (replicate before CHR '' '' @ prefix @ replicate (nat zeros) CHR ''0''
               @ take (nat datalen) data @ replicate after CHR '' ''))"

definition emit :: "int \<Rightarrow> int \<Rightarrow> int \<Rightarrow> conversion \<Rightarrow> (putc_call list \<times> int) cpp" where
  "emit color width precision cv =
     (case cv of
        Color color' \<Rightarrow> Inr ([], color')
      | Field flags base num data \<Rightarrow>
          bindE (print_field flags width precision base num data) (\<lambda>out. Inr (map (\<lambda>c. (c, color)) out, color)))"

text \<open>One \<open>%\<close> conversion, from behind the percent sign to behind the conversion character.\<close>

definition conversion_step :: "int \<Rightarrow> string \<Rightarrow> va_list \<Rightarrow> (putc_call list \<times> int \<times> string \<times> va_list) cpp" where
  "conversion_step color format val =
     (let (flags, format) = parse_flags format 0 in
      bindE (parse_width format val) (\<lambda>(width, format, val).
      bindE (parse_precision format val) (\<lambda>(precision, format, val).
      let (lng, format) = parse_length format in
      bindE (convert lng flags format val) (\<lambda>(cv, val).
      bindE (emit color width precision cv) (\<lambda>(out, color).
      Inr (out, color, if peek format 0 = CHR 0x00 then format else drop 1 format, val))))))"

lemma length_parse_flags: "length (snd (parse_flags format flags)) \<le> length format"
  by (induction format flags rule: parse_flags.induct) (auto split: option.splits intro: le_SucI)

lemma length_parse_num: "parse_num n format = Inr (k, rest) \<Longrightarrow> length rest \<le> length format"
  by (induction n format rule: parse_num.induct) (auto split: if_splits intro: le_SucI)

lemma length_parse_width: "parse_width format val = Inr (k, rest, val') \<Longrightarrow> length rest \<le> length format"
  by (auto simp: parse_width_def bindE_Inr_iff length_parse_num split: if_splits)

lemma length_parse_precision:
  "parse_precision format val = Inr (k, rest, val') \<Longrightarrow> length rest \<le> length format"
  by (auto simp: parse_precision_def bindE_Inr_iff Let_def split: if_splits dest: length_parse_num)

lemma length_parse_length: "length (snd (parse_length format)) \<le> length format"
  by (auto simp: parse_length_def)

lemma length_conversion_step:
  assumes "conversion_step color format val = Inr (out, color', rest, val')"
  shows "length rest \<le> length format"
proof -
  obtain width f1 v1 precision f2 v2 where
    "parse_width (snd (parse_flags format 0)) val = Inr (width, f1, v1)"
    "parse_precision f1 v1 = Inr (precision, f2, v2)"
    and rest: "length rest \<le> length (snd (parse_length f2))"
    using assms by (auto simp: conversion_step_def case_prod_beta' bindE_Inr_iff Let_def)
  then have "length f1 \<le> length format" "length f2 \<le> length f1"
    using length_parse_flags [of format 0] length_parse_width length_parse_precision le_trans by blast+
  then show ?thesis using length_parse_length [of f2] rest by simp
qed

function vprintf_calls :: "int \<Rightarrow> string \<Rightarrow> va_list \<Rightarrow> putc_call list cpp" where
  "vprintf_calls color [] val = Inr []"
| "vprintf_calls color (c # format) val =
     (if c = CHR 0x00 then Inr []
      else if c \<noteq> CHR ''%'' then bindE (vprintf_calls color format val) (\<lambda>out. Inr ((c, color) # out))
      else case conversion_step color format val of
        Inl e \<Rightarrow> Inl e
      | Inr (out, color, format, val) \<Rightarrow> bindE (vprintf_calls color format val) (\<lambda>rest. Inr (out @ rest)))"
  by pat_completeness auto
termination
  by (relation "measure (\<lambda>(color, format, val). length format)")
    (auto simp: less_Suc_eq_le dest: length_conversion_step)

text \<open>\<open>printer::vprintf\<close> with the virtual \<open>putc\<close> of the printer and the state it acts on.\<close>

definition vprintf :: "(char \<Rightarrow> int \<Rightarrow> 's \<Rightarrow> 's) \<Rightarrow> int \<Rightarrow> string \<Rightarrow> va_list \<Rightarrow> 's \<Rightarrow> 's cpp" where
  "vprintf putc color format val s =
     bindE (vprintf_calls color format val) (\<lambda>out. Inr (fold (\<lambda>(c, color). putc c color) out s))"

text \<open>
  \<open>string_printer\<close>: the pointers \<open>s_\<close>, \<open>end_\<close> and the count \<open>n_\<close>, with the memory written to.
\<close>

record string_printer =
  sp_s :: addr
  sp_end :: addr
  sp_n :: "64 word"
  sp_mem :: memory

definition new_string_printer :: "memory \<Rightarrow> addr \<Rightarrow> 64 word \<Rightarrow> string_printer" where
  "new_string_printer m s sz = \<lparr>sp_s = s, sp_end = s + sz, sp_n = 0, sp_mem = m\<rparr>"

definition string_putc :: "char \<Rightarrow> int \<Rightarrow> string_printer \<Rightarrow> string_printer" where
  "string_putc c color sp =
     (let sp = (if sp_s sp < sp_end sp
                then sp\<lparr>sp_mem := (sp_mem sp)(sp_s sp := of_char c), sp_s := sp_s sp + 1\<rparr> else sp)
      in sp\<lparr>sp_n := sp_n sp + 1\<rparr>)"

definition vsnprintf :: "memory \<Rightarrow> addr \<Rightarrow> 64 word \<Rightarrow> string \<Rightarrow> va_list \<Rightarrow> (memory \<times> 64 word) cpp" where
  "vsnprintf m s sz format val =
     bindE (vprintf string_putc 0 format val (new_string_printer m s sz)) (\<lambda>sp.
     Inr (if sz \<noteq> 0 \<and> sp_s sp < sp_end sp then (sp_mem sp)(sp_s sp := 0)
          else if sz \<noteq> 0 then (sp_mem sp)(sp_end sp - 1 := 0)
          else sp_mem sp, sp_n sp))"

text \<open>\<open>snprintf\<close> keeps the length in an \<open>int\<close>.\<close>

definition snprintf :: "memory \<Rightarrow> addr \<Rightarrow> 64 word \<Rightarrow> string \<Rightarrow> va_list \<Rightarrow> (memory \<times> 64 word) cpp" where
  "snprintf m s sz format val =
     bindE (vsnprintf m s sz format val) (\<lambda>(m, n). Inr (m, scast (ucast n :: 32 word)))"

section \<open>No buffer overrun\<close>

lemma fill_numbuf_ok: "base \<in> {10, 16, - 16} \<Longrightarrow> \<exists>s. fill_numbuf NUMBUFSIZ num base = Inr s"
  using fill_numbuf_digits by blast

definition only_undefined :: "'a cpp \<Rightarrow> bool" where
  "only_undefined r \<longleftrightarrow> (case r of Inl e \<Rightarrow> e = Undefined | Inr _ \<Rightarrow> True)"

lemma only_undefined_simps [simp]: "only_undefined (Inr x)" "only_undefined (Inl e) \<longleftrightarrow> e = Undefined"
  by (simp_all add: only_undefined_def)

lemma only_undefined_bind [simp]:
  "only_undefined (bindE m f) \<longleftrightarrow> only_undefined m \<and> (\<forall>x. m = Inr x \<longrightarrow> only_undefined (f x))"
  by (cases m) auto

lemma only_undefined_va [simp]:
  "only_undefined (va_int val)" "only_undefined (va_unsigned val)" "only_undefined (va_long val)"
  "only_undefined (va_ptr val)" "only_undefined (va_str val)"
proof -
  have half: "only_undefined (va_half val)" by (auto simp: va_half_def split: list.splits va.splits option.splits)
  show "only_undefined (va_int val)" "only_undefined (va_unsigned val)"
    by (simp_all add: va_int_def va_unsigned_def half split: prod.splits)
  show long: "only_undefined (va_long val)" by (auto simp: va_long_def split: list.splits option.splits)
  show "only_undefined (va_ptr val)" by (simp add: va_ptr_def long)
  show "only_undefined (va_str val)" by (rule va_str.cases [of val]) simp_all
qed

lemma only_undefined_parse [simp]:
  "only_undefined (parse_num n format)" "only_undefined (parse_width format val)"
  "only_undefined (parse_precision format val)"
proof -
  show num: "only_undefined (parse_num n format)" for n format
    by (induction n format rule: parse_num.induct) auto
  show "only_undefined (parse_width format val)" by (simp add: parse_width_def num)
  show "only_undefined (parse_precision format val)" by (simp add: parse_precision_def Let_def num split: prod.splits)
qed

lemma convert_base:
  assumes "convert lng flags format val = Inr (Field flags' base num data, val')"
  shows "base \<in> {10, 16, - 16}"
  using assms by (auto simp: convert_def format_signed_def format_unsigned_def Let_def bindE_Inr_iff split: if_splits)

lemma only_undefined_convert [simp]: "only_undefined (convert lng flags format val)"
  by (simp add: convert_def format_signed_def format_unsigned_def Let_def split: prod.splits)

lemma only_undefined_conversion_step [simp]: "only_undefined (conversion_step color format val)"
proof -
  have "only_undefined (emit color width precision cv)"
    if "convert lng flags format val = Inr (cv, val')" for lng flags format val cv val' width precision
  proof (cases cv)
    case (Field flags base num data)
    with that convert_base fill_numbuf_ok [of base num] show ?thesis
      by (fastforce simp: emit_def print_field_def Let_def)
  qed (simp add: emit_def)
  then show ?thesis by (auto simp: conversion_step_def split: prod.splits)
qed

lemma vprintf_only_undefined: "only_undefined (vprintf_calls color format val)"
proof (induction color format val rule: vprintf_calls.induct)
  case (2 color c format val)
  then show ?case
    using only_undefined_conversion_step [of color format val]
    by (cases "conversion_step color format val") auto
qed simp

text \<open>
  Formatted printing terminates and never overruns the 24-byte number buffer. Whatever
  the format and the arguments, \<open>vprintf\<close> either prints or meets an argument of the wrong type
  or an \<open>int\<close> overflow of the format's own making; in particular every number fits the buffer.
\<close>

theorem vprintf_no_overrun:
  "case vprintf putc color format val s of Inl e \<Rightarrow> e = Undefined | Inr _ \<Rightarrow> True"
  using vprintf_only_undefined [of color format val] by (cases "vprintf_calls color format val") (simp_all add: vprintf_def)

section \<open>Printing into a sized buffer\<close>

lemma write_bytes_append_one:
  assumes "length bs < 2 ^ 64"
  shows "(write_bytes m a bs)(a + of_nat (length bs) := b) = write_bytes m a (bs @ [b])"
proof
  fix x
  have "unat (x - a) = length bs \<longleftrightarrow> x = a + of_nat (length bs)"
    using unat_of_nat_small [OF assms] word_of_nat_unat_self [of "x - a"] by (metis add_diff_cancel_left' diff_add_cancel add.commute)
  then show "((write_bytes m a bs)(a + of_nat (length bs) := b)) x = write_bytes m a (bs @ [b]) x"
    by (auto simp: write_bytes_def nth_append)
qed

lemma write_bytes_last:
  assumes "0 < length bs" and "length bs < 2 ^ 64"
  shows "(write_bytes m a bs)(a + of_nat (length bs) - 1 := b) = write_bytes m a (butlast bs @ [b])"
proof -
  obtain cs c where bs: "bs = cs @ [c]" using assms(1) by (cases bs rule: rev_cases) auto
  have "a + of_nat (length bs) - 1 = a + of_nat (length cs)" by (simp add: bs)
  then show ?thesis
    using write_bytes_append_one [of cs m a c] write_bytes_append_one [of cs m a b] assms(2) by (simp add: bs) (metis fun_upd_upd)
qed

lemma string_putc_fold:
  assumes "unat s + unat sz < 2 ^ 64"
  shows "fold (\<lambda>(c, color). string_putc c color) out (new_string_printer m s sz) =
    \<lparr>sp_s = s + of_nat (min (length out) (unat sz)), sp_end = s + sz, sp_n = of_nat (length out),
     sp_mem = write_bytes m s (map (\<lambda>p. of_char (fst p)) (take (unat sz) out))\<rparr>"
proof (induction out rule: rev_induct)
  case Nil
  then show ?case by (simp add: new_string_printer_def)
next
  case (snoc p out)
  obtain c color where p: "p = (c, color)" by (cases p)
  have e: "unat (s + sz) = unat s + unat sz" using assms by (simp add: unat_word_ariths)
  show ?case
  proof (cases "length out < unat sz")
    case True
    then have "unat (s + of_nat (length out)) = unat s + length out"
      using assms by (simp add: unat_word_ariths unat_of_nat_small)
    then have "s + of_nat (length out) < s + sz" using True by (simp add: word_less_nat_alt e)
    then show ?thesis
      using True snoc write_bytes_append_one [of "map (\<lambda>p. of_char (fst p)) out" m s "of_char c"] unat_bound64 [of sz]
      by (simp add: p string_putc_def Let_def min_def add.commute add.left_commute)
  next
    case False
    then show ?thesis using snoc by (simp add: p string_putc_def Let_def min_def word_of_nat_unat_self)
  qed
qed

text \<open>
  C39: \<open>vsnprintf\<close> respects its buffer. When the format prints \<open>out\<close> and the buffer lies
  in memory, it writes exactly the first \<open>size - 1\<close> characters of \<open>out\<close> followed by a zero byte,
  nothing at all for an empty buffer, changes no byte outside, and returns the full length.
\<close>

theorem vsnprintf_exact:
  assumes "vprintf_calls 0 format val = Inr out" and "unat s + unat sz < 2 ^ 64"
  shows "vsnprintf m s sz format val =
    Inr (if sz = 0 then m else write_bytes m s (map (\<lambda>p. of_char (fst p)) (take (unat sz - 1) out) @ [0]), of_nat (length out))"
proof -
  let ?sp = "fold (\<lambda>(c, color). string_putc c color) out (new_string_printer m s sz)"
  note sp = string_putc_fold [OF assms(2), of out m]
  have e: "unat (s + sz) = unat s + unat sz" using assms(2) by (simp add: unat_word_ariths)
  consider "sz = 0" | "sz \<noteq> 0" "length out < unat sz" | "sz \<noteq> 0" "unat sz \<le> length out" by linarith
  then show ?thesis
  proof cases
    case 1
    then show ?thesis using assms(1) sp by (simp add: vsnprintf_def vprintf_def)
  next
    case 2
    have "unat (s + of_nat (length out)) = unat s + length out"
      using 2 assms(2) by (simp add: unat_word_ariths unat_of_nat_small)
    then have "s + of_nat (length out) < s + sz" using 2 by (simp add: word_less_nat_alt e)
    then show ?thesis
      using 2 assms(1) sp write_bytes_append_one [of "map (\<lambda>p. of_char (fst p)) out" m s 0] unat_bound64 [of sz]
      by (simp add: vsnprintf_def vprintf_def)
  next
    case 3
    let ?bs = "map (\<lambda>p. of_char (fst p)) (take (unat sz) out) :: 8 word list"
    have l: "length ?bs = unat sz" and p: "0 < unat sz" using 3 by (simp_all add: unat_gt_0)
    have "butlast ?bs = map (\<lambda>p. of_char (fst p)) (take (unat sz - 1) out)"
      using 3 by (simp add: map_butlast [symmetric] butlast_take)
    moreover have "s + of_nat (length ?bs) - 1 = s + sz - 1" by (simp only: l word_of_nat_unat_self)
    ultimately show ?thesis
      using 3 assms(1) sp write_bytes_last [of ?bs m s 0] l p unat_bound64 [of sz]
      by (simp add: vsnprintf_def vprintf_def word_of_nat_unat_self)
  qed
qed


text \<open>A format without conversions prints itself.\<close>

lemma vprintf_literal:
  "CHR ''%'' \<notin> set lit \<Longrightarrow> CHR 0x00 \<notin> set lit \<Longrightarrow>
    vprintf_calls color (lit @ format) val = bindE (vprintf_calls color format val) (\<lambda>out. Inr (map (\<lambda>c. (c, color)) lit @ out))"
proof (induction lit)
  case Nil
  then show ?case by (cases "vprintf_calls color format val") simp_all
next
  case (Cons c lit)
  then show ?case by (cases "vprintf_calls color format val") auto
qed

theorem vsnprintf_exact_witness:
  "vsnprintf (\<lambda>_. 7) 100 3 ''abcdef'' [] =
    Inr (if (3 :: 64 word) = 0 then \<lambda>_. 7
         else write_bytes (\<lambda>_. 7) 100 (map (\<lambda>p. of_char (fst p)) (take (unat (3 :: 64 word) - 1) (map (\<lambda>c. (c, 0 :: int)) ''abcdef'')) @ [0]),
      of_nat (length (map (\<lambda>c. (c, 0 :: int)) ''abcdef'')))"
  by (rule vsnprintf_exact) (simp_all)

section \<open>The layout of a field\<close>

lemma wrap32_id: "- (2 ^ 31) \<le> n \<Longrightarrow> n < 2 ^ 31 \<Longrightarrow> wrap32 n = n"
  by (simp add: wrap32_def sint_sbintrunc' signed_take_bit_int_eq_self)

lemma parse_flags_stop: "index_of c flag_chars = None \<Longrightarrow> parse_flags (c # format) flags = (flags, c # format)"
  by simp

lemma print_data_field:
  assumes "\<not> bit flags FLAG_NUMERIC" and "length data < 2 ^ 31" and "- 1 \<le> width" and "width < 2 ^ 31"
  shows "print_field flags width precision base num data =
    (let shown = (if precision \<ge> 0 then take (nat precision) data else data);
         pad = replicate (nat width - length shown) CHR '' ''
     in Inr (if bit flags FLAG_LEFTJUSTIFY then shown @ pad else pad @ shown))"
proof -
  have le: "nat width \<le> k + (nat width - k)" for k by simp
  let ?shown = "if precision \<ge> 0 then take (nat precision) data else data"
  have "(if precision \<ge> 0 then wrap32 (min (int (length data)) precision) else wrap32 (int (length data))) = int (length ?shown)"
    using assms(2) by (auto simp: wrap32_id min_def)
  moreover have "take (length ?shown) data = ?shown" by (simp add: min_def)
  moreover have "wrap32 (width - int (length ?shown)) = width - int (length ?shown)"
    using assms by (intro wrap32_id) (auto simp: min_def)
  moreover have "nat (width - int (length ?shown)) = nat width - length ?shown" by simp
  ultimately show ?thesis
    using assms(1) by (simp add: print_field_def field_prefix_def field_zeros_def Let_def le)
qed

text \<open>
  String fields are padded and cut as asked. For a string argument shorter than
  $2^{31}$ and a non-negative width \<open>w\<close> or precision, \<open>%*s\<close> pads on the left and \<open>%-*s\<close> on
  the right to exactly \<open>w\<close> characters, never cutting the string, and \<open>%.*s\<close> prints its first
  characters.
\<close>

theorem string_fields:
  assumes s: "CHR 0x00 \<notin> set s" "length s < 2 ^ 31" and w: "0 \<le> sint w"
  shows "vprintf_calls color ''%*s'' [VInt w, VStr s] =
      Inr (map (\<lambda>c. (c, color)) (replicate (nat (sint w) - length s) CHR '' '' @ s)) \<and>
    vprintf_calls color ''%-*s'' [VInt w, VStr s] =
      Inr (map (\<lambda>c. (c, color)) (s @ replicate (nat (sint w) - length s) CHR '' '')) \<and>
    vprintf_calls color ''%.*s'' [VInt w, VStr s] = Inr (map (\<lambda>c. (c, color)) (take (nat (sint w)) s))"
proof -
  have t: "takeWhile (\<lambda>c. c \<noteq> CHR 0x00) s = s" using s(1) by (simp add: takeWhile_eq_all_conv) blast
  have "sint w < 2 ^ 31" using sint_lt [of w] by simp
  then show ?thesis using s(2) w
    by (simp add: conversion_step_def flag_chars_def parse_width_def peek_def is_dec_def parse_precision_def
      parse_length_def convert_def va_int_def va_half_def emit_def print_data_field t FLAG_NUMERIC_def FLAG_LEFTJUSTIFY_def Let_def bit_set_bit_iff)
qed

theorem string_fields_witness:
  "vprintf_calls 7 ''%-*s'' [VInt 5, VStr ''abc''] =
    Inr (map (\<lambda>c. (c, 7)) (''abc'' @ replicate (nat (sint (5 :: 32 word)) - length ''abc'') CHR '' ''))"
  using string_fields [of "''abc''" 5 7] by simp

section \<open>Printing and parsing\<close>

lemma dec_string_numbuf:
  obtains ds where "fill_numbuf NUMBUFSIZ num 10 = Inr (dec_string ds)" "ds \<noteq> []" "length ds \<le> 20"
    "\<forall>d \<in> set ds. d < 10" "digits_val 10 ds = unat num"
proof -
  obtain ds where ds: "fill_numbuf NUMBUFSIZ num 10 = Inr (map ((!) (alphabet 10)) ds)" "ds \<noteq> []" "length ds \<le> 20"
    "\<forall>d \<in> set ds. d < 10" "digits_val 10 ds = unat num"
    using fill_numbuf_digits [of 10 num] by (auto simp: numbase_def)
  then have "map ((!) (alphabet 10)) ds = dec_string ds"
    using dec_string_alphabet by (auto simp: dec_string_def alphabet_def list_all_iff)
  with ds that show thesis by metis
qed

lemma print_signed_field:
  assumes "length ds \<le> 20" and "fill_numbuf NUMBUFSIZ num 10 = Inr (dec_string ds)"
    and "bit flags FLAG_NUMERIC" "bit flags FLAG_SIGNED" "\<not> bit flags FLAG_PLUSPOSITIVE" "\<not> bit flags FLAG_SPACEPOSITIVE"
  shows "print_field flags (- 1) (- 1) 10 num [] =
    Inr ((if bit flags FLAG_NEGATIVE then ''-'' else []) @ dec_string ds)"
proof -
  have "wrap32 (int (length (dec_string ds))) = int (length ds)"
    using assms(1) by (simp add: wrap32_id dec_string_def)
  moreover have "wrap32 (- 1 - int (length ds)) = - 1 - int (length ds)" "wrap32 (- 2 - int (length ds)) = - 2 - int (length ds)"
    using assms(1) by (auto intro!: wrap32_id)
  ultimately show ?thesis
    using assms by (simp add: print_field_def field_prefix_def field_zeros_def Let_def) (simp add: dec_string_def)
qed

lemma vprintf_ld:
  assumes "sint x \<noteq> - (2 ^ 63)"
  shows "\<exists>ds. vprintf_calls color ''%ld'' [VLong x] =
      Inr (map (\<lambda>c. (c, color)) ((if sint x < 0 then ''-'' else []) @ dec_string ds))
    \<and> ds \<noteq> [] \<and> (\<forall>d \<in> set ds. d < 10) \<and> int (digits_val 10 ds) = \<bar>sint x\<bar>"
proof -
  let ?num = "word_of_int \<bar>sint x\<bar> :: 64 word"
  obtain ds where ds: "fill_numbuf NUMBUFSIZ ?num 10 = Inr (dec_string ds)" "ds \<noteq> []" "length ds \<le> 20"
    "\<forall>d \<in> set ds. d < 10" "digits_val 10 ds = unat ?num"
    using dec_string_numbuf by blast
  have "\<bar>sint x\<bar> < 2 ^ 64" using sint_lt [of x] sint_ge [of x] by simp
  then have "int (unat ?num) = \<bar>sint x\<bar>" by (simp add: uint_word_of_int_eq take_bit_int_eq_self)
  moreover have pos: "print_field 96 (- 1) (- 1) 10 x [] = Inr (dec_string ds)" if "\<not> sint x < 0"
    using print_signed_field [OF ds(3,1), of 96] that
    by (simp add: FLAG_NUMERIC_def FLAG_SIGNED_def FLAG_NEGATIVE_def FLAG_PLUSPOSITIVE_def FLAG_SPACEPOSITIVE_def)
  moreover have neg: "print_field 224 (- 1) (- 1) 10 (- x) [] = Inr (CHR ''-'' # dec_string ds)" if "sint x < 0"
    using print_signed_field [OF ds(3,1), of 224] that
    by (simp add: FLAG_NUMERIC_def FLAG_SIGNED_def FLAG_NEGATIVE_def FLAG_PLUSPOSITIVE_def FLAG_SPACEPOSITIVE_def)
  moreover have "vprintf_calls color ''%ld'' [VLong x] =
      Inr (map (\<lambda>c. (c, color)) ((if sint x < 0 then ''-'' else []) @ dec_string ds))"
    using assms
    by (simp add: pos neg conversion_step_def flag_chars_def parse_width_def peek_def is_dec_def parse_precision_def
      parse_length_def convert_def format_signed_def va_long_def emit_def Let_def FLAG_NUMERIC_def
      FLAG_SIGNED_def FLAG_NEGATIVE_def)
  ultimately show ?thesis using ds by (intro exI [of _ ds]) simp
qed

text \<open>
  C40: what \<open>%ld\<close> prints, \<open>strtol\<close> reads back, for every \<open>long\<close> but the smallest, whose
  negation in \<open>vprintf\<close> overflows.
\<close>

theorem long_roundtrip:
  assumes "sint x \<noteq> - (2 ^ 63)"
  shows "\<exists>out. vprintf_calls color ''%ld'' [VLong x] = Inr out \<and> strtol (map fst out) 10 = (x, [])"
proof -
  obtain ds where ds: "vprintf_calls color ''%ld'' [VLong x] =
      Inr (map (\<lambda>c. (c, color)) ((if sint x < 0 then ''-'' else []) @ dec_string ds))"
    "ds \<noteq> []" "\<forall>d \<in> set ds. d < 10" "int (digits_val 10 ds) = \<bar>sint x\<bar>"
    using vprintf_ld [OF assms] by blast
  have r: "- (2 ^ 63) \<le> sint x" "sint x < 2 ^ 63" using sint_lt [of x] sint_ge [of x] by simp_all
  have "map_prod sint id (strtol ((if sint x < 0 then ''-'' else []) @ dec_string ds) 10) = (sint x, [])"
    using strtol_clamped [OF ds(2,3)] ds(4) r by (auto simp: min_def max_def)
  then show ?thesis
    using ds(1) by (cases "strtol ((if sint x < 0 then ''-'' else []) @ dec_string ds) 10")
      (auto simp: comp_def signed_word_eqI)
qed

theorem long_roundtrip_witness:
  "\<exists>out. vprintf_calls 0 ''%ld'' [VLong (- 42)] = Inr out \<and> strtol (map fst out) 10 = (- 42, [])"
  by (rule long_roundtrip) simp

section \<open>Printers that keep an invariant\<close>

text \<open>
  A printer is its virtual \<open>putc\<close>. What every \<open>putc\<close> keeps, formatted printing keeps, and every
  relation it respects between a state and the text put so far holds of the whole text.
\<close>

locale printer =
  fixes putc :: "char \<Rightarrow> int \<Rightarrow> 's \<Rightarrow> 's"
    and invar :: "'s \<Rightarrow> bool"
  assumes putc_invar: "invar s \<Longrightarrow> invar (putc c color s)"
begin

lemma puts_invar: "invar s \<Longrightarrow> invar (fold (\<lambda>(c, color). putc c color) out s)"
  by (induction out arbitrary: s) (auto simp: putc_invar)

lemma vprintf_invar: "invar s \<Longrightarrow> vprintf putc color format val s = Inr s' \<Longrightarrow> invar s'"
  by (auto simp: vprintf_def bindE_Inr_iff puts_invar)

end

interpretation sp: printer string_putc "\<lambda>sp. sp_s sp \<le> sp_end sp"
proof
  fix s :: string_printer and c color
  assume "sp_s s \<le> sp_end s"
  then show "sp_s (string_putc c color s) \<le> sp_end (string_putc c color s)"
    by (auto simp: string_putc_def Let_def intro: inc_le)
qed

section \<open>Formats that fit their arguments\<close>

text \<open>
  A format with matching arguments is printed without undefined behaviour; for the formats of
  the kernel this is decided by evaluation, with the text of a field left abstract.
\<close>

definition printable :: "string \<Rightarrow> va_list \<Rightarrow> bool" where
  "printable format val \<longleftrightarrow> (\<forall>color. \<exists>out. vprintf_calls color format val = Inr out)"

definition field_text :: "32 word \<Rightarrow> int \<Rightarrow> int \<Rightarrow> int \<Rightarrow> 64 word \<Rightarrow> string \<Rightarrow> string" where
  "field_text flags width precision base num data =
     (case print_field flags width precision base num data of Inr out \<Rightarrow> out | Inl _ \<Rightarrow> [])"

lemma print_field_text:
  "base \<in> {10, 16, - 16} \<Longrightarrow> print_field flags width precision base num data = Inr (field_text flags width precision base num data)"
  using fill_numbuf_ok [of base num] by (auto simp: print_field_def field_text_def Let_def)

lemma int_arg: "sint (w :: 32 word) \<noteq> - (2 ^ 63)"
  using sint_ge [of w] by simp

lemmas format_eval = printable_def print_field_text conversion_step_def parse_width_def parse_precision_def parse_length_def
  convert_def peek_def flag_chars_def is_dec_def int32_ok_def format_unsigned_def format_signed_def va_unsigned_def va_half_def
  va_long_def va_int_def va_ptr_def emit_def Let_def

end
