(* ===== verification/Console.thy ===== *)
theory Console
  imports Printf
begin

unbundle bit_operations_syntax

text \<open>
  The CGA console of the operating system (\<open>weensyos/lib.cc\<close>): 25 rows of 80 cells, the printer
  that writes into them from a cursor position, with or without scrolling, and the printing
  functions on top. A cell pointer is its offset from the start of the array; a write outside the
  array is \<open>OutOfBounds\<close>.
\<close>

section \<open>Definitions\<close>

definition CONSOLE_COLUMNS :: nat where
  "CONSOLE_COLUMNS = 80"

definition CONSOLE_ROWS :: nat where
  "CONSOLE_ROWS = 25"

definition CPOS :: "int \<Rightarrow> int \<Rightarrow> int" where
  "CPOS row col = row * 80 + col"

record console =
  cells :: "16 word list"
  cursorpos :: int

definition console_clear :: "console \<Rightarrow> console" where
  "console_clear con = con\<lparr>cells := replicate (CONSOLE_ROWS * CONSOLE_COLUMNS) (0x20 OR 0x0700), cursorpos := 0\<rparr>"

record console_printer =
  cell :: int
  scrolls :: bool
  screen :: console

definition new_console_printer :: "int \<Rightarrow> bool \<Rightarrow> console \<Rightarrow> console_printer" where
  "new_console_printer cpos scrl con =
     \<lparr>cell = (if cpos < 0 then cursorpos con
              else if cpos \<le> int (CONSOLE_ROWS * CONSOLE_COLUMNS) then cpos else 0),
      scrolls = scrl, screen = con\<rparr>"

text \<open>The \<open>memmove\<close> moves all rows but the first up by one, the \<open>memset\<close> clears the last row.\<close>

definition scroll :: "console_printer \<Rightarrow> console_printer" where
  "scroll cp =
     (if scrolls cp then
        cp\<lparr>screen := (screen cp)\<lparr>cells := drop CONSOLE_COLUMNS (cells (screen cp)) @ replicate CONSOLE_COLUMNS 0\<rparr>,
           cell := cell cp - int CONSOLE_COLUMNS\<rparr>
      else cp\<lparr>cell := 0\<rparr>)"

definition move_cursor :: "console_printer \<Rightarrow> console" where
  "move_cursor cp = (screen cp)\<lparr>cursorpos := cell cp\<rparr>"

function scroll_loop :: "console_printer \<Rightarrow> console_printer" where
  "scroll_loop cp =
     (if cell cp \<ge> int (CONSOLE_ROWS * CONSOLE_COLUMNS) then scroll_loop (scroll cp) else cp)"
  by pat_completeness auto
termination
  by (relation "measure (\<lambda>cp. nat (cell cp))") (auto simp: scroll_def CONSOLE_ROWS_def CONSOLE_COLUMNS_def)

declare scroll_loop.simps [simp del]

definition write_cell :: "16 word \<Rightarrow> console_printer \<Rightarrow> console_printer cpp" where
  "write_cell v cp =
     (if 0 \<le> cell cp \<and> nat (cell cp) < length (cells (screen cp)) then
        Inr (cp\<lparr>screen := (screen cp)\<lparr>cells := (cells (screen cp))[nat (cell cp) := v]\<rparr>, cell := cell cp + 1\<rparr>)
      else Inl OutOfBounds)"

fun write_cells :: "nat \<Rightarrow> 16 word \<Rightarrow> console_printer \<Rightarrow> console_printer cpp" where
  "write_cells 0 v cp = Inr cp"
| "write_cells (Suc n) v cp = bindE (write_cell v cp) (write_cells n v)"

definition cell_of :: "char \<Rightarrow> int \<Rightarrow> 16 word" where
  "cell_of c color = of_char c OR word_of_int color"

definition console_putc :: "char \<Rightarrow> int \<Rightarrow> console_printer cpp \<Rightarrow> console_printer cpp" where
  "console_putc c color r =
     bindE r (\<lambda>cp.
     let cp = scroll_loop cp in
     if c = CHR 0x0A then write_cells (nat (80 - cell cp mod 80)) (cell_of CHR '' '' color) cp
     else write_cell (cell_of c color) cp)"

definition finish_print :: "int \<Rightarrow> console_printer \<Rightarrow> console \<times> int" where
  "finish_print cpos cp = (if cpos < 0 then move_cursor cp else screen cp, cell cp)"

definition console_puts :: "int \<Rightarrow> int \<Rightarrow> string \<Rightarrow> nat \<Rightarrow> console \<Rightarrow> (console \<times> int) cpp" where
  "console_puts cpos color s len con =
     (if length s < len then Inl OutOfBounds
      else bindE (fold (\<lambda>c. console_putc c color) (take len s) (Inr (new_console_printer cpos (cpos < 0) con)))
        (\<lambda>cp. Inr (finish_print cpos cp)))"

definition console_vprintf :: "int \<Rightarrow> int \<Rightarrow> string \<Rightarrow> va_list \<Rightarrow> console \<Rightarrow> (console \<times> int) cpp" where
  "console_vprintf cpos color format val con =
     bindE (vprintf console_putc color format val (Inr (new_console_printer cpos (cpos < 0) con))) (\<lambda>r.
     bindE r (\<lambda>cp. Inr (finish_print cpos cp)))"

section \<open>The cursor stays on the screen\<close>

definition console_ok :: "console \<Rightarrow> bool" where
  "console_ok con \<longleftrightarrow> length (cells con) = CONSOLE_ROWS * CONSOLE_COLUMNS
     \<and> 0 \<le> cursorpos con \<and> cursorpos con \<le> int (CONSOLE_ROWS * CONSOLE_COLUMNS)"

definition printer_ok :: "console_printer \<Rightarrow> bool" where
  "printer_ok cp \<longleftrightarrow> console_ok (screen cp) \<and> 0 \<le> cell cp \<and> cell cp \<le> int (CONSOLE_ROWS * CONSOLE_COLUMNS)"

lemma console_size [simp]: "CONSOLE_ROWS = 25" "CONSOLE_COLUMNS = 80"
  by (simp_all add: CONSOLE_ROWS_def CONSOLE_COLUMNS_def)

lemma scroll_loop_eq:
  assumes "printer_ok cp"
  shows "scroll_loop cp = (if cell cp = 2000 then scroll cp else cp)"
proof (cases "cell cp = 2000")
  case True
  then have "cell (scroll cp) < 2000" by (simp add: scroll_def)
  then show ?thesis using True by (simp add: scroll_loop.simps [of cp] scroll_loop.simps [of "scroll cp"])
next
  case False
  then show ?thesis using assms by (simp add: printer_ok_def scroll_loop.simps [of cp])
qed

lemma printer_ok_scroll: "printer_ok cp \<Longrightarrow> cell cp = 2000 \<Longrightarrow> printer_ok (scroll cp) \<and> cell (scroll cp) < 2000"
  by (auto simp: printer_ok_def console_ok_def scroll_def)

lemma write_cells_eq:
  assumes "0 \<le> cell cp" and "nat (cell cp) + n \<le> length (cells (screen cp))"
  shows "write_cells n v cp =
    Inr (cp\<lparr>screen := (screen cp)\<lparr>cells := take (nat (cell cp)) (cells (screen cp)) @ replicate n v
             @ drop (nat (cell cp) + n) (cells (screen cp))\<rparr>, cell := cell cp + int n\<rparr>)"
  using assms
proof (induction n arbitrary: cp)
  case (Suc n)
  let ?p = "nat (cell cp)" and ?xs = "cells (screen cp)"
  let ?cp = "cp\<lparr>screen := (screen cp)\<lparr>cells := ?xs[?p := v]\<rparr>, cell := cell cp + 1\<rparr>"
  have "?p < length ?xs" using Suc.prems by simp
  then have "take (Suc ?p) (?xs[?p := v]) = take ?p ?xs @ [v]" by (simp add: take_Suc_conv_app_nth)
  moreover have "nat (cell cp + 1) = Suc ?p" using Suc.prems(1) by simp
  moreover have "write_cell v cp = Inr ?cp" using Suc.prems by (simp add: write_cell_def)
  ultimately show ?case using Suc.IH [of ?cp] Suc.prems by simp
qed simp

text \<open>The cells a character stands for when it is put at a position.\<close>

definition char_cells :: "nat \<Rightarrow> char \<Rightarrow> int \<Rightarrow> 16 word list" where
  "char_cells pos c color =
     (if c = CHR 0x0A then replicate (80 - pos mod 80) (cell_of CHR '' '' color) else [cell_of c color])"

lemma char_cells_fit: "pos < 2000 \<Longrightarrow> pos + length (char_cells pos c color) \<le> 2000"
proof -
  assume "pos < 2000"
  then have "pos div 80 \<le> 24" by simp
  moreover have "pos div 80 * 80 + pos mod 80 = pos" by simp
  ultimately have "pos + (80 - pos mod 80) \<le> 2000" by linarith
  with \<open>pos < 2000\<close> show ?thesis by (simp add: char_cells_def)
qed

definition overwrite :: "'a list \<Rightarrow> nat \<Rightarrow> 'a list \<Rightarrow> 'a list" where
  "overwrite xs p ys = take p xs @ ys @ drop (p + length ys) xs"

lemma length_overwrite [simp]: "p + length ys \<le> length xs \<Longrightarrow> length (overwrite xs p ys) = length xs"
  by (simp add: overwrite_def)

lemma console_putc_eq:
  assumes "printer_ok cp"
  defines "cp1 \<equiv> scroll_loop cp"
  defines "p \<equiv> nat (cell cp1)"
  shows "console_putc c color (Inr cp) =
    Inr (cp1\<lparr>screen := (screen cp1)\<lparr>cells := overwrite (cells (screen cp1)) p (char_cells p c color)\<rparr>,
             cell := int (p + length (char_cells p c color))\<rparr>)"
    and "p < 2000" and "printer_ok cp1"
proof -
  have ok: "printer_ok cp1" "cell cp1 < 2000"
    using assms(1) printer_ok_scroll by (auto simp: cp1_def scroll_loop_eq printer_ok_def)
  then have c: "cell cp1 = int p" "p < 2000" "length (cells (screen cp1)) = 2000"
    by (auto simp: p_def printer_ok_def console_ok_def)
  show "p < 2000" "printer_ok cp1" by fact+
  have m: "nat (80 - int p mod 80) = 80 - p mod 80" by (simp add: nat_diff_distrib' nat_mod_distrib)
  obtain n v where "console_putc c color (Inr cp) = write_cells n v cp1" and cs: "char_cells p c color = replicate n v"
  proof (cases "c = CHR 0x0A")
    case True
    have "console_putc c color (Inr cp) = write_cells (80 - p mod 80) (cell_of CHR '' '' color) cp1"
      using True by (simp add: console_putc_def Let_def cp1_def [symmetric] c(1) m)
    moreover have "char_cells p c color = replicate (80 - p mod 80) (cell_of CHR '' '' color)" using True by (simp add: char_cells_def)
    ultimately show thesis using that by blast
  next
    case False
    have one: "write_cell v cp1 = write_cells 1 v cp1" for v by (cases "write_cell v cp1") simp_all
    have "console_putc c color (Inr cp) = write_cells 1 (cell_of c color) cp1"
      using False by (simp add: console_putc_def Let_def cp1_def [symmetric] one del: write_cells.simps One_nat_def)
    moreover have "char_cells p c color = replicate 1 (cell_of c color)" using False by (simp add: char_cells_def)
    ultimately show thesis using that by blast
  qed
  then show "console_putc c color (Inr cp) =
    Inr (cp1\<lparr>screen := (screen cp1)\<lparr>cells := overwrite (cells (screen cp1)) p (char_cells p c color)\<rparr>,
             cell := int (p + length (char_cells p c color))\<rparr>)"
    using c char_cells_fit [OF c(2), of c color] by (simp add: write_cells_eq cs overwrite_def)
qed

lemma console_putc_ok:
  assumes "printer_ok cp"
  shows "\<exists>cp'. console_putc c color (Inr cp) = Inr cp' \<and> printer_ok cp'"
proof -
  have p: "nat (cell (scroll_loop cp)) < 2000" "printer_ok (scroll_loop cp)" using console_putc_eq [OF assms] by auto
  then show ?thesis
    using console_putc_eq(1) [OF assms, of c color] char_cells_fit [OF p(1), of c color]
    by (simp add: printer_ok_def console_ok_def)
qed

interpretation cp: printer console_putc "\<lambda>r. \<exists>cp. r = Inr cp \<and> printer_ok cp"
  by unfold_locales (use console_putc_ok in blast)

lemma new_console_printer_ok: "console_ok con \<Longrightarrow> printer_ok (new_console_printer cpos s con)"
  by (auto simp: printer_ok_def new_console_printer_def console_ok_def)

lemma finish_print_ok:
  "printer_ok cp \<Longrightarrow> console_ok (fst (finish_print cpos cp)) \<and> snd (finish_print cpos cp) \<in> {0..2000}"
  by (auto simp: finish_print_def printer_ok_def console_ok_def move_cursor_def)

lemma console_vprintf_ok:
  assumes "console_ok con"
  shows "case console_vprintf cpos color format val con of
      Inl e \<Rightarrow> e = Undefined | Inr (con', pos) \<Rightarrow> console_ok con' \<and> pos \<in> {0..2000}"
proof (cases "vprintf console_putc color format val (Inr (new_console_printer cpos (cpos < 0) con))")
  case (Inl e)
  then have "vprintf_calls color format val = Inl e" by (auto simp: vprintf_def bindE_Inl_iff)
  then have "e = Undefined" using vprintf_only_undefined [of color format val] by simp
  then show ?thesis using Inl by (simp add: console_vprintf_def)
next
  case (Inr r)
  obtain cp where "r = Inr cp" "printer_ok cp"
    using cp.vprintf_invar [OF _ Inr] new_console_printer_ok [OF assms] by blast
  then show ?thesis using Inr finish_print_ok [of cp cpos] by (auto simp: console_vprintf_def)
qed

lemma console_prints:
  assumes "console_ok con" and "printable format val"
  obtains con' pos where "console_vprintf cpos color format val con = Inr (con', pos)" "console_ok con'" "0 \<le> pos" "pos \<le> 2000"
proof -
  have "console_vprintf cpos color format val con \<noteq> Inl e" for e
  proof
    assume e: "console_vprintf cpos color format val con = Inl e"
    obtain out where "vprintf_calls color format val = Inr out" using assms(2) by (auto simp: printable_def)
    then have "vprintf console_putc color format val (Inr (new_console_printer cpos (cpos < 0) con)) \<noteq> Inl e'" for e'
      by (simp add: vprintf_def)
    then obtain r where r: "vprintf console_putc color format val (Inr (new_console_printer cpos (cpos < 0) con)) = Inr r"
      by (metis sumE)
    obtain cp where "r = Inr cp" using cp.vprintf_invar [OF _ r] new_console_printer_ok [OF assms(1)] by blast
    then show False using e r by (simp add: console_vprintf_def)
  qed
  then obtain p where "console_vprintf cpos color format val con = Inr p" by (metis sumE)
  then show thesis using console_vprintf_ok [OF assms(1), of cpos color format val] that by (cases p) simp
qed

text \<open>
  Printing never leaves the screen. From a console whose cursor is on the screen, any
  format at any position, scrolling or not, writes only cells of the 25 by 80 array and leaves the
  cursor on the screen; only the caller's mistakes remain as errors.
\<close>

theorem console_vprintf_safe:
  assumes "console_ok con"
  shows "case console_vprintf cpos color format val con of
      Inl e \<Rightarrow> e = Undefined | Inr (con', pos) \<Rightarrow> console_ok con' \<and> pos \<in> {0..2000}"
  using console_vprintf_ok [OF assms] .

theorem console_vprintf_safe_witness:
  "case console_vprintf (- 1) 7 ''%d'' [VInt 3] (console_clear \<lparr>cells = [], cursorpos = 5\<rparr>) of
      Inl e \<Rightarrow> e = Undefined | Inr (con', pos) \<Rightarrow> console_ok con' \<and> pos \<in> {0..2000}"
  by (rule console_vprintf_safe) (simp add: console_ok_def console_clear_def)

section \<open>Scrolling shows the end of an endless page\<close>

text \<open>
  The reference: a page without an end, onto which characters are put one after the other.
\<close>

fun text_cells :: "nat \<Rightarrow> putc_call list \<Rightarrow> 16 word list" where
  "text_cells pos [] = []"
| "text_cells pos ((c, color) # out) =
     char_cells pos c color @ text_cells (pos + length (char_cells pos c color)) out"

lemma char_cells_shift: "char_cells (pos + 80 * k) c color = char_cells pos c color"
  by (simp add: char_cells_def)

lemma text_cells_append:
  "text_cells pos (xs @ ys) = text_cells pos xs @ text_cells (pos + length (text_cells pos xs)) ys"
  by (induction pos xs rule: text_cells.induct) (simp_all add: add.assoc)

text \<open>
  The printer shows a page scrolled up by \<open>k\<close> rows: the cells above its cursor are the end of
  the page, and it has scrolled no more than needed.
\<close>

definition shows_page :: "16 word list \<Rightarrow> console_printer \<Rightarrow> nat \<Rightarrow> bool" where
  "shows_page page cp k \<longleftrightarrow> printer_ok cp \<and> scrolls cp \<and> length page = nat (cell cp) + 80 * k
     \<and> take (nat (cell cp)) (cells (screen cp)) = drop (80 * k) page"

lemma shows_page_scroll:
  assumes "shows_page page cp k" and "cell cp = 2000"
  shows "shows_page page (scroll cp) (Suc k)"
proof -
  have c: "length (cells (screen cp)) = 2000" "scrolls cp" "printer_ok cp" "length page = 2000 + 80 * k"
    "take 2000 (cells (screen cp)) = drop (80 * k) page"
    using assms by (auto simp: shows_page_def printer_ok_def console_ok_def)
  have "drop 80 (cells (screen cp)) = drop 80 (take 2000 (cells (screen cp)))" using c(1) by simp
  also have "\<dots> = drop (80 * Suc k) page" by (simp only: c(5) drop_drop) (simp add: add.commute)
  finally show ?thesis
    using c assms(2) printer_ok_scroll [OF c(3) assms(2)] by (auto simp: shows_page_def scroll_def)
qed

lemma take_overwrite: "p \<le> length xs \<Longrightarrow> take (p + length ys) (overwrite xs p ys) = take p xs @ ys"
  by (simp add: overwrite_def)

lemma shows_page_putc:
  assumes "shows_page page cp k"
  shows "\<exists>cp' k'. console_putc c color (Inr cp) = Inr cp' \<and> (k' = 0 \<or> 0 < k \<or> 2000 < length page + length (char_cells (length page) c color))
    \<and> shows_page (page @ char_cells (length page) c color) cp' k'"
proof -
  have ok: "printer_ok cp" using assms by (simp add: shows_page_def)
  define cp1 k1 where "cp1 = scroll_loop cp" and "k1 = (if cell cp = 2000 then Suc k else k)"
  have sh: "shows_page page cp1 k1"
    using assms shows_page_scroll [OF assms] by (simp add: cp1_def k1_def scroll_loop_eq [OF ok])
  let ?p = "nat (cell cp1)"
  note pc = console_putc_eq(1) [OF ok, of c color, folded cp1_def] console_putc_eq(2,3) [OF ok, folded cp1_def]
  have len: "length page = ?p + 80 * k1" and l2: "length (cells (screen cp1)) = 2000"
    using sh pc(3) by (auto simp: shows_page_def printer_ok_def console_ok_def)
  have cc: "char_cells (length page) c color = char_cells ?p c color" by (simp only: len char_cells_shift)
  let ?n = "length (char_cells ?p c color)"
  obtain cp' where cp': "console_putc c color (Inr cp) = Inr cp'"
    "cp' = cp1\<lparr>screen := (screen cp1)\<lparr>cells := overwrite (cells (screen cp1)) ?p (char_cells ?p c color)\<rparr>, cell := int (?p + ?n)\<rparr>"
    using pc(1) by blast
  have "printer_ok cp'" using console_putc_ok [OF ok, of c color] cp'(1) by auto
  moreover have "take (?p + ?n) (cells (screen cp')) = drop (80 * k1) (page @ char_cells ?p c color)"
    using sh len pc(2) l2 by (simp add: cp'(2) take_overwrite shows_page_def)
  moreover have "nat (cell cp') = ?p + ?n" "scrolls cp'" using sh by (auto simp: cp'(2) shows_page_def)
  moreover have "length (page @ char_cells ?p c color) = ?p + ?n + 80 * k1" using len by simp
  ultimately have "shows_page (page @ char_cells (length page) c color) cp' k1"
    unfolding shows_page_def cc by (simp only:)
  moreover have "k1 = 0 \<or> 0 < k \<or> 2000 < length page + length (char_cells (length page) c color)"
    using assms by (auto simp: k1_def shows_page_def cc char_cells_def)
  ultimately show ?thesis using cp'(1) by blast
qed

lemma shows_page_fold:
  assumes "shows_page page cp k"
  shows "\<exists>cp' k'. fold (\<lambda>(c, color). console_putc c color) out (Inr cp) = Inr cp'
    \<and> shows_page (page @ text_cells (length page) out) cp' k'
    \<and> (k' = 0 \<or> 0 < k \<or> 2000 < length page + length (text_cells (length page) out))"
  using assms
proof (induction out arbitrary: page cp k)
  case Nil
  then show ?case by auto
next
  case (Cons a out)
  obtain c color where a: "a = (c, color)" by (cases a)
  obtain cp1 k1 where 1: "console_putc c color (Inr cp) = Inr cp1"
    "k1 = 0 \<or> 0 < k \<or> 2000 < length page + length (char_cells (length page) c color)"
    "shows_page (page @ char_cells (length page) c color) cp1 k1"
    using shows_page_putc [OF Cons.prems] by blast
  from Cons.IH [OF 1(3)] obtain cp' k' where
    "fold (\<lambda>(c, color). console_putc c color) out (Inr cp1) = Inr cp'"
    "shows_page ((page @ char_cells (length page) c color) @ text_cells (length page + length (char_cells (length page) c color)) out) cp' k'"
    "k' = 0 \<or> 0 < k1 \<or> 2000 < length page + length (char_cells (length page) c color)
       + length (text_cells (length page + length (char_cells (length page) c color)) out)"
    by auto
  then show ?case using 1 by (auto simp: a)
qed



end
