(* ===== verification/KAlloc.thy ===== *)
theory KAlloc
  imports CLib
begin

unbundle bit_operations_syntax

text \<open>
  The physical page allocator of the operating system (\<open>weensyos/kernel.cc\<close>: \<open>kalloc\<close>,
  \<open>kfree\<close>; \<open>kernel.hh\<close>: \<open>pageinfo\<close>; \<open>k-hardware.cc\<close>: which addresses may be allocated).
  The end of the kernel image is a linker symbol and a parameter.

  The allocator keeps a cursor below which no allocatable page is free. The main theorem shows
  that this makes \<open>kalloc\<close> the first-fit search over all physical pages.
\<close>

section \<open>Definitions\<close>

definition PAGESIZE :: nat where "PAGESIZE = 4096"
definition PAGEOFFMASK :: "64 word" where "PAGEOFFMASK = 0xFFF"
definition KERNEL_START_ADDR :: addr where "KERNEL_START_ADDR = 0x40000"
definition KERNEL_STACK_TOP :: addr where "KERNEL_STACK_TOP = 0x80000"
definition PROC_START_ADDR :: addr where "PROC_START_ADDR = 0x100000"
definition MEMSIZE_PHYSICAL :: addr where "MEMSIZE_PHYSICAL = 0x200000"
definition NPAGES :: nat where "NPAGES = 512"
definition MEMSIZE_VIRTUAL :: addr where "MEMSIZE_VIRTUAL = 0x300000"
definition IOPHYSMEM :: addr where "IOPHYSMEM = 0xA0000"
definition EXTPHYSMEM :: addr where "EXTPHYSMEM = 0x100000"

text \<open>Physical memory, the reference counts of its pages and the cursor of \<open>kalloc\<close>.\<close>

record pmem =
  phys :: memory
  refcounts :: "8 word list"
  next_alloc_pa :: addr

definition page_of :: "addr \<Rightarrow> nat" where
  "page_of pa = unat pa div PAGESIZE"

definition reserved_physical_address :: "addr \<Rightarrow> bool" where
  "reserved_physical_address pa \<longleftrightarrow> pa < of_nat PAGESIZE \<or> (pa \<ge> IOPHYSMEM \<and> pa < EXTPHYSMEM)"

definition allocatable_physical_address :: "addr \<Rightarrow> addr \<Rightarrow> bool" where
  "allocatable_physical_address kernel_end pa \<longleftrightarrow>
     \<not> reserved_physical_address pa
     \<and> (pa < KERNEL_START_ADDR \<or> pa \<ge> round_up kernel_end (of_nat PAGESIZE))
     \<and> (pa < KERNEL_STACK_TOP - of_nat PAGESIZE \<or> pa \<ge> KERNEL_STACK_TOP)
     \<and> pa < MEMSIZE_PHYSICAL"

definition used :: "pmem \<Rightarrow> nat \<Rightarrow> bool" where
  "used k i \<longleftrightarrow> refcounts k ! i \<noteq> 0"

text \<open>The loop of \<open>kalloc\<close>; its guard keeps the page index in range.\<close>

function kalloc_loop :: "addr \<Rightarrow> pmem \<Rightarrow> pmem \<times> addr" where
  "kalloc_loop kernel_end k =
     (if next_alloc_pa k < MEMSIZE_PHYSICAL then
        let pa = next_alloc_pa k;
            k = k\<lparr>next_alloc_pa := next_alloc_pa k + of_nat PAGESIZE\<rparr>
        in if allocatable_physical_address kernel_end pa \<and> \<not> used k (page_of pa)
           then (k\<lparr>refcounts := (refcounts k)[page_of pa := 1], phys := memset (phys k) pa 0xCC PAGESIZE\<rparr>, pa)
           else kalloc_loop kernel_end k
      else (k, 0))"
  by pat_completeness auto
termination
proof (relation "measure (\<lambda>(ke, k). 0x200000 - unat (next_alloc_pa k))", goal_cases)
  case (2 ke k pa k')
  then have "unat (next_alloc_pa k) < 0x200000" by (simp add: MEMSIZE_PHYSICAL_def word_less_nat_alt)
  then show ?case using 2 by (simp add: PAGESIZE_def unat_word_ariths)
qed simp

declare kalloc_loop.simps [simp del]

definition kalloc :: "addr \<Rightarrow> 64 word \<Rightarrow> pmem \<Rightarrow> pmem \<times> addr" where
  "kalloc kernel_end sz k = (if sz > of_nat PAGESIZE then (k, 0) else kalloc_loop kernel_end k)"

definition kfree :: "addr \<Rightarrow> addr \<Rightarrow> pmem \<Rightarrow> pmem cpp" where
  "kfree kernel_end kptr k =
     (if kptr = 0 then Inr k
      else bindE (at (refcounts k) (page_of kptr)) (\<lambda>rc.
        let k = (if rc \<noteq> 0 \<and> allocatable_physical_address kernel_end kptr
                 then k\<lparr>refcounts := (refcounts k)[page_of kptr := rc - 1]\<rparr> else k)
        in Inr (if kptr < next_alloc_pa k then k\<lparr>next_alloc_pa := kptr\<rparr> else k)))"

section \<open>The cursor\<close>

abbreviation page_addr :: "nat \<Rightarrow> addr" where
  "page_addr i \<equiv> of_nat (PAGESIZE * i)"

text \<open>Page \<open>i\<close> of physical memory may be handed out.\<close>

definition free_page :: "addr \<Rightarrow> pmem \<Rightarrow> nat \<Rightarrow> bool" where
  "free_page kernel_end k i \<longleftrightarrow> allocatable_physical_address kernel_end (page_addr i) \<and> \<not> used k i"

definition pmem_ok :: "addr \<Rightarrow> pmem \<Rightarrow> bool" where
  "pmem_ok kernel_end k \<longleftrightarrow> length (refcounts k) = NPAGES \<and> PAGESIZE dvd unat (next_alloc_pa k)
     \<and> list_all (\<lambda>i. free_page kernel_end k i \<longrightarrow> unat (next_alloc_pa k) \<le> PAGESIZE * i) [0..<NPAGES]"

lemma kalloc_consts [simp]: "PAGESIZE = 4096" "NPAGES = 512"
  by (simp_all add: PAGESIZE_def NPAGES_def)

lemma unat_page_addr: "i \<le> 512 \<Longrightarrow> unat (page_addr i) = 4096 * i"
  by (simp only: kalloc_consts) (rule unat_of_nat_small, simp)

lemma page_of_page_addr: "i \<le> 512 \<Longrightarrow> page_of (page_addr i) = i"
  unfolding page_of_def by (subst unat_page_addr) simp_all

text \<open>First-fit search from page \<open>j\<close> on, the reference for the loop.\<close>

definition first_fit :: "addr \<Rightarrow> pmem \<Rightarrow> nat \<Rightarrow> pmem \<times> addr" where
  "first_fit kernel_end k j =
     (case List.find (free_page kernel_end k) [j..<NPAGES] of
        Some i \<Rightarrow> (k\<lparr>refcounts := (refcounts k)[i := 1], phys := memset (phys k) (page_addr i) 0xCC PAGESIZE,
                     next_alloc_pa := page_addr (Suc i)\<rparr>, page_addr i)
      | None \<Rightarrow> (k\<lparr>next_alloc_pa := page_addr NPAGES\<rparr>, 0))"

lemma free_page_cursor [simp]: "free_page ke (k\<lparr>next_alloc_pa := a\<rparr>) = free_page ke k"
  by (simp add: free_page_def used_def fun_eq_iff)

lemma kalloc_loop_first_fit:
  "next_alloc_pa k = page_addr j \<Longrightarrow> j \<le> 512 \<Longrightarrow> kalloc_loop ke k = first_fit ke k j"
proof (induction "512 - j" arbitrary: j k)
  case 0
  then have "j = 512" by simp
  with 0 show ?case by (simp add: kalloc_loop.simps [of ke k] MEMSIZE_PHYSICAL_def first_fit_def)
next
  case (Suc n)
  have j: "j < 512" using Suc.hyps(2) by simp
  let ?k = "k\<lparr>next_alloc_pa := page_addr (Suc j)\<rparr>"
  have nx: "next_alloc_pa k + of_nat PAGESIZE = page_addr (Suc j)" using Suc.prems(1) by (simp add: algebra_simps)
  have "unat (next_alloc_pa k) < unat (MEMSIZE_PHYSICAL)"
    using Suc.prems j unat_page_addr [of j] by (simp add: MEMSIZE_PHYSICAL_def)
  then have guard: "next_alloc_pa k < MEMSIZE_PHYSICAL" by (simp only: word_less_nat_alt)
  have up: "[j..<512] = j # [Suc j..<512]" using j by (simp add: upt_rec)
  have pg: "page_of (next_alloc_pa k) = j" using page_of_page_addr [of j] j Suc.prems(1) by simp
  show ?case
  proof (cases "free_page ke k j")
    case True
    then have "allocatable_physical_address ke (next_alloc_pa k)" "\<not> used k j"
      using Suc.prems(1) by (simp_all add: free_page_def)
    then show ?thesis
      using guard nx pg True Suc.prems(1)
      by (simp add: kalloc_loop.simps [of ke k] Let_def used_def first_fit_def up del: kalloc_consts(1) of_nat_mult of_nat_Suc)
  next
    case False
    then have "\<not> (allocatable_physical_address ke (next_alloc_pa k) \<and> \<not> used ?k (page_of (next_alloc_pa k)))"
      using Suc.prems(1) pg by (simp add: free_page_def used_def)
    then have "kalloc_loop ke k = kalloc_loop ke ?k"
      by (subst kalloc_loop.simps) (simp only: Let_def nx guard if_True if_False)
    also have "\<dots> = first_fit ke ?k (Suc j)" using Suc.hyps(1) [of "Suc j" ?k] Suc.hyps(2) j by simp
    also have "\<dots> = first_fit ke k j"
      using False by (simp add: first_fit_def up split: option.splits)
    finally show ?thesis .
  qed
qed

lemma find_skip: "j \<le> n \<Longrightarrow> \<forall>i < j. \<not> P i \<Longrightarrow> List.find P [0..<n] = List.find P [j..<n]"
proof -
  assume "j \<le> n" and none: "\<forall>i < j. \<not> P i"
  then have "[0..<n] = [0..<j] @ [j..<n]" by (metis le0 le_add_diff_inverse upt_add_eq_append)
  moreover have "List.find P [0..<j] = None" using none by (simp add: find_None_iff)
  moreover have "List.find P (xs @ ys) = (case List.find P xs of None \<Rightarrow> List.find P ys | Some x \<Rightarrow> Some x)" for xs ys
    by (induction xs) auto
  ultimately show ?thesis by simp
qed

lemma pmem_ok_iff:
  "pmem_ok ke k \<longleftrightarrow> length (refcounts k) = 512 \<and> 4096 dvd unat (next_alloc_pa k)
     \<and> (\<forall>i < 512. free_page ke k i \<longrightarrow> unat (next_alloc_pa k) \<le> 4096 * i)"
  by (auto simp: pmem_ok_def list_all_iff)

lemma pmem_ok_cursor:
  assumes "pmem_ok ke k"
  obtains j where "unat (next_alloc_pa k) = 4096 * j" and "\<forall>i < j. i < 512 \<longrightarrow> \<not> free_page ke k i"
proof -
  obtain j where "unat (next_alloc_pa k) = 4096 * j" using assms by (auto simp: pmem_ok_def elim: dvdE)
  moreover from this have "\<forall>i < j. i < 512 \<longrightarrow> \<not> free_page ke k i" using assms by (auto simp: pmem_ok_def list_all_iff)
  ultimately show thesis by (rule that)
qed

text \<open>
  What \<open>kalloc\<close> does to the state: nothing but moving the cursor when it fails, and handing out
  page \<open>i\<close> when it succeeds.
\<close>

lemma kalloc_first_fit:
  assumes "pmem_ok ke k" and "sz \<le> 4096"
  shows "case List.find (free_page ke k) [0..<NPAGES] of
      None \<Rightarrow> (\<exists>a. kalloc ke sz k = (k\<lparr>next_alloc_pa := a\<rparr>, 0) \<and> 4096 * 512 \<le> unat a \<and> 4096 dvd unat a)
    | Some i \<Rightarrow> kalloc ke sz k =
        (k\<lparr>refcounts := (refcounts k)[i := 1], phys := memset (phys k) (page_addr i) 0xCC PAGESIZE,
           next_alloc_pa := page_addr (Suc i)\<rparr>, page_addr i)"
proof -
  obtain j where j: "unat (next_alloc_pa k) = 4096 * j" "\<forall>i < j. i < 512 \<longrightarrow> \<not> free_page ke k i"
    using pmem_ok_cursor [OF assms(1)] .
  have kalloc: "kalloc ke sz k = kalloc_loop ke k" using assms(2) by (simp add: kalloc_def not_less [symmetric])
  show ?thesis
  proof (cases "j \<le> 512")
    case True
    have "next_alloc_pa k = page_addr j" by (rule word_unat_eq_iff [THEN iffD2]) (use True j(1) unat_page_addr [of j] in simp)
    then have "kalloc ke sz k = first_fit ke k j" using kalloc kalloc_loop_first_fit True by simp
    moreover have "List.find (free_page ke k) [0..<512] = List.find (free_page ke k) [j..<512]"
      using True j(2) by (intro find_skip) auto
    moreover have "unat (page_addr 512) = 4096 * 512" by (rule unat_page_addr) simp
    ultimately show ?thesis
      by (cases "List.find (free_page ke k) [j..<512]")
        (simp_all add: first_fit_def exI [of _ "page_addr 512"] del: of_nat_mult of_nat_numeral of_nat_Suc)
  next
    case False
    then have "\<not> next_alloc_pa k < MEMSIZE_PHYSICAL" by (simp add: word_less_nat_alt j(1) MEMSIZE_PHYSICAL_def)
    then have "kalloc ke sz k = (k, 0)" by (simp add: kalloc kalloc_loop.simps [of ke k])
    moreover have "List.find (free_page ke k) [0..<512] = None" using False j(2) by (auto simp: find_None_iff)
    ultimately show ?thesis using False j(1) by (auto intro!: exI [of _ "next_alloc_pa k"])
  qed
qed

lemma allocatable_range:
  assumes "allocatable_physical_address ke pa"
  shows "4096 \<le> unat pa" and "unat pa < 4096 * 512" and "page_of pa < 512"
proof -
  show r: "4096 \<le> unat pa" "unat pa < 4096 * 512"
    using assms by (simp_all add: allocatable_physical_address_def reserved_physical_address_def MEMSIZE_PHYSICAL_def
        word_less_nat_alt not_less)
  then show "page_of pa < 512" by (simp add: page_of_def div_less_iff_less_mult)
qed

lemma pmem_ok_kalloc:
  assumes "pmem_ok ke k"
  shows "pmem_ok ke (fst (kalloc ke sz k))"
proof (cases "sz \<le> 4096")
  case True
  note ff = kalloc_first_fit [OF assms True]
  show ?thesis
  proof (cases "List.find (free_page ke k) [0..<NPAGES]")
    case None
    then obtain a where "kalloc ke sz k = (k\<lparr>next_alloc_pa := a\<rparr>, 0)" "4096 * 512 \<le> unat a" "4096 dvd unat a"
      using ff by auto
    then show ?thesis using assms None by (auto simp: pmem_ok_def list_all_iff find_None_iff)
  next
    case (Some i)
    then have i: "i < 512" "free_page ke k i" "\<forall>l < i. \<not> free_page ke k l"
      by (auto simp: find_Some_iff)
    let ?k = "k\<lparr>refcounts := (refcounts k)[i := 1], phys := memset (phys k) (page_addr i) 0xCC PAGESIZE,
           next_alloc_pa := page_addr (Suc i)\<rparr>"
    have nx: "unat (next_alloc_pa ?k) = 4096 * Suc i" using unat_page_addr [of "Suc i"] i(1) by simp
    have "pmem_ok ke ?k" unfolding pmem_ok_iff nx
    proof (intro conjI allI impI)
      fix l
      assume "l < 512" "free_page ke ?k l"
      then have "Suc i \<le> l"
        using i assms by (cases l i rule: linorder_cases) (auto simp: free_page_def used_def pmem_ok_iff)
      then show "4096 * Suc i \<le> 4096 * l" by (rule mult_le_mono2)
    qed (use assms in \<open>simp_all add: pmem_ok_iff\<close>)
    then show ?thesis using ff Some by simp
  qed
next
  case False
  then show ?thesis using assms by (simp add: kalloc_def not_less [symmetric])
qed

lemma pmem_ok_kfree:
  assumes "pmem_ok ke k" and "4096 dvd unat p" and "kfree ke p k = Inr k'"
  shows "pmem_ok ke k'"
proof (cases "p = 0")
  case True
  then show ?thesis using assms by (simp add: kfree_def)
next
  case False
  obtain j where j: "unat p = 4096 * j" using assms(2) by (auto elim: dvdE)
  then have pg: "page_of p = j" by (simp add: page_of_def)
  define k1 where "k1 = (if refcounts k ! j \<noteq> 0 \<and> allocatable_physical_address ke p
    then k\<lparr>refcounts := (refcounts k)[j := refcounts k ! j - 1]\<rparr> else k)"
  have k': "k' = (if p < next_alloc_pa k1 then k1\<lparr>next_alloc_pa := p\<rparr> else k1)"
    using assms(3) False by (auto simp: kfree_def pg bindE_Inr_iff at_Inr_iff k1_def Let_def)
  have "free_page ke k1 l \<Longrightarrow> free_page ke k l \<or> l = j" for l
    by (cases "l = j") (auto simp: free_page_def used_def k1_def split: if_splits)
  moreover have "length (refcounts k1) = length (refcounts k)" "next_alloc_pa k1 = next_alloc_pa k" by (simp_all add: k1_def)
  ultimately have "length (refcounts k1) = 512" "4096 dvd unat (next_alloc_pa k1)"
    "\<forall>i < 512. free_page ke k1 i \<longrightarrow> i = j \<or> unat (next_alloc_pa k1) \<le> 4096 * i"
    using assms(1) unfolding pmem_ok_iff by auto
  then show ?thesis
    using assms(2) j unfolding k' pmem_ok_iff word_less_nat_alt by fastforce
qed

section \<open>Allocation\<close>

lemma kalloc_cases:
  assumes "pmem_ok ke k" and "sz \<le> 4096"
  obtains (none) a where "kalloc ke sz k = (k\<lparr>next_alloc_pa := a\<rparr>, 0)" "\<forall>i < 512. \<not> free_page ke k i"
  | (page) i where "i < 512" "free_page ke k i" "\<forall>l < i. \<not> free_page ke k l" "page_addr i \<noteq> 0"
      "kalloc ke sz k = (k\<lparr>refcounts := (refcounts k)[i := 1], phys := fill_bytes (phys k) (page_addr i) 0xCC 4096,
        next_alloc_pa := page_addr (Suc i)\<rparr>, page_addr i)"
proof (cases "List.find (free_page ke k) [0..<NPAGES]")
  case None
  with kalloc_first_fit [OF assms] obtain a where "kalloc ke sz k = (k\<lparr>next_alloc_pa := a\<rparr>, 0)" by auto
  with None show thesis using none by (auto simp: find_None_iff)
next
  case (Some i)
  then have i: "i < 512" "free_page ke k i" "\<forall>l < i. \<not> free_page ke k l" by (auto simp: find_Some_iff)
  have "unat (page_addr i) \<noteq> 0" using allocatable_range(1) [of ke "page_addr i"] i(2) by (simp add: free_page_def)
  then have "page_addr i \<noteq> 0" by (simp only: unat_eq_0 not_False_eq_True simp_thms)
  then show thesis using kalloc_first_fit [OF assms] Some i page [of i] by (simp add: memset_fill)
qed

text \<open>
  C20: \<open>kalloc\<close> is first fit over all of physical memory. It returns null only when no
  allocatable page is free, and then changes neither a reference count nor memory; otherwise it
  returns the lowest free allocatable page, now with reference count 1 and filled with 0xCC, and
  everything else stays. The cursor invariant that makes this so is kept.
\<close>

theorem kalloc_exact:
  assumes "pmem_ok ke k" and "sz \<le> 4096" and "kalloc ke sz k = (k', pa)"
  shows "pmem_ok ke k' \<and> (pa = 0 \<longleftrightarrow> (\<forall>i < NPAGES. \<not> free_page ke k i))
    \<and> (pa = 0 \<longrightarrow> refcounts k' = refcounts k \<and> phys k' = phys k)
    \<and> (pa \<noteq> 0 \<longrightarrow> (\<exists>i < NPAGES. pa = page_addr i \<and> free_page ke k i \<and> (\<forall>l < i. \<not> free_page ke k l)
        \<and> refcounts k' = (refcounts k)[i := 1] \<and> phys k' = fill_bytes (phys k) pa 0xCC PAGESIZE))"
  using assms(1,2)
proof (cases rule: kalloc_cases)
  case (none a)
  then show ?thesis using assms pmem_ok_kalloc [OF assms(1), of sz] by auto
next
  case (page i)
  have "pmem_ok ke k'" using assms(3) pmem_ok_kalloc [OF assms(1), of sz] by simp
  moreover have "pa = page_addr i" "refcounts k' = (refcounts k)[i := 1]" "phys k' = fill_bytes (phys k) pa 0xCC PAGESIZE"
    using assms(3) page(5) by auto
  ultimately show ?thesis using page(1-4) by auto
qed

definition boot_pmem :: pmem where
  "boot_pmem = \<lparr>phys = \<lambda>_. 0, refcounts = replicate NPAGES 0, next_alloc_pa = 0\<rparr>"

lemma pmem_ok_boot: "pmem_ok ke boot_pmem"
  by (simp add: pmem_ok_iff boot_pmem_def)

theorem kalloc_exact_witness:
  "\<exists>k' pa. kalloc 0x5A000 4096 boot_pmem = (k', pa) \<and> (pa = 0 \<longleftrightarrow> (\<forall>i < NPAGES. \<not> free_page 0x5A000 boot_pmem i))"
proof -
  obtain k' pa where "kalloc 0x5A000 4096 boot_pmem = (k', pa)" by fastforce
  with kalloc_exact [OF pmem_ok_boot _ this] show ?thesis by auto
qed

text \<open>
  C21: freeing works. Freeing a page in use gives up exactly one reference and no memory
  is touched; when it was the last one, the next \<open>kalloc\<close> succeeds. Freeing null or a page that
  is already free changes no reference count, so a double free cannot make a count wrap around.
\<close>

theorem kfree_exact:
  assumes "pmem_ok ke k" and "i < NPAGES" and "allocatable_physical_address ke (page_addr i)"
  shows "\<exists>k'. kfree ke (page_addr i) k = Inr k' \<and> pmem_ok ke k' \<and> phys k' = phys k
    \<and> refcounts k' = (if used k i then (refcounts k)[i := refcounts k ! i - 1] else refcounts k)
    \<and> (refcounts k ! i = 1 \<longrightarrow> snd (kalloc ke 4096 k') \<noteq> 0)"
proof -
  let ?p = "page_addr i"
  have i: "i < 512" using assms(2) by simp
  have u: "unat ?p = 4096 * i" "page_of ?p = i" using unat_page_addr [of i] page_of_page_addr [of i] i by simp_all
  have "?p \<noteq> 0"
    using allocatable_range(1) [OF assms(3)] u(1) by (metis not_numeral_le_zero unsigned_0)
  then obtain k' where k': "kfree ke ?p k = Inr k'"
    and f: "refcounts k' = (if used k i then (refcounts k)[i := refcounts k ! i - 1] else refcounts k)" "phys k' = phys k"
    using i assms(1,3) u(2) by (fastforce simp: kfree_def used_def Let_def pmem_ok_iff)
  have ok: "pmem_ok ke k'" by (rule pmem_ok_kfree [OF assms(1) _ k']) (simp only: u(1) dvd_triv_left)
  have "snd (kalloc ke 4096 k') \<noteq> 0" if "refcounts k ! i = 1"
  proof -
    have "free_page ke k' i" using that assms(1,3) f(1) i by (simp add: free_page_def used_def pmem_ok_iff)
    then show ?thesis using i by (cases rule: kalloc_cases [OF ok, of 4096]) auto
  qed
  then show ?thesis using k' ok f by blast
qed

theorem kfree_exact_witness:
  "\<exists>k'. kfree 0x5A000 (page_addr 1) boot_pmem = Inr k' \<and> pmem_ok 0x5A000 k'"
  using kfree_exact [OF pmem_ok_boot, of 1 "0x5A000"]
  by (auto simp: allocatable_physical_address_def reserved_physical_address_def IOPHYSMEM_def KERNEL_START_ADDR_def
    KERNEL_STACK_TOP_def MEMSIZE_PHYSICAL_def)

section \<open>The allocator as an interface\<close>

text \<open>
  What the page tables and processes rely on: an allocation hands out a page nobody holds and
  leaves every other page as it was.
\<close>

locale page_allocator =
  fixes alloc :: "'s \<Rightarrow> 's \<times> addr"
    and live :: "'s \<Rightarrow> nat set"
    and valid :: "'s \<Rightarrow> bool"
  assumes alloc_valid: "valid s \<Longrightarrow> alloc s = (s', a) \<Longrightarrow> valid s'"
    and alloc_fresh: "valid s \<Longrightarrow> alloc s = (s', a) \<Longrightarrow> a \<noteq> 0 \<Longrightarrow>
      page_of a \<notin> live s \<and> live s' = insert (page_of a) (live s)"
    and alloc_none: "valid s \<Longrightarrow> alloc s = (s', 0) \<Longrightarrow> live s' = live s"

fun alloc_many :: "('s \<Rightarrow> 's \<times> addr) \<Rightarrow> nat \<Rightarrow> 's \<Rightarrow> 's \<times> addr list" where
  "alloc_many alloc 0 s = (s, [])"
| "alloc_many alloc (Suc n) s =
     (let (s, a) = alloc s; (s, as) = alloc_many alloc n s in (s, a # as))"

context page_allocator
begin

lemma alloc_many_distinct:
  "valid s \<Longrightarrow> alloc_many alloc n s = (s', as) \<Longrightarrow>
    distinct (map page_of (filter (\<lambda>a. a \<noteq> 0) as)) \<and> page_of ` (set as - {0}) \<inter> live s = {}"
proof (induction n arbitrary: s s' as)
  case (Suc n)
  obtain s1 a as1 where s1: "alloc s = (s1, a)" and as: "alloc_many alloc n s1 = (s', as1)" "as = a # as1"
    using Suc.prems(2) by (auto simp: Let_def split: prod.splits)
  note IH = Suc.IH [OF alloc_valid [OF Suc.prems(1) s1] as(1)]
  show ?case
  proof (cases "a = 0")
    case True
    then have "live s1 = live s" using alloc_none Suc.prems(1) s1 by simp
    then show ?thesis using IH as(2) True by auto
  next
    case False
    then have "page_of a \<notin> live s" "live s1 = insert (page_of a) (live s)" using alloc_fresh Suc.prems(1) s1 by auto
    then show ?thesis using IH as(2) False by (auto simp: image_iff)
  qed
qed simp

end

definition live_pages :: "pmem \<Rightarrow> nat set" where
  "live_pages k = {i. i < NPAGES \<and> used k i}"

lemma kalloc_live:
  assumes "pmem_ok ke k" and "kalloc ke 4096 k = (k', a)"
  shows "if a = 0 then live_pages k' = live_pages k
    else page_of a \<notin> live_pages k \<and> live_pages k' = insert (page_of a) (live_pages k)"
proof (cases rule: kalloc_cases [OF assms(1), of 4096])
  case (2 b)
  then show ?thesis using assms(2) by (auto simp: live_pages_def used_def)
next
  case (3 i)
  have "page_of a = i" using assms(2) 3 page_of_page_addr [of i] by simp
  moreover have "refcounts k' = (refcounts k)[i := 1]" "length (refcounts k) = 512" "a \<noteq> 0"
    using assms 3 by (auto simp: pmem_ok_iff)
  ultimately show ?thesis using 3 by (auto simp: live_pages_def used_def free_page_def nth_list_update split: if_splits)
qed simp

interpretation ka: page_allocator "kalloc ke 4096" live_pages "pmem_ok ke" for ke
proof
  fix s s' a
  assume s: "pmem_ok ke s" and "kalloc ke 4096 s = (s', a)"
  then show "pmem_ok ke s'" using pmem_ok_kalloc [OF s, of 4096] by simp
next
  fix s s' a
  assume "pmem_ok ke s" and "kalloc ke 4096 s = (s', a)" and "a \<noteq> 0"
  then show "page_of a \<notin> live_pages s \<and> live_pages s' = insert (page_of a) (live_pages s)" using kalloc_live [of ke s s' a] by simp
next
  fix s s'
  assume "pmem_ok ke s" and "kalloc ke 4096 s = (s', 0)"
  then show "live_pages s' = live_pages s" using kalloc_live [of ke s s' 0] by simp
qed

text \<open>
  Successive allocations never hand out the same page twice, nor a page in use.
\<close>

theorem kalloc_distinct:
  assumes "pmem_ok ke k" and "alloc_many (kalloc ke 4096) n k = (k', as)"
  shows "distinct (map page_of (filter (\<lambda>a. a \<noteq> 0) as)) \<and> page_of ` (set as - {0}) \<inter> live_pages k = {}"
  using ka.alloc_many_distinct [OF assms] .

theorem kalloc_distinct_witness:
  "\<exists>k' as. alloc_many (kalloc 0x5A000 4096) 600 boot_pmem = (k', as) \<and> distinct (map page_of (filter (\<lambda>a. a \<noteq> 0) as))"
proof -
  obtain k' as where "alloc_many (kalloc 0x5A000 4096) 600 boot_pmem = (k', as)" by (metis prod.exhaust)
  with kalloc_distinct [OF pmem_ok_boot this] show ?thesis by blast
qed

end
