(* ===== verification/VMIter.thy ===== *)
theory VMIter
  imports KAlloc
begin

unbundle bit_operations_syntax

text \<open>
  The x86-64 page tables and the iterators over them (\<open>weensyos/x86-64.h\<close>,
  \<open>k-vmiter.hh\<close>, \<open>k-vmiter.cc\<close>), over byte-addressed physical memory: the kernel maps physical
  memory at the same virtual addresses, so a page table pointer is a physical address. A page
  table has four levels; an iterator sits at an entry of one level. A \<open>panic\<close> is \<open>Abort\<close>.

  The entry pointer of an iterator at a non-canonical address points at the constant
  \<open>zero_pe\<close>, here \<open>None\<close>.
\<close>

section \<open>Page table entries and address parts\<close>

definition PTE_P :: "64 word" where "PTE_P = 1"
definition PTE_W :: "64 word" where "PTE_W = 2"
definition PTE_U :: "64 word" where "PTE_U = 4"
definition PTE_PS :: "64 word" where "PTE_PS = 0x80"
definition PTE_PAMASK :: "64 word" where "PTE_PAMASK = 0x000FFFFFFFFFF000"
definition VA_LOWMAX :: addr where "VA_LOWMAX = 0x00007FFFFFFFFFFF"
definition VA_HIGHMIN :: addr where "VA_HIGHMIN = 0xFFFF800000000000"
definition VA_NONCANONMAX :: addr where "VA_NONCANONMAX = 0x0000FFFFFFFFFFFF"

definition pageindex :: "addr \<Rightarrow> nat \<Rightarrow> nat" where
  "pageindex a level = unat (drop_bit (12 + level * 9) a AND 0x1FF)"

definition pageoffmask :: "nat \<Rightarrow> addr" where
  "pageoffmask level = push_bit (12 + level * 9) 1 - 1"

definition va_is_canonical :: "addr \<Rightarrow> bool" where
  "va_is_canonical va \<longleftrightarrow> va \<le> VA_LOWMAX \<or> va \<ge> VA_HIGHMIN"

text \<open>The address of an entry of a page table page.\<close>

definition pt_entry :: "addr \<Rightarrow> nat \<Rightarrow> addr" where
  "pt_entry pt i = pt + 8 * of_nat i"

section \<open>The iterator over mappings\<close>

record vmiter =
  vm_pt :: addr
  vm_pep :: "addr option"
  vm_level :: nat
  vm_perm :: "64 word"
  vm_va :: addr

definition pe :: "memory \<Rightarrow> addr option \<Rightarrow> 64 word" where
  "pe m pep = (case pep of None \<Rightarrow> 0 | Some a \<Rightarrow> load64 m a)"

definition is_table :: "64 word \<Rightarrow> bool" where
  "is_table e \<longleftrightarrow> e AND (PTE_P OR PTE_PS) = PTE_P"

fun down_loop :: "memory \<Rightarrow> addr \<Rightarrow> nat \<Rightarrow> addr option \<Rightarrow> 64 word \<Rightarrow> nat \<times> addr option \<times> 64 word" where
  "down_loop m va 0 pep perm = (0, pep, perm)"
| "down_loop m va (Suc level) pep perm =
     (if is_table (pe m pep) then
        down_loop m va level (Some (pt_entry (pe m pep AND PTE_PAMASK) (pageindex va level))) (perm AND pe m pep)
      else (Suc level, pep, perm))"

definition vm_down :: "memory \<Rightarrow> vmiter \<Rightarrow> vmiter cpp" where
  "vm_down m it =
     (let (level, pep, perm) = down_loop m (vm_va it) (vm_level it) (vm_pep it) (vm_perm it) in
      if pe m pep AND PTE_PAMASK \<ge> 0x100000000 then Inl Abort
      else Inr (it\<lparr>vm_level := level, vm_pep := pep, vm_perm := perm\<rparr>))"

definition initial_perm :: "64 word" where
  "initial_perm = 0xFFF"

definition vm_real_find :: "memory \<Rightarrow> addr \<Rightarrow> vmiter \<Rightarrow> vmiter cpp" where
  "vm_real_find m va it =
     (let it =
        (if vm_level it = 3 \<or> (vm_va it XOR va) AND NOT (pageoffmask (vm_level it + 1)) \<noteq> 0 then
           if va_is_canonical va
           then it\<lparr>vm_level := 3, vm_perm := initial_perm, vm_pep := Some (pt_entry (vm_pt it) (pageindex va 3))\<rparr>
           else it\<lparr>vm_level := 3, vm_perm := 0, vm_pep := None\<rparr>
         else
           it\<lparr>vm_pep := map_option (\<lambda>p.
             let curidx = drop_bit 3 (p AND PAGEOFFMASK)
             in p + 8 * (of_nat (pageindex va (vm_level it)) - curidx)) (vm_pep it)\<rparr>)
      in vm_down m (it\<lparr>vm_va := va\<rparr>))"

definition new_vmiter :: "memory \<Rightarrow> addr \<Rightarrow> addr \<Rightarrow> vmiter cpp" where
  "new_vmiter m pt va =
     vm_real_find m va \<lparr>vm_pt = pt, vm_pep = Some (pt_entry pt 0), vm_level = 3, vm_perm = initial_perm, vm_va = 0\<rparr>"

definition vm_last_va :: "vmiter \<Rightarrow> addr" where
  "vm_last_va it = (vm_va it OR pageoffmask (vm_level it)) + 1"

definition vm_pa :: "memory \<Rightarrow> vmiter \<Rightarrow> 64 word" where
  "vm_pa m it =
     (let e = pe m (vm_pep it) in
      if e AND PTE_P \<noteq> 0 then
        let pa = e AND PTE_PAMASK;
            pa = (if vm_level it > 0 then pa AND NOT 0x1000 else pa)
        in pa + (vm_va it AND pageoffmask (vm_level it))
      else - 1)"

definition vm_perms :: "memory \<Rightarrow> vmiter \<Rightarrow> 64 word" where
  "vm_perms m it =
     (let e = pe m (vm_pep it) in if e AND PTE_P \<noteq> 0 then e AND vm_perm it else 0)"

definition vm_has_perm :: "memory \<Rightarrow> vmiter \<Rightarrow> 64 word \<Rightarrow> bool" where
  "vm_has_perm m it p \<longleftrightarrow> pe m (vm_pep it) AND vm_perm it AND p = p"

definition vm_present :: "memory \<Rightarrow> vmiter \<Rightarrow> bool" where
  "vm_present m it \<longleftrightarrow> pe m (vm_pep it) AND PTE_P \<noteq> 0"

definition vm_writable :: "memory \<Rightarrow> vmiter \<Rightarrow> bool" where
  "vm_writable m it \<longleftrightarrow> vm_has_perm m it (PTE_P OR PTE_W)"

definition vm_user :: "memory \<Rightarrow> vmiter \<Rightarrow> bool" where
  "vm_user m it \<longleftrightarrow> vm_has_perm m it (PTE_P OR PTE_U)"

definition vm_find :: "memory \<Rightarrow> addr \<Rightarrow> vmiter \<Rightarrow> vmiter cpp" where
  "vm_find m va it = vm_real_find m va it"

definition vm_add :: "memory \<Rightarrow> 64 word \<Rightarrow> vmiter \<Rightarrow> vmiter cpp" where
  "vm_add m delta it = vm_find m (vm_va it + delta) it"

definition vm_next :: "memory \<Rightarrow> vmiter \<Rightarrow> vmiter cpp" where
  "vm_next m it =
     (let level = (if vm_level it > 0 \<and> vm_perms m it = 0 then vm_level it else 0)
      in vm_real_find m ((vm_va it OR pageoffmask level) + 1) it)"

definition vm_next_range :: "memory \<Rightarrow> vmiter \<Rightarrow> vmiter cpp" where
  "vm_next_range m it = vm_real_find m (vm_last_va it) it"

text \<open>
  The loop of \<open>try_map\<close> that adds page table pages. Each round goes down at least one level
  when the allocator returns page-aligned addresses; the fuel of four rounds is then never used
  up, and running out stands for a loop that does not end.
\<close>

fun try_map_loop :: "nat \<Rightarrow> addr \<Rightarrow> 64 word \<Rightarrow> vmiter \<Rightarrow> pmem \<Rightarrow> (bool \<times> vmiter \<times> pmem) cpp" where
  "try_map_loop 0 kernel_end perm it k = Inl Blocks"
| "try_map_loop (Suc fuel) kernel_end perm it k =
     (if vm_level it > 0 \<and> perm \<noteq> 0 then
        if pe (phys k) (vm_pep it) AND PTE_P \<noteq> 0 then Inl AssertFail
        else
          let (k, pt) = kalloc kernel_end (of_nat PAGESIZE) k in
          if pt = 0 then Inr (False, it, k)
          else
            case vm_pep it of
              None \<Rightarrow> Inl Undefined
            | Some pep \<Rightarrow>
                let k = k\<lparr>phys := memset (phys k) pt 0 PAGESIZE\<rparr>;
                    k = k\<lparr>phys := store64 (phys k) pep (pt OR PTE_P OR PTE_W OR PTE_U)\<rparr>
                in bindE (vm_down (phys k) it) (\<lambda>it. try_map_loop fuel kernel_end perm it k)
      else Inr (True, it, k))"

definition vm_try_map :: "addr \<Rightarrow> 64 word \<Rightarrow> 64 word \<Rightarrow> vmiter \<Rightarrow> pmem \<Rightarrow> (int \<times> vmiter \<times> pmem) cpp" where
  "vm_try_map kernel_end pa perm it k =
     (let pa = (if pa = - 1 \<and> perm = 0 then 0 else pa) in
      bindE (assertE (vm_va it AND PAGEOFFMASK = 0)) (\<lambda>_.
      bindE (if perm AND PTE_P \<noteq> 0 then assertE (pa \<noteq> - 1 \<and> pa AND PTE_PAMASK = pa)
             else assertE (pa AND PTE_P = 0)) (\<lambda>_.
      bindE (assertE (perm AND NOT (vm_perm it) AND (PTE_P OR PTE_W OR PTE_U) = 0)) (\<lambda>_.
      bindE (try_map_loop 4 kernel_end perm it k) (\<lambda>(done, it, k).
      if \<not> done then Inr (- 1, it, k)
      else if vm_level it = 0 then
        case vm_pep it of
          None \<Rightarrow> Inl Undefined
        | Some pep \<Rightarrow> Inr (0, it, k\<lparr>phys := store64 (phys k) pep (pa OR perm)\<rparr>)
      else Inr (0, it, k))))))"

definition vm_map :: "addr \<Rightarrow> 64 word \<Rightarrow> 64 word \<Rightarrow> vmiter \<Rightarrow> pmem \<Rightarrow> (vmiter \<times> pmem) cpp" where
  "vm_map kernel_end pa perm it k =
     bindE (vm_try_map kernel_end pa perm it k) (\<lambda>(r, it, k).
     bindE (assertE (r = 0)) (\<lambda>_. Inr (it, k)))"

section \<open>The iterator over page table pages\<close>

record ptiter =
  pti_pt :: addr
  pti_pep :: addr
  pti_level :: nat
  pti_va :: addr

text \<open>The loop of \<open>down\<close> has no bound of its own: not returning is \<open>None\<close>.\<close>

partial_function (option) pti_down_loop :: "memory \<Rightarrow> nat \<Rightarrow> bool \<Rightarrow> ptiter \<Rightarrow> ptiter option" where
  "pti_down_loop m stop_level skip it =
     (if is_table (load64 m (pti_pep it)) \<and> \<not> skip then
        if pti_level it = stop_level then Some it
        else
          let level = pti_level it - 1 in
          pti_down_loop m stop_level skip
            (it\<lparr>pti_level := level,
                pti_pep := pt_entry (load64 m (pti_pep it) AND PTE_PAMASK) (pageindex (pti_va it) level)\<rparr>)
      else
        let va = (pti_va it OR pageoffmask (pti_level it)) + 1 in
        if (va XOR pti_va it) AND NOT (pageoffmask (pti_level it + 1)) \<noteq> 0 then
          if pti_level it = 3 then Some (it\<lparr>pti_va := VA_NONCANONMAX + 1\<rparr>)
          else
            pti_down_loop m (pti_level it + 1) False
              (it\<lparr>pti_level := 3, pti_pep := pt_entry (pti_pt it) (pageindex (pti_va it) 3)\<rparr>)
        else
          pti_down_loop m stop_level False (it\<lparr>pti_pep := pti_pep it + 8, pti_va := va\<rparr>))"

definition pti_down :: "memory \<Rightarrow> bool \<Rightarrow> ptiter \<Rightarrow> ptiter option" where
  "pti_down m skip it = pti_down_loop m 1 skip it"

definition new_ptiter :: "memory \<Rightarrow> addr \<Rightarrow> addr \<Rightarrow> ptiter option" where
  "new_ptiter m pt va = pti_down m False \<lparr>pti_pt = pt, pti_pep = pt_entry pt (pageindex va 3), pti_level = 3, pti_va = va\<rparr>"

definition pti_active :: "ptiter \<Rightarrow> bool" where
  "pti_active it \<longleftrightarrow> pti_va it \<le> VA_NONCANONMAX"

definition pti_next :: "memory \<Rightarrow> ptiter \<Rightarrow> ptiter option" where
  "pti_next m it = pti_down m True it"

definition pti_pa :: "memory \<Rightarrow> ptiter \<Rightarrow> addr" where
  "pti_pa m it = load64 m (pti_pep it) AND PTE_PAMASK"

section \<open>Address arithmetic\<close>

lemma pageoffmask_mask: "pageoffmask level = mask (12 + level * 9)"
  by (simp add: pageoffmask_def mask_eq_exp_minus_1 push_bit_eq_mult)

lemma unat_drop_div: "unat (drop_bit n (a :: 64 word)) = unat a div 2 ^ n"
  by (simp only: unat_drop_bit_eq) (simp only: drop_bit_eq_div)

lemma unat_take_mod: "unat (take_bit n (a :: 64 word)) = unat a mod 2 ^ n"
  by (simp only: unsigned_take_bit_eq) (simp only: take_bit_eq_mod)

lemma PAGEOFFMASK_take: "a AND PAGEOFFMASK = take_bit 12 a"
  by (simp add: PAGEOFFMASK_def take_bit_eq_mask mask_eq_exp_minus_1)

lemma pageindex_lt: "pageindex a level < 512"
proof -
  have "(0x1FF :: 64 word) = mask 9" by (simp add: mask_eq_exp_minus_1)
  then have "pageindex a level = unat (take_bit 9 (drop_bit (12 + level * 9) a))"
    by (simp only: pageindex_def take_bit_eq_mask)
  also have "\<dots> < 2 ^ 9" by (simp only: unat_take_mod) simp
  finally show ?thesis by simp
qed

text \<open>Two addresses agree above level \<open>l\<close>.\<close>

lemma agree_above:
  assumes "(x XOR y) AND NOT (pageoffmask l) = (0 :: addr)"
  shows "drop_bit (12 + l * 9) x = drop_bit (12 + l * 9) y"
proof (rule bit_word_eqI)
  fix n
  have "\<not> bit ((x XOR y) AND NOT (pageoffmask l)) (12 + l * 9 + n)" using assms by simp
  then show "bit (drop_bit (12 + l * 9) x) n = bit (drop_bit (12 + l * 9) y) n"
    by (cases "12 + l * 9 + n < 64")
      (auto simp: pageoffmask_mask bit_and_iff bit_xor_iff bit_not_iff bit_mask_iff bit_drop_bit_eq dest: bit_imp_le_length)
qed

lemma drop_bit_mono_eq:
  assumes "drop_bit n x = drop_bit n (y :: 64 word)" and "n \<le> k"
  shows "drop_bit k x = drop_bit k y"
proof -
  have "drop_bit (k - n) (drop_bit n x) = drop_bit (k - n) (drop_bit n y)" using assms(1) by simp
  then show ?thesis using assms(2) by (simp add: drop_bit_drop_bit)
qed

lemma pageindex_agree:
  "(x XOR y) AND NOT (pageoffmask (Suc l)) = 0 \<Longrightarrow> l < i \<Longrightarrow> pageindex x i = pageindex y i"
  unfolding pageindex_def using drop_bit_mono_eq [OF agree_above, of x y "Suc l" "12 + i * 9"] by simp

lemma canonical_iff: "va_is_canonical va \<longleftrightarrow> drop_bit 47 va \<in> {0, 0x1FFFF}"
proof -
  have u: "unat (drop_bit 47 va) = unat va div 2 ^ 47" by (rule unat_drop_div)
  have b: "unat va < 2 ^ 64" by (rule unat_bound64)
  have "va \<le> VA_LOWMAX \<longleftrightarrow> unat va div 2 ^ 47 = 0" by (simp add: word_le_nat_alt VA_LOWMAX_def) linarith
  moreover have "va \<ge> VA_HIGHMIN \<longleftrightarrow> unat va div 2 ^ 47 = 0x1FFFF"
    using b by (simp add: word_le_nat_alt VA_HIGHMIN_def) linarith
  moreover have "drop_bit 47 va = 0 \<longleftrightarrow> unat va div 2 ^ 47 = 0" unfolding u [symmetric] by (simp add: unat_eq_0)
  moreover have "drop_bit 47 va = 0x1FFFF \<longleftrightarrow> unat va div 2 ^ 47 = 0x1FFFF"
    unfolding u [symmetric] word_unat_eq_iff [of "drop_bit 47 va"] by simp
  ultimately show ?thesis by (simp add: va_is_canonical_def)
qed

lemma canonical_agree:
  "(x XOR y) AND NOT (pageoffmask (Suc l)) = 0 \<Longrightarrow> l < 3 \<Longrightarrow> va_is_canonical x \<longleftrightarrow> va_is_canonical y"
  unfolding canonical_iff using drop_bit_mono_eq [OF agree_above, of x y "Suc l" 47] by simp

text \<open>A page table page starts at a multiple of the page size.\<close>

definition page_aligned :: "addr \<Rightarrow> bool" where
  "page_aligned a \<longleftrightarrow> a AND PAGEOFFMASK = 0"

lemma page_aligned_PAMASK: "page_aligned (e AND PTE_PAMASK)"
  by (simp add: page_aligned_def PTE_PAMASK_def PAGEOFFMASK_def and.assoc)

lemma page_aligned_unat: "page_aligned a \<longleftrightarrow> 4096 dvd unat a"
proof -
  have "page_aligned a \<longleftrightarrow> unat (take_bit 12 a) = 0" by (simp add: page_aligned_def PAGEOFFMASK_take unat_eq_0)
  then show ?thesis by (simp only: unat_take_mod dvd_eq_mod_eq_0) simp
qed

lemma unat_pt_entry:
  assumes "page_aligned pt" and "i < 512"
  shows "unat (pt_entry pt i) = unat pt + 8 * i"
proof -
  obtain j where j: "unat pt = 4096 * j" using assms(1) by (auto simp: page_aligned_unat elim: dvdE)
  then have "unat pt + 8 * i < 2 ^ 64" using unat_bound64 [of pt] assms(2) by simp
  moreover have "unat (8 * of_nat i :: 64 word) = 8 * i" using assms(2) by (simp add: unat_word_ariths unat_of_nat_small)
  ultimately show ?thesis by (simp add: pt_entry_def unat_word_ariths)
qed

lemma entry_index:
  assumes "page_aligned pt" and "i < 512"
  shows "drop_bit 3 (pt_entry pt i AND PAGEOFFMASK) = of_nat i"
proof -
  obtain j where j: "unat pt = 4096 * j" using assms(1) by (auto simp: page_aligned_unat elim: dvdE)
  have "unat (drop_bit 3 (pt_entry pt i AND PAGEOFFMASK)) = unat (pt_entry pt i) mod 2 ^ 12 div 2 ^ 3"
    by (simp only: PAGEOFFMASK_take unat_take_mod unat_drop_div)
  also have "\<dots> = i" using assms(2) j by (simp add: unat_pt_entry [OF assms])
  finally show ?thesis by (metis word_of_nat_unat_self)
qed

section \<open>Moving an iterator is a fresh walk\<close>

lemma down_loop_level: "down_loop m va l pep perm = (L, pep', perm') \<Longrightarrow> L \<le> l"
  by (induction m va l pep perm rule: down_loop.induct) (auto split: if_splits)

lemma down_loop_share:
  assumes "down_loop m va l pep perm = (L, pep', perm')" and "L < l"
    and "(va XOR va') AND NOT (pageoffmask (Suc L)) = 0"
  shows "\<exists>base. page_aligned base \<and> pep' = Some (pt_entry base (pageindex va L))
    \<and> down_loop m va' l pep perm = down_loop m va' L (Some (pt_entry base (pageindex va' L))) perm'"
  using assms
proof (induction l arbitrary: pep perm)
  case (Suc l)
  let ?e = "pe m pep" and ?p = "Some (pt_entry (pe m pep AND PTE_PAMASK) (pageindex va l))"
  have t: "is_table ?e" using Suc.prems(1,2) by (auto split: if_splits)
  then have d: "down_loop m va l ?p (perm AND ?e) = (L, pep', perm')" using Suc.prems(1) by simp
  show ?case
  proof (cases "L < l")
    case True
    have "pageindex va' l = pageindex va l" using pageindex_agree [OF Suc.prems(3) True] by simp
    then show ?thesis using Suc.IH [OF d True Suc.prems(3)] t by simp
  next
    case False
    then have "L = l" using Suc.prems(2) by simp
    moreover have "pep' = ?p" "perm' = perm AND ?e"
      using d \<open>L = l\<close> by (cases l; auto split: if_splits dest!: down_loop_level)+
    ultimately show ?thesis using t page_aligned_PAMASK by auto
  qed
qed simp

text \<open>The iterators that point where a fresh walk to their address ends.\<close>

definition vm_valid :: "memory \<Rightarrow> vmiter \<Rightarrow> bool" where
  "vm_valid m it \<longleftrightarrow> page_aligned (vm_pt it) \<and> new_vmiter m (vm_pt it) (vm_va it) = Inr it"

lemma real_find_walk:
  assumes "vm_valid m it"
  shows "vm_real_find m va it = new_vmiter m (vm_pt it) va"
proof (cases "vm_level it = 3 \<or> (vm_va it XOR va) AND NOT (pageoffmask (vm_level it + 1)) \<noteq> 0")
  case True
  then show ?thesis by (cases it) (simp add: new_vmiter_def vm_real_find_def)
next
  case False
  let ?va = "vm_va it" and ?L = "vm_level it" and ?pt = "vm_pt it"
  have agree: "(?va XOR va) AND NOT (pageoffmask (Suc ?L)) = 0" and "?L \<noteq> 3" using False by auto
  obtain L pep perm where d: "down_loop m ?va 3 (Some (pt_entry ?pt (pageindex ?va 3))) initial_perm = (L, pep, perm)"
    by (metis prod_cases3)
  have can: "va_is_canonical ?va"
    using assms \<open>?L \<noteq> 3\<close> by (cases it) (auto simp: vm_valid_def new_vmiter_def vm_real_find_def vm_down_def pe_def is_table_def
        PTE_P_def numeral_3_eq_3 split: if_splits)
  then have it: "?L = L" "vm_pep it = pep" "vm_perm it = perm"
    using assms d by (cases it; auto simp: vm_valid_def new_vmiter_def vm_real_find_def vm_down_def split: if_splits)+
  have "L < 3" using down_loop_level [OF d] \<open>?L \<noteq> 3\<close> it(1) by simp
  with down_loop_share [OF d] agree it(1) obtain base where base: "page_aligned base" "pep = Some (pt_entry base (pageindex ?va L))"
    and walk: "down_loop m va 3 (Some (pt_entry ?pt (pageindex ?va 3))) initial_perm =
      down_loop m va L (Some (pt_entry base (pageindex va L))) perm"
    by auto
  have "va_is_canonical va" "pageindex ?va 3 = pageindex va 3"
    using can canonical_agree [OF agree] pageindex_agree [OF agree] \<open>L < 3\<close> it(1) by auto
  moreover have "pt_entry base (pageindex ?va L) + 8 * (of_nat (pageindex va L)
      - drop_bit 3 (pt_entry base (pageindex ?va L) AND PAGEOFFMASK)) = pt_entry base (pageindex va L)"
    unfolding entry_index [OF base(1) pageindex_lt] by (simp add: pt_entry_def algebra_simps)
  ultimately show ?thesis
    using False it base(2) walk by (cases it) (simp add: new_vmiter_def vm_real_find_def vm_down_def Let_def split: prod.splits)
qed

text \<open>
  C18: moving an iterator is as good as building a new one. \<open>real_find\<close> reuses the page table
  page it is in when the new address shares the upper part of the old one; the result is exactly
  the iterator that a walk from the root would give, panics included.
\<close>

theorem real_find_fresh:
  assumes "vm_valid m it"
  shows "vm_real_find m va it = new_vmiter m (vm_pt it) va"
  using real_find_walk [OF assms] .

lemma new_vmiter_fields: "new_vmiter m pt va = Inr it \<Longrightarrow> vm_pt it = pt \<and> vm_va it = va"
  by (auto simp: new_vmiter_def vm_real_find_def vm_down_def split: prod.splits if_splits)

lemma new_vmiter_valid: "page_aligned pt \<Longrightarrow> new_vmiter m pt va = Inr it \<Longrightarrow> vm_valid m it"
  using new_vmiter_fields [of m pt va it] by (simp add: vm_valid_def)

theorem real_find_fresh_witness:
  "\<exists>it. new_vmiter (\<lambda>_. 0) 0x1000 0 = Inr it \<and> vm_real_find (\<lambda>_. 0) 0x5000 it = new_vmiter (\<lambda>_. 0) (vm_pt it) 0x5000"
proof -
  have a: "page_aligned 0x1000" by (simp add: page_aligned_def PAGEOFFMASK_def)
  have z: "load64 (\<lambda>_. 0) a = 0" for a by (simp add: load64_def read_bytes_def upt_rec)
  have "down_loop (\<lambda>_. 0) 0 3 (Some x) p = (3, Some x, p)" for x p
    using down_loop.simps(2) [of "\<lambda>_. 0" 0 2 "Some x" p] by (simp add: pe_def z is_table_def PTE_P_def)
  then obtain it where "new_vmiter (\<lambda>_. 0) 0x1000 0 = Inr it"
    by (simp add: new_vmiter_def vm_real_find_def vm_down_def pe_def z va_is_canonical_def VA_LOWMAX_def)
  then show ?thesis using real_find_fresh [OF new_vmiter_valid [OF a]] by blast
qed

end
