(* ===== verification/PageTables.thy ===== *)
theory PageTables
  imports VMIter
begin

unbundle bit_operations_syntax

text \<open>
  What mapping a page does to a page table. The invariant of a page table says that no two paths
  of the walk share an entry unless the addresses share the path, that no page of the table may be
  handed out by the allocator and that its entries stay below 4 GiB. Under it \<open>vmiter::try_map\<close>
  changes the translation of the one page it maps, and of no other address.
\<close>

section \<open>Walks\<close>

text \<open>The entry a walk to \<open>va\<close> visits after \<open>n\<close> steps down from the root, and the permissions met.\<close>

fun walk :: "memory \<Rightarrow> addr \<Rightarrow> addr \<Rightarrow> nat \<Rightarrow> addr option" where
  "walk m pt va 0 = Some (pt_entry pt (pageindex va 3))"
| "walk m pt va (Suc n) =
     (case walk m pt va n of
        None \<Rightarrow> None
      | Some a \<Rightarrow>
          if is_table (load64 m a) then Some (pt_entry (load64 m a AND PTE_PAMASK) (pageindex va (2 - n))) else None)"

fun walk_perm :: "memory \<Rightarrow> addr \<Rightarrow> addr \<Rightarrow> nat \<Rightarrow> 64 word" where
  "walk_perm m pt va 0 = initial_perm"
| "walk_perm m pt va (Suc n) = walk_perm m pt va n AND pe m (walk m pt va n)"

definition stops :: "memory \<Rightarrow> addr \<Rightarrow> addr \<Rightarrow> nat \<Rightarrow> addr \<Rightarrow> bool" where
  "stops m pt va n a \<longleftrightarrow> n \<le> 3 \<and> walk m pt va n = Some a \<and> (n = 3 \<or> \<not> is_table (load64 m a))"

lemma pe_Some [simp]: "pe m (Some a) = load64 m a"
  by (simp add: pe_def)

lemma down_loop_walk:
  "n \<le> 3 \<Longrightarrow> walk m pt va n = Some a \<Longrightarrow>
    down_loop m va 3 (Some (pt_entry pt (pageindex va 3))) initial_perm = down_loop m va (3 - n) (Some a) (walk_perm m pt va n)"
proof (induction n arbitrary: a)
  case (Suc n)
  then obtain b where b: "walk m pt va n = Some b" "is_table (load64 m b)"
    "a = pt_entry (load64 m b AND PTE_PAMASK) (pageindex va (2 - n))"
    by (auto split: option.splits if_splits)
  have "3 - n = Suc (2 - n)" using Suc.prems(1) by simp
  then show ?case using Suc.IH [of b] Suc.prems(1) b by simp
qed simp

lemma stops_down_loop:
  assumes "stops m pt va n a"
  shows "down_loop m va 3 (Some (pt_entry pt (pageindex va 3))) initial_perm = (3 - n, Some a, walk_perm m pt va n)"
proof -
  have "down_loop m va (3 - n) (Some a) (walk_perm m pt va n) = (3 - n, Some a, walk_perm m pt va n)"
    using assms by (cases "3 - n") (auto simp: stops_def)
  then show ?thesis using assms down_loop_walk [of n m pt va a] by (simp add: stops_def)
qed

lemma stops_vmiter:
  assumes "stops m pt va n a" and "va_is_canonical va" and "load64 m a AND PTE_PAMASK < 0x100000000"
  shows "new_vmiter m pt va = Inr \<lparr>vm_pt = pt, vm_pep = Some a, vm_level = 3 - n, vm_perm = walk_perm m pt va n, vm_va = va\<rparr>"
  using assms stops_down_loop [OF assms(1)]
  by (simp add: new_vmiter_def vm_real_find_def vm_down_def Let_def not_less [symmetric])

lemma stops_exists: "\<exists>n a. stops m pt va n a"
proof (rule ccontr)
  assume "\<nexists>n a. stops m pt va n a"
  then have go: "n < 3 \<Longrightarrow> walk m pt va n = Some a \<Longrightarrow> is_table (load64 m a)" for n a
    by (auto simp: stops_def dest: less_imp_le)
  have "n \<le> 3 \<Longrightarrow> walk m pt va n \<noteq> None" for n
  proof (induction n)
    case (Suc n)
    then obtain a where "walk m pt va n = Some a" by auto
    then show ?case using go [of n a] Suc.prems by simp
  qed simp
  then show False using \<open>\<nexists>n a. stops m pt va n a\<close> by (auto simp: stops_def)
qed

section \<open>The invariant\<close>

text \<open>Two addresses with the same path down to the entry after \<open>n\<close> steps.\<close>

definition same_prefix :: "nat \<Rightarrow> addr \<Rightarrow> addr \<Rightarrow> bool" where
  "same_prefix n va va' \<longleftrightarrow> (\<forall>j \<le> n. pageindex va (3 - j) = pageindex va' (3 - j))"

lemma same_prefix_sym: "same_prefix n va va' \<longleftrightarrow> same_prefix n va' va"
  by (auto simp: same_prefix_def)

lemma same_prefix_trans: "same_prefix n a b \<Longrightarrow> same_prefix n b c \<Longrightarrow> same_prefix n a c"
  by (auto simp: same_prefix_def)

lemma same_prefix_mono: "same_prefix n a b \<Longrightarrow> j \<le> n \<Longrightarrow> same_prefix j a b"
  by (auto simp: same_prefix_def)

lemma same_prefix_Suc: "same_prefix (Suc n) a b \<longleftrightarrow> same_prefix n a b \<and> pageindex a (2 - n) = pageindex b (2 - n)"
  by (auto simp: same_prefix_def le_Suc_eq)

lemma walk_prefix: "same_prefix n va va' \<Longrightarrow> walk m pt va n = walk m pt va' n"
proof (induction n)
  case 0
  then show ?case by (simp add: same_prefix_def)
next
  case (Suc n)
  then show ?case by (auto simp: same_prefix_Suc split: option.splits)
qed

lemma walk_perm_prefix: "same_prefix n va va' \<Longrightarrow> walk_perm m pt va n = walk_perm m pt va' n"
proof (induction n)
  case (Suc n)
  then have "same_prefix n va va'" by (simp add: same_prefix_Suc)
  then show ?case using Suc.IH walk_prefix [of n va va' m pt] by simp
qed simp

definition pt_sep :: "memory \<Rightarrow> addr \<Rightarrow> bool" where
  "pt_sep m pt \<longleftrightarrow> (\<forall>va va' n n' a. n \<le> 3 \<longrightarrow> n' \<le> 3 \<longrightarrow> walk m pt va n = Some a \<longrightarrow> walk m pt va' n' = Some a \<longrightarrow>
     n = n' \<and> same_prefix n va va')"

definition pt_held :: "addr \<Rightarrow> pmem \<Rightarrow> addr \<Rightarrow> bool" where
  "pt_held ke k pt \<longleftrightarrow> (\<forall>va n a. n \<le> 3 \<longrightarrow> walk (phys k) pt va n = Some a \<longrightarrow>
     \<not> (page_of a < 512 \<and> free_page ke k (page_of a)) \<and> load64 (phys k) a AND PTE_PAMASK < 0x100000000)"

definition pt_ok :: "addr \<Rightarrow> pmem \<Rightarrow> addr \<Rightarrow> bool" where
  "pt_ok ke k pt \<longleftrightarrow> pmem_ok ke k \<and> page_aligned pt \<and> pt_sep (phys k) pt \<and> pt_held ke k pt"

lemma pt_sepD:
  "pt_sep m pt \<Longrightarrow> n \<le> 3 \<Longrightarrow> n' \<le> 3 \<Longrightarrow> walk m pt va n = Some a \<Longrightarrow> walk m pt va' n' = Some a \<Longrightarrow>
    n = n' \<and> same_prefix n va va'"
  unfolding pt_sep_def by blast

lemma walk_entry:
  "page_aligned pt \<Longrightarrow> walk m pt va n = Some a \<Longrightarrow> \<exists>base i. page_aligned base \<and> i < 512 \<and> a = pt_entry base i"
  by (cases n) (auto split: option.splits if_splits intro: page_aligned_PAMASK pageindex_lt)

lemma walk_cong:
  assumes "\<And>j a. j < n \<Longrightarrow> walk m pt va j = Some a \<Longrightarrow> load64 m' a = load64 m a"
  shows "walk m' pt va n = walk m pt va n" and "walk_perm m' pt va n = walk_perm m pt va n"
proof -
  have w: "j \<le> n \<Longrightarrow> walk m' pt va j = walk m pt va j" for j
  proof (induction j)
    case (Suc j)
    then show ?case using assms [of j] by (cases "walk m pt va j") simp_all
  qed simp
  then show "walk m' pt va n = walk m pt va n" by simp
  have "j \<le> n \<Longrightarrow> walk_perm m' pt va j = walk_perm m pt va j" for j
  proof (induction j)
    case (Suc j)
    then show ?case using assms [of j] w [of j] by (cases "walk m pt va j") (simp_all add: pe_def)
  qed simp
  then show "walk_perm m' pt va n = walk_perm m pt va n" by simp
qed

section \<open>What an address translates to\<close>

definition lookup_va :: "memory \<Rightarrow> addr \<Rightarrow> addr \<Rightarrow> (64 word \<times> 64 word) cpp" where
  "lookup_va m pt va = bindE (new_vmiter m pt va) (\<lambda>it. Inr (vm_pa m it, vm_perms m it))"

definition entry_result :: "64 word \<Rightarrow> nat \<Rightarrow> 64 word \<Rightarrow> addr \<Rightarrow> 64 word \<times> 64 word" where
  "entry_result e n perm va =
     (if e AND PTE_P \<noteq> 0
      then ((if n < 3 then (e AND PTE_PAMASK) AND NOT 0x1000 else e AND PTE_PAMASK) + (va AND pageoffmask (3 - n)), e AND perm)
      else (- 1, 0))"

lemma lookup_stops:
  assumes "stops m pt va n a" and "va_is_canonical va" and "load64 m a AND PTE_PAMASK < 0x100000000"
  shows "lookup_va m pt va = Inr (entry_result (load64 m a) n (walk_perm m pt va n) va)"
  using stops_vmiter [OF assms] assms(1)
  by (auto simp: lookup_va_def vm_pa_def vm_perms_def entry_result_def Let_def stops_def)

lemma lookup_cong:
  assumes "va_is_canonical va"
    and "\<And>j a. j \<le> 3 \<Longrightarrow> walk m pt va j = Some a \<Longrightarrow> load64 m' a = load64 m a \<and> load64 m a AND PTE_PAMASK < 0x100000000"
  shows "lookup_va m' pt va = lookup_va m pt va"
proof -
  obtain n a where s: "stops m pt va n a" using stops_exists by blast
  then have n: "n \<le> 3" "walk m pt va n = Some a" by (simp_all add: stops_def)
  have "walk m' pt va n = walk m pt va n" by (rule walk_cong(1)) (meson assms(2) n(1) less_imp_le less_le_trans)
  then have "stops m' pt va n a" using s assms(2) n by (auto simp: stops_def)
  moreover have "walk_perm m' pt va n = walk_perm m pt va n" by (rule walk_cong(2)) (meson assms(2) n(1) less_imp_le less_le_trans)
  ultimately show ?thesis
    using lookup_stops [OF s assms(1)] lookup_stops [of m' pt va n a] assms n by auto
qed

section \<open>Memory effects on entries\<close>

lemma entries_apart:
  assumes "page_aligned b" "i < 512" "page_aligned b'" "i' < 512" and "pt_entry b i \<noteq> pt_entry b' i'"
  shows "apart (pt_entry b i) 8 (pt_entry b' i') 8"
proof -
  have u: "unat (pt_entry b i) = unat b + 8 * i" "unat (pt_entry b' i') = unat b' + 8 * i'"
    using unat_pt_entry assms by auto
  obtain j j' where j: "unat b = 4096 * j" "unat b' = 4096 * j'" using assms by (auto simp: page_aligned_unat elim!: dvdE)
  have "unat (pt_entry b i) \<noteq> unat (pt_entry b' i')" using assms(5) by (metis word_of_nat_unat_self)
  moreover have "unat b + 8 * i + 8 \<le> 2 ^ 64" "unat b' + 8 * i' + 8 \<le> 2 ^ 64"
    using unat_bound64 [of b] unat_bound64 [of b'] assms(2,4) j by simp_all
  moreover have "unat b + 8 * i = 8 * (512 * j + i)" "unat b' + 8 * i' = 8 * (512 * j' + i')" using j by simp_all
  ultimately show ?thesis
    unfolding apart_def u by (cases "512 * j + i" "512 * j' + i'" rule: linorder_cases) auto
qed

lemma page_entry_apart:
  assumes "page_aligned p" "page_aligned b" "i < 512" and "page_of (pt_entry b i) \<noteq> page_of p"
  shows "apart p 4096 (pt_entry b i) 8"
proof -
  have u: "unat (pt_entry b i) = unat b + 8 * i" using unat_pt_entry assms by auto
  obtain j j' where j: "unat b = 4096 * j" "unat p = 4096 * j'" using assms by (auto simp: page_aligned_unat elim!: dvdE)
  have "j \<noteq> j'" using assms(3,4) by (simp add: page_of_def u j)
  moreover have "unat b + 8 * i + 8 \<le> 2 ^ 64" "unat p + 4096 \<le> 2 ^ 64"
    using unat_bound64 [of b] unat_bound64 [of p] assms(3) j by simp_all
  moreover have "8 * i + 8 \<le> 4096" using assms(3) by simp
  ultimately show ?thesis using j unfolding apart_def u by (cases j j' rule: linorder_cases) auto
qed

lemma pt_entry_inj:
  assumes "page_aligned pt" "i < 512" "j < 512" and "pt_entry pt i = pt_entry pt j"
  shows "i = j"
proof -
  have "unat (pt_entry pt i) = unat (pt_entry pt j)" by (simp only: assms(4))
  then have "unat pt + 8 * i = unat pt + 8 * j" by (simp only: unat_pt_entry [OF assms(1,2)] unat_pt_entry [OF assms(1,3)])
  then show ?thesis by simp
qed

lemma load_fill_apart: "apart p n a 8 \<Longrightarrow> load64 (fill_bytes m p c n) a = load64 m a"
  by (simp add: load64_def read_fill_apart)

lemma load_fill_zero:
  assumes "page_aligned p" and "i < 512"
  shows "load64 (fill_bytes m p 0 4096) (pt_entry p i) = 0"
proof -
  have "of_le (replicate n 0) = 0" for n by (induction n) simp_all
  moreover have "read_bytes (fill_bytes m p 0 4096) (pt_entry p i) 8 = replicate 8 0"
  proof (rule nth_equalityI)
    fix l
    assume l: "l < length (read_bytes (fill_bytes m p 0 4096) (pt_entry p i) 8)"
    then have "pt_entry p i + of_nat l - p = of_nat (8 * i + l)" by (simp add: pt_entry_def)
    then have "unat (pt_entry p i + of_nat l - p) = 8 * i + l"
      using l assms(2) unat_of_nat_small [of "8 * i + l"] by (simp del: of_nat_add of_nat_mult)
    then show "read_bytes (fill_bytes m p 0 4096) (pt_entry p i) 8 ! l = replicate 8 0 ! l"
      using l assms(2) by (simp add: read_bytes_def fill_bytes_def del: upt_Suc)
  qed simp
  ultimately show ?thesis by (simp add: load64_def)
qed

lemma page_of_entry: "page_aligned p \<Longrightarrow> i < 512 \<Longrightarrow> page_of (pt_entry p i) = page_of p"
proof -
  assume "page_aligned p" "i < 512"
  then obtain j where "unat p = 4096 * j" by (auto simp: page_aligned_unat elim: dvdE)
  then show ?thesis using unat_pt_entry [OF \<open>page_aligned p\<close> \<open>i < 512\<close>] \<open>i < 512\<close> by (simp add: page_of_def)
qed

lemma and_mask_id:
  assumes "f AND NOT M = (0 :: 64 word)"
  shows "f AND M = f"
proof (rule bit_word_eqI)
  fix n
  assume n: "n < LENGTH(64)"
  have "\<not> bit (f AND NOT M) n" using assms by simp
  then show "bit (f AND M) n = bit f n" using n by (auto simp: bit_and_iff bit_not_iff)
qed

lemma PAMASK_aligned:
  assumes "page_aligned p" and "unat p < 2 ^ 52"
  shows "p AND PTE_PAMASK = p"
proof -
  have "PTE_PAMASK = mask 52 AND NOT (mask 12)" by (simp add: PTE_PAMASK_def mask_eq_exp_minus_1)
  then have "p AND PTE_PAMASK = (p AND mask 52) AND NOT (mask 12)" by (simp only: and.assoc)
  moreover have "p AND mask 12 = 0" using assms(1) by (simp add: page_aligned_def PAGEOFFMASK_take take_bit_eq_mask)
  moreover have "p AND mask 52 = p"
  proof -
    have "unat (take_bit 52 p) = unat p" using assms(2) by (simp only: unat_take_mod) simp
    then have "take_bit 52 p = p" by (metis word_of_nat_unat_self)
    then show ?thesis by (simp add: take_bit_eq_mask)
  qed
  moreover have "p AND NOT (mask 12) = p" if "p AND mask 12 = 0"
    by (rule and_mask_id) (simp add: that)
  ultimately show ?thesis by simp
qed

lemma flags_disjoint:
  assumes "page_aligned p" and "f AND NOT PAGEOFFMASK = 0"
  shows "(p OR f) AND PAGEOFFMASK = f" and "(p OR f) AND PTE_PAMASK = p AND PTE_PAMASK"
proof -
  have "f AND PAGEOFFMASK = f" using assms(2) by (rule and_mask_id)
  then show "(p OR f) AND PAGEOFFMASK = f"
    using assms(1) by (simp add: page_aligned_def bit.conj_disj_distrib2)
  have "f AND PTE_PAMASK = f AND PAGEOFFMASK AND PTE_PAMASK" using \<open>f AND PAGEOFFMASK = f\<close> by (metis and.assoc)
  also have "\<dots> = 0" by (simp add: PAGEOFFMASK_def PTE_PAMASK_def)
  finally show "(p OR f) AND PTE_PAMASK = p AND PTE_PAMASK" by (simp add: bit.conj_disj_distrib2)
qed

lemma and_offmask: "f AND NOT PAGEOFFMASK = 0 \<Longrightarrow> e AND f = (e AND PAGEOFFMASK) AND f"
  using and_mask_id [of f PAGEOFFMASK] by (simp add: and.assoc and.commute [of PAGEOFFMASK])

definition table_flags :: "64 word" where
  "table_flags = PTE_P OR PTE_W OR PTE_U"

lemma table_entry:
  assumes "page_aligned p" and "unat p < 2 ^ 52"
  shows "is_table (p OR table_flags)" and "(p OR table_flags) AND PTE_PAMASK = p" and "(p OR table_flags) AND table_flags = table_flags"
proof -
  have f: "table_flags AND NOT PAGEOFFMASK = 0" "(PTE_P OR PTE_PS) AND NOT PAGEOFFMASK = 0"
    by (simp_all add: table_flags_def PTE_P_def PTE_W_def PTE_U_def PTE_PS_def PAGEOFFMASK_def)
  note o = flags_disjoint [OF assms(1) f(1)]
  show "is_table (p OR table_flags)"
    unfolding is_table_def by (subst and_offmask [OF f(2)]) (simp add: o(1), simp add: table_flags_def PTE_P_def PTE_W_def PTE_U_def PTE_PS_def)
  show "(p OR table_flags) AND PTE_PAMASK = p" unfolding o PAMASK_aligned [OF assms] ..
  show "(p OR table_flags) AND table_flags = table_flags"
    by (subst and_offmask [OF f(1)]) (simp add: o(1))
qed

section \<open>Adding a page table page\<close>

definition add_table :: "addr \<Rightarrow> addr \<Rightarrow> pmem \<Rightarrow> pmem" where
  "add_table a p k = k\<lparr>phys := store64 (memset (phys k) p 0 PAGESIZE) a (p OR table_flags)\<rparr>"

lemma kalloc_page:
  assumes "pmem_ok ke k" and "kalloc ke 4096 k = (k1, p)" and "p \<noteq> 0"
  shows "page_aligned p" and "unat p < 2 ^ 21" and "page_of p < 512" and "free_page ke k (page_of p)"
    and "phys k1 = fill_bytes (phys k) p 0xCC 4096" and "pmem_ok ke k1"
    and "\<And>i. free_page ke k1 i \<Longrightarrow> free_page ke k i \<and> i \<noteq> page_of p"
proof -
  obtain i where i: "i < 512" "free_page ke k i" "p = page_addr i" "refcounts k1 = (refcounts k)[i := 1]"
    "phys k1 = fill_bytes (phys k) p 0xCC 4096"
    using assms by (cases rule: kalloc_cases [OF assms(1), of 4096]) auto
  have pg: "page_of p = i" "unat p = 4096 * i" using page_of_page_addr [of i] unat_page_addr [of i] i(1,3) by simp_all
  show "page_aligned p" by (simp add: page_aligned_unat pg(2))
  show "unat p < 2 ^ 21" "page_of p < 512" "free_page ke k (page_of p)" using i pg by simp_all
  show "phys k1 = fill_bytes (phys k) p 0xCC 4096" by fact
  show "pmem_ok ke k1" using pmem_ok_kalloc [OF assms(1), of 4096] assms(2) by simp
  show "free_page ke k1 l \<Longrightarrow> free_page ke k l \<and> l \<noteq> page_of p" for l
    using i pg assms(1) by (cases "l = i") (auto simp: free_page_def used_def pmem_ok_iff)
qed

lemma add_table_loads:
  assumes ok: "pt_ok ke k pt" and a: "n \<le> 3" "walk (phys k) pt va n = Some a"
    and ka: "kalloc ke 4096 k = (k1, p)" "p \<noteq> 0"
  shows "load64 (phys (add_table a p k1)) a = p OR table_flags"
    and "\<And>va' j b. j \<le> 3 \<Longrightarrow> walk (phys k) pt va' j = Some b \<Longrightarrow> page_of b \<noteq> page_of p"
    and "\<And>va' j b. j \<le> 3 \<Longrightarrow> walk (phys k) pt va' j = Some b \<Longrightarrow> b \<noteq> a \<Longrightarrow> load64 (phys (add_table a p k1)) b = load64 (phys k) b"
    and "\<And>i. i < 512 \<Longrightarrow> load64 (phys (add_table a p k1)) (pt_entry p i) = 0"
proof -
  have pm: "pmem_ok ke k" and al: "page_aligned pt" and held: "pt_held ke k pt" using ok by (simp_all add: pt_ok_def)
  note kp = kalloc_page [OF pm ka]
  have m: "phys (add_table a p k1) = store64 (fill_bytes (fill_bytes (phys k) p 0xCC 4096) p 0 4096) a (p OR table_flags)"
    by (simp add: add_table_def memset_fill kp(5))
  show "load64 (phys (add_table a p k1)) a = p OR table_flags" by (simp add: m)
  show out: "page_of b \<noteq> page_of p" if "j \<le> 3" "walk (phys k) pt va' j = Some b" for va' j b
    using held kp(3,4) that unfolding pt_held_def by metis
  obtain ba ia where ea: "page_aligned ba" "ia < 512" "a = pt_entry ba ia" using walk_entry [OF al a(2)] by blast
  show "load64 (phys (add_table a p k1)) b = load64 (phys k) b"
    if b: "j \<le> 3" "walk (phys k) pt va' j = Some b" "b \<noteq> a" for va' j b
  proof -
    obtain bb ib where eb: "page_aligned bb" "ib < 512" "b = pt_entry bb ib" using walk_entry [OF al b(2)] by blast
    have "apart a 8 b 8" using entries_apart [OF ea(1,2) eb(1,2)] b(3) ea(3) eb(3) by simp
    moreover have "apart p 4096 b 8" using page_entry_apart [OF kp(1) eb(1,2)] out [OF b(1,2)] eb(3) by simp
    ultimately show ?thesis by (simp add: m load_store_apart load_fill_apart)
  qed
  show "load64 (phys (add_table a p k1)) (pt_entry p i) = 0" if "i < 512" for i
  proof -
    have "pt_entry p i \<noteq> a" using out [OF a] page_of_entry [OF kp(1) that] by auto
    then have "apart a 8 (pt_entry p i) 8" using entries_apart [OF ea(1,2) kp(1) that] ea(3) by simp
    then show ?thesis by (simp add: m load_store_apart load_fill_zero [OF kp(1) that])
  qed
qed

lemma add_table_walk:
  assumes ok: "pt_ok ke k pt" and a: "n < 3" "walk (phys k) pt va n = Some a" "\<not> is_table (load64 (phys k) a)"
    and ka: "kalloc ke 4096 k = (k1, p)" "p \<noteq> 0"
  defines "m' \<equiv> phys (add_table a p k1)"
  shows "\<not> same_prefix n va va' \<Longrightarrow> j \<le> 3 \<Longrightarrow> walk m' pt va' j = walk (phys k) pt va' j \<and> walk_perm m' pt va' j = walk_perm (phys k) pt va' j"
    and "same_prefix n va va' \<Longrightarrow> j \<le> n \<Longrightarrow> walk m' pt va' j = walk (phys k) pt va' j \<and> walk_perm m' pt va' j = walk_perm (phys k) pt va' j"
    and "same_prefix n va va' \<Longrightarrow> walk m' pt va' (Suc n) = Some (pt_entry p (pageindex va' (2 - n)))"
    and "same_prefix n va va' \<Longrightarrow> Suc n < j \<Longrightarrow> walk m' pt va' j = None"
proof -
  have n3: "n \<le> 3" using a(1) by simp
  note ld = add_table_loads [OF ok n3 a(2) ka, folded m'_def]
  have sep: "pt_sep (phys k) pt" and pm: "pmem_ok ke k" using ok by (simp_all add: pt_ok_def)
  have keep: "load64 m' b = load64 (phys k) b"
    if b: "i \<le> 3" "walk (phys k) pt va' i = Some b" "i \<noteq> n \<or> \<not> same_prefix n va va'" for va' i b
    using ld(3) [OF b(1,2)] pt_sepD [OF sep n3 b(1) a(2)] b by blast
  show "walk m' pt va' j = walk (phys k) pt va' j \<and> walk_perm m' pt va' j = walk_perm (phys k) pt va' j"
    if d: "\<not> same_prefix n va va'" "j \<le> 3"
  proof -
    have "i < j \<Longrightarrow> walk (phys k) pt va' i = Some b \<Longrightarrow> load64 m' b = load64 (phys k) b" for i b
      using keep [of i va' b] d by simp
    then show ?thesis using walk_cong [of j "phys k" pt va' m'] by blast
  qed
  show old: "walk m' pt va' j = walk (phys k) pt va' j \<and> walk_perm m' pt va' j = walk_perm (phys k) pt va' j"
    if d: "same_prefix n va va'" "j \<le> n" for j
  proof -
    have "i < j \<Longrightarrow> walk (phys k) pt va' i = Some b \<Longrightarrow> load64 m' b = load64 (phys k) b" for i b
      using keep [of i va' b] d a(1) by simp
    then show ?thesis using walk_cong [of j "phys k" pt va' m'] by blast
  qed
  have new: "walk m' pt va' (Suc n) = Some (pt_entry p (pageindex va' (2 - n)))" if "same_prefix n va va'"
  proof -
    have "walk m' pt va' n = Some a" using old [OF that] a(2) walk_prefix [OF that, of "phys k" pt] by simp
    moreover have "is_table (p OR table_flags)" "(p OR table_flags) AND PTE_PAMASK = p"
      using table_entry [OF kalloc_page(1) [OF pm ka]] kalloc_page(2) [OF pm ka] by auto
    ultimately show ?thesis by (simp add: ld(1))
  qed
  then show "walk m' pt va' (Suc n) = Some (pt_entry p (pageindex va' (2 - n)))" if "same_prefix n va va'" using that by blast
  show "walk m' pt va' j = None" if s: "same_prefix n va va'" and "Suc n < j"
    using \<open>Suc n < j\<close>
  proof (induction j)
    case (Suc j)
    have "load64 m' (pt_entry p (pageindex va' (2 - n))) = 0" using ld(4) pageindex_lt by blast
    then have "walk m' pt va' (Suc (Suc n)) = None"
      by (subst walk.simps(2)) (simp only: new [OF s] option.simps, simp add: is_table_def PTE_P_def)
    then show ?case using Suc by (cases "j = Suc n") simp_all
  qed simp
qed

lemma add_table_ok:
  assumes ok: "pt_ok ke k pt" and a: "n < 3" "walk (phys k) pt va n = Some a" "\<not> is_table (load64 (phys k) a)"
    and ka: "kalloc ke 4096 k = (k1, p)" "p \<noteq> 0"
  shows "pt_ok ke (add_table a p k1) pt"
proof -
  let ?m = "phys k" and ?m' = "phys (add_table a p k1)"
  have n3: "n \<le> 3" using a(1) by simp
  have pm: "pmem_ok ke k" and al: "page_aligned pt" and sep: "pt_sep ?m pt" and held: "pt_held ke k pt"
    using ok by (simp_all add: pt_ok_def)
  note ld = add_table_loads [OF ok n3 a(2) ka] and w = add_table_walk [OF ok a ka] and kp = kalloc_page [OF pm ka]
  have cls: "walk ?m pt va' j = Some b \<or> same_prefix n va va' \<and> j = Suc n \<and> b = pt_entry p (pageindex va' (2 - n))"
    if "walk ?m' pt va' j = Some b" "j \<le> 3" for va' j b
  proof (cases "same_prefix n va va'")
    case True
    then show ?thesis using w(2,3,4) [of va'] that by (cases j "Suc n" rule: linorder_cases) auto
  next
    case False
    then show ?thesis using w(1) [of va' j] that by simp
  qed
  have new_page: "page_of (pt_entry p (pageindex va' (2 - n))) = page_of p" for va'
    by (rule page_of_entry [OF kp(1) pageindex_lt])
  have "pt_sep ?m' pt" unfolding pt_sep_def
  proof (intro allI impI)
    fix va1 va2 n1 n2 b
    assume b: "n1 \<le> 3" "n2 \<le> 3" "walk ?m' pt va1 n1 = Some b" "walk ?m' pt va2 n2 = Some b"
    consider "walk ?m pt va1 n1 = Some b" "walk ?m pt va2 n2 = Some b" | "page_of b = page_of p" "same_prefix n va va1"
      "same_prefix n va va2" "n1 = Suc n" "n2 = Suc n" "pt_entry p (pageindex va1 (2 - n)) = pt_entry p (pageindex va2 (2 - n))"
      using cls [OF b(3,1)] cls [OF b(4,2)] ld(2) [OF b(1)] ld(2) [OF b(2)] new_page by metis
    then show "n1 = n2 \<and> same_prefix n1 va1 va2"
    proof cases
      case 1
      then show ?thesis using pt_sepD [OF sep b(1,2)] by blast
    next
      case 2
      have "pageindex va1 (2 - n) = pageindex va2 (2 - n)" by (rule pt_entry_inj [OF kp(1) pageindex_lt pageindex_lt 2(6)])
      moreover have "same_prefix n va1 va2" using 2(2,3) same_prefix_trans same_prefix_sym by blast
      ultimately show ?thesis using 2(4,5) by (simp add: same_prefix_Suc)
    qed
  qed
  moreover have "pt_held ke (add_table a p k1) pt" unfolding pt_held_def
  proof (intro allI impI)
    fix va' j b
    assume b: "j \<le> 3" "walk ?m' pt va' j = Some b"
    have free: "free_page ke (add_table a p k1) i \<Longrightarrow> free_page ke k i \<and> i \<noteq> page_of p" for i
      using kp(7) [of i] by (simp add: add_table_def free_page_def used_def)
    have "(p OR table_flags) AND PTE_PAMASK < 0x100000000"
      using table_entry(2) [OF kp(1)] kp(2) by (simp add: word_less_nat_alt)
    moreover have "load64 ?m' b AND PTE_PAMASK < 0x100000000" if old: "walk ?m pt va' j = Some b" "b \<noteq> a"
      using ld(3) [OF b(1) old] held old(1) b(1) by (simp add: pt_held_def)
    moreover have "load64 ?m' (pt_entry p (pageindex va' (2 - n))) AND PTE_PAMASK < 0x100000000"
      using ld(4) [OF pageindex_lt] by simp
    ultimately have "load64 ?m' b AND PTE_PAMASK < 0x100000000" using cls [OF b(2,1)] ld(1) by (cases "b = a") auto
    moreover have "\<not> (page_of b < 512 \<and> free_page ke (add_table a p k1) (page_of b))"
      using cls [OF b(2,1)] free [of "page_of b"] held b(1) new_page unfolding pt_held_def by metis
    ultimately show "\<not> (page_of b < 512 \<and> free_page ke (add_table a p k1) (page_of b)) \<and> load64 ?m' b AND PTE_PAMASK < 0x100000000"
      by blast
  qed
  moreover have "pmem_ok ke (add_table a p k1)" using kp(6) by (simp add: add_table_def pmem_ok_iff free_page_def used_def)
  ultimately show ?thesis using al by (simp add: pt_ok_def)
qed

lemma is_table_present: "is_table e \<Longrightarrow> e AND PTE_P \<noteq> 0"
proof
  assume "is_table e" and z: "e AND PTE_P = 0"
  then have "(e AND (PTE_P OR PTE_PS)) AND PTE_P = PTE_P AND PTE_P" by (simp add: is_table_def)
  moreover have "(e AND (PTE_P OR PTE_PS)) AND PTE_P = (e AND PTE_P) AND (PTE_P OR PTE_PS)" by (simp only: ac_simps)
  ultimately have "(0 :: 64 word) AND (PTE_P OR PTE_PS) = PTE_P AND PTE_P" by (simp only: z)
  then show False by (simp add: PTE_P_def)
qed

lemma add_table_lookup:
  assumes ok: "pt_ok ke k pt" and a: "n < 3" "walk (phys k) pt va n = Some a" "load64 (phys k) a AND PTE_P = 0"
    and ka: "kalloc ke 4096 k = (k1, p)" "p \<noteq> 0" and can: "va_is_canonical va'"
  shows "lookup_va (phys (add_table a p k1)) pt va' = lookup_va (phys k) pt va'"
proof -
  let ?m = "phys k" and ?m' = "phys (add_table a p k1)"
  have n3: "n \<le> 3" using a(1) by simp
  have nt: "\<not> is_table (load64 ?m a)" using is_table_present a(3) by blast
  have sep: "pt_sep ?m pt" and held: "pt_held ke k pt" using ok by (simp_all add: pt_ok_def)
  note ld = add_table_loads [OF ok n3 a(2) ka] and w = add_table_walk [OF ok a(1,2) nt ka]
  show ?thesis
  proof (cases "same_prefix n va va'")
    case False
    show ?thesis
    proof (rule lookup_cong [OF can])
      fix j b
      assume b: "j \<le> 3" "walk ?m pt va' j = Some b"
      then have "b \<noteq> a" using pt_sepD [OF sep n3 b(1) a(2)] False by blast
      then show "load64 ?m' b = load64 ?m b \<and> load64 ?m b AND PTE_PAMASK < 0x100000000"
        using ld(3) [OF b] held b by (simp add: pt_held_def)
    qed
  next
    case True
    have "walk ?m pt va' n = Some a" using walk_prefix [OF True, of ?m pt] a(2) by simp
    then have "stops ?m pt va' n a" using nt n3 by (simp add: stops_def)
    moreover have "load64 ?m a AND PTE_PAMASK < 0x100000000" using held a(2) n3 by (simp add: pt_held_def)
    ultimately have "lookup_va ?m pt va' = Inr (- 1, 0)" using lookup_stops [OF _ can] a(3) by (simp add: entry_result_def)
    let ?b = "pt_entry p (pageindex va' (2 - n))"
    have z: "load64 ?m' ?b = 0" using ld(4) [OF pageindex_lt] .
    then have "stops ?m' pt va' (Suc n) ?b" using w(3) [OF True] a(1) by (simp add: stops_def is_table_def PTE_P_def)
    then have "lookup_va ?m' pt va' = Inr (- 1, 0)" using lookup_stops [OF _ can] z by (simp add: entry_result_def)
    then show ?thesis using \<open>lookup_va ?m pt va' = Inr (- 1, 0)\<close> by simp
  qed
qed

section \<open>Mapping\<close>

lemma pt_ok_cursor:
  assumes "pt_ok ke k pt" and "pmem_ok ke (k\<lparr>next_alloc_pa := c\<rparr>)"
  shows "pt_ok ke (k\<lparr>next_alloc_pa := c\<rparr>) pt"
  using assms by (simp add: pt_ok_def pt_held_def)

text \<open>The iterator that stands where the walk to \<open>va\<close> ends.\<close>

definition at_walk :: "memory \<Rightarrow> addr \<Rightarrow> addr \<Rightarrow> nat \<Rightarrow> addr \<Rightarrow> vmiter" where
  "at_walk m pt va n a = \<lparr>vm_pt = pt, vm_pep = Some a, vm_level = 3 - n, vm_perm = walk_perm m pt va n, vm_va = va\<rparr>"

lemma vm_down_add_table:
  assumes ok: "pt_ok ke k pt" and a: "n < 3" "walk (phys k) pt va n = Some a" "load64 (phys k) a AND PTE_P = 0"
    and ka: "kalloc ke 4096 k = (k1, p)" "p \<noteq> 0"
  defines "m' \<equiv> phys (add_table a p k1)"
  defines "b \<equiv> pt_entry p (pageindex va (2 - n))"
  shows "vm_down m' (at_walk (phys k) pt va n a) = Inr (at_walk m' pt va (Suc n) b)"
    and "walk m' pt va (Suc n) = Some b" and "load64 m' b = 0"
    and "walk_perm m' pt va (Suc n) = walk_perm (phys k) pt va n AND (p OR table_flags)"
proof -
  have n3: "n \<le> 3" using a(1) by simp
  have nt: "\<not> is_table (load64 (phys k) a)" using is_table_present a(3) by blast
  have pm: "pmem_ok ke k" using ok by (simp add: pt_ok_def)
  note ld = add_table_loads [OF ok n3 a(2) ka, folded m'_def] and w = add_table_walk [OF ok a(1,2) nt ka, folded m'_def]
  have te: "is_table (p OR table_flags)" "(p OR table_flags) AND PTE_PAMASK = p"
    using table_entry [OF kalloc_page(1) [OF pm ka]] kalloc_page(2) [OF pm ka] by auto
  have refl: "same_prefix n va va" by (simp add: same_prefix_def)
  show z: "load64 m' b = 0" unfolding b_def by (rule ld(4) [OF pageindex_lt])
  show wb: "walk m' pt va (Suc n) = Some b" using w(3) [OF refl] by (simp add: b_def)
  have wn: "walk m' pt va n = Some a" "walk_perm m' pt va n = walk_perm (phys k) pt va n" using w(2) [OF refl, of n] a(2) by simp_all
  show perm: "walk_perm m' pt va (Suc n) = walk_perm (phys k) pt va n AND (p OR table_flags)" using wn ld(1) by simp
  have l: "3 - n = Suc (2 - n)" using a(1) by simp
  have "down_loop m' va (2 - n) (Some b) q = (2 - n, Some b, q)" for q
    using z by (cases "2 - n") (simp_all add: is_table_def PTE_P_def)
  then have "down_loop m' va (3 - n) (Some a) (walk_perm (phys k) pt va n) = (2 - n, Some b, walk_perm m' pt va (Suc n))"
    unfolding l using te ld(1) perm by (simp add: b_def)
  then show "vm_down m' (at_walk (phys k) pt va n a) = Inr (at_walk m' pt va (Suc n) b)"
    using z by (simp add: vm_down_def at_walk_def)
qed

lemma try_map_loop_exact:
  assumes "pt_ok ke k pt" and "n \<le> 3" and "walk (phys k) pt va n = Some a" and "n < 3 \<Longrightarrow> load64 (phys k) a AND PTE_P = 0"
    and "va_is_canonical va" and "3 - n < fuel" and "perm \<noteq> 0"
  shows "\<exists>fin it' k'. try_map_loop fuel ke perm (at_walk (phys k) pt va n a) k = Inr (fin, it', k') \<and> pt_ok ke k' pt
    \<and> (\<forall>va'. va_is_canonical va' \<longrightarrow> lookup_va (phys k') pt va' = lookup_va (phys k) pt va')
    \<and> (fin \<longrightarrow> (\<exists>a'. walk (phys k') pt va 3 = Some a' \<and> it' = at_walk (phys k') pt va 3 a'
          \<and> walk_perm (phys k') pt va 3 AND table_flags = walk_perm (phys k) pt va n AND table_flags))
    \<and> (\<not> fin \<longrightarrow> (\<forall>i < NPAGES. \<not> free_page ke k' i))"
  using assms
proof (induction fuel arbitrary: n a k)
  case (Suc fuel)
  show ?case
  proof (cases "n = 3")
    case True
    then show ?thesis using Suc.prems by (auto simp: at_walk_def)
  next
    case False
    then have n: "n < 3" using Suc.prems(2) by simp
    obtain k1 p where ka: "kalloc ke 4096 k = (k1, p)" by fastforce
    have pm: "pmem_ok ke k" using Suc.prems(1) by (simp add: pt_ok_def)
    have z: "load64 (phys k) a AND PTE_P = 0" using Suc.prems(4) n by simp
    show ?thesis
    proof (cases "p = 0")
      case True
      have "phys k1 = phys k" "pt_ok ke k1 pt" "\<forall>i < 512. \<not> free_page ke k1 i"
        using ka True Suc.prems(1) pmem_ok_kalloc [OF pm, of 4096] pt_ok_cursor
        by (cases rule: kalloc_cases [OF pm, of 4096]; fastforce)+
      then show ?thesis using True ka n z Suc.prems(7) by (auto simp: at_walk_def)
    next
      case False
      let ?k2 = "add_table a p k1"
      note dn = vm_down_add_table [OF Suc.prems(1) n Suc.prems(3) z ka False]
      have ok2: "pt_ok ke ?k2 pt" using add_table_ok [OF Suc.prems(1) n Suc.prems(3) _ ka False] is_table_present z by blast
      have step: "try_map_loop (Suc fuel) ke perm (at_walk (phys k) pt va n a) k =
          try_map_loop fuel ke perm (at_walk (phys ?k2) pt va (Suc n) (pt_entry p (pageindex va (2 - n)))) ?k2"
        using n z ka False Suc.prems(7) dn(1)
        by (simp add: at_walk_def add_table_def table_flags_def Let_def)
      have te: "(p OR table_flags) AND table_flags = table_flags"
        using table_entry(3) [OF kalloc_page(1) [OF pm ka False]] kalloc_page(2) [OF pm ka False] by simp
      then have "walk_perm (phys ?k2) pt va (Suc n) AND table_flags = walk_perm (phys k) pt va n AND table_flags"
        unfolding dn(4) by (simp only: and.assoc)
      moreover have "lookup_va (phys ?k2) pt va' = lookup_va (phys k) pt va'" if "va_is_canonical va'" for va'
        using add_table_lookup [OF Suc.prems(1) n Suc.prems(3) z ka False that] .
      ultimately show ?thesis
        using Suc.IH [OF ok2 _ dn(2)] dn(3) n Suc.prems(5-7) unfolding step by auto
    qed
  qed
qed simp

text \<open>The final store at level 0.\<close>

lemma set_entry_ok:
  assumes ok: "pt_ok ke k pt" and a: "walk (phys k) pt va 3 = Some a" and e: "e AND PTE_PAMASK < 0x100000000"
  defines "k' \<equiv> k\<lparr>phys := store64 (phys k) a e\<rparr>"
  shows "pt_ok ke k' pt" and "j \<le> 3 \<Longrightarrow> walk (phys k') pt va' j = walk (phys k) pt va' j"
    and "j \<le> 3 \<Longrightarrow> walk_perm (phys k') pt va' j = walk_perm (phys k) pt va' j"
    and "j \<le> 3 \<Longrightarrow> walk (phys k) pt va' j = Some b \<Longrightarrow> load64 (phys k') b = (if j = 3 \<and> same_prefix 3 va va' then e else load64 (phys k) b)"
proof -
  have al: "page_aligned pt" and sep: "pt_sep (phys k) pt" and held: "pt_held ke k pt" and pm: "pmem_ok ke k"
    using ok by (simp_all add: pt_ok_def)
  obtain ba ia where ea: "page_aligned ba" "ia < 512" "a = pt_entry ba ia" using walk_entry [OF al a] by blast
  show ld: "load64 (phys k') b = (if j = 3 \<and> same_prefix 3 va va' then e else load64 (phys k) b)"
    if b: "j \<le> 3" "walk (phys k) pt va' j = Some b" for va' j b
  proof (cases "b = a")
    case True
    have "3 = j \<and> same_prefix 3 va va'" by (rule pt_sepD [OF sep _ b(1) a]) (use b(2) True in simp_all)
    then show ?thesis using True by (simp add: k'_def)
  next
    case False
    obtain bb ib where eb: "page_aligned bb" "ib < 512" "b = pt_entry bb ib" using walk_entry [OF al b(2)] by blast
    have "apart a 8 b 8" using entries_apart [OF ea(1,2) eb(1,2)] False ea(3) eb(3) by simp
    moreover have "\<not> (j = 3 \<and> same_prefix 3 va va')" using walk_prefix [of 3 va va' "phys k" pt] a b(2) False by auto
    ultimately show ?thesis by (auto simp: k'_def load_store_apart)
  qed
  have keep: "i < j \<Longrightarrow> j \<le> 3 \<Longrightarrow> walk (phys k) pt va' i = Some b \<Longrightarrow> load64 (phys k') b = load64 (phys k) b" for va' i j b
    using ld [of i va' b] by simp
  show w: "walk (phys k') pt va' j = walk (phys k) pt va' j" if "j \<le> 3" for va' j
    using walk_cong(1) [of j "phys k" pt va' "phys k'"] keep that by blast
  show "walk_perm (phys k') pt va' j = walk_perm (phys k) pt va' j" if "j \<le> 3"
    using walk_cong(2) [of j "phys k" pt va' "phys k'"] keep that by blast
  have "pt_sep (phys k') pt" using sep unfolding pt_sep_def by (metis w)
  moreover have "pt_held ke k' pt" unfolding pt_held_def
  proof (intro allI impI)
    fix va' j b
    assume b: "j \<le> 3" "walk (phys k') pt va' j = Some b"
    then have b': "walk (phys k) pt va' j = Some b" using w by simp
    have "free_page ke k' = free_page ke k" by (simp add: fun_eq_iff k'_def free_page_def used_def)
    then show "\<not> (page_of b < 512 \<and> free_page ke k' (page_of b)) \<and> load64 (phys k') b AND PTE_PAMASK < 0x100000000"
      using held b(1) b' ld [OF b(1) b'] e unfolding pt_held_def by auto
  qed
  moreover have "pmem_ok ke k'" using pm by (simp add: k'_def pmem_ok_iff free_page_def used_def)
  ultimately show "pt_ok ke k' pt" using al by (simp add: pt_ok_def)
qed

lemma same_page_prefix: "same_prefix 3 va va' \<longleftrightarrow> (\<forall>l \<le> 3. pageindex va l = pageindex va' l)"
proof
  assume s: "same_prefix 3 va va'"
  show "\<forall>l \<le> 3. pageindex va l = pageindex va' l"
  proof (intro allI impI)
    fix l :: nat
    assume "l \<le> 3"
    then show "pageindex va l = pageindex va' l" using s [unfolded same_prefix_def, rule_format, of "3 - l"] by simp
  qed
qed (simp add: same_prefix_def)

lemma set_entry_lookup:
  assumes ok: "pt_ok ke k pt" and a: "walk (phys k) pt va 3 = Some a" and e: "e AND PTE_PAMASK < 0x100000000"
    and can: "va_is_canonical va'"
  shows "lookup_va (store64 (phys k) a e) pt va' =
    (if same_prefix 3 va va' then Inr (entry_result e 3 (walk_perm (phys k) pt va 3) va') else lookup_va (phys k) pt va')"
proof -
  let ?m = "phys k" and ?m' = "store64 (phys k) a e"
  note se = set_entry_ok [OF ok a e, simplified]
  have held: "pt_held ke k pt" using ok by (simp add: pt_ok_def)
  show ?thesis
  proof (cases "same_prefix 3 va va'")
    case True
    have wp: "walk ?m pt va' 3 = Some a" using walk_prefix [OF True, of ?m pt] a by simp
    have "stops ?m' pt va' 3 a" using se(2) [of 3 va'] wp by (simp add: stops_def)
    moreover have "walk_perm ?m' pt va' 3 = walk_perm ?m pt va 3"
      using se(3) [of 3 va'] walk_perm_prefix [OF True, of ?m pt] by simp
    ultimately show ?thesis using lookup_stops [OF _ can, of ?m' pt 3 a] True e by simp
  next
    case False
    have "lookup_va ?m' pt va' = lookup_va ?m pt va'"
      by (rule lookup_cong [OF can]) (use se(4) held False in \<open>auto simp: pt_held_def\<close>)
    then show ?thesis using False by simp
  qed
qed

lemma canonical_high_bits:
  assumes "va_is_canonical va" and "48 \<le> i" and "i < 64"
  shows "bit va i \<longleftrightarrow> bit va 47"
proof -
  have b: "bit va j \<longleftrightarrow> bit (drop_bit 47 va) (j - 47)" if "47 \<le> j" for j using that by (simp add: bit_drop_bit_eq)
  have ones: "(0x1FFFF :: 64 word) = mask 17" by (simp add: mask_eq_exp_minus_1)
  consider "drop_bit 47 va = 0" | "drop_bit 47 va = mask 17" using assms(1) ones unfolding canonical_iff by auto
  then show ?thesis
    using b [of i] b [of 47] assms(2,3) by cases (auto simp: bit_mask_iff)
qed

lemma pageindex_bits:
  assumes "pageindex va l = pageindex va' l" and "i < 9"
  shows "bit va (12 + l * 9 + i) \<longleftrightarrow> bit va' (12 + l * 9 + i)"
proof -
  have m: "(0x1FF :: 64 word) = mask 9" by (simp add: mask_eq_exp_minus_1)
  have "take_bit 9 (drop_bit (12 + l * 9) va) = take_bit 9 (drop_bit (12 + l * 9) va')"
    using assms(1) unfolding pageindex_def m take_bit_eq_mask [symmetric] by (metis word_of_nat_unat_self)
  then have "bit (take_bit 9 (drop_bit (12 + l * 9) va)) i \<longleftrightarrow> bit (take_bit 9 (drop_bit (12 + l * 9) va')) i" by simp
  then show ?thesis using assms(2) by (simp add: bit_take_bit_iff bit_drop_bit_eq ac_simps)
qed

lemma same_page_iff:
  assumes "va_is_canonical va" and "va_is_canonical va'"
  shows "same_prefix 3 va va' \<longleftrightarrow> drop_bit 12 va' = drop_bit 12 va"
proof
  assume s: "same_prefix 3 va va'"
  have low: "bit va i \<longleftrightarrow> bit va' i" if "12 \<le> i" "i < 48" for i
  proof -
    have "(i - 12) div 9 \<le> 3" "12 + (i - 12) div 9 * 9 + (i - 12) mod 9 = i" using that by auto
    then show ?thesis
      using pageindex_bits [of va "(i - 12) div 9" va' "(i - 12) mod 9"] s by (simp add: same_page_prefix)
  qed
  show "drop_bit 12 va' = drop_bit 12 va"
  proof (rule bit_word_eqI)
    fix n
    show "bit (drop_bit 12 va') n = bit (drop_bit 12 va) n"
    proof (cases "12 + n < 48")
      case True
      then show ?thesis using low [of "12 + n"] by (simp add: bit_drop_bit_eq)
    next
      case False
      then show ?thesis
        using canonical_high_bits [OF assms(1), of "12 + n"] canonical_high_bits [OF assms(2), of "12 + n"] low [of 47]
        by (cases "12 + n < 64") (auto simp: bit_drop_bit_eq dest: bit_imp_le_length)
    qed
  qed
next
  assume "drop_bit 12 va' = drop_bit 12 va"
  then show "same_prefix 3 va va'"
    using drop_bit_mono_eq [of 12 va' va] by (simp add: same_page_prefix pageindex_def)
qed

lemma walk_perm_flags: "walk_perm m pt va n AND NOT PAGEOFFMASK = 0"
proof (induction n)
  case 0
  then show ?case by (simp add: initial_perm_def PAGEOFFMASK_def)
next
  case (Suc n)
  have "walk_perm m pt va (Suc n) AND NOT PAGEOFFMASK = (walk_perm m pt va n AND NOT PAGEOFFMASK) AND pe m (walk m pt va n)"
    by (simp only: walk_perm.simps ac_simps)
  then show ?case by (simp only: Suc) simp
qed

lemma mapped_entry:
  assumes pa: "page_aligned pa" "unat pa < 2 ^ 32" and perm: "perm AND NOT table_flags = 0" "perm AND PTE_P \<noteq> 0"
    and wp: "wp AND NOT PAGEOFFMASK = 0" "perm AND NOT wp = 0"
  shows "entry_result (pa OR perm) 3 wp va = (pa + (va AND PAGEOFFMASK), perm)" and "(pa OR perm) AND PTE_PAMASK = pa"
proof -
  have tf: "table_flags AND NOT PAGEOFFMASK = 0" "PTE_P AND NOT PAGEOFFMASK = 0"
    by (simp_all add: table_flags_def PTE_P_def PTE_W_def PTE_U_def PAGEOFFMASK_def)
  have "perm = perm AND table_flags" using and_mask_id [OF perm(1)] by simp
  then have "perm AND NOT PAGEOFFMASK = perm AND (table_flags AND NOT PAGEOFFMASK)" by (metis and.assoc)
  then have pf: "perm AND NOT PAGEOFFMASK = 0" using tf(1) by simp
  note o = flags_disjoint [OF pa(1) pf]
  show pam: "(pa OR perm) AND PTE_PAMASK = pa" unfolding o using PAMASK_aligned [OF pa(1)] pa(2) by simp
  have "(pa OR perm) AND PTE_P = perm AND PTE_P" using and_offmask [OF tf(2), of "pa OR perm"] o(1) by simp
  moreover have "(pa OR perm) AND wp = perm AND wp" using and_offmask [OF wp(1), of "pa OR perm"] o(1) by simp
  moreover have "perm AND wp = perm" by (rule and_mask_id [OF wp(2)])
  moreover have "pageoffmask 0 = PAGEOFFMASK" by (simp add: pageoffmask_def PAGEOFFMASK_def)
  ultimately show "entry_result (pa OR perm) 3 wp va = (pa + (va AND PAGEOFFMASK), perm)"
    using perm(2) pam by (simp add: entry_result_def)
qed

lemma and_through_flags:
  assumes "perm AND f = perm" and "perm AND w = perm" and "w' AND f = w AND f"
  shows "perm AND NOT w' = (0 :: 64 word)"
proof -
  have "perm AND w' = perm AND (w' AND f)" using assms(1) by (simp only: and.assoc [symmetric] and.commute [of w' f])
  also have "\<dots> = (perm AND w) AND f" by (simp only: assms(3) and.assoc)
  also have "\<dots> = perm" by (simp only: assms(1,2))
  finally have "perm AND NOT w' = (perm AND w') AND NOT w'" by simp
  also have "\<dots> = perm AND (w' AND NOT w')" by (simp only: and.assoc)
  finally show ?thesis by simp
qed

lemma vmiter_at_walk:
  assumes "pt_ok ke k pt" and "va_is_canonical va" and "new_vmiter (phys k) pt va = Inr it"
  obtains n a where "n \<le> 3" "walk (phys k) pt va n = Some a" "it = at_walk (phys k) pt va n a"
proof -
  obtain n a where s: "stops (phys k) pt va n a" using stops_exists by blast
  then have n: "n \<le> 3" "walk (phys k) pt va n = Some a" by (simp_all add: stops_def)
  then have "load64 (phys k) a AND PTE_PAMASK < 0x100000000" using assms(1) by (simp add: pt_ok_def pt_held_def)
  then have "it = at_walk (phys k) pt va n a" using stops_vmiter [OF s assms(2)] assms(3) by (simp add: at_walk_def)
  with n show thesis by (rule that)
qed

lemma try_map_maps:
  assumes ok: "pt_ok ke k pt" and va: "va_is_canonical va" "va AND PAGEOFFMASK = 0"
    and it: "new_vmiter (phys k) pt va = Inr it" "vm_level it > 0 \<longrightarrow> \<not> vm_present (phys k) it"
    and pa: "page_aligned pa" "unat pa < 2 ^ 32"
    and perm: "perm AND NOT table_flags = 0" "perm AND PTE_P \<noteq> 0" "perm AND NOT (vm_perm it) = 0"
  shows "\<exists>r it' k'. vm_try_map ke pa perm it k = Inr (r, it', k') \<and> pt_ok ke k' pt
    \<and> (r = 0 \<or> r = - 1 \<and> (\<forall>i < NPAGES. \<not> free_page ke k' i))
    \<and> (\<forall>va'. va_is_canonical va' \<longrightarrow> lookup_va (phys k') pt va' =
        (if r = 0 \<and> drop_bit 12 va' = drop_bit 12 va then Inr (pa + (va' AND PAGEOFFMASK), perm) else lookup_va (phys k) pt va'))"
proof -
  obtain n a where n: "n \<le> 3" "walk (phys k) pt va n = Some a" and at: "it = at_walk (phys k) pt va n a"
    using vmiter_at_walk [OF ok va(1) it(1)] .
  have "n < 3 \<Longrightarrow> load64 (phys k) a AND PTE_P = 0" using it(2) by (simp add: at at_walk_def vm_present_def)
  moreover have nz: "perm \<noteq> 0" using perm(2) by auto
  ultimately obtain fin it' k' where loop: "try_map_loop 4 ke perm it k = Inr (fin, it', k')" and ok': "pt_ok ke k' pt"
    and lk: "\<forall>va'. va_is_canonical va' \<longrightarrow> lookup_va (phys k') pt va' = lookup_va (phys k) pt va'"
    and fin: "fin \<Longrightarrow> \<exists>a'. walk (phys k') pt va 3 = Some a' \<and> it' = at_walk (phys k') pt va 3 a'
          \<and> walk_perm (phys k') pt va 3 AND table_flags = walk_perm (phys k) pt va n AND table_flags"
    and out: "\<not> fin \<Longrightarrow> \<forall>i < NPAGES. \<not> free_page ke k' i"
    using try_map_loop_exact [OF ok n, of 4 perm] va(1) unfolding at by fastforce
  have "pa AND PTE_PAMASK = pa" using PAMASK_aligned [OF pa(1)] pa(2) by simp
  moreover have "pa \<noteq> - 1" using pa(2) by (auto simp: unsigned_minus_1_eq_mask mask_eq_exp_minus_1)
  moreover have "perm AND NOT (vm_perm it) AND (PTE_P OR PTE_W OR PTE_U) = 0" using perm(3) by (simp add: and.assoc [symmetric])
  ultimately have tm: "vm_try_map ke pa perm it k =
    (if \<not> fin then Inr (- 1, it', k') else if vm_level it' = 0 then case vm_pep it' of None \<Rightarrow> Inl Undefined
      | Some pep \<Rightarrow> Inr (0, it', k'\<lparr>phys := store64 (phys k') pep (pa OR perm)\<rparr>) else Inr (0, it', k'))"
    using va(2) perm(2) loop by (simp add: vm_try_map_def at at_walk_def)
  show ?thesis
  proof (cases fin)
    case False
    then show ?thesis using tm ok' lk out by auto
  next
    case True
    then obtain a' where a': "walk (phys k') pt va 3 = Some a'" "it' = at_walk (phys k') pt va 3 a'"
      and wp: "walk_perm (phys k') pt va 3 AND table_flags = walk_perm (phys k) pt va n AND table_flags" using fin by blast
    have "perm AND NOT (walk_perm (phys k') pt va 3) = 0"
    proof -
      have t: "perm AND table_flags = perm" by (rule and_mask_id [OF perm(1)])
      have "perm AND walk_perm (phys k) pt va n = perm" by (rule and_mask_id) (use perm(3) in \<open>simp add: at at_walk_def\<close>)
      then show ?thesis by (rule and_through_flags [OF t _ wp])
    qed
    note me = mapped_entry [OF pa perm(1,2) walk_perm_flags this]
    have e: "(pa OR perm) AND PTE_PAMASK < 0x100000000" using pa(2) unfolding me(2) by (simp add: word_less_nat_alt)
    have "vm_try_map ke pa perm it k = Inr (0, it', k'\<lparr>phys := store64 (phys k') a' (pa OR perm)\<rparr>)"
      using tm True a'(2) by (simp add: at_walk_def)
    moreover have "pt_ok ke (k'\<lparr>phys := store64 (phys k') a' (pa OR perm)\<rparr>) pt" using set_entry_ok(1) [OF ok' a'(1) e] .
    ultimately show ?thesis
      using set_entry_lookup [OF ok' a'(1) e] same_page_iff [OF va(1)] lk me(1) by simp
  qed
qed

text \<open>
  C4: \<open>try_map\<close> maps exactly one page. Given a page table whose paths do not alias, a free
  page-aligned address that no large page covers and permissions the path allows, it returns 0
  with that page, and no other, translated to the given physical page and permissions; or it
  returns -1, only when physical memory is exhausted, with no translation changed. The page table
  invariant and the allocator's are kept.
\<close>

theorem try_map_exact:
  assumes ok: "pt_ok ke k pt" and va: "va_is_canonical va" "va AND PAGEOFFMASK = 0"
    and it: "new_vmiter (phys k) pt va = Inr it" "vm_level it > 0 \<longrightarrow> \<not> vm_present (phys k) it"
    and pa: "page_aligned pa" "unat pa < 2 ^ 32"
    and perm: "perm AND NOT table_flags = 0" "perm AND PTE_P \<noteq> 0" "perm AND NOT (vm_perm it) = 0"
  shows "\<exists>r it' k'. vm_try_map ke pa perm it k = Inr (r, it', k') \<and> pt_ok ke k' pt
    \<and> (r = 0 \<or> r = - 1 \<and> (\<forall>i < NPAGES. \<not> free_page ke k' i))
    \<and> (\<forall>va'. va_is_canonical va' \<longrightarrow> lookup_va (phys k') pt va' =
        (if r = 0 \<and> drop_bit 12 va' = drop_bit 12 va then Inr (pa + (va' AND PAGEOFFMASK), perm) else lookup_va (phys k) pt va'))"
  using try_map_maps [OF assms] .

text \<open>A zeroed page that cannot be handed out again is a page table.\<close>

lemma walk_empty:
  assumes "\<forall>i < 512. load64 m (pt_entry pt i) = 0"
  shows "walk m pt va n = (if n = 0 then Some (pt_entry pt (pageindex va 3)) else None)"
proof (cases n)
  case (Suc j)
  have z: "load64 m (pt_entry pt (pageindex va 3)) = 0" using assms pageindex_lt by blast
  have "walk m pt va (Suc j) = None"
    by (induction j) (simp_all add: is_table_def PTE_P_def z)
  then show ?thesis using Suc by simp
qed simp

lemma pt_ok_empty:
  assumes "pmem_ok ke k" and "page_aligned pt" and "\<not> (page_of pt < 512 \<and> free_page ke k (page_of pt))"
    and z: "\<forall>i < 512. load64 (phys k) (pt_entry pt i) = 0"
  shows "pt_ok ke k pt"
proof -
  have inj: "pt_entry pt (pageindex a 3) = pt_entry pt (pageindex b 3) \<Longrightarrow> pageindex a 3 = pageindex b 3" for a b
    using pt_entry_inj [OF assms(2) pageindex_lt pageindex_lt] .
  then have "pt_sep (phys k) pt"
    unfolding pt_sep_def walk_empty [OF z] by (simp add: same_prefix_def)
  moreover have "pt_held ke k pt"
    using assms(3) z page_of_entry [OF assms(2) pageindex_lt] by (auto simp: pt_held_def walk_empty [OF z] pageindex_lt split: if_splits)
  ultimately show ?thesis using assms(1,2) by (simp add: pt_ok_def)
qed

definition one_table :: pmem where
  "one_table = boot_pmem\<lparr>refcounts := (replicate NPAGES 0)[1 := 1]\<rparr>"

lemma load_zero: "load64 (\<lambda>_. 0) a = 0"
  by (simp add: load64_def read_bytes_def upt_rec)

lemma pt_ok_one_table: "pt_ok ke one_table 0x1000"
proof (rule pt_ok_empty)
  show "pmem_ok ke one_table" by (simp add: pmem_ok_iff one_table_def boot_pmem_def)
  show "page_aligned 0x1000" by (simp add: page_aligned_def PAGEOFFMASK_def)
  show "\<not> (page_of 0x1000 < 512 \<and> free_page ke one_table (page_of 0x1000))"
    by (simp add: page_of_def free_page_def used_def one_table_def)
  show "\<forall>i < 512. load64 (phys one_table) (pt_entry 0x1000 i) = 0" by (simp add: one_table_def boot_pmem_def load_zero)
qed

theorem try_map_exact_witness:
  "\<exists>it r it' k'. new_vmiter (phys one_table) 0x1000 0x100000 = Inr it
    \<and> vm_try_map 0x5A000 0x8000 7 it one_table = Inr (r, it', k') \<and> pt_ok 0x5A000 k' 0x1000"
proof -
  have z: "\<forall>i < 512. load64 (phys one_table) (pt_entry 0x1000 i) = 0" by (simp add: one_table_def boot_pmem_def load_zero)
  have can: "va_is_canonical 0x100000" by (simp add: va_is_canonical_def VA_LOWMAX_def)
  let ?a = "pt_entry 0x1000 (pageindex 0x100000 3)"
  have l: "load64 (phys one_table) ?a = 0" using z pageindex_lt by blast
  have "stops (phys one_table) 0x1000 0x100000 0 ?a" using l by (simp add: stops_def is_table_def PTE_P_def)
  from stops_vmiter [OF this can] l have it: "new_vmiter (phys one_table) 0x1000 0x100000 =
      Inr \<lparr>vm_pt = 0x1000, vm_pep = Some ?a, vm_level = 3, vm_perm = initial_perm, vm_va = 0x100000\<rparr>" by simp
  have "page_aligned 0x8000" by (simp add: page_aligned_def PAGEOFFMASK_def)
  with try_map_exact [OF pt_ok_one_table [of "0x5A000"] can _ it, of "0x8000" 7] it show ?thesis
    using l by (auto simp: PAGEOFFMASK_def vm_present_def table_flags_def PTE_P_def PTE_W_def PTE_U_def initial_perm_def)
qed

end
