(* ===== verification/Keyboard.thy ===== *)
theory Keyboard
  imports Prelude
begin

unbundle bit_operations_syntax

text \<open>
  The PC keyboard driver (\<open>weensyos/k-hardware.cc\<close>: \<open>keymap\<close>, \<open>complex_keymap\<close>,
  \<open>keyboard_readc\<close>). The two input ports are an argument: the byte in the data register when
  the status register says ready. Key codes are given in the source in octal.
\<close>

section \<open>Definitions\<close>

definition MOD_SHIFT :: nat where "MOD_SHIFT = 0"
definition MOD_CONTROL :: nat where "MOD_CONTROL = 1"
definition MOD_CAPSLOCK :: nat where "MOD_CAPSLOCK = 3"

definition KEY_SHIFT :: nat where "KEY_SHIFT = 250"
definition KEY_CONTROL :: nat where "KEY_CONTROL = 251"
definition KEY_ALT :: nat where "KEY_ALT = 252"
definition KEY_CAPSLOCK :: nat where "KEY_CAPSLOCK = 253"
definition KEY_NUMLOCK :: nat where "KEY_NUMLOCK = 254"
definition KEY_SCROLLLOCK :: nat where "KEY_SCROLLLOCK = 255"

definition KEY_UP :: nat where "KEY_UP = 192"
definition KEY_RIGHT :: nat where "KEY_RIGHT = 193"
definition KEY_DOWN :: nat where "KEY_DOWN = 194"
definition KEY_LEFT :: nat where "KEY_LEFT = 195"
definition KEY_HOME :: nat where "KEY_HOME = 196"
definition KEY_END :: nat where "KEY_END = 197"
definition KEY_PAGEUP :: nat where "KEY_PAGEUP = 198"
definition KEY_PAGEDOWN :: nat where "KEY_PAGEDOWN = 199"
definition KEY_INSERT :: nat where "KEY_INSERT = 200"
definition KEY_DELETE :: nat where "KEY_DELETE = 201"

definition CKEY :: "nat \<Rightarrow> nat" where
  "CKEY cn = 128 + cn"

definition chars :: "string \<Rightarrow> nat list" where
  "chars s = map of_char s"

definition keymap :: "nat list" where
  "keymap =
     [0, 27] @ map CKEY [0..<12] @ [8, 9]
     @ chars ''qwertyuiop'' @ [CKEY 12, CKEY 13, CKEY 14, KEY_CONTROL] @ chars ''as''
     @ chars ''dfghjkl'' @ [CKEY 15, CKEY 16, CKEY 17, KEY_SHIFT, CKEY 18] @ chars ''zxcv''
     @ chars ''bnm'' @ [CKEY 19, CKEY 20, CKEY 21, KEY_SHIFT] @ chars ''*'' @ [KEY_ALT] @ chars '' ''
     @ [KEY_CAPSLOCK, 0, 0, 0, 0, 0]
     @ [0, 0, 0, 0, 0, KEY_NUMLOCK, KEY_SCROLLLOCK] @ chars ''789-456+1''
     @ chars ''230.'' @ replicate 12 0
     @ replicate 16 0
     @ replicate 16 0
     @ replicate 16 0
     @ replicate 12 0 @ [CKEY 14, KEY_CONTROL, 0, 0]
     @ replicate 16 0
     @ [0, 0, 0, 0, 0] @ chars ''/'' @ [0, 0, KEY_ALT] @ replicate 7 0
     @ [0, 0, 0, 0, 0, 0, 0, KEY_HOME, KEY_UP, KEY_PAGEUP, 0, KEY_LEFT, 0, KEY_RIGHT, 0, KEY_END]
     @ [KEY_DOWN, KEY_PAGEDOWN, KEY_INSERT, KEY_DELETE] @ replicate 12 0
     @ replicate 16 0
     @ replicate 16 0"

definition complex_keymap :: "nat list list" where
  "complex_keymap =
     [chars ''1!'' @ [0, 0], chars ''2@'' @ [0, 0],
      chars ''3#'' @ [0, 0], chars ''4$'' @ [0, 0],
      chars ''5%'' @ [0, 0], chars ''6^'' @ [0, 30],
      chars ''7&'' @ [0, 0], chars ''8*'' @ [0, 0],
      chars ''9('' @ [0, 0], chars ''0)'' @ [0, 0],
      chars ''-_'' @ [0, 31], chars ''=+'' @ [0, 0],
      chars ''[{'' @ [27, 0], chars '']}'' @ [29, 0],
      [10, 10, 13, 13],
      chars '';:'' @ [0, 0],
      [39, 34, 0, 0], [96, 126, 0, 0],
      [92, 124, 28, 0], chars '',<'' @ [0, 0],
      chars ''.>'' @ [0, 0], chars ''/?'' @ [0, 0]]"

record keyboard =
  modifiers :: "8 word"
  last_escape :: "8 word"

definition modifier_bit :: "nat \<Rightarrow> 8 word" where
  "modifier_bit ch = push_bit (ch - KEY_SHIFT) 1"

text \<open>The effect of a key press on the modifiers, and the character it gives.\<close>

definition key_press :: "nat \<Rightarrow> 8 word \<Rightarrow> (8 word \<times> nat) cpp" where
  "key_press ch mods =
     (if 97 \<le> ch \<and> ch \<le> 122 then
        if bit mods MOD_CONTROL then Inr (mods, ch - 96)
        else if (\<not> bit mods MOD_SHIFT) \<noteq> (\<not> bit mods MOD_CAPSLOCK) then Inr (mods, ch - 32)
        else Inr (mods, ch)
      else if ch \<ge> KEY_CAPSLOCK then Inr (mods XOR modifier_bit ch, 0)
      else if ch \<ge> KEY_SHIFT then Inr (mods OR modifier_bit ch, 0)
      else if ch \<ge> CKEY 0 \<and> ch \<le> CKEY 21 then
        bindE (at complex_keymap (ch - CKEY 0)) (\<lambda>key.
        bindE (at key (unat (mods AND 3))) (\<lambda>c. Inr (mods, c)))
      else if ch < 128 \<and> bit mods MOD_CONTROL then Inr (mods, 0)
      else Inr (mods, ch))"

definition keyboard_readc :: "8 word option \<Rightarrow> keyboard \<Rightarrow> (keyboard \<times> int) cpp" where
  "keyboard_readc input kb =
     (case input of
        None \<Rightarrow> Inr (kb, - 1)
      | Some data \<Rightarrow>
          let escape = last_escape kb;
              kb = kb\<lparr>last_escape := 0\<rparr>
          in if data = 0xE0 then Inr (kb\<lparr>last_escape := 0x80\<rparr>, 0)
             else if data AND 0x80 \<noteq> 0 then
               bindE (at keymap (unat ((data AND 0x7F) OR escape))) (\<lambda>ch.
               Inr (if ch \<ge> KEY_SHIFT \<and> ch < KEY_CAPSLOCK
                    then kb\<lparr>modifiers := modifiers kb AND NOT (modifier_bit ch)\<rparr> else kb, 0))
             else
               bindE (at keymap (unat (data OR escape))) (\<lambda>ch.
               bindE (key_press ch (modifiers kb)) (\<lambda>(mods, c).
               Inr (kb\<lparr>modifiers := mods\<rparr>, int c))))"

section \<open>The tables\<close>

lemma length_keymap: "length keymap = 256"
  by (simp add: keymap_def chars_def)

lemma keymap_bytes: "list_all (\<lambda>c. c < 256) keymap"
  by code_simp

lemma complex_keymap_shape:
  "length complex_keymap = 22" "list_all (\<lambda>key. length key = 4 \<and> list_all (\<lambda>c. c < 256) key) complex_keymap"
  by (simp_all add: complex_keymap_def chars_def)

lemma unat_and_3: "unat ((w :: 8 word) AND 3) < 4"
proof -
  have "(3 :: 8 word) = mask 2" by (simp add: mask_eq_exp_minus_1)
  then have "unat (w AND 3) = unat (take_bit 2 w)" by (simp only: take_bit_eq_mask)
  then show ?thesis by (simp add: unsigned_take_bit_eq take_bit_nat_less_exp [where n = 2, simplified])
qed

lemma key_press_ok: "ch < 256 \<Longrightarrow> \<exists>mods' c. key_press ch mods = Inr (mods', c) \<and> c < 256"
proof -
  assume ch: "ch < 256"
  have "\<exists>c. bindE (at complex_keymap (ch - CKEY 0)) (\<lambda>key. bindE (at key (unat (mods AND 3))) (\<lambda>c. Inr (mods, c))) = Inr (mods, c) \<and> c < 256"
    if "ch \<le> CKEY 21"
  proof -
    have i: "ch - CKEY 0 < length complex_keymap" using that by (simp add: complex_keymap_shape(1) CKEY_def)
    have "length (complex_keymap ! (ch - CKEY 0)) = 4" "\<forall>c \<in> set (complex_keymap ! (ch - CKEY 0)). c < 256"
      using complex_keymap_shape(2) i by (auto simp: list_all_iff)
    then show ?thesis using i unat_and_3 [of mods] by simp
  qed
  then show ?thesis using ch by (auto simp: key_press_def)
qed

lemma key_index: "unat ((w :: 8 word)) < length keymap"
  using unsigned_less [of w, where ?'a = nat] by (simp add: length_keymap)

text \<open>
  The keyboard driver is total and safe. Whatever scan codes arrive in whatever state,
  no table is read out of range and the result is -1 for no input, and otherwise a byte.
\<close>

theorem keyboard_readc_safe:
  "\<exists>kb' c. keyboard_readc input kb = Inr (kb', c) \<and> (if input = None then c = - 1 \<and> kb' = kb else 0 \<le> c \<and> c < 256)"
proof (cases input)
  case None
  then show ?thesis by (simp add: keyboard_readc_def)
next
  case (Some data)
  have b: "keymap ! unat w < 256" for w :: "8 word" using keymap_bytes key_index [of w] by (auto simp: list_all_length)
  obtain mods c where "key_press (keymap ! unat (data OR last_escape kb)) (modifiers kb) = Inr (mods, c)" "c < 256"
    using key_press_ok [OF b] by blast
  then show ?thesis using Some key_index by (simp add: keyboard_readc_def Let_def)
qed

section \<open>Typing\<close>

text \<open>A sequence of scan codes, read one after the other.\<close>

fun keyboard_run :: "8 word list \<Rightarrow> keyboard \<Rightarrow> (keyboard \<times> int list) cpp" where
  "keyboard_run [] kb = Inr (kb, [])"
| "keyboard_run (data # codes) kb =
     bindE (keyboard_readc (Some data) kb) (\<lambda>(kb, c).
     bindE (keyboard_run codes kb) (\<lambda>(kb, cs). Inr (kb, c # cs)))"

definition idle_keyboard :: keyboard where
  "idle_keyboard = \<lparr>modifiers = 0, last_escape = 0\<rparr>"

lemma modifier_keys:
  "keymap ! 0x2A = KEY_SHIFT" "keymap ! 0x1D = KEY_CONTROL" "keymap ! 0x3A = KEY_CAPSLOCK"
  by code_simp+

lemma read_letter:
  assumes "sc < 0x80" and "97 \<le> keymap ! unat sc" and "keymap ! unat sc \<le> 122"
  shows "keyboard_readc (Some sc) \<lparr>modifiers = m, last_escape = 0\<rparr> =
    Inr (\<lparr>modifiers = m, last_escape = 0\<rparr>,
      int (if bit m MOD_CONTROL then keymap ! unat sc - 96
           else if bit m MOD_SHIFT \<noteq> bit m MOD_CAPSLOCK then keymap ! unat sc - 32 else keymap ! unat sc))"
proof -
  have "sc AND 0x80 = 0"
  proof -
    have "unat sc div 2 ^ 7 = 0" using assms(1) by (simp add: word_less_nat_alt)
    then have "\<not> bit (unat sc) 7" by (simp only: bit_iff_odd even_zero not_not)
    then have "\<not> bit sc 7" by (simp add: bit_unsigned_iff)
    then have "sc AND 2 ^ 7 = 0" by (intro bit_word_eqI) (simp only: bit_and_iff bit_exp_iff, auto)
    then show ?thesis by simp
  qed
  moreover have "sc \<noteq> 0xE0" using assms(1) by auto
  ultimately show ?thesis
    using assms key_index [of sc] by (simp add: keyboard_readc_def key_press_def)
qed

lemma modifier_run:
  "keyboard_readc (Some 0x2A) \<lparr>modifiers = m, last_escape = 0\<rparr> = Inr (\<lparr>modifiers = m OR 1, last_escape = 0\<rparr>, 0)"
  "keyboard_readc (Some 0xAA) \<lparr>modifiers = m, last_escape = 0\<rparr> = Inr (\<lparr>modifiers = m AND NOT 1, last_escape = 0\<rparr>, 0)"
  "keyboard_readc (Some 0x1D) \<lparr>modifiers = m, last_escape = 0\<rparr> = Inr (\<lparr>modifiers = m OR 2, last_escape = 0\<rparr>, 0)"
  "keyboard_readc (Some 0x9D) \<lparr>modifiers = m, last_escape = 0\<rparr> = Inr (\<lparr>modifiers = m AND NOT 2, last_escape = 0\<rparr>, 0)"
  "keyboard_readc (Some 0x3A) \<lparr>modifiers = m, last_escape = 0\<rparr> = Inr (\<lparr>modifiers = m XOR 8, last_escape = 0\<rparr>, 0)"
  "keyboard_readc (Some 0xBA) \<lparr>modifiers = m, last_escape = 0\<rparr> = Inr (\<lparr>modifiers = m, last_escape = 0\<rparr>, 0)"
  using modifier_keys
  by (simp_all add: keyboard_readc_def key_press_def length_keymap modifier_bit_def KEY_SHIFT_def KEY_CONTROL_def KEY_CAPSLOCK_def)

text \<open>
  The modifier keys do what they say, for every letter key. While shift is held the key
  gives the capital letter and while control is held the control character, and caps lock makes
  capitals until it is pressed again; releasing the key restores the plain letter, and the
  keyboard ends in the state it started in.
\<close>

theorem modifier_letters:
  assumes "sc < 0x80" and "97 \<le> keymap ! unat sc" and "keymap ! unat sc \<le> 122"
  defines "ch \<equiv> int (keymap ! unat sc)"
  shows "keyboard_run [sc, 0x2A, sc, 0xAA, sc] idle_keyboard = Inr (idle_keyboard, [ch, 0, ch - 32, 0, ch])
    \<and> keyboard_run [0x1D, sc, 0x9D, sc] idle_keyboard = Inr (idle_keyboard, [0, ch - 96, 0, ch])
    \<and> keyboard_run [0x3A, 0xBA, sc, 0x3A, 0xBA, sc] idle_keyboard = Inr (idle_keyboard, [0, 0, ch - 32, 0, 0, ch])"
  using read_letter [OF assms(1-3)] assms(2)
  by (simp add: idle_keyboard_def modifier_run MOD_CONTROL_def MOD_SHIFT_def MOD_CAPSLOCK_def ch_def of_nat_diff)

theorem modifier_letters_witness:
  "keyboard_run [0x1D, 0x2E, 0x9D, 0x2E] idle_keyboard = Inr (idle_keyboard, [0, 3, 0, 99])"
proof -
  have "keymap ! 0x2E = 99" by code_simp
  then show ?thesis using modifier_letters [of "0x2E"] by simp
qed

end
