(* ===== verification/PtIter.thy ===== *)
theory PtIter
  imports PageTables
begin

unbundle bit_operations_syntax

text \<open>
  Termination and progress of the page table iterators (\<open>weensyos/k-vmiter.cc\<close>): stepping to
  the next address moves strictly forward, and the depth-first walk over the page table pages
  comes to an end on every memory, cyclic or not.
\<close>

section \<open>The next address\<close>

lemma unat_next:
  fixes va :: addr
  assumes "12 + l * 9 \<le> n" and "n < 64" and "unat va < 2 ^ n"
  shows "unat ((va OR pageoffmask l) + 1) = unat va - unat va mod 2 ^ (12 + l * 9) + 2 ^ (12 + l * 9)"
    and "unat va < unat ((va OR pageoffmask l) + 1)" and "unat ((va OR pageoffmask l) + 1) \<le> 2 ^ n"
proof -
  let ?b = "12 + l * 9" and ?r = "unat va mod 2 ^ (12 + l * 9)"
  have "(va AND mask ?b) + (va OR mask ?b) = va + mask ?b" by (rule word_plus_and_or)
  then have or: "va OR mask ?b = va + mask ?b - (va AND mask ?b)" by (simp add: algebra_simps)
  then have "(va OR pageoffmask l) + 1 = va + (mask ?b + 1) - take_bit ?b va"
    by (simp add: pageoffmask_mask take_bit_eq_mask algebra_simps)
  also have "mask ?b + (1 :: addr) = 2 ^ ?b" by (simp add: mask_eq_exp_minus_1)
  finally have e: "(va OR pageoffmask l) + 1 = va + 2 ^ ?b - take_bit ?b va" .
  have r: "unat (take_bit ?b va) = ?r" "?r \<le> unat va" "?r < 2 ^ ?b" by (simp_all only: unat_take_mod) simp_all
  have p: "unat (2 ^ ?b :: addr) = 2 ^ ?b" using assms(1,2) by (simp add: unat_pow2)
  obtain q where q: "unat va = q * 2 ^ ?b + ?r" by (metis div_mult_mod_eq)
  obtain d where d: "n = ?b + d" using assms(1) by (metis le_Suc_ex)
  have "q * 2 ^ ?b < 2 ^ n" using q assms(3) by linarith
  then have "q < 2 ^ d" by (simp add: d power_add mult.commute)
  then have "Suc q * 2 ^ ?b \<le> 2 ^ d * 2 ^ ?b" by (intro mult_right_mono) simp_all
  then have le: "unat va - ?r + 2 ^ ?b \<le> 2 ^ n" using q by (simp add: d power_add mult.commute)
  moreover have "(2 :: nat) ^ n < 2 ^ 64" using assms(2) by (intro power_strict_increasing) simp_all
  moreover have "(2 :: nat) ^ ?b \<le> 2 ^ n" using assms(1) by (intro power_increasing) simp_all
  moreover have "(2 :: nat) ^ n + 2 ^ n \<le> 2 ^ 64"
    using power_increasing [of "Suc n" 64 "2 :: nat"] assms(2) by simp
  ultimately have "unat va + 2 ^ ?b < 2 ^ 64" using assms(3) by linarith
  then have "unat (va + 2 ^ ?b) = unat va + 2 ^ ?b" by (simp add: unat_word_ariths p)
  then show u: "unat ((va OR pageoffmask l) + 1) = unat va - ?r + 2 ^ ?b"
    unfolding e using r le_trans [OF r(2), of "unat va + 2 ^ ?b"] by (subst unat_sub) (simp_all add: word_le_nat_alt)
  show "unat va < unat ((va OR pageoffmask l) + 1)" "unat ((va OR pageoffmask l) + 1) \<le> 2 ^ n"
    unfolding u using r le by linarith+
qed

section \<open>The mapping iterator moves forward\<close>

lemma real_find_fields:
  assumes "vm_real_find m va it = Inr it'" and "vm_level it \<le> 3"
  shows "vm_va it' = va" and "vm_level it' \<le> 3" and "vm_pt it' = vm_pt it"
  using assms down_loop_level
  by (fastforce simp: vm_real_find_def vm_down_def Let_def split: prod.splits if_splits)+

definition vm_low :: "vmiter \<Rightarrow> bool" where
  "vm_low it \<longleftrightarrow> vm_va it \<le> VA_LOWMAX"

lemma vm_low_iff: "vm_low it \<longleftrightarrow> unat (vm_va it) < 2 ^ 47"
  by (simp add: vm_low_def word_le_nat_alt VA_LOWMAX_def) linarith

lemma vm_step_forward:
  assumes "vm_next m it = Inr it' \<or> vm_next_range m it = Inr it'" and "vm_level it \<le> 3" and "vm_low it"
  shows "unat (vm_va it) < unat (vm_va it')" and "unat (vm_va it') \<le> 2 ^ 47" and "vm_level it' \<le> 3"
proof -
  obtain l where l: "l \<le> 3" "vm_real_find m ((vm_va it OR pageoffmask l) + 1) it = Inr it'"
    using assms(1,2) by (auto simp: vm_next_def vm_next_range_def vm_last_va_def Let_def split: if_splits)
  have "12 + l * 9 \<le> 47" using l(1) by simp
  note nx = unat_next [OF this _ assms(3) [unfolded vm_low_iff]]
  show "unat (vm_va it) < unat (vm_va it')" "unat (vm_va it') \<le> 2 ^ 47" "vm_level it' \<le> 3"
    using real_find_fields [OF l(2) assms(2)] nx by simp_all
qed

section \<open>The depth-first walk\<close>

definition pti_ok :: "ptiter \<Rightarrow> bool" where
  "pti_ok it \<longleftrightarrow> 1 \<le> pti_level it \<and> pti_level it \<le> 3 \<and> unat (pti_va it) < 2 ^ 48"

lemma pti_active_iff: "pti_active it \<longleftrightarrow> unat (pti_va it) < 2 ^ 48"
  by (simp add: pti_active_def word_le_nat_alt VA_NONCANONMAX_def) linarith

lemma pti_step_right:
  assumes "pti_ok it" and "l = pti_level it"
    and "(((pti_va it OR pageoffmask l) + 1) XOR pti_va it) AND NOT (pageoffmask (l + 1)) = 0"
  shows "unat (pti_va it) < unat ((pti_va it OR pageoffmask l) + 1)" and "unat ((pti_va it OR pageoffmask l) + 1) < 2 ^ 48"
proof -
  have l: "12 + l * 9 \<le> 48" "12 + (l + 1) * 9 \<le> 48" "unat (pti_va it) < 2 ^ 48" using assms(1,2) by (auto simp: pti_ok_def)
  show "unat (pti_va it) < unat ((pti_va it OR pageoffmask l) + 1)" using unat_next(2) [OF l(1) _ l(3)] by simp
  have "drop_bit 48 ((pti_va it OR pageoffmask l) + 1) = drop_bit 48 (pti_va it)"
    using drop_bit_mono_eq [OF agree_above [OF assms(3)] l(2)] .
  moreover have "unat (drop_bit 48 (pti_va it)) = 0" using l(3) by (simp add: unat_drop_div)
  ultimately have "unat ((pti_va it OR pageoffmask l) + 1) div 2 ^ 48 = 0" by (metis unat_drop_div)
  then show "unat ((pti_va it OR pageoffmask l) + 1) < 2 ^ 48" by (simp add: div_eq_0_iff)
qed

text \<open>
  The result of a move: the end of the walk, or a position behind the old one in depth-first
  order, that is at a larger address, or at the same address and a higher level.
\<close>

definition pti_after :: "ptiter \<Rightarrow> nat \<Rightarrow> ptiter \<Rightarrow> bool" where
  "pti_after it l it' \<longleftrightarrow> pti_pt it' = pti_pt it \<and> (\<not> pti_active it' \<or>
     pti_ok it' \<and> (unat (pti_va it) < unat (pti_va it') \<or> pti_va it' = pti_va it \<and> l \<le> pti_level it'))"

lemma pti_down_loop_returns:
  assumes "pti_ok it" and "1 \<le> stop" and "stop \<le> pti_level it"
  shows "\<exists>it'. pti_down_loop m stop skip it = Some it' \<and> pti_after it (if skip then pti_level it + 1 else stop) it'"
  using assms
proof (induction "(2 ^ 48 - unat (pti_va it), 4 - stop, pti_level it)" arbitrary: stop skip it
    rule: wf_induct_rule [OF wf_lex_prod [OF wf_less_than wf_lex_prod [OF wf_less_than wf_less_than]]])
  case (1 stop it skip)
  let ?l = "pti_level it" and ?va = "(pti_va it OR pageoffmask (pti_level it)) + 1"
  note unfold = pti_down_loop.simps [of m stop skip it]
  consider (found) "is_table (load64 m (pti_pep it))" "\<not> skip" "?l = stop"
    | (deeper) "is_table (load64 m (pti_pep it))" "\<not> skip" "?l \<noteq> stop"
    | (up) "\<not> (is_table (load64 m (pti_pep it)) \<and> \<not> skip)" "(?va XOR pti_va it) AND NOT (pageoffmask (?l + 1)) \<noteq> 0"
    | (right) "\<not> (is_table (load64 m (pti_pep it)) \<and> \<not> skip)" "(?va XOR pti_va it) AND NOT (pageoffmask (?l + 1)) = 0"
    by blast
  then show ?case
  proof cases
    case found
    then show ?thesis using 1(2) unfolding unfold by (simp add: pti_after_def)
  next
    case deeper
    let ?it = "it\<lparr>pti_level := ?l - 1, pti_pep := pt_entry (load64 m (pti_pep it) AND PTE_PAMASK) (pageindex (pti_va it) (?l - 1))\<rparr>"
    have "pti_ok ?it" "stop \<le> pti_level ?it" using 1(2-4) deeper(3) by (auto simp: pti_ok_def)
    moreover have "pti_level ?it < ?l" using 1(2) by (simp add: pti_ok_def)
    ultimately show ?thesis
      using 1(1) [of ?it stop skip] 1(2,3) deeper unfolding unfold by (auto simp: pti_after_def Let_def)
  next
    case up
    show ?thesis
    proof (cases "?l = 3")
      case True
      have "\<not> pti_active (it\<lparr>pti_va := VA_NONCANONMAX + 1\<rparr>)" by (simp add: pti_active_def VA_NONCANONMAX_def)
      then show ?thesis using up True unfolding unfold by (auto simp: pti_after_def Let_def)
    next
      case False
      let ?it = "it\<lparr>pti_level := 3, pti_pep := pt_entry (pti_pt it) (pageindex (pti_va it) 3)\<rparr>"
      have "pti_ok ?it" "1 \<le> ?l + 1" "?l + 1 \<le> pti_level ?it" using 1(2) False by (auto simp: pti_ok_def)
      moreover have "4 - (?l + 1) < 4 - stop" using 1(2,4) by (auto simp: pti_ok_def)
      ultimately have "\<exists>it'. pti_down_loop m (?l + 1) False ?it = Some it' \<and> pti_after ?it (?l + 1) it'"
        using 1(1) [of ?it "?l + 1" False] by auto
      moreover have "pti_after ?it (?l + 1) it' \<Longrightarrow> pti_after it (if skip then ?l + 1 else stop) it'" for it'
        using 1(4) by (auto simp: pti_after_def)
      ultimately show ?thesis using up False unfolding unfold by (auto simp: Let_def)
    qed
  next
    case right
    let ?it = "it\<lparr>pti_pep := pti_pep it + 8, pti_va := ?va\<rparr>"
    note va = pti_step_right [OF 1(2) refl right(2)]
    have "pti_ok ?it" "stop \<le> pti_level ?it" using 1(2,4) va(2) by (simp_all add: pti_ok_def)
    moreover have "2 ^ 48 - unat (pti_va ?it) < 2 ^ 48 - unat (pti_va it)" using va by simp
    ultimately have "\<exists>it'. pti_down_loop m stop False ?it = Some it' \<and> pti_after ?it stop it'"
      using 1(1) [of ?it stop False] 1(3) by auto
    moreover have "pti_after ?it stop it' \<Longrightarrow> pti_after it (if skip then ?l + 1 else stop) it'" for it'
      using va(1) by (auto simp: pti_after_def)
    ultimately show ?thesis using right unfolding unfold by (auto simp: Let_def)
  qed
qed

lemma pti_next_after:
  assumes "pti_ok it"
  obtains it' where "pti_next m it = Some it'" "pti_after it (pti_level it + 1) it'"
proof -
  have "1 \<le> pti_level it" using assms by (simp add: pti_ok_def)
  from pti_down_loop_returns [OF assms order_refl this, of m True] that show thesis
    by (auto simp: pti_next_def pti_down_def)
qed

lemma new_ptiter_after:
  assumes "unat va < 2 ^ 48"
  obtains it where "new_ptiter m pt va = Some it" "pti_pt it = pt" "pti_active it \<Longrightarrow> pti_ok it"
proof -
  let ?it = "\<lparr>pti_pt = pt, pti_pep = pt_entry pt (pageindex va 3), pti_level = 3, pti_va = va\<rparr>"
  have "pti_ok ?it" using assms by (simp add: pti_ok_def)
  from pti_down_loop_returns [OF this order_refl, of m False] that show thesis
    by (auto simp: new_ptiter_def pti_down_def pti_after_def)
qed

text \<open>The loop \<open>for (ptiter it(pt); it.active(); it.next())\<close>: the pages it visits, in order.\<close>

partial_function (option) pti_pages :: "memory \<Rightarrow> ptiter \<Rightarrow> addr list option" where
  "pti_pages m it =
     (if pti_active it then
        case pti_next m it of
          None \<Rightarrow> None
        | Some it' \<Rightarrow> Option.bind (pti_pages m it') (\<lambda>pas. Some (pti_pa m it # pas))
      else Some [])"

definition table_pages :: "memory \<Rightarrow> addr \<Rightarrow> addr list option" where
  "table_pages m pt = (case new_ptiter m pt 0 of None \<Rightarrow> None | Some it \<Rightarrow> pti_pages m it)"

lemma pti_pages_returns:
  assumes "pti_active it \<Longrightarrow> pti_ok it"
  shows "\<exists>pas. pti_pages m it = Some pas"
  using assms
proof (induction "(2 ^ 48 - unat (pti_va it), 4 - pti_level it)" arbitrary: it
    rule: wf_induct_rule [OF wf_lex_prod [OF wf_less_than wf_less_than]])
  case (1 it)
  show ?case
  proof (cases "pti_active it")
    case True
    with 1(2) have ok: "pti_ok it" by blast
    then obtain it' where it': "pti_next m it = Some it'" "pti_after it (pti_level it + 1) it'" by (rule pti_next_after)
    have "\<exists>pas. pti_pages m it' = Some pas"
    proof (cases "pti_active it'")
      case True
      then have a: "pti_ok it'" "unat (pti_va it) < unat (pti_va it') \<or> pti_va it' = pti_va it \<and> pti_level it + 1 \<le> pti_level it'"
        using it'(2) by (auto simp: pti_after_def)
      then have "((2 ^ 48 - unat (pti_va it'), 4 - pti_level it'), 2 ^ 48 - unat (pti_va it), 4 - pti_level it) \<in> less_than <*lex*> less_than"
        using ok by (auto simp: pti_ok_def)
      then show ?thesis using 1(1) [of it'] a(1) by blast
    next
      case False
      then show ?thesis by (simp add: pti_pages.simps [of m it'])
    qed
    then show ?thesis using True it'(1) by (auto simp: pti_pages.simps [of m it])
  next
    case False
    then show ?thesis by (simp add: pti_pages.simps [of m it])
  qed
qed

lemma table_pages_returns: "\<exists>pas. table_pages m pt = Some pas"
proof -
  obtain it where "new_ptiter m pt 0 = Some it" "pti_active it \<Longrightarrow> pti_ok it"
    using new_ptiter_after [of 0 m pt] by auto
  then show ?thesis using pti_pages_returns [of it m] by (simp add: table_pages_def)
qed

text \<open>
  The depth-first walk over page table pages ends, whatever memory holds; even a page
  table that refers to itself gives a finite walk.
\<close>

theorem table_walk_ends: "\<exists>pas. table_pages m pt = Some pas"
  by (rule table_pages_returns)

end
