(* ===== verification/Pci.thy ===== *)
theory Pci
  imports Prelude
begin

unbundle bit_operations_syntax

text \<open>
  The scan of the PCI configuration space (\<open>weensyos/k-pci.hh\<close>, \<open>k-hardware.cc\<close>:
  \<open>pcistate::next\<close>). The configuration registers are hardware: a parameter that gives the
  32-bit word at an address. A write is returned as the pair of port and value that goes out.
\<close>

section \<open>Definitions\<close>

type_synonym pci_config = "int \<Rightarrow> 32 word"

definition config_vendor :: int where "config_vendor = 0"
definition config_command :: int where "config_command = 4"
definition config_lthb :: int where "config_lthb = 12"
definition addr_end :: int where "addr_end = 0x80000"
definition reg_host_bridge_config_data :: int where "reg_host_bridge_config_data = 0xCFC"

definition make_addr :: "int \<Rightarrow> int \<Rightarrow> int \<Rightarrow> int cpp" where
  "make_addr bus slot func =
     bindE (assertE (0 \<le> bus \<and> bus < 256)) (\<lambda>_.
     bindE (assertE (0 \<le> slot \<and> slot < 32)) (\<lambda>_.
     bindE (assertE (0 \<le> func \<and> func < 8)) (\<lambda>_.
     Inr (push_bit 16 bus OR push_bit 11 slot OR push_bit 8 func))))"

definition addr_bus :: "int \<Rightarrow> int cpp" where
  "addr_bus addr = bindE (assertE (0 \<le> addr \<and> addr < 0x1000000)) (\<lambda>_. Inr (drop_bit 16 addr))"

definition addr_slot :: "int \<Rightarrow> int cpp" where
  "addr_slot addr = bindE (assertE (0 \<le> addr \<and> addr < 0x1000000)) (\<lambda>_. Inr (drop_bit 11 addr AND 0x1F))"

definition addr_func :: "int \<Rightarrow> int cpp" where
  "addr_func addr = bindE (assertE (0 \<le> addr \<and> addr < 0x1000000)) (\<lambda>_. Inr (drop_bit 8 addr AND 7))"

definition pci_readl :: "pci_config \<Rightarrow> int \<Rightarrow> 32 word cpp" where
  "pci_readl cfg addr = bindE (assertE (addr \<ge> 0 \<and> addr AND 3 = 0)) (\<lambda>_. Inr (cfg addr))"

text \<open>As in the source, the low address bits are added to the data and not to the port.\<close>

definition pci_writew :: "int \<Rightarrow> 16 word \<Rightarrow> (int \<times> 16 word) cpp" where
  "pci_writew addr data =
     bindE (assertE (addr \<ge> 0 \<and> addr AND 1 = 0)) (\<lambda>_. Inr (reg_host_bridge_config_data, data + of_int (addr AND 3)))"

definition pci_enable :: "int \<Rightarrow> (int \<times> 16 word) cpp" where
  "pci_enable addr = pci_writew (addr + config_command) 7"

text \<open>One step of the loop of \<open>next\<close>: past the device when it has a single function.\<close>

definition pci_step :: "int \<Rightarrow> 32 word \<Rightarrow> int cpp" where
  "pci_step addr x =
     bindE (addr_func addr) (\<lambda>f.
     bindE (if f = 0 \<and> (x = - 1 \<or> x AND 0x800000 = 0) then make_addr 0 1 0 else make_addr 0 0 1) (\<lambda>d.
     Inr (addr + d)))"

lemma pci_step_forward: "pci_step addr x = Inr addr' \<Longrightarrow> addr < addr'"
  by (auto simp: pci_step_def make_addr_def bindE_Inr_iff push_bit_eq_mult split: if_splits)

function pci_next_loop :: "pci_config \<Rightarrow> int \<Rightarrow> 32 word \<Rightarrow> int cpp" where
  "pci_next_loop cfg addr x =
     (case pci_step addr x of
        Inl e \<Rightarrow> Inl e
      | Inr addr' \<Rightarrow>
          if addr' \<ge> addr_end then Inr (- 1)
          else
            case pci_readl cfg (addr' + config_lthb) of
              Inl e \<Rightarrow> Inl e
            | Inr x \<Rightarrow> if x \<noteq> - 1 then Inr addr' else pci_next_loop cfg addr' x)"
  by pat_completeness auto
termination
  by (relation "measure (\<lambda>(cfg, addr, x). nat (addr_end - addr))") (auto dest: pci_step_forward)

declare pci_next_loop.simps [simp del]

definition pci_next :: "pci_config \<Rightarrow> int \<Rightarrow> int cpp" where
  "pci_next cfg addr = bindE (pci_readl cfg (addr + config_lthb)) (pci_next_loop cfg addr)"

lemma pci_next_loop_forward: "pci_next_loop cfg addr x = Inr a \<Longrightarrow> a = - 1 \<or> addr < a \<and> a < addr_end"
proof (induction cfg addr x rule: pci_next_loop.induct)
  case (1 cfg addr x)
  then show ?case
    by (subst (asm) (2) pci_next_loop.simps)
      (fastforce split: sum.splits if_splits dest: pci_step_forward)
qed

lemma pci_next_forward: "pci_next cfg addr = Inr a \<Longrightarrow> a = - 1 \<or> addr < a \<and> a < addr_end"
  by (auto simp: pci_next_def bindE_Inr_iff dest: pci_next_loop_forward)

function pci_find :: "pci_config \<Rightarrow> (int \<Rightarrow> bool cpp) \<Rightarrow> int \<Rightarrow> int cpp" where
  "pci_find cfg predicate addr =
     (if addr \<ge> 0 then
        case predicate addr of
          Inl e \<Rightarrow> Inl e
        | Inr True \<Rightarrow> Inr addr
        | Inr False \<Rightarrow> (case pci_next cfg addr of Inl e \<Rightarrow> Inl e | Inr addr' \<Rightarrow> pci_find cfg predicate addr')
      else Inr addr)"
  by pat_completeness auto
termination
  by (relation "measure (\<lambda>(cfg, predicate, addr). if addr < 0 then 0 else Suc (nat (addr_end - addr)))")
    (auto simp: addr_end_def dest: pci_next_forward)

declare pci_find.simps [simp del]

section \<open>The scan\<close>

text \<open>Whether the function at \<open>b\<close> belongs to a device that is absent or has only function 0.\<close>

definition in_single_device :: "pci_config \<Rightarrow> int \<Rightarrow> bool" where
  "in_single_device cfg b \<longleftrightarrow>
     (let x = cfg (b - b mod 0x800 + config_lthb) in x = - 1 \<or> x AND 0x800000 = 0)"

lemma addr_func_eq: "0 \<le> addr \<Longrightarrow> addr < addr_end \<Longrightarrow> addr_func addr = Inr (addr div 256 mod 8)"
proof -
  have "(7 :: int) = mask 3" by (simp add: mask_eq_exp_minus_1)
  then have "drop_bit 8 addr AND 7 = addr div 256 mod 8"
    by (simp only: take_bit_eq_mask [symmetric]) (simp add: take_bit_eq_mod drop_bit_eq_div)
  then show "0 \<le> addr \<Longrightarrow> addr < addr_end \<Longrightarrow> ?thesis" by (simp add: addr_func_def addr_end_def)
qed

lemma pci_readl_eq: "0 \<le> addr \<Longrightarrow> 256 dvd addr \<Longrightarrow> pci_readl cfg (addr + config_lthb) = Inr (cfg (addr + config_lthb))"
proof -
  assume "0 \<le> addr" and d: "256 dvd addr"
  have "(3 :: int) = mask 2" by (simp add: mask_eq_exp_minus_1)
  then have "(addr + 12) AND 3 = (addr + 12) mod 4"
    by (simp only: take_bit_eq_mask [symmetric]) (simp add: take_bit_eq_mod)
  moreover have "(addr + 12) mod 4 = 0" using d by presburger
  ultimately show ?thesis using \<open>0 \<le> addr\<close> by (simp add: pci_readl_def config_lthb_def)
qed

lemma pci_step_eq:
  assumes "0 \<le> addr" and "addr < addr_end" and "256 dvd addr" and "x = cfg (addr + config_lthb)"
  obtains addr' where "pci_step addr x = Inr addr'" "addr < addr'" "256 dvd addr'"
    "\<And>b. addr < b \<Longrightarrow> b < addr' \<Longrightarrow> 256 dvd b \<Longrightarrow> in_single_device cfg b"
proof (cases "addr div 256 mod 8 = 0 \<and> (x = - 1 \<or> x AND 0x800000 = 0)")
  case True
  obtain k where k: "addr = 256 * k" using assms(3) by (auto elim: dvdE)
  then obtain q where "k = 8 * q" using True by (auto simp: mod_eq_0_iff_dvd elim: dvdE)
  with k have q: "addr = 0x800 * q" by simp
  have "in_single_device cfg b" if "addr < b" "b < addr + 0x800" for b
  proof -
    have "b = (b - addr) + 0x800 * q" using q by simp
    then have "b mod 0x800 = (b - addr) mod 0x800" by (metis mod_mult_self2)
    also have "\<dots> = b - addr" using that by (intro mod_pos_pos_trivial) simp_all
    finally have "b - b mod 0x800 = addr" by simp
    then show ?thesis using True assms(4) by (simp add: in_single_device_def)
  qed
  moreover have "256 dvd addr + 0x800" using assms(3) by presburger
  ultimately show thesis
    using that [of "addr + 0x800"] True addr_func_eq [OF assms(1,2)]
    by (simp add: pci_step_def make_addr_def push_bit_eq_mult)
next
  case False
  have "256 dvd addr + 0x100" using assms(3) by presburger
  moreover have "\<not> (addr < b \<and> b < addr + 0x100 \<and> 256 dvd b)" for b
    using zdvd_imp_le [of 256 "b - addr"] dvd_diff [of 256 b addr] assms(3) by auto
  ultimately show thesis
    using that [of "addr + 0x100"] False addr_func_eq [OF assms(1,2)]
    by (auto simp: pci_step_def make_addr_def push_bit_eq_mult)
qed

definition pci_limit :: "int \<Rightarrow> int" where
  "pci_limit a = (if a = - 1 then addr_end else a)"

definition skipped :: "pci_config \<Rightarrow> int \<Rightarrow> bool" where
  "skipped cfg b \<longleftrightarrow> cfg (b + config_lthb) = - 1 \<or> in_single_device cfg b"

lemma pci_next_loop_exact:
  assumes "0 \<le> addr" and "addr < addr_end" and "256 dvd addr" and "x = cfg (addr + config_lthb)"
  shows "\<exists>a. pci_next_loop cfg addr x = Inr a \<and> (a = - 1 \<or> addr < a \<and> a < addr_end \<and> 256 dvd a \<and> cfg (a + config_lthb) \<noteq> - 1)
    \<and> (\<forall>b. addr < b \<and> b < pci_limit a \<and> 256 dvd b \<longrightarrow> skipped cfg b)"
  using assms
proof (induction cfg addr x rule: pci_next_loop.induct)
  case (1 cfg addr x)
  obtain addr' where s: "pci_step addr x = Inr addr'" "addr < addr'" "256 dvd addr'"
    "\<And>b. addr < b \<Longrightarrow> b < addr' \<Longrightarrow> 256 dvd b \<Longrightarrow> in_single_device cfg b"
    using pci_step_eq [OF 1(2-4), of x cfg] 1(5) by blast
  have rd: "pci_readl cfg (addr' + config_lthb) = Inr (cfg (addr' + config_lthb))" using pci_readl_eq s(2,3) 1(2) by simp
  consider (last) "addr' \<ge> addr_end" | (found) "addr' < addr_end" "cfg (addr' + config_lthb) \<noteq> - 1"
    | (go) "addr' < addr_end" "cfg (addr' + config_lthb) = - 1" by linarith
  then show ?case
  proof cases
    case last
    then show ?thesis using s by (auto simp: pci_next_loop.simps [of cfg addr x] pci_limit_def skipped_def)
  next
    case found
    then show ?thesis using s rd 1(2) by (auto simp: pci_next_loop.simps [of cfg addr x] pci_limit_def skipped_def)
  next
    case go
    obtain a where a: "pci_next_loop cfg addr' (- 1) = Inr a" "a = - 1 \<or> addr' < a \<and> a < addr_end \<and> 256 dvd a \<and> cfg (a + config_lthb) \<noteq> - 1"
      "\<forall>b. addr' < b \<and> b < pci_limit a \<and> 256 dvd b \<longrightarrow> skipped cfg b"
      using 1(1) [OF s(1) _ rd] go s(2,3) 1(2) by auto
    have "skipped cfg b" if "addr < b" "b < pci_limit a" "256 dvd b" for b
      using that a(3) s(4) [of b] go(2) by (cases b addr' rule: linorder_cases) (auto simp: skipped_def)
    then show ?thesis using a(1,2) s(1,2) go rd by (auto simp: pci_next_loop.simps [of cfg addr x])
  qed
qed

text \<open>
  The scan for PCI devices ends and misses nothing. From any function address on the first
  eight buses, \<open>next\<close> returns a later address where a function answers, or -1; every function
  address in between either does not answer or belongs to a device that says it has only
  function 0 (or is absent).
\<close>

theorem pci_next_exact:
  assumes "0 \<le> addr" and "addr < addr_end" and "256 dvd addr"
  shows "\<exists>a. pci_next cfg addr = Inr a \<and> (a = - 1 \<or> addr < a \<and> a < addr_end \<and> 256 dvd a \<and> cfg (a + config_lthb) \<noteq> - 1)
    \<and> (\<forall>b. addr < b \<and> b < pci_limit a \<and> 256 dvd b \<longrightarrow> skipped cfg b)"
  using pci_next_loop_exact [OF assms refl, of cfg] pci_readl_eq [OF assms(1,3), of cfg] by (simp add: pci_next_def)

theorem pci_next_exact_witness:
  "\<exists>a. pci_next (\<lambda>a. if a = 0x100C then 0 else - 1) 0 = Inr a \<and> (a = - 1 \<or> 0 < a)"
  using pci_next_exact [of 0 "\<lambda>a. if a = 0x100C then 0 else - 1"] by (auto simp: addr_end_def)

end
