(* ===== verification/Process.thy ===== *)
theory Process
  imports PtIter Console Keyboard Pci
begin

unbundle bit_operations_syntax

text \<open>
  Processes and the state of the kernel (\<open>weensyos/kernel.hh\<close>, \<open>kernel.cc\<close>,
  \<open>x86-64.h\<close>, \<open>elf.h\<close>, \<open>k-hardware.cc\<close>): registers, process descriptors, the initial
  registers of a process, and the iterator over the loadable segments of an executable. The
  executables are built elsewhere and linked in: they are a parameter, given as their headers and
  bytes. The addresses the linker chooses are collected in a record.
\<close>

section \<open>Processes\<close>

record regstate =
  reg_rax :: "64 word"
  reg_rcx :: "64 word"
  reg_rdx :: "64 word"
  reg_rbx :: "64 word"
  reg_rbp :: "64 word"
  reg_rsi :: "64 word"
  reg_rdi :: "64 word"
  reg_r8 :: "64 word"
  reg_r9 :: "64 word"
  reg_r10 :: "64 word"
  reg_r11 :: "64 word"
  reg_r12 :: "64 word"
  reg_r13 :: "64 word"
  reg_r14 :: "64 word"
  reg_r15 :: "64 word"
  reg_fs :: "64 word"
  reg_gs :: "64 word"
  reg_intno :: "32 word"
  reg_swapgs :: "32 word"
  reg_errcode :: "64 word"
  reg_rip :: "64 word"
  reg_cs :: "64 word"
  reg_rflags :: "64 word"
  reg_rsp :: "64 word"
  reg_ss :: "64 word"

definition zero_regs :: regstate where
  "zero_regs =
     \<lparr>reg_rax = 0, reg_rcx = 0, reg_rdx = 0, reg_rbx = 0, reg_rbp = 0, reg_rsi = 0, reg_rdi = 0, reg_r8 = 0,
      reg_r9 = 0, reg_r10 = 0, reg_r11 = 0, reg_r12 = 0, reg_r13 = 0, reg_r14 = 0, reg_r15 = 0, reg_fs = 0,
      reg_gs = 0, reg_intno = 0, reg_swapgs = 0, reg_errcode = 0, reg_rip = 0, reg_cs = 0, reg_rflags = 0,
      reg_rsp = 0, reg_ss = 0\<rparr>"

datatype procstate = P_FREE | P_RUNNABLE | P_BLOCKED | P_BROKEN

record proc =
  pagetable :: addr
  pid :: int
  state :: procstate
  regs :: regstate

definition NPROC :: nat where "NPROC = 16"

definition SEGSEL_APP_CODE :: "64 word" where "SEGSEL_APP_CODE = 0x18"
definition SEGSEL_APP_DATA :: "64 word" where "SEGSEL_APP_DATA = 0x20"
definition EFLAGS_IF :: "64 word" where "EFLAGS_IF = 0x200"
definition EFLAGS_IOPL_3 :: "64 word" where "EFLAGS_IOPL_3 = 0x3000"
definition PROCINIT_ALLOW_PROGRAMMED_IO :: "32 word" where "PROCINIT_ALLOW_PROGRAMMED_IO = 1"
definition PROCINIT_DISABLE_INTERRUPTS :: "32 word" where "PROCINIT_DISABLE_INTERRUPTS = 2"

definition init_process :: "32 word \<Rightarrow> proc \<Rightarrow> proc" where
  "init_process flags p =
     (let r = zero_regs\<lparr>reg_cs := SEGSEL_APP_CODE OR 3, reg_fs := SEGSEL_APP_DATA OR 3, reg_gs := SEGSEL_APP_DATA OR 3,
                reg_ss := SEGSEL_APP_DATA OR 3, reg_rflags := EFLAGS_IF\<rparr>;
          r = (if flags AND PROCINIT_ALLOW_PROGRAMMED_IO \<noteq> 0
               then r\<lparr>reg_rflags := reg_rflags r OR EFLAGS_IOPL_3\<rparr> else r);
          r = (if flags AND PROCINIT_DISABLE_INTERRUPTS \<noteq> 0
               then r\<lparr>reg_rflags := reg_rflags r AND NOT EFLAGS_IF\<rparr> else r)
      in p\<lparr>regs := r\<rparr>)"

section \<open>Executables\<close>

record elf_program =
  p_type :: "32 word"
  p_flags :: "32 word"
  p_offset :: "64 word"
  p_va :: addr
  p_filesz :: "64 word"
  p_memsz :: "64 word"

record elf_image =
  e_magic :: "32 word"
  e_entry :: addr
  e_programs :: "elf_program list"
  e_bytes :: "8 word list"

definition ELF_MAGIC :: "32 word" where "ELF_MAGIC = 0x464C457F"
definition ELF_PTYPE_LOAD :: "32 word" where "ELF_PTYPE_LOAD = 1"
definition ELF_PFLAG_WRITE :: "32 word" where "ELF_PFLAG_WRITE = 2"

text \<open>
  \<open>program_loader\<close>: the image and what is left of its program headers from \<open>ph_\<close> to
  \<open>endph_\<close>; a missing program has neither.
\<close>

record program_loader =
  elf :: "elf_image option"
  ph :: "elf_program list"

definition loader_fix :: "program_loader \<Rightarrow> program_loader" where
  "loader_fix l = l\<lparr>ph := dropWhile (\<lambda>p. p_type p \<noteq> ELF_PTYPE_LOAD) (ph l)\<rparr>"

definition loader_reset :: "program_loader \<Rightarrow> program_loader cpp" where
  "loader_reset l =
     (case elf l of
        Some img \<Rightarrow>
          bindE (assertE (e_magic img = ELF_MAGIC)) (\<lambda>_.
          Inr (loader_fix (l\<lparr>ph := e_programs img\<rparr>)))
      | None \<Rightarrow> Inr (l\<lparr>ph := []\<rparr>))"

definition program_number :: "(string \<times> elf_image) list \<Rightarrow> string \<Rightarrow> int" where
  "program_number ramimages name =
     (case List.find (\<lambda>i. fst (ramimages ! i) = name) [0..<length ramimages] of Some i \<Rightarrow> int i | None \<Rightarrow> - 1)"

definition new_loader_number :: "(string \<times> elf_image) list \<Rightarrow> int \<Rightarrow> program_loader cpp" where
  "new_loader_number ramimages n =
     loader_reset \<lparr>elf = (if 0 \<le> n \<and> n < int (length ramimages) then Some (snd (ramimages ! nat n)) else None), ph = []\<rparr>"

definition new_loader :: "(string \<times> elf_image) list \<Rightarrow> string \<Rightarrow> program_loader cpp" where
  "new_loader ramimages name = new_loader_number ramimages (program_number ramimages name)"

definition loader_present :: "program_loader \<Rightarrow> bool" where
  "loader_present l \<longleftrightarrow> ph l \<noteq> []"

definition loader_va :: "program_loader \<Rightarrow> addr" where
  "loader_va l = (case ph l of p # _ \<Rightarrow> p_va p | [] \<Rightarrow> 0)"

definition loader_size :: "program_loader \<Rightarrow> 64 word" where
  "loader_size l = (case ph l of p # _ \<Rightarrow> p_memsz p | [] \<Rightarrow> 0)"

definition loader_data_size :: "program_loader \<Rightarrow> 64 word" where
  "loader_data_size l = (case ph l of p # _ \<Rightarrow> p_filesz p | [] \<Rightarrow> 0)"

text \<open>The \<open>data_size()\<close> bytes at \<open>data()\<close>; the loader does not check that they lie in the image.\<close>

definition loader_data :: "program_loader \<Rightarrow> 8 word list cpp" where
  "loader_data l =
     (case (ph l, elf l) of
        (p # _, Some img) \<Rightarrow>
          if unat (p_offset p) + unat (p_filesz p) \<le> length (e_bytes img)
          then Inr (take (unat (p_filesz p)) (drop (unat (p_offset p)) (e_bytes img)))
          else Inl OutOfBounds
      | _ \<Rightarrow> Inr [])"

definition loader_writable :: "program_loader \<Rightarrow> bool" where
  "loader_writable l = (case ph l of p # _ \<Rightarrow> p_flags p AND ELF_PFLAG_WRITE \<noteq> 0 | [] \<Rightarrow> False)"

definition loader_entry :: "program_loader \<Rightarrow> addr" where
  "loader_entry l = (case elf l of Some img \<Rightarrow> e_entry img | None \<Rightarrow> 0)"

definition loader_next :: "program_loader \<Rightarrow> program_loader" where
  "loader_next l = (if ph l \<noteq> [] then loader_fix (l\<lparr>ph := tl (ph l)\<rparr>) else l)"

section \<open>The kernel's state\<close>

text \<open>What the linker and the build provide, and the PCI configuration space of the machine.\<close>

record layout =
  kernel_end :: addr
  kernel_pagetable :: addr
  exception_entry :: addr
  ramimages :: "(string \<times> elf_image) list"
  pci :: pci_config

text \<open>
  The kernel's variables: physical memory with its allocator, the process table, the index of the
  current process, the clock, the console and its hardware cursor, the keyboard driver and what its
  ports will answer at the coming polls (nothing once the list is used up), the page and content of the memory viewer's table, and the variables of \<open>memshow\<close>.
\<close>

record kernel =
  kmem :: pmem
  ptable :: "proc list"
  current :: nat
  ticks :: "64 word"
  con :: console
  hw_cursor :: int
  kbd :: keyboard
  keys :: "8 word option list"
  mu_page :: addr
  mu_v :: "32 word list"
  last_ticks :: "32 word"
  showing :: nat

text \<open>The variables as the boot loader leaves them, with a cleared screen.\<close>

definition idle_kernel :: kernel where
  "idle_kernel =
     \<lparr>kmem = boot_pmem, ptable = replicate NPROC \<lparr>pagetable = 0, pid = 0, state = P_FREE, regs = zero_regs\<rparr>, current = 0, ticks = 0,
      con = console_clear \<lparr>cells = [], cursorpos = 0\<rparr>, hw_cursor = 0, kbd = \<lparr>modifiers = 0, last_escape = 0\<rparr>, keys = [],
      mu_page = 0, mu_v = [], last_ticks = 0, showing = 0\<rparr>"

abbreviation kphys :: "kernel \<Rightarrow> memory" where
  "kphys st \<equiv> phys (kmem st)"

definition set_proc :: "nat \<Rightarrow> (proc \<Rightarrow> proc) \<Rightarrow> kernel \<Rightarrow> kernel" where
  "set_proc i f st = st\<lparr>ptable := (ptable st)[i := f (ptable st ! i)]\<rparr>"

lemma set_proc_sel [simp]:
  "kmem (set_proc i f st) = kmem st" "current (set_proc i f st) = current st" "ticks (set_proc i f st) = ticks st"
  "con (set_proc i f st) = con st" "kbd (set_proc i f st) = kbd st" "keys (set_proc i f st) = keys st"
  "showing (set_proc i f st) = showing st" "mu_page (set_proc i f st) = mu_page st"
  "length (ptable (set_proc i f st)) = length (ptable st)"
  by (simp_all add: set_proc_def)

definition cur :: "kernel \<Rightarrow> proc" where
  "cur st = ptable st ! current st"

text \<open>\<open>console_show_cursor\<close> programs the cursor position into the display controller.\<close>

definition console_show_cursor :: "int \<Rightarrow> kernel \<Rightarrow> kernel" where
  "console_show_cursor cpos st =
     st\<lparr>hw_cursor := (if cpos < 0 \<or> cpos > int (CONSOLE_ROWS * CONSOLE_COLUMNS) then 0 else cpos)\<rparr>"

text \<open>
  The loop \<open>for (vmiter it(...); it.va() < last; it += PAGESIZE)\<close> with a body that may move the
  iterator's entry but not its address. The fuel is the number of rounds of the loop; running out
  stands for a loop that does not end.
\<close>

fun page_loop :: "nat \<Rightarrow> addr \<Rightarrow> (vmiter \<Rightarrow> 's \<Rightarrow> (vmiter \<times> 's) cpp) \<Rightarrow> ('s \<Rightarrow> memory) \<Rightarrow> vmiter \<Rightarrow> 's \<Rightarrow> 's cpp" where
  "page_loop fuel endva body mem it s =
     (if vm_va it < endva then
        case fuel of
          0 \<Rightarrow> Inl Blocks
        | Suc fuel \<Rightarrow>
            bindE (body it s) (\<lambda>(it, s).
            bindE (vm_add (mem s) (of_nat PAGESIZE) it) (\<lambda>it. page_loop fuel endva body mem it s))
      else Inr s)"

declare page_loop.simps [simp del]

text \<open>How a computation may end: with an error that \<open>err\<close> allows, or with a result that satisfies \<open>post\<close>.\<close>

definition ends :: "(cpp_error \<Rightarrow> bool) \<Rightarrow> ('a \<Rightarrow> bool) \<Rightarrow> 'a cpp \<Rightarrow> bool" where
  "ends err post r \<longleftrightarrow> (case r of Inl e \<Rightarrow> err e | Inr x \<Rightarrow> post x)"

lemma ends_simps [simp]: "ends err post (Inl e) \<longleftrightarrow> err e" "ends err post (Inr x) \<longleftrightarrow> post x"
  by (simp_all add: ends_def)

lemma ends_bindE: "ends err post r \<Longrightarrow> (\<And>x. post x \<Longrightarrow> ends err post' (f x)) \<Longrightarrow> ends err post' (bindE r f)"
  by (cases r) simp_all

lemma ends_mono: "ends err post r \<Longrightarrow> (\<And>e. err e \<Longrightarrow> err' e) \<Longrightarrow> (\<And>x. post x \<Longrightarrow> post' x) \<Longrightarrow> ends err' post' r"
  by (cases r) simp_all

lemma vm_real_find_error: "vm_real_find m va it = Inl e \<Longrightarrow> e = Abort"
  by (auto simp: vm_real_find_def vm_down_def Let_def split: prod.splits if_splits)

lemma vm_add_result:
  "vm_level it \<le> 3 \<Longrightarrow>
    ends (\<lambda>e. e = Abort) (\<lambda>it'. vm_va it' = vm_va it + d \<and> vm_level it' \<le> 3) (vm_add m d it)"
  using vm_real_find_error [of m "vm_va it + d" it] real_find_fields(1,2) [of m "vm_va it + d" it]
  by (cases "vm_add m d it") (auto simp: vm_add_def vm_find_def)

text \<open>
  The rule for the loop. The invariant \<open>invar\<close> may speak of the address the loop has reached,
  \<open>at_it\<close> of the iterator before the body and \<open>moved\<close> of the one behind it. The fuel is enough.
\<close>

lemma page_loop_inv:
  assumes body: "\<And>it s. invar (vm_va it) s \<Longrightarrow> at_it (mem s) it \<Longrightarrow> vm_va it < endva \<Longrightarrow>
      ends err (\<lambda>(it', s'). invar (vm_va it + 4096) s' \<and> moved (mem s') it' \<and> vm_va it' = vm_va it) (body it s)"
    and step: "\<And>m it. moved m it \<Longrightarrow> ends err (\<lambda>it'. at_it m it' \<and> vm_va it' = vm_va it + 4096) (vm_add m 4096 it)"
    and "invar (vm_va it) s" and "at_it (mem s) it"
    and "unat endva \<le> unat (vm_va it) + 4096 * fuel" and "unat endva < 2 ^ 63"
  shows "ends err (\<lambda>s'. \<exists>va. \<not> va < endva \<and> invar va s') (page_loop fuel endva body mem it s)"
  using assms(3-5)
proof (induction fuel arbitrary: it s)
  case 0
  then have "\<not> vm_va it < endva" by (simp add: word_less_nat_alt)
  then show ?case using 0 by (auto simp: page_loop.simps)
next
  case (Suc fuel)
  show ?case
  proof (cases "vm_va it < endva")
    case False
    then show ?thesis using Suc.prems by (auto simp: page_loop.simps)
  next
    case True
    have "unat (vm_va it) < unat endva" using True by (simp add: word_less_nat_alt)
    then have va: "unat (vm_va it + 4096) = unat (vm_va it) + 4096" using assms(6) by (simp add: unat_word_ariths)
    have rest: "ends err (\<lambda>s'. \<exists>va. \<not> va < endva \<and> invar va s') (bindE (vm_add (mem s') 4096 it') (\<lambda>it. page_loop fuel endva body mem it s'))"
      if s': "invar (vm_va it + 4096) s'" "moved (mem s') it'" "vm_va it' = vm_va it" for it' s'
      by (rule ends_bindE [OF step [OF s'(2)]]) (use Suc.IH s' va Suc.prems(3) in simp)
    have "ends err (\<lambda>s'. \<exists>va. \<not> va < endva \<and> invar va s')
        (bindE (body it s) (\<lambda>(it, s). bindE (vm_add (mem s) 4096 it) (\<lambda>it. page_loop fuel endva body mem it s)))"
      by (rule ends_bindE [OF body [OF Suc.prems(1,2) True]]) (use rest in auto)
    then show ?thesis using True by (simp add: page_loop.simps [of "Suc fuel"])
  qed
qed

text \<open>The common case: an invariant of the state alone, and an iterator of which only the level is known.\<close>

lemma page_loop_rule:
  assumes "\<And>it s. invar s \<Longrightarrow> vm_level it \<le> 3 \<Longrightarrow> vm_va it < endva \<Longrightarrow>
      ends err (\<lambda>(it', s'). invar s' \<and> vm_va it' = vm_va it \<and> vm_level it' \<le> 3) (body it s)"
    and "err Abort" and "invar s" and "vm_level it \<le> 3"
    and "unat endva \<le> unat (vm_va it) + 4096 * fuel" and "unat endva < 2 ^ 63"
  shows "ends err invar (page_loop fuel endva body mem it s)"
proof -
  have "ends err (\<lambda>s'. \<exists>va. \<not> va < endva \<and> invar s') (page_loop fuel endva body mem it s)"
  proof (rule page_loop_inv [where at_it = "\<lambda>_ it. vm_level it \<le> 3" and moved = "\<lambda>_ it. vm_level it \<le> 3"])
    fix it :: vmiter and s
    assume "invar s" and "vm_level it \<le> 3" and "vm_va it < endva"
    then show "ends err (\<lambda>(it', s'). invar s' \<and> vm_level it' \<le> 3 \<and> vm_va it' = vm_va it) (body it s)"
      by (intro ends_mono [OF assms(1)]) auto
  next
    fix m and it :: vmiter
    assume "vm_level it \<le> 3"
    then show "ends err (\<lambda>it'. vm_level it' \<le> 3 \<and> vm_va it' = vm_va it + 4096) (vm_add m 4096 it)"
      by (intro ends_mono [OF vm_add_result]) (use assms(2) in auto)
  qed (use assms(3-6) in simp_all)
  then show ?thesis by (rule ends_mono) auto
qed

section \<open>Segments\<close>

text \<open>All segments of a loader, in the order it visits them.\<close>

fun loader_visit :: "nat \<Rightarrow> program_loader \<Rightarrow> elf_program list" where
  "loader_visit 0 l = []"
| "loader_visit (Suc n) l = (if loader_present l then hd (ph l) # loader_visit n (loader_next l) else [])"

lemma visit_fixed:
  "length ps \<le> n \<Longrightarrow> loader_visit n (loader_fix \<lparr>elf = e, ph = ps\<rparr>) = filter (\<lambda>p. p_type p = ELF_PTYPE_LOAD) ps"
proof (induction ps arbitrary: n)
  case Nil
  then show ?case by (cases n) (simp_all add: loader_fix_def loader_present_def)
next
  case (Cons p ps)
  show ?case
  proof (cases "p_type p = ELF_PTYPE_LOAD")
    case True
    from Cons.prems obtain n' where "n = Suc n'" by (cases n) simp_all
    with True Cons show ?thesis by (simp add: loader_fix_def loader_present_def loader_next_def)
  next
    case False
    then have "loader_fix \<lparr>elf = e, ph = p # ps\<rparr> = loader_fix \<lparr>elf = e, ph = ps\<rparr>" by (simp add: loader_fix_def)
    then show ?thesis using False Cons by simp
  qed
qed

text \<open>
  The program loader visits exactly the loadable segments of an executable, in the order
  of its program headers, and stops at its end.
\<close>

theorem loader_visits_segments:
  assumes "e_magic img = ELF_MAGIC"
  shows "\<exists>l. loader_reset \<lparr>elf = Some img, ph = ps\<rparr> = Inr l
    \<and> loader_visit (length (e_programs img)) l = filter (\<lambda>p. p_type p = ELF_PTYPE_LOAD) (e_programs img)"
  using assms visit_fixed [of "e_programs img" _ "Some img"] by (simp add: loader_reset_def)

theorem loader_visits_segments_witness:
  "\<exists>l. loader_reset \<lparr>elf = Some \<lparr>e_magic = ELF_MAGIC, e_entry = 0, e_programs = [], e_bytes = []\<rparr>, ph = []\<rparr> = Inr l
    \<and> loader_visit 0 l = []"
  using loader_visits_segments [of "\<lparr>e_magic = ELF_MAGIC, e_entry = 0, e_programs = [], e_bytes = []\<rparr>" "[]"] by simp

end
