(* ===== verification/MemViewer.thy ===== *)
theory MemViewer
  imports Process
begin

unbundle bit_operations_syntax

text \<open>
  The memory viewer (\<open>weensyos/k-memviewer.cc\<close>) and \<open>memshow\<close> (\<open>kernel.cc\<close>): the map of
  physical memory built by walking all page tables, the symbol of a page, and the picture on the
  console. The table of marks lives in a page of its own; the model keeps the page's address and
  the table's content. Messages to the log are not part of the state.

  The walks over page tables are loops without a bound of their own. A value of type
  \<open>run\<close> is \<open>None\<close> when such a loop does not return; the lemmas on termination show that they do.
\<close>

type_synonym 'a run = "'a cpp option"

definition bindR :: "'a run \<Rightarrow> ('a \<Rightarrow> 'b run) \<Rightarrow> 'b run" where
  "bindR r f = (case r of None \<Rightarrow> None | Some (Inl e) \<Rightarrow> Some (Inl e) | Some (Inr x) \<Rightarrow> f x)"

lemma bindR_simps [simp]:
  "bindR None f = None" "bindR (Some (Inl e)) f = Some (Inl e)" "bindR (Some (Inr x)) f = f x"
  by (simp_all add: bindR_def)

lemma bindR_Inr_iff: "bindR r f = Some (Inr y) \<longleftrightarrow> (\<exists>x. r = Some (Inr x) \<and> f x = Some (Inr y))"
  by (auto simp: bindR_def split: option.splits sum.splits)

lemma bindR_Some: "r \<noteq> None \<Longrightarrow> (\<And>x. r = Some (Inr x) \<Longrightarrow> f x \<noteq> None) \<Longrightarrow> bindR r f \<noteq> None"
  by (auto simp: bindR_def split: option.splits sum.splits)

section \<open>Marks\<close>

definition maxpa :: addr where "maxpa = 1024 * 4096"
definition f_kernel :: "32 word" where "f_kernel = 1"
definition f_user :: "32 word" where "f_user = 2"

definition f_process :: "int \<Rightarrow> 32 word" where
  "f_process p = (if p \<ge> 30 then push_bit 31 2 else if p \<ge> 1 then push_bit (nat p) 2 else 0)"

definition mark :: "addr \<Rightarrow> 32 word \<Rightarrow> 32 word list \<Rightarrow> 32 word list" where
  "mark pa flags v = (if pa < maxpa then v[page_of pa := v ! page_of pa OR flags] else v)"

definition lsb :: "32 word \<Rightarrow> nat" where
  "lsb w = (case List.find (bit w) [0..<32] of Some i \<Rightarrow> Suc i | None \<Rightarrow> 0)"

definition marked_pid :: "32 word \<Rightarrow> nat" where
  "marked_pid v = lsb (drop_bit 2 v)"

text \<open>Marking leaves the page tables alone, so the pages of the walk can be collected first.\<close>

definition mark_tables :: "memory \<Rightarrow> 32 word \<Rightarrow> addr \<Rightarrow> 32 word list \<Rightarrow> 32 word list option" where
  "mark_tables m flags pt v = map_option (\<lambda>pas. fold (\<lambda>pa. mark pa flags) pas v) (table_pages m pt)"

text \<open>
  The loop over the low half of an address space: \<open>wanted\<close> tells the pages to mark, \<open>flags_of\<close>
  their flags.
\<close>

partial_function (option) mark_pages ::
    "memory \<Rightarrow> (vmiter \<Rightarrow> bool) \<Rightarrow> (vmiter \<Rightarrow> 32 word) \<Rightarrow> vmiter \<Rightarrow> 32 word list \<Rightarrow> 32 word list run" where
  "mark_pages m wanted flags_of it v =
     (if vm_low it then
        if wanted it then
          case vm_next m it of
            Inl e \<Rightarrow> Some (Inl e)
          | Inr it' \<Rightarrow> mark_pages m wanted flags_of it' (mark (vm_pa m it) (flags_of it) v)
        else
          case vm_next_range m it of
            Inl e \<Rightarrow> Some (Inl e)
          | Inr it' \<Rightarrow> mark_pages m wanted flags_of it' v
      else Some (Inr v))"

definition has_space :: "layout \<Rightarrow> proc \<Rightarrow> bool" where
  "has_space l p \<longleftrightarrow> state p \<noteq> P_FREE \<and> pagetable p \<noteq> 0 \<and> pagetable p \<noteq> kernel_pagetable l"

definition mark_process :: "memory \<Rightarrow> nat \<Rightarrow> proc \<Rightarrow> 32 word list \<Rightarrow> 32 word list run" where
  "mark_process m i p v =
     bindR (map_option Inr (mark_tables m (f_kernel OR f_process (int i)) (pagetable p) v)) (\<lambda>v.
     let v = mark (pagetable p) (f_kernel OR f_process (int i)) v in
     bindR (Some (new_vmiter m (pagetable p) 0)) (\<lambda>it.
     mark_pages m (vm_user m) (\<lambda>_. f_user OR f_process (int i)) it v))"

fun mark_processes :: "layout \<Rightarrow> memory \<Rightarrow> nat list \<Rightarrow> proc list \<Rightarrow> bool \<times> 32 word list \<Rightarrow> (bool \<times> 32 word list) run" where
  "mark_processes l m [] procs (any, v) = Some (Inr (any, v))"
| "mark_processes l m (i # is) procs (any, v) =
     (if has_space l (procs ! i) then
        bindR (mark_process m i (procs ! i) v) (\<lambda>v. mark_processes l m is procs (True, v))
      else mark_processes l m is procs (any, v))"

text \<open>Without process page tables the owner is guessed from the physical address.\<close>

definition owner_flags :: "64 word \<Rightarrow> 32 word" where
  "owner_flags pa =
     (let owner = ucast ((pa - PROC_START_ADDR) div 0x40000) :: 32 word
      in f_user OR f_process (sint (owner + 1)))"

definition physical_user :: "kernel \<Rightarrow> vmiter \<Rightarrow> bool" where
  "physical_user st it \<longleftrightarrow> vm_user (kphys st) it \<and> vm_pa (kphys st) it < MEMSIZE_PHYSICAL
     \<and> used (kmem st) (page_of (vm_pa (kphys st) it))"

definition viewer_alloc :: "layout \<Rightarrow> kernel \<Rightarrow> kernel cpp" where
  "viewer_alloc l st =
     (if mu_page st = 0 then
        let (k, pa) = kalloc (kernel_end l) (of_nat PAGESIZE) (kmem st)
        in if pa = 0 then Inl AssertFail else Inr (st\<lparr>kmem := k, mu_page := pa\<rparr>)
      else Inr st)"

definition guess_owners :: "layout \<Rightarrow> kernel \<Rightarrow> 32 word list \<Rightarrow> 32 word list run" where
  "guess_owners l st v =
     bindR (Some (new_vmiter (kphys st) (kernel_pagetable l) 0)) (\<lambda>it.
     mark_pages (kphys st) (physical_user st) (\<lambda>it. owner_flags (vm_pa (kphys st) it)) it v)"

definition refresh :: "layout \<Rightarrow> kernel \<Rightarrow> kernel run" where
  "refresh l st =
     bindR (Some (viewer_alloc l st)) (\<lambda>st.
     bindR (map_option Inr (mark_tables (kphys st) f_kernel (kernel_pagetable l) (replicate 1024 0))) (\<lambda>v.
     bindR (mark_processes l (kphys st) [1..<NPROC] (ptable st) (False, mark (kernel_pagetable l) f_kernel v)) (\<lambda>(any, v).
     bindR (if \<not> any then guess_owners l st v else Some (Inr v)) (\<lambda>v.
     Some (Inr (st\<lparr>mu_v := (if any then mark (mu_page st) f_kernel v else v)\<rparr>))))))"

section \<open>The picture\<close>

definition CONSOLE_ADDR :: addr where "CONSOLE_ADDR = 0xB8000"
definition COLOR_ERROR :: int where "COLOR_ERROR = 0xC000"

definition page_error :: "addr \<Rightarrow> string \<Rightarrow> nat \<Rightarrow> console \<Rightarrow> console cpp" where
  "page_error pa desc p c =
     bindE (console_vprintf (CPOS 22 0) COLOR_ERROR (''PAGE TABLE ERROR: %lx: %s (pid %d)'' @ [CHR 0x0A])
       [VLong pa, VStr desc, VInt (of_nat p)] c) (\<lambda>(c, _). Inr c)"

definition sym :: "char \<Rightarrow> 16 word \<Rightarrow> 16 word" where
  "sym c attr = of_char c OR attr"

definition viewer_colors :: "16 word list" where
  "viewer_colors = [0xF, 0xC, 0xA, 0x9, 0xE]"

definition viewer_names :: string where
  "viewer_names = ''K123456789ABCDEFGHIJKLMNOPQRST??''"

definition owned_symbol :: "32 word \<Rightarrow> 16 word cpp" where
  "owned_symbol v =
     (let p = marked_pid v;
          ch = push_bit 8 (viewer_colors ! (p mod 5));
          ch = (if v AND f_kernel \<noteq> 0 then ch OR 0x4000 else ch)
      in if v > f_process (int p) OR f_kernel OR f_user then Inr (0x0F00 OR of_char CHR ''S'')
         else bindE (at viewer_names p) (\<lambda>c. Inr (ch OR of_char c)))"

definition symbol_at :: "layout \<Rightarrow> 32 word list \<Rightarrow> addr \<Rightarrow> console \<Rightarrow> (16 word \<times> console) cpp" where
  "symbol_at l v pa c =
     (let is_reserved = reserved_physical_address pa;
          is_kernel = (\<not> is_reserved \<and> \<not> allocatable_physical_address (kernel_end l) pa)
      in if pa \<ge> maxpa then
           Inr (if is_kernel then sym CHR ''K'' 0x4000 else if is_reserved then sym CHR ''?'' 0x4000 else sym CHR ''?'' 0xF000, c)
         else
           bindE (at v (page_of pa)) (\<lambda>x.
           if pa \<ge> CONSOLE_ADDR \<and> pa < CONSOLE_ADDR + of_nat PAGESIZE then Inr (sym CHR ''C'' 0x0700, c)
           else if is_reserved \<and> x > f_kernel OR f_user then
             bindE (page_error pa ''reserved page mapped for user'' (marked_pid x) c) (\<lambda>c. Inr (sym CHR ''R'' 0x0C00, c))
           else if is_reserved then Inr (sym CHR ''R'' 0x0700, c)
           else if is_kernel \<and> x > f_kernel OR f_user then
             bindE (page_error pa ''kernel data page mapped for user'' (marked_pid x) c) (\<lambda>c. Inr (sym CHR ''K'' 0xCD00, c))
           else if is_kernel then Inr (sym CHR ''K'' 0x0D00, c)
           else if pa \<ge> MEMSIZE_PHYSICAL then Inr (sym CHR '' '' 0x0700, c)
           else if x = 0 then Inr (sym CHR ''.'' 0x0700, c)
           else if x = f_kernel then Inr (sym CHR ''K'' 0x0D00, c)
           else if x = f_user then Inr (sym CHR ''.'' 0x0700, c)
           else if x AND f_kernel \<noteq> 0 \<and> x AND f_user \<noteq> 0 then
             bindE (page_error pa ''kernel allocated page mapped for user'' (marked_pid x) c) (\<lambda>c. Inr (sym CHR ''*'' 0xF400, c))
           else bindE (owned_symbol x) (\<lambda>ch. Inr (ch, c))))"

definition set_cell :: "int \<Rightarrow> 16 word \<Rightarrow> console \<Rightarrow> console cpp" where
  "set_cell pos ch c =
     (if 0 \<le> pos \<and> nat pos < length (cells c) then Inr (c\<lparr>cells := (cells c)[nat pos := ch]\<rparr>) else Inl OutOfBounds)"

definition printf_at :: "int \<Rightarrow> int \<Rightarrow> string \<Rightarrow> va_list \<Rightarrow> console \<Rightarrow> console cpp" where
  "printf_at cpos color format val c = bindE (console_vprintf cpos color format val c) (\<lambda>(c, _). Inr c)"

text \<open>The row label is printed in front of every 64 pages.\<close>

fun physical_rows :: "layout \<Rightarrow> 32 word list \<Rightarrow> nat list \<Rightarrow> console \<Rightarrow> console cpp" where
  "physical_rows l v [] c = Inr c"
| "physical_rows l v (pn # pns) c =
     bindE (if pn mod 64 = 0
            then printf_at (CPOS (1 + int (pn div 64)) 3) 0x0F00 ''0x%06X '' [VInt (push_bit 12 (of_nat pn))] c
            else Inr c) (\<lambda>c.
     bindE (symbol_at l v (of_nat (pn * PAGESIZE)) c) (\<lambda>(ch, c).
     bindE (set_cell (CPOS (1 + int (pn div 64)) (12 + int (pn mod 64))) ch c) (physical_rows l v pns)))"

text \<open>User-accessible pages are shown with foreground and background colours exchanged.\<close>

definition swap_colors :: "16 word \<Rightarrow> 16 word" where
  "swap_colors ch =
     (let z = (ch AND 0x0F00) XOR drop_bit 4 (ch AND 0xF000) in ch XOR (z OR push_bit 4 z))"

definition virtual_cell :: "layout \<Rightarrow> 32 word list \<Rightarrow> memory \<Rightarrow> vmiter \<Rightarrow> console \<Rightarrow> (vmiter \<times> console) cpp" where
  "virtual_cell l v m it c =
     (let pn = int (page_of (vm_va it)) in
      bindE (if pn mod 64 = 0 then printf_at (CPOS (11 + pn div 64) 3) 0x0F00 ''0x%06X '' [VLong (vm_va it)] c else Inr c) (\<lambda>c.
      bindE (if \<not> vm_present m it then Inr (of_char CHR '' '', c)
             else bindE (symbol_at l v (vm_pa m it) c) (\<lambda>(ch, c).
                  Inr (if vm_user m it then swap_colors ch else ch, c))) (\<lambda>(ch, c).
      bindE (set_cell (CPOS (11 + pn div 64) (12 + pn mod 64)) ch c) (\<lambda>c. Inr (it, c)))))"

definition console_memviewer_virtual :: "layout \<Rightarrow> 32 word list \<Rightarrow> memory \<Rightarrow> proc \<Rightarrow> console \<Rightarrow> console cpp" where
  "console_memviewer_virtual l v m p c =
     bindE (printf_at (CPOS 10 26) 0x0F00 (''VIRTUAL ADDRESS SPACE FOR %d'' @ [CHR 0x0A]) [VInt (word_of_int (pid p))] c) (\<lambda>c.
     bindE (new_vmiter m (pagetable p) 0) (\<lambda>it.
     page_loop 768 (768 * 4096) (virtual_cell l v m) (\<lambda>_. m) it c))"

definition clear_virtual :: "console \<Rightarrow> console cpp" where
  "clear_virtual c = printf_at (CPOS 10 0) 0x0F00 (replicate 13 (CHR 0x0A)) [] c"

definition draw_memory :: "layout \<Rightarrow> nat option \<Rightarrow> kernel \<Rightarrow> kernel cpp" where
  "draw_memory l vmp st =
     bindE (printf_at (CPOS 0 32) 0x0F00 (''PHYSICAL MEMORY'' @ [CHR 0x0A]) [] (con st)) (\<lambda>c.
     bindE (physical_rows l (mu_v st) [0..<512] c) (\<lambda>c.
     bindE (case vmp of
              Some i \<Rightarrow>
                if pagetable (ptable st ! i) \<noteq> 0
                then console_memviewer_virtual l (mu_v st) (kphys st) (ptable st ! i) c
                else clear_virtual c
            | None \<Rightarrow> clear_virtual c) (\<lambda>c.
     Inr (st\<lparr>con := c\<rparr>))))"

definition console_memviewer :: "layout \<Rightarrow> nat option \<Rightarrow> kernel \<Rightarrow> kernel run" where
  "console_memviewer l vmp st =
     (if state (ptable st ! 0) \<noteq> P_FREE then Some (Inl AssertFail)
      else bindR (refresh l st) (\<lambda>st. Some (draw_memory l vmp st)))"

definition HZ :: nat where "HZ = 100"

fun memshow_search :: "nat \<Rightarrow> proc list \<Rightarrow> nat \<Rightarrow> nat option \<times> nat" where
  "memshow_search 0 procs sh = (None, sh)"
| "memshow_search (Suc n) procs sh =
     (if state (procs ! sh) \<noteq> P_FREE \<and> pagetable (procs ! sh) \<noteq> 0 then (Some sh, sh)
      else memshow_search n procs ((sh + 1) mod NPROC))"

definition memshow :: "layout \<Rightarrow> kernel \<Rightarrow> kernel run" where
  "memshow l st =
     (let st = (if last_ticks st = 0 \<or> ticks st - ucast (last_ticks st) \<ge> of_nat (HZ div 2)
                then st\<lparr>last_ticks := ucast (ticks st), showing := (showing st + 1) mod NPROC\<rparr> else st);
          (p, sh) = memshow_search NPROC (ptable st) (showing st)
      in console_memviewer l p (st\<lparr>showing := sh\<rparr>))"

section \<open>The viewer returns\<close>

lemma new_vmiter_level: "new_vmiter m pt va = Inr it \<Longrightarrow> vm_level it \<le> 3"
  unfolding new_vmiter_def by (drule real_find_fields) simp_all

lemma new_vmiter_ends: "ends (\<lambda>e. e = Abort) (\<lambda>it. vm_level it \<le> 3 \<and> vm_va it = va) (new_vmiter m pt va)"
proof (cases "new_vmiter m pt va")
  case (Inl e)
  then show ?thesis using vm_real_find_error unfolding new_vmiter_def by auto
next
  case (Inr it)
  then show ?thesis using new_vmiter_level [OF Inr] new_vmiter_fields [OF Inr] by simp
qed

text \<open>A computation that returns, in one of the ways \<open>ends\<close> allows.\<close>

definition returns :: "(cpp_error \<Rightarrow> bool) \<Rightarrow> ('a \<Rightarrow> bool) \<Rightarrow> 'a run \<Rightarrow> bool" where
  "returns err post r \<longleftrightarrow> (\<exists>c. r = Some c \<and> ends err post c)"

lemma returns_simps [simp]: "\<not> returns err post None" "returns err post (Some c) \<longleftrightarrow> ends err post c"
  by (simp_all add: returns_def)

lemma returns_bindR:
  assumes "returns err post r" and "\<And>x. post x \<Longrightarrow> returns err post' (f x)"
  shows "returns err post' (bindR r f)"
proof -
  obtain c where "r = Some c" "ends err post c" using assms(1) by (auto simp: returns_def)
  then show ?thesis using assms(2) by (cases c) simp_all
qed

lemma returns_mono:
  "returns err post r \<Longrightarrow> (\<And>e. err e \<Longrightarrow> err' e) \<Longrightarrow> (\<And>x. post x \<Longrightarrow> post' x) \<Longrightarrow> returns err' post' r"
  by (auto simp: returns_def intro: ends_mono)

abbreviation panics :: "cpp_error \<Rightarrow> bool" where
  "panics e \<equiv> e = Abort"

text \<open>A walk returns, panics at most, and keeps the length of the table of marks.\<close>

abbreviation returns_marks :: "nat \<Rightarrow> 32 word list run \<Rightarrow> bool" where
  "returns_marks n \<equiv> returns panics (\<lambda>v. length v = n)"

lemma length_mark [simp]: "length (mark pa flags v) = length v"
  by (simp add: mark_def)

lemma mark_tables_returns: "returns_marks (length v) (map_option Inr (mark_tables m flags pt v))"
proof -
  have "length (fold (\<lambda>pa. mark pa flags) pas v) = length v" for pas by (induction pas arbitrary: v) simp_all
  then show ?thesis using table_pages_returns [of m pt] by (auto simp: mark_tables_def)
qed

lemma mark_pages_returns:
  assumes "vm_level it \<le> 3"
  shows "returns_marks (length v) (mark_pages m wanted flags_of it v)"
  using assms
proof (induction "2 ^ 48 - unat (vm_va it)" arbitrary: it v rule: less_induct)
  case less
  show ?case
  proof (cases "vm_low it")
    case True
    have go: "returns_marks (length v') (mark_pages m wanted flags_of it' v')"
      if "vm_next m it = Inr it' \<or> vm_next_range m it = Inr it'" for it' v'
    proof (rule less.hyps)
      note f = vm_step_forward [OF that less.prems True]
      have "(2 :: nat) ^ 47 < 2 ^ 48" by simp
      then show "2 ^ 48 - unat (vm_va it') < 2 ^ 48 - unat (vm_va it)" using f(1,2) by linarith
      show "vm_level it' \<le> 3" by (rule f(3))
    qed
    have "vm_next m it = Inl e \<or> vm_next_range m it = Inl e \<Longrightarrow> e = Abort" for e
      using vm_real_find_error by (auto simp: vm_next_def vm_next_range_def Let_def)
    then show ?thesis
      by (subst mark_pages.simps)
        (use True go [of _ v] go [of _ "mark (vm_pa m it) (flags_of it) v"] in \<open>auto split: sum.splits\<close>)
  next
    case False
    then show ?thesis by (simp add: mark_pages.simps [of m wanted flags_of it v])
  qed
qed

lemma mark_process_returns: "returns_marks (length v) (mark_process m i p v)"
  unfolding mark_process_def Let_def
proof (rule returns_bindR [OF mark_tables_returns])
  fix w :: "32 word list"
  assume w: "length w = length v"
  have "returns panics (\<lambda>it. vm_level it \<le> 3) (Some (new_vmiter m (pagetable p) 0))"
    using new_vmiter_ends [of 0 m "pagetable p"] by (auto elim: ends_mono)
  then show "returns_marks (length v) (bindR (Some (new_vmiter m (pagetable p) 0)) (\<lambda>it.
      mark_pages m (vm_user m) (\<lambda>_. f_user OR f_process (int i)) it (mark (pagetable p) (f_kernel OR f_process (int i)) w)))"
    by (rule returns_bindR) (use w mark_pages_returns [of _ "mark (pagetable p) (f_kernel OR f_process (int i)) w"] in simp)
qed

lemma mark_processes_returns:
  "returns panics (\<lambda>(_, v'). length v' = length v) (mark_processes l m is procs (any, v))"
proof (induction "is" arbitrary: any v)
  case (Cons i "is")
  have "returns panics (\<lambda>(_, v'). length v' = length v) (bindR (mark_process m i (procs ! i) v) (\<lambda>v. mark_processes l m is procs (True, v)))"
    by (rule returns_bindR [OF mark_process_returns]) (metis Cons.IH)
  then show ?case using Cons.IH by simp
qed simp

section \<open>The picture stays on the screen\<close>

abbreviation viewer_err :: "cpp_error \<Rightarrow> bool" where
  "viewer_err e \<equiv> e = AssertFail \<or> e = Abort"

text \<open>The page of the viewer's table, allocated when it is first needed.\<close>

definition viewer_page :: "layout \<Rightarrow> kernel \<Rightarrow> pmem \<times> addr" where
  "viewer_page l st = (if mu_page st = 0 then kalloc (kernel_end l) (of_nat PAGESIZE) (kmem st) else (kmem st, mu_page st))"

definition with_page :: "layout \<Rightarrow> kernel \<Rightarrow> kernel" where
  "with_page l st = st\<lparr>kmem := fst (viewer_page l st), mu_page := snd (viewer_page l st)\<rparr>"

lemma viewer_alloc_ends: "ends viewer_err (\<lambda>st'. st' = with_page l st) (viewer_alloc l st)"
  by (cases st) (simp add: viewer_alloc_def with_page_def viewer_page_def split: prod.splits)

lemma guess_owners_returns: "returns_marks (length v) (guess_owners l st v)"
proof -
  have "returns panics (\<lambda>it. vm_level it \<le> 3) (Some (new_vmiter (kphys st) (kernel_pagetable l) 0))"
    using new_vmiter_ends [of 0 "kphys st" "kernel_pagetable l"] by (auto elim: ends_mono)
  then show ?thesis unfolding guess_owners_def by (rule returns_bindR) (rule mark_pages_returns)
qed

lemma panics_viewer_err: "returns panics post r \<Longrightarrow> returns viewer_err post r"
  by (erule returns_mono) simp_all

lemma has_marks: "length w = 1024 \<Longrightarrow> \<exists>v. length v = 1024 \<and> st\<lparr>mu_v := w\<rparr> = st\<lparr>mu_v := v\<rparr>"
  by blast

lemma refresh_returns:
  "returns viewer_err (\<lambda>st'. \<exists>v. length v = 1024 \<and> st' = (with_page l st)\<lparr>mu_v := v\<rparr>) (refresh l st)"
proof -
  have page: "returns viewer_err (\<lambda>st'. st' = with_page l st) (Some (viewer_alloc l st))"
    using viewer_alloc_ends by simp
  have tables: "returns viewer_err (\<lambda>v. length v = 1024) (map_option Inr (mark_tables m f pt (replicate 1024 0)))" for m f pt
    using panics_viewer_err [OF mark_tables_returns [where v = "replicate 1024 0"]] by simp
  have procs: "returns viewer_err (\<lambda>(_, w). length w = 1024) (mark_processes l m is ps (False, mark pt f v))"
    if "length v = 1024" for m "is" ps pt f v
    using panics_viewer_err [OF mark_processes_returns [where v = "mark pt f v"]] that by simp
  have owners: "returns viewer_err (\<lambda>v. length v = 1024) (if \<not> any then guess_owners l st' v else Some (Inr v))"
    if "length v = 1024" for any st' v
    using panics_viewer_err [OF guess_owners_returns [where v = v]] that by simp
  show ?thesis
    unfolding refresh_def
    by (rule returns_bindR [OF page], rule returns_bindR [OF tables], rule returns_bindR [OF procs], assumption)
      (auto intro!: returns_bindR [OF owners] has_marks)
qed

lemma printf_at_prints:
  "console_ok c \<Longrightarrow> printable format val \<Longrightarrow> ends (\<lambda>_. False) console_ok (printf_at cpos color format val c)"
  unfolding printf_at_def by (rule console_prints [of c format val cpos color]) auto

lemma viewer_formats:
  "printable ''0x%06X '' [VInt w]" "printable ''0x%06X '' [VLong x]"
  "printable (''VIRTUAL ADDRESS SPACE FOR %d'' @ [CHR 0x0A]) [VInt w]"
  "printable (''PHYSICAL MEMORY'' @ [CHR 0x0A]) []" "printable (replicate 13 (CHR 0x0A)) []"
  "printable (''PAGE TABLE ERROR: %lx: %s (pid %d)'' @ [CHR 0x0A]) [VLong pa, VStr desc, VInt w]"
  using int_arg [of w] by (simp_all add: format_eval numeral_eq_Suc)

lemma page_error_prints: "console_ok c \<Longrightarrow> ends (\<lambda>_. False) console_ok (page_error pa desc p c)"
  using printf_at_prints [OF _ viewer_formats(6)] by (simp add: page_error_def printf_at_def)

lemma marked_pid_bound: "marked_pid v \<le> 30"
proof (cases "List.find (bit (drop_bit 2 v)) [0..<32]")
  case None
  then show ?thesis by (simp add: marked_pid_def lsb_def)
next
  case (Some i)
  then have "bit (drop_bit 2 v) i" by (auto simp: find_Some_iff)
  then have "bit v (2 + i)" by (simp add: bit_drop_bit_eq)
  then have "2 + i < 32" using bit_imp_le_length [of v "2 + i"] by simp
  then show ?thesis using Some by (simp add: marked_pid_def lsb_def)
qed

lemma owned_symbol_shows: "ends (\<lambda>_. False) (\<lambda>_. True) (owned_symbol v)"
  using marked_pid_bound [of v] by (simp add: owned_symbol_def Let_def viewer_names_def)

lemma symbol_at_shows:
  assumes "length v = 1024" and "console_ok c"
  shows "ends (\<lambda>_. False) (\<lambda>(_, c). console_ok c) (symbol_at l v pa c)"
proof -
  have err: "ends (\<lambda>_. False) (\<lambda>(_, c). console_ok c) (bindE (page_error pa d p c) (\<lambda>c. Inr (s, c)))" for d p and s :: "16 word"
    by (rule ends_bindE [OF page_error_prints [OF assms(2)]]) simp
  have own: "ends (\<lambda>_. False) (\<lambda>(_, c). console_ok c) (bindE (owned_symbol x) (\<lambda>ch. Inr (ch, c)))" for x
    by (rule ends_bindE [OF owned_symbol_shows]) (simp add: assms(2))
  have "page_of pa < 1024" if "\<not> pa \<ge> maxpa"
    using that by (simp add: maxpa_def page_of_def word_less_nat_alt not_le div_less_iff_less_mult)
  then have "pa \<ge> maxpa \<or> at v (page_of pa) = Inr (v ! page_of pa)" using assms(1) by (cases "pa \<ge> maxpa") simp_all
  then show ?thesis unfolding symbol_at_def Let_def using err own assms(2) by (elim disjE) simp_all
qed

lemma set_cell_shows:
  "console_ok c \<Longrightarrow> 0 \<le> pos \<Longrightarrow> pos < 2000 \<Longrightarrow> ends (\<lambda>_. False) console_ok (set_cell pos ch c)"
  by (auto simp: set_cell_def console_ok_def nat_less_iff CONSOLE_ROWS_def CONSOLE_COLUMNS_def)

lemma physical_rows_shows:
  assumes "length v = 1024" and "console_ok c" and "\<forall>pn \<in> set pns. pn < 512"
  shows "ends (\<lambda>_. False) console_ok (physical_rows l v pns c)"
  using assms(2,3)
proof (induction pns arbitrary: c)
  case (Cons pn pns)
  have label: "ends (\<lambda>_. False) console_ok
     (if pn mod 64 = 0 then printf_at (CPOS (1 + int (pn div 64)) 3) 0x0F00 ''0x%06X '' [VInt (push_bit 12 (of_nat pn))] c else Inr c)"
    using Cons.prems(1) printf_at_prints [OF _ viewer_formats(1)] by simp
  have "pn div 64 \<le> 7" "pn mod 64 \<le> 63" using Cons.prems(2) by (simp_all, arith)
  then have pos: "0 \<le> CPOS (1 + int (pn div 64)) (12 + int (pn mod 64))" "CPOS (1 + int (pn div 64)) (12 + int (pn mod 64)) < 2000"
    by (simp_all add: CPOS_def)
  show ?case unfolding physical_rows.simps
    by (rule ends_bindE [OF label], rule ends_bindE [OF symbol_at_shows [OF assms(1)]], assumption, clarify)
      (rule ends_bindE [OF set_cell_shows [OF _ pos]], assumption, rule Cons.IH, use Cons.prems(2) in auto)
qed simp

lemma virtual_cell_shows:
  assumes "length v = 1024" and "console_ok c" and "vm_va it < 768 * 4096"
  shows "ends (\<lambda>_. False) (\<lambda>(it', c). it' = it \<and> console_ok c) (virtual_cell l v m it c)"
proof -
  let ?pn = "int (page_of (vm_va it))"
  have "page_of (vm_va it) < 768"
    using assms(3) by (simp add: page_of_def word_less_nat_alt div_less_iff_less_mult)
  then have "?pn div 64 \<le> 11" "?pn mod 64 \<le> 63" "0 \<le> ?pn div 64" "0 \<le> ?pn mod 64" by simp_all
  then have pos: "0 \<le> CPOS (11 + ?pn div 64) (12 + ?pn mod 64)" "CPOS (11 + ?pn div 64) (12 + ?pn mod 64) < 2000"
    by (simp_all add: CPOS_def)
  have label: "ends (\<lambda>_. False) console_ok
     (if ?pn mod 64 = 0 then printf_at (CPOS (11 + ?pn div 64) 3) 0x0F00 ''0x%06X '' [VLong (vm_va it)] c else Inr c)"
    using assms(2) printf_at_prints [OF _ viewer_formats(2)] by simp
  have sym: "ends (\<lambda>_. False) (\<lambda>(_, c). console_ok c)
     (if \<not> vm_present m it then Inr (of_char CHR '' '', c)
      else bindE (symbol_at l v (vm_pa m it) c) (\<lambda>(ch, c). Inr (if vm_user m it then swap_colors ch else ch, c)))"
    if "console_ok c" for c
    using that by (auto intro!: ends_bindE [OF symbol_at_shows [OF assms(1) that]])
  show ?thesis unfolding virtual_cell_def Let_def
    by (rule ends_bindE [OF label], rule ends_bindE [OF sym], assumption, clarify)
      (rule ends_bindE [OF set_cell_shows [OF _ pos]], assumption, simp)
qed

lemma virtual_view_shows:
  assumes "length v = 1024" and "console_ok c"
  shows "ends viewer_err console_ok (console_memviewer_virtual l v m p c)"
proof -
  have head: "ends viewer_err console_ok
      (printf_at (CPOS 10 26) 0x0F00 (''VIRTUAL ADDRESS SPACE FOR %d'' @ [CHR 0x0A]) [VInt (word_of_int (pid p))] c)"
    using printf_at_prints [OF assms(2) viewer_formats(3)] by (rule ends_mono) simp_all
  have iter: "ends viewer_err (\<lambda>it. vm_level it \<le> 3 \<and> vm_va it = 0) (new_vmiter m (pagetable p) 0)"
    using new_vmiter_ends by (rule ends_mono) simp_all
  have loop: "ends viewer_err console_ok (page_loop 768 (768 * 4096) (virtual_cell l v m) (\<lambda>_. m) it c)"
    if "console_ok c" and "vm_level it \<le> 3 \<and> vm_va it = 0" for it :: vmiter and c
  proof (rule page_loop_rule)
    fix it :: vmiter and c
    assume "console_ok c" and "vm_level it \<le> 3" and "vm_va it < 768 * 4096"
    then show "ends viewer_err (\<lambda>(it', c'). console_ok c' \<and> vm_va it' = vm_va it \<and> vm_level it' \<le> 3) (virtual_cell l v m it c)"
      by (intro ends_mono [OF virtual_cell_shows [OF assms(1), of c it l m]]) auto
  qed (use that in simp_all)
  show ?thesis unfolding console_memviewer_virtual_def
    by (rule ends_bindE [OF head], rule ends_bindE [OF iter], rule loop)
qed

lemma draw_memory_shows:
  assumes v: "length (mu_v st) = 1024" and c: "console_ok (con st)"
  shows "ends viewer_err (\<lambda>st'. \<exists>c. console_ok c \<and> st' = st\<lparr>con := c\<rparr>) (draw_memory l vmp st)"
proof -
  have weak: "ends viewer_err console_ok r" if "ends (\<lambda>_. False) console_ok r" for r using that by (rule ends_mono) simp_all
  have virt: "ends viewer_err console_ok (case vmp of
       Some i \<Rightarrow> if pagetable (ptable st ! i) \<noteq> 0 then console_memviewer_virtual l (mu_v st) (kphys st) (ptable st ! i) c
                 else clear_virtual c
     | None \<Rightarrow> clear_virtual c)" if "console_ok c" for c
    using virtual_view_shows [OF v that] weak [OF printf_at_prints [OF that viewer_formats(5)]]
    by (simp add: clear_virtual_def split: option.split)
  show ?thesis unfolding draw_memory_def
    by (rule ends_bindE [OF weak [OF printf_at_prints [OF c viewer_formats(4)]]],
        rule ends_bindE [OF weak [OF physical_rows_shows [OF v]]], assumption, simp,
        rule ends_bindE [OF virt], assumption, auto)
qed

lemma console_memviewer_shows:
  assumes "console_ok (con st)"
  shows "returns viewer_err (\<lambda>st'. \<exists>v c. console_ok c \<and> st' = (with_page l st)\<lparr>mu_v := v, con := c\<rparr>) (console_memviewer l vmp st)"
proof -
  have "returns viewer_err (\<lambda>st'. \<exists>v c. console_ok c \<and> st' = (with_page l st)\<lparr>mu_v := v, con := c\<rparr>) (Some (draw_memory l vmp st1))"
    if st1: "\<exists>v. length v = 1024 \<and> st1 = (with_page l st)\<lparr>mu_v := v\<rparr>" for st1
  proof -
    have "length (mu_v st1) = 1024" "console_ok (con st1)" using st1 assms by (auto simp: with_page_def)
    then show ?thesis using draw_memory_shows [of st1 l vmp] st1 by (auto elim!: ends_mono)
  qed
  then have "returns viewer_err (\<lambda>st'. \<exists>v c. console_ok c \<and> st' = (with_page l st)\<lparr>mu_v := v, con := c\<rparr>)
      (bindR (refresh l st) (\<lambda>st. Some (draw_memory l vmp st)))"
    by (rule returns_bindR [OF refresh_returns])
  then show ?thesis by (simp add: console_memviewer_def)
qed

lemma memshow_search_bound: "sh < NPROC \<Longrightarrow> memshow_search n procs sh = (p, sh') \<Longrightarrow> sh' < NPROC"
proof (induction n arbitrary: sh)
  case (Suc n)
  have "(sh + 1) mod NPROC < NPROC" by (simp add: NPROC_def)
  from Suc.IH [OF this] show ?case using Suc.prems by (auto split: if_splits)
qed simp

text \<open>What \<open>memshow\<close> may change: the picture, the viewer's own page and its counters.\<close>

definition viewed :: "layout \<Rightarrow> kernel \<Rightarrow> kernel \<Rightarrow> bool" where
  "viewed l st st' \<longleftrightarrow> (\<exists>v c t sh. console_ok c \<and> sh < NPROC
     \<and> st' = (with_page l st)\<lparr>mu_v := v, con := c, last_ticks := t, showing := sh\<rparr>)"

lemma memshow_shows:
  assumes "console_ok (con st)" and "showing st < NPROC"
  shows "returns viewer_err (viewed l st) (memshow l st)"
proof -
  define st1 where "st1 = (if last_ticks st = 0 \<or> ticks st - ucast (last_ticks st) \<ge> of_nat (HZ div 2)
                then st\<lparr>last_ticks := ucast (ticks st), showing := (showing st + 1) mod NPROC\<rparr> else st)"
  obtain p sh where p: "memshow_search NPROC (ptable st1) (showing st1) = (p, sh)" by fastforce
  have "showing st1 < NPROC" using assms(2) by (simp add: st1_def NPROC_def)
  then have sh: "sh < NPROC" using memshow_search_bound p by blast
  have "console_ok (con (st1\<lparr>showing := sh\<rparr>))" using assms(1) by (simp add: st1_def)
  from console_memviewer_shows [OF this, of l p]
  have "returns viewer_err (viewed l st) (console_memviewer l p (st1\<lparr>showing := sh\<rparr>))"
  proof (rule returns_mono)
    fix st'
    assume "\<exists>v c. console_ok c \<and> st' = (with_page l (st1\<lparr>showing := sh\<rparr>))\<lparr>mu_v := v, con := c\<rparr>"
    then obtain v c where c: "console_ok c" "st' = (with_page l (st1\<lparr>showing := sh\<rparr>))\<lparr>mu_v := v, con := c\<rparr>" by blast
    then show "viewed l st st'"
      unfolding viewed_def
      by (intro exI [of _ v] exI [of _ c] exI [of _ "last_ticks st1"] exI [of _ sh])
        (use sh in \<open>cases st; auto simp: st1_def with_page_def viewer_page_def\<close>)
  qed simp
  then show ?thesis using p by (simp add: memshow_def st1_def Let_def)
qed



end
