(* ===== verification/Kernel.thy ===== *)
theory Kernel
  imports MemViewer
begin

unbundle bit_operations_syntax

text \<open>
  The kernel proper (\<open>weensyos/kernel.cc\<close> and its helpers in \<open>k-hardware.cc\<close>): booting,
  process setup, the exception and system call handlers, fork, exit and the scheduler.

  A kernel entry either goes on with a result (\<open>Goes\<close>) or never returns to its caller because
  it leaves the kernel (\<open>Leaves\<close>): it resumes the current process, reboots, or stops the machine.
  Panics and failed assertions are errors; a computation that runs for ever is \<open>None\<close>.
\<close>

section \<open>Leaving the kernel\<close>

datatype outcome = Resumed | Rebooted string | Halted "int option"

datatype 'a flow = Goes 'a | Leaves outcome

type_synonym 'a krun = "('a flow \<times> kernel) run"

definition goes :: "'a \<Rightarrow> kernel \<Rightarrow> 'a krun" where
  "goes x st = Some (Inr (Goes x, st))"

definition leaves :: "outcome \<Rightarrow> kernel \<Rightarrow> 'a krun" where
  "leaves out st = Some (Inr (Leaves out, st))"

definition bindK :: "'a krun \<Rightarrow> ('a \<Rightarrow> kernel \<Rightarrow> 'b krun) \<Rightarrow> 'b krun" where
  "bindK r f = bindR r (\<lambda>(x, st). case x of Goes y \<Rightarrow> f y st | Leaves out \<Rightarrow> leaves out st)"

lemma bindK_simps [simp]:
  "bindK (goes x st) f = f x st" "bindK (leaves out st) f = leaves out st" "bindK None f = None"
  "bindK (Some (Inl e)) f = Some (Inl e)"
  by (simp_all add: bindK_def goes_def leaves_def)

section \<open>Power and keyboard control\<close>

text \<open>
  \<open>poweroff\<close>: the port the power management controller is written at, if one is found. The
  message and the endless loop behind it are only reached when the machine stays on.
\<close>

definition acpi_vendor :: "pci_config \<Rightarrow> int \<Rightarrow> bool cpp" where
  "acpi_vendor cfg a =
     bindE (pci_readl cfg (a + config_vendor)) (\<lambda>vd. Inr (vd = 0x71138086 \<or> vd = 0x29188086))"

definition poweroff :: "layout \<Rightarrow> kernel \<Rightarrow> 'a krun" where
  "poweroff l st =
     bindR (Some (pci_find (pci l) (acpi_vendor (pci l)) 0)) (\<lambda>a.
     bindR (Some (if a \<ge> 0 then
                    bindE (pci_readl (pci l) (a + 0x40)) (\<lambda>x. Inr (Some (uint (x AND 0xFFC0) + 4)))
                  else Inr None)) (\<lambda>port.
     bindR (Some (printf_at (CPOS 24 0) 0xC000 (''Cannot power off!'' @ [CHR 0x0A]) [] (con st))) (\<lambda>c.
     leaves (Halted port) (st\<lparr>con := c\<rparr>))))"

text \<open>
  The temporary page table of a soft reboot: one large page at address 0, below a second table
  page. The kernel's variables get their initial values again, so only memory survives.
\<close>

definition reboot_memory :: "memory \<Rightarrow> memory" where
  "reboot_memory m =
     store64 (store64 (memset m 0x1000 0 (PAGESIZE * 2)) 0x1000 (0x2000 OR PTE_P OR PTE_W)) 0x2000 (PTE_P OR PTE_W OR PTE_PS)"

definition soft_reboot :: "int \<Rightarrow> kernel \<Rightarrow> 'a krun" where
  "soft_reboot c st =
     leaves (Rebooted (if c = of_char CHR ''a'' then ''allocators'' else if c = of_char CHR ''e'' then ''forkexit'' else ''fork''))
       (idle_kernel\<lparr>kmem := boot_pmem\<lparr>phys := reboot_memory (kphys st)\<rparr>, con := con st, keys := keys st\<rparr>)"

definition poll :: "kernel \<Rightarrow> 8 word option \<times> kernel" where
  "poll st = (case keys st of [] \<Rightarrow> (None, st) | k # ks \<Rightarrow> (k, st\<lparr>keys := ks\<rparr>))"

definition check_keyboard :: "layout \<Rightarrow> kernel \<Rightarrow> int krun" where
  "check_keyboard l st =
     (let (input, st) = poll st in
      bindR (Some (keyboard_readc input (kbd st))) (\<lambda>(kb, c).
      let st = st\<lparr>kbd := kb\<rparr> in
      if c = of_char CHR ''a'' \<or> c = of_char CHR ''f'' \<or> c = of_char CHR ''e'' then soft_reboot c st
      else if c = 3 \<or> c = of_char CHR ''q'' then poweroff l st
      else goes c st))"

section \<open>Running a process\<close>

definition vm_translates :: "memory \<Rightarrow> addr \<Rightarrow> addr \<Rightarrow> unit cpp" where
  "vm_translates m pt va = bindE (new_vmiter m pt va) (\<lambda>it. assertE (vm_pa m it = va))"

definition check_pagetable :: "layout \<Rightarrow> memory \<Rightarrow> addr \<Rightarrow> unit cpp" where
  "check_pagetable l m pt =
     bindE (assertE (pt AND PAGEOFFMASK = 0)) (\<lambda>_.
     bindE (vm_translates m pt (exception_entry l)) (\<lambda>_.
     bindE (vm_translates m (kernel_pagetable l) pt) (\<lambda>_.
     vm_translates m pt (kernel_pagetable l))))"

definition run_proc :: "layout \<Rightarrow> nat \<Rightarrow> kernel \<Rightarrow> 'a krun" where
  "run_proc l p st =
     (if state (ptable st ! p) \<noteq> P_RUNNABLE then Some (Inl AssertFail)
      else
        let st = st\<lparr>current := p\<rparr> in
        bindR (Some (check_pagetable l (kphys st) (pagetable (ptable st ! p)))) (\<lambda>_. leaves Resumed st))"

text \<open>The loop of \<open>schedule\<close>; it has no other way out than running a process or the keyboard.\<close>

partial_function (option) schedule_loop :: "layout \<Rightarrow> nat \<Rightarrow> 32 word \<Rightarrow> kernel \<Rightarrow> ('a flow \<times> kernel) cpp option" where
  "schedule_loop l p spins st =
     (let p = (p + 1) mod NPROC in
      if state (ptable st ! p) = P_RUNNABLE then run_proc l p st
      else
        case check_keyboard l st of
          None \<Rightarrow> None
        | Some (Inl e) \<Rightarrow> Some (Inl e)
        | Some (Inr (Leaves out, st)) \<Rightarrow> leaves out st
        | Some (Inr (Goes _, st)) \<Rightarrow>
            (case (if spins mod 4096 = 0 then memshow l st else Some (Inr st)) of
               None \<Rightarrow> None
             | Some (Inl e) \<Rightarrow> Some (Inl e)
             | Some (Inr st) \<Rightarrow> schedule_loop l p (spins + 1) st))"

definition schedule :: "layout \<Rightarrow> kernel \<Rightarrow> 'a krun" where
  "schedule l st =
     (let p = pid (cur st) in
      if 0 \<le> p then schedule_loop l (nat p) 1 st else Some (Inl OutOfBounds))"

section \<open>Memory of a process\<close>

text \<open>
  The kernel reaches physical memory through its own page table, which maps all of it except
  page 0. A range the kernel may overwrite for a process must hold allocatable pages only;
  other writes would change the kernel itself and are not given a meaning.
\<close>

definition kernel_reads :: "addr \<Rightarrow> nat \<Rightarrow> bool" where
  "kernel_reads pa n \<longleftrightarrow> PAGESIZE \<le> unat pa \<and> unat pa + n \<le> unat MEMSIZE_PHYSICAL"

definition writable_range :: "addr \<Rightarrow> addr \<Rightarrow> nat \<Rightarrow> bool" where
  "writable_range ke pa n \<longleftrightarrow>
     n = 0 \<or> kernel_reads pa n \<and>
     list_all (\<lambda>i. allocatable_physical_address ke (page_addr i)) [page_of pa..<(unat pa + n + 4095) div PAGESIZE]"

fun kfree_all :: "addr \<Rightarrow> addr list \<Rightarrow> pmem \<Rightarrow> pmem cpp" where
  "kfree_all ke [] k = Inr k"
| "kfree_all ke (p # ps) k = bindE (kfree ke p k) (kfree_all ke ps)"

definition free_user_page :: "layout \<Rightarrow> vmiter \<Rightarrow> pmem \<Rightarrow> (vmiter \<times> pmem) cpp" where
  "free_user_page l it k =
     (if vm_user (phys k) it \<and> vm_va it \<noteq> CONSOLE_ADDR
      then bindE (kfree (kernel_end l) (vm_pa (phys k) it) k) (\<lambda>k. Inr (it, k))
      else Inr (it, k))"

text \<open>\<open>kfree\<close> leaves memory alone, so the page table pages can be collected before they are freed.\<close>

definition syscall_exit_assist :: "layout \<Rightarrow> nat \<Rightarrow> kernel \<Rightarrow> kernel run" where
  "syscall_exit_assist l p st =
     (let pt = pagetable (ptable st ! p) in
      bindR (Some (new_vmiter (kphys st) pt PROC_START_ADDR)) (\<lambda>it.
      bindR (Some (page_loop 512 MEMSIZE_VIRTUAL (free_user_page l) phys it (kmem st))) (\<lambda>k.
      bindR (map_option Inr (table_pages (phys k) pt)) (\<lambda>pages.
      bindR (Some (kfree_all (kernel_end l) pages k)) (\<lambda>k.
      bindR (Some (kfree (kernel_end l) pt k)) (\<lambda>k.
      Some (Inr (set_proc p (\<lambda>pr. pr\<lparr>state := P_FREE\<rparr>) (st\<lparr>kmem := k\<rparr>)))))))))"

section \<open>Setting up a process\<close>

text \<open>
  One round of the loop that copies the kernel's mappings below \<open>PROC_START_ADDR\<close>. The second
  iterator is part of the loop's state; it moves on together with the first.
\<close>

definition copy_perm :: "memory \<Rightarrow> vmiter \<Rightarrow> 64 word" where
  "copy_perm m it =
     (let p = vm_present m it; w = vm_writable m it; u = vm_user m it
      in if p \<and> \<not> w \<and> \<not> u then PTE_P
         else if p \<and> w \<and> \<not> u then PTE_P OR PTE_W
         else if p \<and> w \<and> u then PTE_P OR PTE_W OR PTE_U
         else 0)"

definition copy_mapping :: "layout \<Rightarrow> vmiter \<Rightarrow> vmiter \<times> pmem \<Rightarrow> (vmiter \<times> vmiter \<times> pmem) cpp" where
  "copy_mapping l kit s =
     (let (pit, k) = s; perm = copy_perm (phys k) kit in
      bindE (if perm = 0 then Inr (pit, k)
             else bindE (vm_try_map (kernel_end l) (vm_va pit) perm pit k) (\<lambda>(_, pit, k). Inr (pit, k))) (\<lambda>(pit, k).
      bindE (vm_add (phys k) (of_nat PAGESIZE) pit) (\<lambda>pit.
      Inr (kit, pit, k))))"

definition copy_kernel_mappings :: "layout \<Rightarrow> addr \<Rightarrow> pmem \<Rightarrow> pmem cpp" where
  "copy_kernel_mappings l pt k =
     bindE (new_vmiter (phys k) (kernel_pagetable l) 0) (\<lambda>kit.
     bindE (new_vmiter (phys k) pt 0) (\<lambda>pit.
     bindE (page_loop 256 PROC_START_ADDR (copy_mapping l) (\<lambda>s. phys (snd s)) kit (pit, k)) (\<lambda>(_, k). Inr k)))"

text \<open>
  The pages of one segment. The loop runs once per page the segment touches; a result that is
  not mapped, or memory that is exhausted, goes unnoticed as in the source.
\<close>

fun segment_pages :: "nat \<Rightarrow> layout \<Rightarrow> addr \<Rightarrow> program_loader \<Rightarrow> addr \<Rightarrow> pmem \<Rightarrow> pmem cpp" where
  "segment_pages fuel l pt ld a k =
     (if a < loader_va ld + loader_size ld then
        case fuel of
          0 \<Rightarrow> Inl Blocks
        | Suc fuel \<Rightarrow>
            bindE (new_vmiter (phys k) pt a) (\<lambda>it.
            let (k, pa) = kalloc (kernel_end l) (of_nat PAGESIZE) k in
            bindE (vm_try_map (kernel_end l) pa (PTE_P OR (if loader_writable ld then PTE_W else 0) OR PTE_U) it k) (\<lambda>(_, _, k).
            segment_pages fuel l pt ld (a + of_nat PAGESIZE) k))
      else Inr k)"

declare segment_pages.simps [simp del]

definition segment_fuel :: "program_loader \<Rightarrow> nat" where
  "segment_fuel ld = unat (loader_size ld) div PAGESIZE + 2"

fun alloc_segments :: "nat \<Rightarrow> layout \<Rightarrow> addr \<Rightarrow> program_loader \<Rightarrow> pmem \<Rightarrow> pmem cpp" where
  "alloc_segments 0 l pt ld k = Inr k"
| "alloc_segments (Suc n) l pt ld k =
     (if loader_present ld then
        bindE (segment_pages (segment_fuel ld) l pt ld (round_down (loader_va ld) (of_nat PAGESIZE)) k)
          (alloc_segments n l pt (loader_next ld))
      else Inr k)"

text \<open>The bytes of a segment go to consecutive physical addresses from the translation of its first byte.\<close>

definition fill_segment :: "layout \<Rightarrow> addr \<Rightarrow> program_loader \<Rightarrow> pmem \<Rightarrow> pmem cpp" where
  "fill_segment l pt ld k =
     bindE (new_vmiter (phys k) pt (loader_va ld)) (\<lambda>it.
     let pa = vm_pa (phys k) it in
     if \<not> writable_range (kernel_end l) pa (unat (loader_size ld)) then Inl Undefined
     else
       let k = k\<lparr>phys := memset (phys k) pa 0 (unat (loader_size ld))\<rparr> in
       bindE (new_vmiter (phys k) pt (loader_va ld)) (\<lambda>it.
       let pa = vm_pa (phys k) it in
       bindE (loader_data ld) (\<lambda>bs.
       if \<not> writable_range (kernel_end l) pa (length bs) then Inl Undefined
       else Inr (k\<lparr>phys := write_bytes (phys k) pa bs\<rparr>))))"

fun fill_segments :: "nat \<Rightarrow> layout \<Rightarrow> addr \<Rightarrow> program_loader \<Rightarrow> pmem \<Rightarrow> pmem cpp" where
  "fill_segments 0 l pt ld k = Inr k"
| "fill_segments (Suc n) l pt ld k =
     (if loader_present ld then bindE (fill_segment l pt ld k) (fill_segments n l pt (loader_next ld)) else Inr k)"

definition map_stack :: "layout \<Rightarrow> addr \<Rightarrow> addr \<Rightarrow> pmem \<Rightarrow> pmem cpp" where
  "map_stack l pt stack_addr k =
     bindE (new_vmiter (phys k) pt stack_addr) (\<lambda>it.
     let (k, pa) = kalloc (kernel_end l) (of_nat PAGESIZE) k in
     bindE (vm_try_map (kernel_end l) pa (PTE_P OR PTE_W OR PTE_U) it k) (\<lambda>(_, _, k). Inr k))"

definition process_setup :: "layout \<Rightarrow> nat \<Rightarrow> string \<Rightarrow> kernel \<Rightarrow> kernel cpp" where
  "process_setup l p program_name st =
     (let st = set_proc p (init_process 0) st;
          (k, pt) = kalloc (kernel_end l) (of_nat PAGESIZE) (kmem st)
      in if pt = 0 then Inr (st\<lparr>kmem := k\<rparr>)
         else
           let st = set_proc p (\<lambda>pr. pr\<lparr>pagetable := pt\<rparr>) st;
               k = k\<lparr>phys := memset (phys k) pt 0 PAGESIZE\<rparr>
           in bindE (copy_kernel_mappings l pt k) (\<lambda>k.
              bindE (new_loader (ramimages l) program_name) (\<lambda>ld.
              bindE (loader_reset ld) (\<lambda>ld.
              bindE (alloc_segments (length (ph ld)) l pt ld k) (\<lambda>k.
              bindE (fill_segments (length (ph ld)) l pt ld k) (\<lambda>k.
              let stack_addr = MEMSIZE_VIRTUAL - of_nat PAGESIZE in
              bindE (map_stack l pt stack_addr k) (\<lambda>k.
              Inr (set_proc p (\<lambda>pr. pr\<lparr>regs := (regs pr)\<lparr>reg_rip := loader_entry ld, reg_rsp := stack_addr + of_nat PAGESIZE\<rparr>,
                                   state := P_RUNNABLE\<rparr>) (st\<lparr>kmem := k\<rparr>)))))))))"

section \<open>Booting\<close>

text \<open>
  \<open>init_kernel_memory\<close>: the five pages of the kernel page table, with large pages for the
  addresses from 1GB to 4GB.
\<close>

definition kpt :: "layout \<Rightarrow> nat \<Rightarrow> addr" where
  "kpt l i = kernel_pagetable l + of_nat (PAGESIZE * i)"

definition init_kernel_tables :: "layout \<Rightarrow> memory \<Rightarrow> memory" where
  "init_kernel_tables l m =
     (let m = memset m (kernel_pagetable l) 0 (PAGESIZE * 5);
          m = store64 m (pt_entry (kpt l 0) 0) (kpt l 1 OR PTE_P OR PTE_W OR PTE_U);
          m = store64 m (pt_entry (kpt l 1) 0) (kpt l 2 OR PTE_P OR PTE_W OR PTE_U);
          m = store64 m (pt_entry (kpt l 2) 0) (kpt l 3 OR PTE_P OR PTE_W OR PTE_U);
          m = store64 m (pt_entry (kpt l 2) 1) (kpt l 4 OR PTE_P OR PTE_W OR PTE_U);
          m = store64 m (pt_entry (kpt l 1) 1) (push_bit 30 1 OR PTE_P OR PTE_W OR PTE_PS);
          m = store64 m (pt_entry (kpt l 1) 2) (push_bit 30 2 OR PTE_P OR PTE_W OR PTE_PS)
      in store64 m (pt_entry (kpt l 1) 3) (push_bit 30 3 OR PTE_P OR PTE_W OR PTE_PS))"

definition map_all_user :: "layout \<Rightarrow> vmiter \<Rightarrow> pmem \<Rightarrow> (vmiter \<times> pmem) cpp" where
  "map_all_user l it k =
     (if vm_va it \<noteq> 0 then vm_map (kernel_end l) (vm_va it) (PTE_P OR PTE_W OR PTE_U) it k else Inr (it, k))"

definition init_kernel_memory :: "layout \<Rightarrow> pmem \<Rightarrow> pmem cpp" where
  "init_kernel_memory l k =
     (let k = k\<lparr>phys := init_kernel_tables l (phys k)\<rparr> in
      bindE (new_vmiter (phys k) (kernel_pagetable l) 0) (\<lambda>it.
      page_loop 512 MEMSIZE_PHYSICAL (map_all_user l) phys it k))"

definition kernel_perm :: "addr \<Rightarrow> 64 word" where
  "kernel_perm va =
     (if va \<noteq> 0 then
        if va < 0x100000 then
          if va = CONSOLE_ADDR then PTE_P OR PTE_W OR PTE_U else PTE_P OR PTE_W
        else PTE_P OR PTE_W OR PTE_U
      else 0)"

definition map_kernel_page :: "layout \<Rightarrow> vmiter \<Rightarrow> pmem \<Rightarrow> (vmiter \<times> pmem) cpp" where
  "map_kernel_page l it k = vm_map (kernel_end l) (vm_va it) (kernel_perm (vm_va it)) it k"

definition init_pagetable :: "layout \<Rightarrow> pmem \<Rightarrow> pmem cpp" where
  "init_pagetable l k =
     bindE (new_vmiter (phys k) (kernel_pagetable l) 0) (\<lambda>it.
     page_loop 512 MEMSIZE_PHYSICAL (map_kernel_page l) phys it k)"

definition init_ptable :: "kernel \<Rightarrow> kernel" where
  "init_ptable st = st\<lparr>ptable := map (\<lambda>(i, p). p\<lparr>pid := int i, state := P_FREE\<rparr>) (enumerate 0 (ptable st))\<rparr>"

fun setup_all :: "layout \<Rightarrow> (nat \<times> string) list \<Rightarrow> kernel \<Rightarrow> kernel cpp" where
  "setup_all l [] st = Inr st"
| "setup_all l ((p, name) # ps) st = bindE (process_setup l p name st) (setup_all l ps)"

definition initial_programs :: "layout \<Rightarrow> string option \<Rightarrow> (nat \<times> string) list cpp" where
  "initial_programs l command =
     (case command of
        None \<Rightarrow> Inr [(1, ''allocator''), (2, ''allocator2''), (3, ''allocator3''), (4, ''allocator4'')]
      | Some name \<Rightarrow>
          bindE (new_loader (ramimages l) name) (\<lambda>ld.
          Inr (if loader_present ld then [(1, name)]
               else [(1, ''allocator''), (2, ''allocator2''), (3, ''allocator3''), (4, ''allocator4'')])))"

definition kernel_main :: "layout \<Rightarrow> string option \<Rightarrow> kernel \<Rightarrow> 'a krun" where
  "kernel_main l command st =
     bindR (Some (
       bindE (init_kernel_memory l (kmem st)) (\<lambda>k.
       let st = st\<lparr>kmem := k, con := (con st)\<lparr>cursorpos := 3 * int CONSOLE_COLUMNS\<rparr>, ticks := 1\<rparr>;
           st = st\<lparr>con := console_clear (con st)\<rparr>
       in bindE (init_pagetable l (kmem st)) (\<lambda>k.
          let st = init_ptable (st\<lparr>kmem := k\<rparr>) in
          bindE (initial_programs l command) (\<lambda>ps.
          setup_all l ps st))))) (run_proc l 1)"

section \<open>System calls\<close>

definition SYSCALL_GETPID :: "64 word" where "SYSCALL_GETPID = 1"
definition SYSCALL_YIELD :: "64 word" where "SYSCALL_YIELD = 2"
definition SYSCALL_PANIC :: "64 word" where "SYSCALL_PANIC = 3"
definition SYSCALL_PAGE_ALLOC :: "64 word" where "SYSCALL_PAGE_ALLOC = 4"
definition SYSCALL_FORK :: "64 word" where "SYSCALL_FORK = 5"
definition SYSCALL_EXIT :: "64 word" where "SYSCALL_EXIT = 6"

definition syscall_page_alloc :: "layout \<Rightarrow> addr \<Rightarrow> kernel \<Rightarrow> (int \<times> kernel) cpp" where
  "syscall_page_alloc l addr st =
     (if addr < PROC_START_ADDR \<or> addr \<ge> MEMSIZE_VIRTUAL then Inr (- 1, st)
      else
        bindE (new_vmiter (kphys st) (pagetable (cur st)) addr) (\<lambda>it.
        let (k, pa) = kalloc (kernel_end l) (of_nat PAGESIZE) (kmem st) in
        if pa = 0 then Inr (- 1, st\<lparr>kmem := k\<rparr>)
        else
          let k = k\<lparr>phys := memset (phys k) pa 0 PAGESIZE\<rparr> in
          bindE (vm_try_map (kernel_end l) pa (PTE_P OR PTE_W OR PTE_U) it k) (\<lambda>(_, _, k).
          Inr (0, st\<lparr>kmem := k\<rparr>))))"

text \<open>
  Mapping a page in the child; when that fails the child is given back, and behind it the page
  \<open>extra\<close> that was meant for it, if any. The result tells whether fork goes on.
\<close>

definition fork_map :: "layout \<Rightarrow> nat \<Rightarrow> addr \<Rightarrow> 64 word \<Rightarrow> 64 word \<Rightarrow> addr option \<Rightarrow> kernel \<Rightarrow> (bool \<times> kernel) run" where
  "fork_map l child va pa perm extra st =
     bindR (Some (new_vmiter (kphys st) (pagetable (ptable st ! child)) va)) (\<lambda>cit.
     bindR (Some (vm_try_map (kernel_end l) pa perm cit (kmem st))) (\<lambda>(r, _, k).
     let st = st\<lparr>kmem := k\<rparr> in
     if r = - 1 then
       bindR (syscall_exit_assist l child st) (\<lambda>st.
       case extra of
         None \<Rightarrow> Some (Inr (False, st))
       | Some p \<Rightarrow> bindR (Some (kfree (kernel_end l) p (kmem st))) (\<lambda>k. Some (Inr (False, st\<lparr>kmem := k\<rparr>))))
     else Some (Inr (True, st))))"

definition add_reference :: "64 word \<Rightarrow> kernel \<Rightarrow> kernel cpp" where
  "add_reference pa st =
     bindE (at (refcounts (kmem st)) (page_of pa)) (\<lambda>rc.
     Inr (st\<lparr>kmem := (kmem st)\<lparr>refcounts := (refcounts (kmem st))[page_of pa := rc + 1]\<rparr>\<rparr>))"

definition fork_page :: "layout \<Rightarrow> nat \<Rightarrow> vmiter \<Rightarrow> kernel \<Rightarrow> (bool \<times> kernel) run" where
  "fork_page l child it st =
     (let m = kphys st; perm = vm_perms m it; pa = vm_pa m it in
      if vm_present m it \<and> \<not> vm_writable m it then
        bindR (fork_map l child (vm_va it) pa perm None st) (\<lambda>(ok, st).
        if ok then bindR (Some (add_reference (vm_pa (kphys st) it) st)) (\<lambda>st. Some (Inr (True, st)))
        else Some (Inr (False, st)))
      else if vm_user m it then
        if vm_va it = CONSOLE_ADDR then fork_map l child (vm_va it) CONSOLE_ADDR perm None st
        else
          let (k, child_pa) = kalloc (kernel_end l) (of_nat PAGESIZE) (kmem st); st = st\<lparr>kmem := k\<rparr> in
          if child_pa = 0 then bindR (syscall_exit_assist l child st) (\<lambda>st. Some (Inr (False, st)))
          else if \<not> kernel_reads pa PAGESIZE then Some (Inl Undefined)
          else
            fork_map l child (vm_va it) child_pa perm (Some child_pa)
              (st\<lparr>kmem := (kmem st)\<lparr>phys := memcpy (kphys st) child_pa pa PAGESIZE\<rparr>\<rparr>)
      else fork_map l child (vm_va it) pa perm None st)"

text \<open>The loop over the parent's pages. The second iterator is moved but not used.\<close>

fun fork_loop :: "nat \<Rightarrow> layout \<Rightarrow> nat \<Rightarrow> vmiter \<Rightarrow> vmiter \<Rightarrow> kernel \<Rightarrow> (bool \<times> kernel) run" where
  "fork_loop fuel l child it pit st =
     (if vm_va it < MEMSIZE_VIRTUAL then
        case fuel of
          0 \<Rightarrow> Some (Inl Blocks)
        | Suc fuel \<Rightarrow>
            bindR (fork_page l child it st) (\<lambda>(ok, st).
            if \<not> ok then Some (Inr (False, st))
            else
              bindR (Some (vm_add (kphys st) (of_nat PAGESIZE) it)) (\<lambda>it.
              bindR (Some (vm_add (kphys st) (of_nat PAGESIZE) pit)) (\<lambda>pit.
              fork_loop fuel l child it pit st)))
      else Some (Inr (True, st)))"

declare fork_loop.simps [simp del]

definition free_slot :: "kernel \<Rightarrow> nat option" where
  "free_slot st = List.find (\<lambda>i. state (ptable st ! i) = P_FREE) [1..<NPROC]"

definition finish_fork :: "nat \<Rightarrow> kernel \<Rightarrow> kernel cpp" where
  "finish_fork child st =
     (let st = set_proc child (\<lambda>pr. pr\<lparr>state := P_RUNNABLE, regs := regs (cur st)\<rparr>) st;
          st = set_proc child (\<lambda>pr. pr\<lparr>regs := (regs pr)\<lparr>reg_rax := 0\<rparr>\<rparr>) st;
          p = pid (cur st)
      in if 0 \<le> p \<and> p < int (length (ptable st))
         then Inr (set_proc (nat p) (\<lambda>pr. pr\<lparr>regs := (regs pr)\<lparr>reg_rax := of_nat child\<rparr>\<rparr>) st)
         else Inl OutOfBounds)"

definition syscall_fork :: "layout \<Rightarrow> kernel \<Rightarrow> int krun" where
  "syscall_fork l st =
     (case free_slot st of
        None \<Rightarrow> goes (- 1) st
      | Some child \<Rightarrow>
          let st = set_proc child (\<lambda>pr. pr\<lparr>pid := int child\<rparr>) st;
              (k, pt) = kalloc (kernel_end l) (of_nat PAGESIZE) (kmem st)
          in if pt = 0 then goes (- 1) (st\<lparr>kmem := k\<rparr>)
             else
               let k = k\<lparr>phys := memset (phys k) pt 0 PAGESIZE\<rparr>;
                   st = set_proc child (\<lambda>pr. pr\<lparr>pagetable := pt\<rparr>) (st\<lparr>kmem := k\<rparr>)
               in bindR (Some (new_vmiter (kphys st) (pagetable (cur st)) 0)) (\<lambda>it.
                  bindR (Some (new_vmiter (kphys st) pt 0)) (\<lambda>pit.
                  bindR (fork_loop 768 l child it pit st) (\<lambda>(ok, st).
                  if \<not> ok then goes (- 1) st
                  else bindR (Some (finish_fork child st)) (goes (int child))))))"

definition syscall_exit :: "layout \<Rightarrow> kernel \<Rightarrow> kernel run" where
  "syscall_exit l st =
     (let p = pid (cur st) in
      if 0 \<le> p \<and> p < int (length (ptable st)) then syscall_exit_assist l (nat p) st else Some (Inl OutOfBounds))"

text \<open>
  What every entry into the kernel does first: it saves the registers, shows the cursor and,
  unless the kernel itself faulted, the picture of memory, and polls the keyboard.
\<close>

definition kernel_entry :: "layout \<Rightarrow> bool \<Rightarrow> regstate \<Rightarrow> kernel \<Rightarrow> int krun" where
  "kernel_entry l show_memory r st =
     (let st = set_proc (current st) (\<lambda>pr. pr\<lparr>regs := r\<rparr>) st;
          st = console_show_cursor (cursorpos (con st)) st
      in bindR (if show_memory then memshow l st else Some (Inr st)) (check_keyboard l))"

definition syscall :: "layout \<Rightarrow> regstate \<Rightarrow> kernel \<Rightarrow> 64 word krun" where
  "syscall l r st =
     bindK (kernel_entry l True r st) (\<lambda>_ st.
     let n = reg_rax (regs (cur st)) in
     if n = SYSCALL_PANIC then Some (Inl Abort)
     else if n = SYSCALL_GETPID then goes (of_int (pid (cur st))) st
     else if n = SYSCALL_YIELD then
       schedule l (set_proc (current st) (\<lambda>pr. pr\<lparr>regs := (regs pr)\<lparr>reg_rax := 0\<rparr>\<rparr>) st)
     else if n = SYSCALL_PAGE_ALLOC then
       bindR (Some (syscall_page_alloc l (reg_rdi (regs (cur st))) st)) (\<lambda>(v, st). goes (of_int v) st)
     else if n = SYSCALL_FORK then bindK (syscall_fork l st) (\<lambda>v st. goes (of_int v) st)
     else if n = SYSCALL_EXIT then bindR (syscall_exit l st) (schedule l)
     else Some (Inl Abort))"

section \<open>Exceptions\<close>

definition INT_PF :: "32 word" where "INT_PF = 14"
definition INT_IRQ :: "32 word" where "INT_IRQ = 32"
definition IRQ_TIMER :: "32 word" where "IRQ_TIMER = 0"
definition PFERR_PRESENT :: "64 word" where "PFERR_PRESENT = 1"
definition PFERR_WRITE :: "64 word" where "PFERR_WRITE = 2"
definition PFERR_USER :: "64 word" where "PFERR_USER = 4"

definition fault_message :: "addr \<Rightarrow> proc \<Rightarrow> va_list" where
  "fault_message addr p =
     [VInt (word_of_int (pid p)), VPtr addr,
      VStr (if reg_errcode (regs p) AND PFERR_WRITE \<noteq> 0 then ''write'' else ''read''),
      VStr (if reg_errcode (regs p) AND PFERR_PRESENT \<noteq> 0 then ''protection problem'' else ''missing page''),
      VPtr (reg_rip (regs p))]"

text \<open>The register \<open>cr2\<close> holds the address of the fault.\<close>

definition exception :: "layout \<Rightarrow> addr \<Rightarrow> regstate \<Rightarrow> kernel \<Rightarrow> 'a krun" where
  "exception l cr2 r st =
     bindK (kernel_entry l (reg_intno r \<noteq> INT_PF \<or> reg_errcode r AND PFERR_USER \<noteq> 0) r st) (\<lambda>_ st.
     if reg_intno r = INT_IRQ + IRQ_TIMER then schedule l (st\<lparr>ticks := ticks st + 1\<rparr>)
     else if reg_intno r = INT_PF then
       if reg_errcode r AND PFERR_USER = 0 then Some (Inl Abort)
       else
         bindR (Some (printf_at (CPOS 24 0) 0x0C00 (''Process %d page fault for %p (%s %s, rip=%p)!'' @ [CHR 0x0A])
                        (fault_message cr2 (cur st)) (con st))) (\<lambda>c.
         let st = set_proc (current st) (\<lambda>pr. pr\<lparr>state := P_BROKEN\<rparr>) (st\<lparr>con := c\<rparr>) in
         if state (cur st) = P_RUNNABLE then run_proc l (current st) st else schedule l st)
     else Some (Inl Abort))"

end
