(* ===== verification/KernelFrames.thy ===== *)
theory KernelFrames
  imports Kernel
begin

unbundle bit_operations_syntax

text \<open>
  What the kernel's operations leave alone, and that they return: exit, the page loops of fork
  and the keyboard. The lemmas are stated with \<open>ends\<close> and \<open>returns\<close>, whose first argument lists
  the errors that can happen.
\<close>

section \<open>Freeing\<close>

text \<open>
  Enough of the allocator's invariant to know that its pages are aligned; unlike the whole
  invariant it survives any change of the reference counts.
\<close>

definition cursor_ok :: "pmem \<Rightarrow> bool" where
  "cursor_ok k \<longleftrightarrow> length (refcounts k) = NPAGES \<and> PAGESIZE dvd unat (next_alloc_pa k)"

lemma pmem_ok_cursor_ok: "pmem_ok ke k \<Longrightarrow> cursor_ok k"
  by (simp add: pmem_ok_def cursor_ok_def)

lemma cursor_ok_phys [simp]: "cursor_ok (k\<lparr>phys := m\<rparr>) = cursor_ok k"
  by (simp add: cursor_ok_def)

abbreviation free_err :: "cpp_error \<Rightarrow> bool" where
  "free_err e \<equiv> e = Abort \<or> e = OutOfBounds"

definition only_counts :: "pmem \<Rightarrow> pmem \<Rightarrow> bool" where
  "only_counts k k' \<longleftrightarrow> phys k' = phys k \<and> (cursor_ok k \<longrightarrow> cursor_ok k')"

lemma only_counts_refl [simp]: "only_counts k k"
  by (simp add: only_counts_def)

lemma only_counts_trans: "only_counts a b \<Longrightarrow> only_counts b c \<Longrightarrow> only_counts a c"
  by (simp add: only_counts_def)

lemma page_aligned_and: "page_aligned a \<Longrightarrow> page_aligned (a AND b)"
proof -
  have "(a AND b) AND PAGEOFFMASK = (a AND PAGEOFFMASK) AND b" by (simp only: and.assoc and.commute [of b])
  then show "page_aligned a \<Longrightarrow> ?thesis" by (simp add: page_aligned_def)
qed

lemma page_aligned_plus: "page_aligned a \<Longrightarrow> page_aligned b \<Longrightarrow> page_aligned (a + b)"
proof -
  assume "page_aligned a" and "page_aligned b"
  then have "4096 dvd unat a + unat b" by (simp add: page_aligned_unat)
  then have "4096 dvd (unat a + unat b) mod 2 ^ 64" by (rule dvd_mod) simp
  then show ?thesis by (simp add: page_aligned_unat unat_word_ariths)
qed

lemma vm_user_present: "vm_user m it \<Longrightarrow> vm_present m it"
proof -
  let ?e = "pe m (vm_pep it)"
  assume "vm_user m it"
  then have "?e AND vm_perm it AND 5 = 5" by (simp add: vm_user_def vm_has_perm_def PTE_P_def PTE_U_def)
  then have "bit (?e AND vm_perm it AND 5) 0" by simp
  then have "bit (?e AND 1) 0" by (simp add: bit_and_iff)
  then show ?thesis unfolding vm_present_def PTE_P_def by (metis bit_0_eq bot_apply bot_bool_def)
qed

lemma vm_pa_aligned:
  assumes "page_aligned (vm_va it)" and "vm_user m it"
  shows "page_aligned (vm_pa m it)"
proof -
  let ?e = "pe m (vm_pep it)"
  have "?e AND PTE_P \<noteq> 0" using vm_user_present [OF assms(2)] by (simp add: vm_present_def)
  moreover have "page_aligned ((if vm_level it > 0 then (?e AND PTE_PAMASK) AND NOT 0x1000 else ?e AND PTE_PAMASK)
      + (vm_va it AND pageoffmask (vm_level it)))"
    using page_aligned_PAMASK page_aligned_and assms(1) by (intro page_aligned_plus) auto
  ultimately show ?thesis by (simp add: vm_pa_def Let_def)
qed

lemma kfree_counts: "page_aligned p \<Longrightarrow> ends free_err (only_counts k) (kfree ke p k)"
  by (auto simp: kfree_def at_def only_counts_def cursor_ok_def page_aligned_unat Let_def)

lemma kfree_all_counts: "list_all page_aligned ps \<Longrightarrow> ends free_err (only_counts k) (kfree_all ke ps k)"
proof (induction ps arbitrary: k)
  case (Cons p ps)
  have "page_aligned p" "list_all page_aligned ps" using Cons.prems by simp_all
  then show ?case unfolding kfree_all.simps
    by (intro ends_bindE [OF kfree_counts] ends_mono [OF Cons.IH]) (auto intro: only_counts_trans)
qed simp

lemma free_user_pages_counts:
  assumes "vm_level it \<le> 3" and "vm_va it = PROC_START_ADDR"
  shows "ends free_err (only_counts k) (page_loop 512 MEMSIZE_VIRTUAL (free_user_page l) phys it k)"
proof -
  have "ends free_err (\<lambda>k'. \<exists>va. \<not> va < MEMSIZE_VIRTUAL \<and> page_aligned va \<and> only_counts k k')
      (page_loop 512 MEMSIZE_VIRTUAL (free_user_page l) phys it k)"
  proof (rule page_loop_inv [where at_it = "\<lambda>_ it. vm_level it \<le> 3" and moved = "\<lambda>_ it. vm_level it \<le> 3"])
    fix it :: vmiter and k1
    assume "page_aligned (vm_va it) \<and> only_counts k k1" and it: "vm_level it \<le> 3"
    then have k1: "page_aligned (vm_va it)" "only_counts k k1" by simp_all
    have "ends free_err (\<lambda>(it', k2). only_counts k k2 \<and> it' = it) (free_user_page l it k1)"
      unfolding free_user_page_def using k1 vm_pa_aligned [OF k1(1)]
      by (auto intro!: ends_bindE [OF kfree_counts] dest: only_counts_trans)
    moreover have "page_aligned (vm_va it + 4096)"
      using k1(1) by (rule page_aligned_plus) (simp add: page_aligned_def PAGEOFFMASK_def)
    ultimately show "ends free_err (\<lambda>(it', k2). (page_aligned (vm_va it + 4096) \<and> only_counts k k2) \<and> vm_level it' \<le> 3 \<and> vm_va it' = vm_va it)
        (free_user_page l it k1)"
      by (elim ends_mono) (use it in auto)
  next
    fix m and it :: vmiter
    assume "vm_level it \<le> 3"
    then show "ends free_err (\<lambda>it'. vm_level it' \<le> 3 \<and> vm_va it' = vm_va it + 4096) (vm_add m 4096 it)"
      by (intro ends_mono [OF vm_add_result]) auto
  qed (use assms in \<open>simp_all add: PROC_START_ADDR_def MEMSIZE_VIRTUAL_def page_aligned_def PAGEOFFMASK_def\<close>)
  then show ?thesis by (rule ends_mono) auto
qed

lemma returns_Some: "returns err post (Some c) = ends err post c"
  by simp

lemma pti_pages_aligned:
  assumes "pti_pages m it = Some pas"
  shows "list_all page_aligned pas"
proof (rule pti_pages.raw_induct [rotated, OF assms])
  fix rec m it pas
  assume IH: "\<And>m it pas. rec m it = Some pas \<Longrightarrow> list_all page_aligned pas"
    and "(if pti_active it then case pti_next m it of None \<Rightarrow> None
           | Some it' \<Rightarrow> Option.bind (rec m it') (\<lambda>pas. Some (pti_pa m it # pas)) else Some []) = Some pas"
  then show "list_all page_aligned pas"
    by (auto simp: bind_eq_Some_conv pti_pa_def page_aligned_PAMASK split: if_splits option.splits)
qed

lemma returns_tables: "returns err (list_all page_aligned) (map_option Inr (table_pages m pt))"
  using table_pages_returns [of m pt] by (auto simp: table_pages_def split: option.splits dest: pti_pages_aligned)

definition freed :: "nat \<Rightarrow> kernel \<Rightarrow> kernel \<Rightarrow> bool" where
  "freed p st st' \<longleftrightarrow> (\<exists>k. only_counts (kmem st) k \<and> st' = set_proc p (\<lambda>pr. pr\<lparr>state := P_FREE\<rparr>) (st\<lparr>kmem := k\<rparr>))"

lemma exit_assist_returns:
  assumes pt: "page_aligned (pagetable (ptable st ! p))"
  shows "returns free_err (freed p st) (syscall_exit_assist l p st)"
proof -
  let ?pt = "pagetable (ptable st ! p)"
  have it: "returns free_err (\<lambda>it. vm_level it \<le> 3 \<and> vm_va it = PROC_START_ADDR) (Some (new_vmiter (kphys st) ?pt PROC_START_ADDR))"
    unfolding returns_Some using new_vmiter_ends by (rule ends_mono) simp_all
  have loop: "returns free_err (only_counts (kmem st)) (Some (page_loop 512 MEMSIZE_VIRTUAL (free_user_page l) phys it (kmem st)))"
    if "vm_level it \<le> 3 \<and> vm_va it = PROC_START_ADDR" for it
    using free_user_pages_counts that by simp
  have rest: "returns free_err (freed p st)
     (bindR (Some (kfree_all ke ps k)) (\<lambda>k. bindR (Some (kfree ke ?pt k)) (\<lambda>k.
        Some (Inr (set_proc p (\<lambda>pr. pr\<lparr>state := P_FREE\<rparr>) (st\<lparr>kmem := k\<rparr>))))))"
    if k: "only_counts (kmem st) k" and ps: "list_all page_aligned ps" for ke ps k
  proof (rule returns_bindR [where post = "only_counts (kmem st)"])
    show "returns free_err (only_counts (kmem st)) (Some (kfree_all ke ps k))"
      unfolding returns_Some by (rule ends_mono [OF kfree_all_counts [OF ps]]) (use k only_counts_trans in auto)
  next
    fix k1
    assume "only_counts (kmem st) k1"
    then show "returns free_err (freed p st) (bindR (Some (kfree ke ?pt k1)) (\<lambda>k.
        Some (Inr (set_proc p (\<lambda>pr. pr\<lparr>state := P_FREE\<rparr>) (st\<lparr>kmem := k\<rparr>)))))"
      by (intro returns_bindR [where post = "only_counts k1"])
        (auto simp: kfree_counts [OF pt] freed_def intro: only_counts_trans)
  qed
  show ?thesis unfolding syscall_exit_assist_def Let_def
    by (rule returns_bindR [OF it], rule returns_bindR [OF loop], assumption, rule returns_bindR [OF returns_tables], rule rest)
qed

section \<open>Mapping returns\<close>

lemma cursor_ok_kalloc:
  assumes "cursor_ok k" and "kalloc ke sz k = (k', p)"
  shows "cursor_ok k'" and "page_aligned p" and "unat p < 2 ^ 21"
proof -
  obtain j where j: "unat (next_alloc_pa k) = 4096 * j" using assms(1) by (auto simp: cursor_ok_def elim: dvdE)
  consider (big) "sz > 4096" | (full) "sz \<le> 4096" "512 < j" | (search) "sz \<le> 4096" "j \<le> 512" by fastforce
  then have "cursor_ok k' \<and> page_aligned p \<and> unat p < 2 ^ 21"
  proof cases
    case big
    then show ?thesis using assms by (auto simp: kalloc_def page_aligned_def)
  next
    case full
    then have "\<not> next_alloc_pa k < MEMSIZE_PHYSICAL" by (simp add: word_less_nat_alt j MEMSIZE_PHYSICAL_def)
    then show ?thesis using assms full by (auto simp: kalloc_def kalloc_loop.simps [of ke k] page_aligned_def not_less [symmetric])
  next
    case search
    have "next_alloc_pa k = page_addr j" by (rule word_unat_eq_iff [THEN iffD2]) (use search j unat_page_addr [of j] in simp)
    then have ff: "first_fit ke k j = (k', p)"
      using kalloc_loop_first_fit [OF _ search(2), of k ke] assms(2) search(1) by (simp add: kalloc_def not_less [symmetric])
    show ?thesis
    proof (cases "List.find (free_page ke k) [j..<NPAGES]")
      case None
      have "unat (page_addr 512) = 4096 * 512" by (rule unat_page_addr) simp
      then have "4096 dvd unat (page_addr 512)" by (simp only: dvd_triv_left)
      then show ?thesis
        using None ff assms(1) by (auto simp: first_fit_def cursor_ok_def page_aligned_def)
    next
      case (Some i)
      then have i: "i < 512" by (auto simp: find_Some_iff)
      then have "unat (page_addr (Suc i)) = 4096 * Suc i" by (intro unat_page_addr) simp
      then have "4096 dvd unat (page_addr (Suc i))" by (simp only: dvd_triv_left)
      moreover have "unat (page_addr i) = 4096 * i" using i by (intro unat_page_addr) simp
      ultimately show ?thesis
        using Some ff assms(1) i by (auto simp: first_fit_def cursor_ok_def page_aligned_unat)
    qed
  qed
  then show "cursor_ok k'" "page_aligned p" "unat p < 2 ^ 21" by simp_all
qed

abbreviation map_err :: "cpp_error \<Rightarrow> bool" where
  "map_err e \<equiv> e = AssertFail \<or> e = Abort \<or> e = Undefined"

lemma new_table_entry:
  "page_aligned p \<Longrightarrow> unat p < 2 ^ 21 \<Longrightarrow> is_table (p OR PTE_P OR PTE_W OR PTE_U)"
  using table_entry(1) [of p] by (simp add: table_flags_def or.assoc)

lemma vm_down_below:
  assumes "is_table (load64 m a)" and "vm_pep it = Some a" and "0 < vm_level it" and "vm_down m it = Inr it'"
  shows "vm_level it' < vm_level it" and "vm_va it' = vm_va it" and "vm_pt it' = vm_pt it"
proof -
  obtain n where n: "vm_level it = Suc n" using assms(3) by (cases "vm_level it") simp_all
  obtain L pep perm where d: "down_loop m (vm_va it) (Suc n) (Some a) (vm_perm it) = (L, pep, perm)" by (metis prod_cases3)
  then have "L \<le> n" using assms(1) by (auto dest: down_loop_level)
  then show "vm_level it' < vm_level it" "vm_va it' = vm_va it" "vm_pt it' = vm_pt it"
    using assms(2,4) d n by (auto simp: vm_down_def Let_def split: if_splits)
qed

lemma vm_down_error: "vm_down m it = Inl e \<Longrightarrow> e = Abort"
  by (auto simp: vm_down_def Let_def split: prod.splits if_splits)

lemma try_map_loop_ends:
  assumes "cursor_ok k" and "vm_level it < fuel"
  shows "ends map_err (\<lambda>(_, it', k'). cursor_ok k' \<and> vm_va it' = vm_va it \<and> vm_level it' \<le> vm_level it) (try_map_loop fuel ke perm it k)"
  using assms
proof (induction fuel arbitrary: it k)
  case (Suc fuel)
  show ?case
  proof (cases "vm_level it > 0 \<and> perm \<noteq> 0 \<and> pe (phys k) (vm_pep it) AND PTE_P = 0")
    case False
    then show ?thesis using Suc.prems(1) by auto
  next
    case True
    obtain k1 p where ka: "kalloc ke (of_nat PAGESIZE) k = (k1, p)" by fastforce
    note c = cursor_ok_kalloc [OF Suc.prems(1) ka]
    show ?thesis
    proof (cases "p = 0 \<or> vm_pep it = None")
      case True
      then show ?thesis using c(1) \<open>vm_level it > 0 \<and> perm \<noteq> 0 \<and> _\<close> ka by auto
    next
      case False
      then obtain a where a: "vm_pep it = Some a" "p \<noteq> 0" by auto
      define k2 where "k2 = k1\<lparr>phys := store64 (memset (phys k1) p 0 PAGESIZE) a (p OR PTE_P OR PTE_W OR PTE_U)\<rparr>"
      have step: "try_map_loop (Suc fuel) ke perm it k = bindE (vm_down (phys k2) it) (\<lambda>it. try_map_loop fuel ke perm it k2)"
        using True a ka by (simp add: k2_def Let_def)
      have k2: "cursor_ok k2" "is_table (load64 (phys k2) a)" using c new_table_entry by (simp_all add: k2_def)
      show ?thesis
      proof (cases "vm_down (phys k2) it")
        case (Inl e)
        then show ?thesis using vm_down_error step by simp
      next
        case (Inr it1)
        have b: "vm_level it1 < vm_level it" "vm_va it1 = vm_va it"
          using vm_down_below [OF k2(2) a(1) _ Inr] True by simp_all
        then have "ends map_err (\<lambda>(_, it', k'). cursor_ok k' \<and> vm_va it' = vm_va it1 \<and> vm_level it' \<le> vm_level it1)
            (try_map_loop fuel ke perm it1 k2)" using Suc.IH [OF k2(1), of it1] Suc.prems(2) by simp
        then show ?thesis unfolding step Inr bindE_simps by (rule ends_mono) (use b in auto)
      qed
    qed
  qed
qed simp

lemma try_map_ends:
  assumes "cursor_ok k" and "vm_level it \<le> 3"
  shows "ends map_err (\<lambda>(_, it', k'). cursor_ok k' \<and> vm_va it' = vm_va it \<and> vm_level it' \<le> 3) (vm_try_map ke pa perm it k)"
proof -
  have loop: "ends map_err (\<lambda>(_, it', k'). cursor_ok k' \<and> vm_va it' = vm_va it \<and> vm_level it' \<le> 3) (try_map_loop 4 ke perm it k)"
    by (rule ends_mono [OF try_map_loop_ends [OF assms(1)]]) (use assms(2) in auto)
  have check: "ends map_err (\<lambda>_. True) (assertE b)" for b by (cases b) simp_all
  show ?thesis unfolding vm_try_map_def Let_def
    by (rule ends_bindE [OF check], rule ends_bindE [where post = "\<lambda>_. True"], (use check in \<open>simp; fail\<close>),
        rule ends_bindE [OF check], rule ends_bindE [OF loop]) (auto split: option.splits)
qed

section \<open>Fork returns\<close>

abbreviation fork_err :: "cpp_error \<Rightarrow> bool" where
  "fork_err e \<equiv> e = AssertFail \<or> e = Abort \<or> e = Undefined \<or> e = OutOfBounds"

text \<open>As long as fork goes on only memory changes; when it gives up, the child's slot is free.\<close>

definition fork_progress :: "nat \<Rightarrow> kernel \<Rightarrow> bool \<times> kernel \<Rightarrow> bool" where
  "fork_progress child st r \<longleftrightarrow> (case r of (ok, st') \<Rightarrow> \<exists>k. cursor_ok k \<and>
     st' = (if ok then st\<lparr>kmem := k\<rparr> else set_proc child (\<lambda>pr. pr\<lparr>state := P_FREE\<rparr>) (st\<lparr>kmem := k\<rparr>)))"

lemma fork_progress_simps [simp]:
  "fork_progress child st (True, st') \<longleftrightarrow> (\<exists>k. cursor_ok k \<and> st' = st\<lparr>kmem := k\<rparr>)"
  "fork_progress child st (False, st') \<longleftrightarrow> (\<exists>k. cursor_ok k \<and> st' = set_proc child (\<lambda>pr. pr\<lparr>state := P_FREE\<rparr>) (st\<lparr>kmem := k\<rparr>))"
  by (simp_all add: fork_progress_def)

lemma set_proc_kmem: "(set_proc p f st)\<lparr>kmem := k\<rparr> = set_proc p f (st\<lparr>kmem := k\<rparr>)"
  by (simp add: set_proc_def)

lemma fork_progress_trans:
  "fork_progress child st (True, st1) \<Longrightarrow> fork_progress child st1 r \<Longrightarrow> fork_progress child st r"
  by (cases r) (auto simp: fork_progress_def split: if_splits)

lemma fork_progress_mem: "cursor_ok k \<Longrightarrow> fork_progress child (st\<lparr>kmem := k\<rparr>) r \<Longrightarrow> fork_progress child st r"
  by (rule fork_progress_trans) auto

lemma fork_gives_up:
  assumes "cursor_ok k" and "page_aligned (pagetable (ptable st ! child))"
  shows "returns fork_err (\<lambda>st'. fork_progress child st (False, st')) (syscall_exit_assist l child (st\<lparr>kmem := k\<rparr>))"
proof -
  have "returns free_err (freed child (st\<lparr>kmem := k\<rparr>)) (syscall_exit_assist l child (st\<lparr>kmem := k\<rparr>))"
    by (rule exit_assist_returns) (use assms(2) in simp)
  then show ?thesis by (rule returns_mono) (use assms(1) in \<open>auto simp: freed_def only_counts_def\<close>)
qed

lemma new_vmiter_returns:
  "returns fork_err (\<lambda>it. vm_level it \<le> 3 \<and> vm_va it = va) (Some (new_vmiter m pt va))"
  unfolding returns_Some using new_vmiter_ends by (rule ends_mono) simp_all

lemma fork_free_page:
  assumes "fork_progress child st (False, st1)" and "page_aligned p"
  shows "returns fork_err (fork_progress child st) (bindR (Some (kfree ke p (kmem st1))) (\<lambda>k. Some (Inr (False, st1\<lparr>kmem := k\<rparr>))))"
proof (rule returns_bindR)
  show "returns fork_err (only_counts (kmem st1)) (Some (kfree ke p (kmem st1)))"
    using kfree_counts [OF assms(2), of "kmem st1" ke] unfolding returns_Some by (rule ends_mono) auto
qed (use assms(1) in \<open>auto simp: set_proc_kmem only_counts_def\<close>)

lemma fork_map_returns:
  assumes st: "cursor_ok (kmem st)" "page_aligned (pagetable (ptable st ! child))"
    and extra: "\<And>p. extra = Some p \<Longrightarrow> page_aligned p"
  shows "returns fork_err (fork_progress child st) (fork_map l child va pa perm extra st)"
proof -
  have map: "returns fork_err (\<lambda>(_, _, k'). cursor_ok k') (Some (vm_try_map (kernel_end l) pa perm cit (kmem st)))"
    if "vm_level cit \<le> 3 \<and> vm_va cit = va" for cit
    unfolding returns_Some by (rule ends_mono [OF try_map_ends [OF st(1)]]) (use that in auto)
  have up: "returns fork_err (fork_progress child st) (bindR (syscall_exit_assist l child (st\<lparr>kmem := k\<rparr>)) (\<lambda>st.
       case extra of
         None \<Rightarrow> Some (Inr (False, st))
       | Some p \<Rightarrow> bindR (Some (kfree (kernel_end l) p (kmem st))) (\<lambda>k. Some (Inr (False, st\<lparr>kmem := k\<rparr>)))))"
    if "cursor_ok k" for k
    by (rule returns_bindR [OF fork_gives_up [OF that st(2)]])
      (use extra fork_free_page in \<open>auto split: option.split simp del: fork_progress_simps\<close>)
  show ?thesis unfolding fork_map_def Let_def
    by (rule returns_bindR [OF new_vmiter_returns], rule returns_bindR [OF map], assumption) (auto intro!: up)
qed

lemma add_reference_returns:
  "cursor_ok (kmem st) \<Longrightarrow> returns fork_err (\<lambda>st'. fork_progress child st (True, st')) (Some (add_reference pa st))"
  by (auto simp: add_reference_def at_def cursor_ok_def
    intro!: exI [of _ "(kmem st)\<lparr>refcounts := (refcounts (kmem st))[page_of pa := refcounts (kmem st) ! page_of pa + 1]\<rparr>"])

lemma fork_page_returns:
  assumes "cursor_ok (kmem st)" and "page_aligned (pagetable (ptable st ! child))"
  shows "returns fork_err (fork_progress child st) (fork_page l child it st)"
proof -
  obtain k p where ka: "kalloc (kernel_end l) (of_nat PAGESIZE) (kmem st) = (k, p)" by fastforce
  have k: "cursor_ok k" "page_aligned p" using cursor_ok_kalloc(1,2) [OF assms(1) ka] .
  have map: "returns fork_err (fork_progress child st) (fork_map l child va pa perm None st)" for va pa perm
    by (rule fork_map_returns) (use assms in simp_all)
  have shared: "returns fork_err (fork_progress child st) (bindR (fork_map l child va pa perm None st) (\<lambda>(ok, st).
        if ok then bindR (Some (add_reference (vm_pa (kphys st) it) st)) (\<lambda>st. Some (Inr (True, st))) else Some (Inr (False, st))))"
    for va pa perm
  proof (rule returns_bindR [OF map], clarify)
    fix ok st1
    assume p: "fork_progress child st (ok, st1)"
    show "returns fork_err (fork_progress child st)
        (if ok then bindR (Some (add_reference (vm_pa (kphys st1) it) st1)) (\<lambda>st. Some (Inr (True, st))) else Some (Inr (False, st1)))"
    proof (cases ok)
      case True
      then have "cursor_ok (kmem st1)" using p by auto
      then show ?thesis using True p
        by (auto intro!: returns_bindR [OF add_reference_returns [of _ child]])
    qed (use p in simp)
  qed
  have own: "returns fork_err (fork_progress child st) (fork_map l child va pa perm (Some p) (st\<lparr>kmem := k\<lparr>phys := m\<rparr>\<rparr>))" for va pa perm m
  proof (rule returns_mono [OF fork_map_returns])
    fix r
    assume "fork_progress child (st\<lparr>kmem := k\<lparr>phys := m\<rparr>\<rparr>) r"
    then show "fork_progress child st r" by (rule fork_progress_mem [rotated]) (simp add: k(1))
  qed (use assms k in simp_all)
  show ?thesis
    unfolding fork_page_def Let_def ka prod.case
    using shared map own by (auto intro!: returns_bindR [OF fork_gives_up [OF k(1) assms(2)]])
qed

lemma fork_loop_returns:
  assumes "cursor_ok (kmem st)" and "vm_level it \<le> 3" and "vm_level pit \<le> 3" and "unat MEMSIZE_VIRTUAL \<le> unat (vm_va it) + 4096 * fuel"
    and "page_aligned (pagetable (ptable st ! child))"
  shows "returns fork_err (fork_progress child st) (fork_loop fuel l child it pit st)"
  using assms
proof (induction fuel arbitrary: it pit st)
  case 0
  then have "\<not> vm_va it < MEMSIZE_VIRTUAL" by (simp add: word_less_nat_alt)
  then show ?case using 0 by (auto simp: fork_loop.simps intro: exI [of _ "kmem st"])
next
  case (Suc fuel)
  show ?case
  proof (cases "vm_va it < MEMSIZE_VIRTUAL")
    case False
    then show ?thesis using Suc.prems by (auto simp: fork_loop.simps intro: exI [of _ "kmem st"])
  next
    case True
    have add: "returns fork_err (\<lambda>it'. vm_va it' = vm_va i + 4096 \<and> vm_level it' \<le> 3) (Some (vm_add m 4096 i))"
      if "vm_level i \<le> 3" for m i
      unfolding returns_Some using vm_add_result [OF that, of 4096 m] by (rule ends_mono) simp_all
    have "unat (vm_va it) < 3145728" using True by (simp add: word_less_nat_alt MEMSIZE_VIRTUAL_def)
    then have va: "unat (vm_va it + 4096) = unat (vm_va it) + 4096" by (simp add: unat_word_ariths)
    have rest: "returns fork_err (fork_progress child st) (fork_loop fuel l child it1 pit1 st1)"
      if "fork_progress child st (True, st1)" "vm_va it1 = vm_va it + 4096 \<and> vm_level it1 \<le> 3" "vm_va pit1 = vm_va pit + 4096 \<and> vm_level pit1 \<le> 3"
      for st1 it1 pit1
      by (rule returns_mono [OF Suc.IH]) (use that va Suc.prems(4,5) in \<open>auto intro: fork_progress_trans [OF that(1)]\<close>)
    have "returns fork_err (fork_progress child st) (bindR (fork_page l child it st) (\<lambda>(ok, st).
            if \<not> ok then Some (Inr (False, st))
            else bindR (Some (vm_add (kphys st) (of_nat PAGESIZE) it)) (\<lambda>it.
              bindR (Some (vm_add (kphys st) (of_nat PAGESIZE) pit)) (\<lambda>pit. fork_loop fuel l child it pit st))))"
    proof (rule returns_bindR [OF fork_page_returns [OF Suc.prems(1,5)]], clarify)
      fix ok st1
      assume "fork_progress child st (ok, st1)"
      then show "returns fork_err (fork_progress child st) (if \<not> ok then Some (Inr (False, st1))
            else bindR (Some (vm_add (kphys st1) (of_nat PAGESIZE) it)) (\<lambda>it.
              bindR (Some (vm_add (kphys st1) (of_nat PAGESIZE) pit)) (\<lambda>pit. fork_loop fuel l child it pit st1)))"
        by (cases ok) (auto intro!: returns_bindR [OF add [OF Suc.prems(2)]] returns_bindR [OF add [OF Suc.prems(3)]] rest)
    qed
    then show ?thesis using True by (subst fork_loop.simps) simp
  qed
qed

section \<open>The process table\<close>

definition ptable_ok :: "kernel \<Rightarrow> bool" where
  "ptable_ok st \<longleftrightarrow> length (ptable st) = NPROC \<and> current st < NPROC \<and> state (ptable st ! 0) = P_FREE
     \<and> list_all (\<lambda>i. pid (ptable st ! i) = int i \<and> page_aligned (pagetable (ptable st ! i))) [0..<NPROC]"

definition procs_ok :: "kernel \<Rightarrow> bool" where
  "procs_ok st \<longleftrightarrow> ptable_ok st \<and> state (cur st) \<noteq> P_FREE"

lemma ptable_okD:
  "ptable_ok st \<Longrightarrow> length (ptable st) = NPROC" "ptable_ok st \<Longrightarrow> current st < NPROC"
  "ptable_ok st \<Longrightarrow> i < NPROC \<Longrightarrow> pid (ptable st ! i) = int i"
  "ptable_ok st \<Longrightarrow> i < NPROC \<Longrightarrow> page_aligned (pagetable (ptable st ! i))"
  by (auto simp: ptable_ok_def list_all_iff)

lemma procs_okD:
  "procs_ok st \<Longrightarrow> length (ptable st) = NPROC" "procs_ok st \<Longrightarrow> current st < NPROC" "procs_ok st \<Longrightarrow> state (cur st) \<noteq> P_FREE"
  "procs_ok st \<Longrightarrow> i < NPROC \<Longrightarrow> pid (ptable st ! i) = int i"
  "procs_ok st \<Longrightarrow> i < NPROC \<Longrightarrow> page_aligned (pagetable (ptable st ! i))"
  by (auto simp: procs_ok_def ptable_okD)

lemma ptable_ok_pid: "ptable_ok st \<Longrightarrow> pid (cur st) = int (current st)"
  by (simp add: cur_def ptable_okD)

lemma procs_ok_pid: "procs_ok st \<Longrightarrow> pid (cur st) = int (current st)"
  by (simp add: procs_ok_def ptable_ok_pid)

lemma free_slot_props:
  assumes "free_slot st = Some c"
  shows "1 \<le> c" and "c < NPROC" and "state (ptable st ! c) = P_FREE" and "\<And>j. 1 \<le> j \<Longrightarrow> j < c \<Longrightarrow> state (ptable st ! j) \<noteq> P_FREE"
proof -
  obtain i where i: "i < length [1..<NPROC]" "state (ptable st ! ([1..<NPROC] ! i)) = P_FREE" "c = [1..<NPROC] ! i"
    "\<forall>j < i. state (ptable st ! ([1..<NPROC] ! j)) \<noteq> P_FREE"
    using assms by (auto simp: free_slot_def find_Some_iff)
  then have c: "c = 1 + i" "i < NPROC - 1" by simp_all
  then show "1 \<le> c" "c < NPROC" "state (ptable st ! c) = P_FREE" using i by simp_all
  fix j :: nat
  assume "1 \<le> j" "j < c"
  then have "j - 1 < i" "[1..<NPROC] ! (j - 1) = j" using c by simp_all
  then show "state (ptable st ! j) \<noteq> P_FREE" using i(4) by metis
qed

text \<open>The descriptor of a child and what fork makes of the process table.\<close>

definition child_of :: "nat \<Rightarrow> addr \<Rightarrow> proc \<Rightarrow> proc" where
  "child_of c pt parent = \<lparr>pagetable = pt, pid = int c, state = P_RUNNABLE, regs = (regs parent)\<lparr>reg_rax := 0\<rparr>\<rparr>"

definition forked :: "kernel \<Rightarrow> kernel \<Rightarrow> nat \<Rightarrow> bool" where
  "forked st st' c \<longleftrightarrow> free_slot st = Some c \<and>
     (\<exists>k pt. cursor_ok k \<and> page_aligned pt \<and> st' = st\<lparr>kmem := k, ptable := (ptable st)[c := child_of c pt (cur st),
        current st := (cur st)\<lparr>regs := (regs (cur st))\<lparr>reg_rax := of_nat c\<rparr>\<rparr>]\<rparr>)"

definition fork_refused :: "kernel \<Rightarrow> kernel \<Rightarrow> bool" where
  "fork_refused st st' \<longleftrightarrow> st' = st \<or>
     (\<exists>c k pt. free_slot st = Some c \<and> cursor_ok k \<and> page_aligned pt \<and> st' = st\<lparr>kmem := k, ptable := (ptable st)[c := (ptable st ! c)\<lparr>pagetable := pt, pid := int c\<rparr>]\<rparr>)"

lemma finish_fork_result:
  assumes "procs_ok st" and "free_slot st = Some c" and "cursor_ok k" and "page_aligned pt"
  shows "ends (\<lambda>_. False) (\<lambda>st'. forked st st' c)
    (finish_fork c ((set_proc c (\<lambda>pr. pr\<lparr>pid := int c, pagetable := pt\<rparr>) st)\<lparr>kmem := k\<rparr>))"
proof -
  have c: "c < NPROC" "state (ptable st ! c) = P_FREE" using free_slot_props [OF assms(2)] by simp_all
  then have "c \<noteq> current st" using procs_okD(3) [OF assms(1)] by (auto simp: cur_def)
  moreover have "pid (ptable st ! current st) = int (current st)" using procs_ok_pid [OF assms(1)] by (simp add: cur_def)
  moreover obtain q j s r where "ptable st ! c = \<lparr>pagetable = q, pid = j, state = s, regs = r\<rparr>" by (cases "ptable st ! c") auto
  ultimately show ?thesis
    using c assms procs_okD [OF assms(1)]
    by (auto simp: finish_fork_def set_proc_def cur_def Let_def forked_def child_of_def
      intro!: exI [of _ k] exI [of _ pt])
qed

definition fork_result :: "kernel \<Rightarrow> int flow \<times> kernel \<Rightarrow> bool" where
  "fork_result st r \<longleftrightarrow>
     (case r of
        (Leaves _, st') \<Rightarrow> False
      | (Goes v, st') \<Rightarrow> if v = - 1 then fork_refused st st' else v > 0 \<and> forked st st' (nat v))"

lemma fork_result_cases:
  assumes "procs_ok st" and "free_slot st = Some c"
    and "fork_progress c (set_proc c (\<lambda>pr. pr\<lparr>pid := int c, pagetable := pt\<rparr>) (st\<lparr>kmem := k\<rparr>)) (ok, st1)"
    and "page_aligned pt"
  shows "returns fork_err (fork_result st) (if \<not> ok then goes (- 1) st1 else bindR (Some (finish_fork c st1)) (goes (int c)))"
proof (cases ok)
  case True
  then obtain k1 where k1: "cursor_ok k1" and st1: "st1 = (set_proc c (\<lambda>pr. pr\<lparr>pid := int c, pagetable := pt\<rparr>) st)\<lparr>kmem := k1\<rparr>"
    using assms(3) by (auto simp: set_proc_def)
  have "1 \<le> c" using free_slot_props(1) [OF assms(2)] .
  then have "returns fork_err (fork_result st) (bindR (Some (finish_fork c st1)) (goes (int c)))"
    using finish_fork_result [OF assms(1,2) k1 assms(4)]
    by (intro returns_bindR [where post = "\<lambda>st'. forked st st' c"])
      (auto simp: st1 goes_def fork_result_def elim: ends_mono)
  then show ?thesis using True by simp
next
  case False
  then obtain k1 where k1: "cursor_ok k1" and st1: "st1 = set_proc c (\<lambda>pr. pr\<lparr>state := P_FREE\<rparr>) (set_proc c (\<lambda>pr. pr\<lparr>pid := int c, pagetable := pt\<rparr>) (st\<lparr>kmem := k1\<rparr>))"
    using assms(3) by (auto simp: set_proc_def)
  have c: "c < NPROC" "state (ptable st ! c) = P_FREE" using free_slot_props [OF assms(2)] by simp_all
  moreover obtain q j s r where "ptable st ! c = \<lparr>pagetable = q, pid = j, state = s, regs = r\<rparr>" by (cases "ptable st ! c") auto
  ultimately have "fork_refused st st1"
    using assms(2,4) k1 procs_okD(1) [OF assms(1)]
    by (auto simp: st1 fork_refused_def set_proc_def intro!: exI [of _ k1] exI [of _ pt])
  then show ?thesis using False by (simp add: goes_def fork_result_def)
qed

lemma fork_returns:
  assumes "procs_ok st" and "cursor_ok (kmem st)"
  shows "returns fork_err (fork_result st) (syscall_fork l st)"
proof (cases "free_slot st")
  case None
  then show ?thesis by (simp add: syscall_fork_def goes_def fork_result_def fork_refused_def)
next
  case (Some c)
  have c: "c < NPROC" "state (ptable st ! c) = P_FREE" using free_slot_props [OF Some] by simp_all
  then have cc: "c \<noteq> current st" using procs_okD(3) [OF assms(1)] by (auto simp: cur_def)
  obtain k pt where ka: "kalloc (kernel_end l) (of_nat PAGESIZE) (kmem st) = (k, pt)" by fastforce
  show ?thesis
  proof (cases "pt = 0")
    case True
    obtain q j s r where "ptable st ! c = \<lparr>pagetable = q, pid = j, state = s, regs = r\<rparr>" by (cases "ptable st ! c") auto
    then have "fork_refused st ((set_proc c (\<lambda>pr. pr\<lparr>pid := int c\<rparr>) st)\<lparr>kmem := k\<rparr>)"
      using Some cursor_ok_kalloc(1) [OF assms(2) ka] procs_okD(5) [OF assms(1) c(1)] by (auto simp: fork_refused_def set_proc_def intro!: exI [of _ k] exI [of _ q])
    then show ?thesis using Some True ka
      by (simp add: syscall_fork_def set_proc_def goes_def fork_result_def)
  next
    case False
    define k1 where "k1 = k\<lparr>phys := memset (phys k) pt 0 4096\<rparr>"
    define st1 where "st1 = set_proc c (\<lambda>pr. pr\<lparr>pid := int c, pagetable := pt\<rparr>) (st\<lparr>kmem := k1\<rparr>)"
    have k1: "cursor_ok (kmem st1)" using cursor_ok_kalloc(1) [OF assms(2) ka] by (simp add: st1_def k1_def set_proc_def)
    have loop: "returns fork_err (fork_progress c st1) (fork_loop 768 l c it pit st1)"
      if "vm_level it \<le> 3 \<and> vm_va it = 0" "vm_level pit \<le> 3 \<and> vm_va pit = 0" for it pit
      by (rule fork_loop_returns [OF k1])
        (use that c procs_okD(1) [OF assms(1)] cursor_ok_kalloc(2) [OF assms(2) ka] in \<open>simp_all add: MEMSIZE_VIRTUAL_def st1_def set_proc_def\<close>)
    have "returns fork_err (fork_result st)
       (bindR (Some (new_vmiter (kphys st1) (pagetable (cur st)) 0)) (\<lambda>it.
        bindR (Some (new_vmiter (kphys st1) pt 0)) (\<lambda>pit.
        bindR (fork_loop 768 l c it pit st1) (\<lambda>(ok, st).
        if \<not> ok then goes (- 1) st else bindR (Some (finish_fork c st)) (goes (int c))))))"
      by (rule returns_bindR [OF new_vmiter_returns], rule returns_bindR [OF new_vmiter_returns],
          rule returns_bindR [OF loop], assumption, assumption, clarify)
        (rule fork_result_cases [OF assms(1) Some], simp add: st1_def, rule cursor_ok_kalloc(2) [OF assms(2) ka])
    moreover have "set_proc c (\<lambda>pr. pr\<lparr>pagetable := pt\<rparr>) ((set_proc c (\<lambda>pr. pr\<lparr>pid := int c\<rparr>) st)\<lparr>kmem := k1\<rparr>) = st1"
      using c procs_okD(1) [OF assms(1)] by (cases "ptable st ! c") (simp add: st1_def set_proc_def)
    moreover have "cur st1 = cur st" using cc by (simp add: st1_def set_proc_def cur_def)
    moreover have "kphys st1 = phys k1" by (simp add: st1_def)
    ultimately show ?thesis using Some False ka
      by (simp add: syscall_fork_def Let_def flip: k1_def)
  qed
qed

section \<open>Fork and exit\<close>

text \<open>A table with one process, for examples.\<close>

definition one_process :: kernel where
  "one_process = set_proc 1 (\<lambda>pr. pr\<lparr>state := P_RUNNABLE\<rparr>) (init_ptable idle_kernel)\<lparr>current := 1\<rparr>"

definition plain_layout :: layout where
  "plain_layout = \<lparr>kernel_end = 0x5A000, kernel_pagetable = 0x42000, exception_entry = 0x40000, ramimages = [], pci = \<lambda>_. 0\<rparr>"

lemma one_process_ok: "procs_ok one_process" "cursor_ok (kmem one_process)" "console_ok (con one_process)" "showing one_process < NPROC"
  by (simp_all add: one_process_def procs_ok_def ptable_ok_def cursor_ok_def console_ok_def cur_def set_proc_def init_ptable_def
    idle_kernel_def boot_pmem_def console_clear_def NPROC_def page_aligned_def upt_rec numeral_eq_Suc)



text \<open>
  Exit always comes to an end, whatever the process did to its memory. Only the state of the
  process becomes free; its page table and user pages are given back by reference counts alone, so
  no byte of memory and no other process changes.
\<close>

theorem exit_frees:
  assumes "procs_ok st"
  shows "\<exists>r. syscall_exit l st = Some r \<and>
    (case r of
       Inl e \<Rightarrow> e = Abort \<or> e = OutOfBounds
     | Inr st' \<Rightarrow> kphys st' = kphys st \<and> (cursor_ok (kmem st) \<longrightarrow> cursor_ok (kmem st'))
         \<and> ptable st' = (ptable st)[current st := (cur st)\<lparr>state := P_FREE\<rparr>] \<and> current st' = current st)"
proof -
  have p: "pid (cur st) = int (current st)" "current st < length (ptable st)"
    using procs_ok_pid [OF assms] procs_okD(1,2) [OF assms] by simp_all
  have "page_aligned (pagetable (ptable st ! current st))" using procs_okD(2,5) [OF assms] by blast
  from exit_assist_returns [OF this, of l] obtain r where
    r: "syscall_exit_assist l (current st) st = Some r" "ends free_err (freed (current st) st) r" by (auto simp: returns_def)
  show ?thesis
    by (rule exI [of _ r])
      (use r p in \<open>auto simp: syscall_exit_def freed_def only_counts_def set_proc_def cur_def split: sum.splits\<close>)
qed

theorem exit_frees_witness: "\<exists>r. syscall_exit plain_layout one_process = Some r"
  using exit_frees [OF one_process_ok(1), of plain_layout] by blast

end
