(* ===== verification/KernelSteps.thy ===== *)
theory KernelSteps
  imports KernelFrames
begin

unbundle bit_operations_syntax

text \<open>
  The kernel as a state machine. A step is a system call, an exception, a key or anything user
  code does to memory; the invariant of the kernel's own data is kept by every step, and no step
  of one process touches the descriptor of another live process.
\<close>

section \<open>The invariant\<close>

definition kernel_ok :: "kernel \<Rightarrow> bool" where
  "kernel_ok st \<longleftrightarrow> ptable_ok st \<and> cursor_ok (kmem st) \<and> console_ok (con st) \<and> showing st < NPROC"

text \<open>The live processes other than \<open>c\<close> are as they were.\<close>

definition others :: "nat \<Rightarrow> kernel \<Rightarrow> kernel \<Rightarrow> bool" where
  "others c st st' \<longleftrightarrow> (\<forall>q < NPROC. q \<noteq> c \<longrightarrow> state (ptable st ! q) \<noteq> P_FREE \<longrightarrow> ptable st' ! q = ptable st ! q)"

lemma others_refl [simp]: "others c st st"
  by (simp add: others_def)

lemma others_trans: "others c a b \<Longrightarrow> others c b d \<Longrightarrow> others c a d"
  by (simp add: others_def)

lemma others_same: "ptable st' = ptable st \<Longrightarrow> others c st st'"
  by (simp add: others_def)

definition during :: "nat \<Rightarrow> kernel \<Rightarrow> kernel \<Rightarrow> bool" where
  "during c st0 st \<longleftrightarrow> kernel_ok st \<and> others c st0 st \<and> current st = c"

lemma during_cong:
  assumes "during c st0 st" and "ptable st' = ptable st" and "current st' = current st"
    and "cursor_ok (kmem st) \<Longrightarrow> cursor_ok (kmem st')" and "console_ok (con st')" and "showing st' < NPROC"
  shows "during c st0 st'"
proof -
  have "ptable_ok st'" using assms(1-3) by (auto simp: during_def kernel_ok_def ptable_ok_def)
  then show ?thesis using assms others_trans [OF _ others_same] by (auto simp: during_def kernel_ok_def)
qed

lemma during_set_proc:
  assumes st: "during c st0 st" and f: "\<And>p. pid (f p) = pid p" "\<And>p. pagetable (f p) = pagetable p"
    and "\<And>p. c = 0 \<Longrightarrow> state p = P_FREE \<Longrightarrow> state (f p) = P_FREE"
  shows "during c st0 (set_proc c f st)"
proof -
  have len: "length (ptable st) = NPROC" "c < NPROC" "0 < NPROC"
    using st by (auto simp: during_def kernel_ok_def ptable_ok_def NPROC_def)
  have "ptable_ok (set_proc c f st)"
    using st assms(2-4) len by (cases "c = 0") (auto simp: during_def kernel_ok_def ptable_ok_def set_proc_def list_all_iff nth_list_update)
  moreover have "others c st (set_proc c f st)" by (simp add: others_def set_proc_def)
  ultimately show ?thesis using st others_trans [of c st0 st] by (auto simp: during_def kernel_ok_def)
qed

section \<open>Keeping the invariant\<close>

definition keeps :: "nat \<Rightarrow> kernel \<Rightarrow> 'a krun \<Rightarrow> bool" where
  "keeps c st0 r \<longleftrightarrow> (\<forall>x st. r = Some (Inr (x, st)) \<longrightarrow>
     (case x of
        Goes _ \<Rightarrow> during c st0 st
      | Leaves Resumed \<Rightarrow> kernel_ok st \<and> others c st0 st \<and> state (cur st) = P_RUNNABLE
      | Leaves _ \<Rightarrow> True))"

definition keeps_mem :: "nat \<Rightarrow> kernel \<Rightarrow> kernel run \<Rightarrow> bool" where
  "keeps_mem c st0 r \<longleftrightarrow> (\<forall>st. r = Some (Inr st) \<longrightarrow> during c st0 st)"

lemma keeps_goes [simp]: "keeps c st0 (goes x st) \<longleftrightarrow> during c st0 st"
  by (simp add: keeps_def goes_def)

lemma keeps_stuck [simp]: "keeps c st0 None" "keeps c st0 (Some (Inl e))"
  by (simp_all add: keeps_def)

lemma keeps_bindR: "keeps_mem c st0 r \<Longrightarrow> (\<And>st. during c st0 st \<Longrightarrow> keeps c st0 (f st)) \<Longrightarrow> keeps c st0 (bindR r f)"
  by (auto simp: keeps_mem_def bindR_def split: option.splits sum.splits)

lemma keeps_any: "(\<And>x. r = Some (Inr x) \<Longrightarrow> keeps c st0 (f x)) \<Longrightarrow> keeps c st0 (bindR r f)"
  by (auto simp: bindR_def split: option.splits sum.splits)

lemma keeps_bindK:
  assumes "keeps c st0 r" and "\<And>x st. during c st0 st \<Longrightarrow> keeps c st0 (f x st)"
  shows "keeps c st0 (bindK r f)"
  unfolding bindK_def
proof (rule keeps_any, clarify)
  fix x st
  assume r: "r = Some (Inr (x, st))"
  show "keeps c st0 (case x of Goes y \<Rightarrow> f y st | Leaves out \<Rightarrow> leaves out st)"
    using assms r by (cases x) (auto simp: keeps_def leaves_def)
qed

lemma memshow_keeps: "during c st0 st \<Longrightarrow> keeps_mem c st0 (memshow l st)"
proof -
  assume st: "during c st0 st"
  then have "console_ok (con st)" "showing st < NPROC" by (simp_all add: during_def kernel_ok_def)
  from memshow_shows [OF this, of l] obtain r where r: "memshow l st = Some r" "ends viewer_err (viewed l st) r"
    by (auto simp: returns_def)
  have "during c st0 st'" if "viewed l st st'" for st'
  proof (rule during_cong [OF st])
    obtain k p where v: "viewer_page l st = (k, p)" by fastforce
    then have "cursor_ok (kmem st) \<Longrightarrow> cursor_ok k"
      using cursor_ok_kalloc(1) [of "kmem st" "kernel_end l" "of_nat PAGESIZE" k p] by (auto simp: viewer_page_def split: if_splits)
    then show "cursor_ok (kmem st) \<Longrightarrow> cursor_ok (kmem st')" using that v by (auto simp: viewed_def with_page_def)
  qed (use that in \<open>auto simp: viewed_def with_page_def\<close>)
  then show ?thesis using r by (auto simp: keeps_mem_def)
qed

lemma poll_frame: "poll st = (input, st') \<Longrightarrow> \<exists>ks. st' = st\<lparr>keys := ks\<rparr>"
  by (cases st) (auto simp: poll_def split: list.splits)

lemma poweroff_keeps: "keeps c st0 (poweroff l st)"
  by (auto simp: keeps_def poweroff_def bindR_def leaves_def split: option.splits sum.splits if_splits)

lemma reboot_keeps: "keeps c st0 (soft_reboot ch st)"
  by (simp add: keeps_def soft_reboot_def leaves_def)

lemma check_keyboard_keeps: "during c st0 st \<Longrightarrow> keeps c st0 (check_keyboard l st)"
proof -
  assume st: "during c st0 st"
  obtain input st1 where p: "poll st = (input, st1)" by fastforce
  then obtain ks where ks: "st1 = st\<lparr>keys := ks\<rparr>" using poll_frame by blast
  have "during c st0 (st\<lparr>keys := ks, kbd := kb\<rparr>)" for kb
    by (rule during_cong [OF st]) (use st in \<open>simp_all add: during_def kernel_ok_def\<close>)
  then show ?thesis unfolding check_keyboard_def p
    by (auto simp: ks Let_def intro!: keeps_any poweroff_keeps reboot_keeps split: prod.splits)
qed

lemma run_proc_keeps:
  assumes "during c st0 st" and "p < NPROC"
  shows "keeps c st0 (run_proc l p st)"
proof -
  have "kernel_ok (st\<lparr>current := p\<rparr>)" "others c st0 (st\<lparr>current := p\<rparr>)"
    using assms others_trans [OF _ others_same, of c st0 st "st\<lparr>current := p\<rparr>"] by (auto simp: during_def kernel_ok_def ptable_ok_def)
  then show ?thesis
    by (auto simp: run_proc_def Let_def leaves_def keeps_def cur_def bindR_def split: sum.splits)
qed

lemma schedule_loop_keeps:
  assumes "during c st0 st"
  shows "keeps c st0 (schedule_loop l p spins st :: 'a krun)"
proof -
  have "during c st0 st \<longrightarrow> keeps c st0 (Some y)" if "schedule_loop l p spins st = Some y" for y :: "('a flow \<times> kernel) cpp"
  proof (rule schedule_loop.raw_induct [rotated, OF that])
    fix rec l p y and spins :: "32 word" and st
    assume IH: "\<And>l p spins st y. rec l p spins st = Some y \<Longrightarrow> during c st0 st \<longrightarrow> keeps c st0 (Some y)"
      and y: "(let p = (p + 1) mod NPROC in
      if state (ptable st ! p) = P_RUNNABLE then run_proc l p st
      else
        case check_keyboard l st of
          None \<Rightarrow> None
        | Some (Inl e) \<Rightarrow> Some (Inl e)
        | Some (Inr (Leaves out, st)) \<Rightarrow> leaves out st
        | Some (Inr (Goes _, st)) \<Rightarrow>
            (case (if spins mod 4096 = 0 then memshow l st else Some (Inr st)) of
               None \<Rightarrow> None
             | Some (Inl e) \<Rightarrow> Some (Inl e)
             | Some (Inr st) \<Rightarrow> rec l p (spins + 1) st)) = Some y"
    show "during c st0 st \<longrightarrow> keeps c st0 (Some y)"
    proof
      assume st: "during c st0 st"
      let ?p = "(p + 1) mod NPROC"
      have p: "?p < NPROC" by (simp add: NPROC_def)
      show "keeps c st0 (Some y)"
      proof (cases "state (ptable st ! ?p) = P_RUNNABLE")
        case True
        then have "run_proc l ?p st = Some y" using y by simp
        then show ?thesis by (metis run_proc_keeps [OF st p])
      next
        case False
        then have "bindK (check_keyboard l st) (\<lambda>_ st.
            bindR (if spins mod 4096 = 0 then memshow l st else Some (Inr st)) (rec l ?p (spins + 1))) = Some y"
          using y by (auto simp: Let_def bindK_def bindR_def split: option.splits sum.splits flow.splits)
        moreover have "keeps c st0 (rec l' p' s' st1)" if "during c st0 st1" for l' p' s' st1
          using IH [of l' p' s' st1] that by (cases "rec l' p' s' st1") simp_all
        moreover have "keeps_mem c st0 (if spins mod 4096 = 0 then memshow l st1 else Some (Inr st1))" if "during c st0 st1" for st1
          using memshow_keeps [OF that] that by (simp add: keeps_mem_def)
        ultimately show ?thesis
          using keeps_bindK [OF check_keyboard_keeps [OF st], of "\<lambda>_ st. bindR (if spins mod 4096 = 0 then memshow l st else Some (Inr st)) (rec l ?p (spins + 1))" l]
          by (metis (no_types, lifting) keeps_bindR)
      qed
    qed
  qed
  then show ?thesis using assms by (cases "schedule_loop l p spins st :: 'a krun") simp_all
qed

lemma schedule_keeps: "during c st0 st \<Longrightarrow> keeps c st0 (schedule l st)"
  by (simp add: schedule_def Let_def schedule_loop_keeps)

lemma kernel_entry_keeps: "during c st0 st \<Longrightarrow> keeps c st0 (kernel_entry l b r st)"
proof -
  assume st: "during c st0 st"
  let ?st1 = "set_proc c (\<lambda>pr. pr\<lparr>regs := r\<rparr>) st"
  have "during c st0 ?st1" by (rule during_set_proc [OF st]) simp_all
  then have "during c st0 (console_show_cursor (cursorpos (con st)) ?st1)"
    by (rule during_cong) (use st in \<open>simp_all add: console_show_cursor_def during_def kernel_ok_def\<close>)
  then have "keeps_mem c st0 (let st = console_show_cursor (cursorpos (con st)) ?st1 in if b then memshow l st else Some (Inr st))"
    using memshow_keeps by (auto simp: Let_def keeps_mem_def)
  then have "keeps c st0 (bindR (let st = console_show_cursor (cursorpos (con st)) ?st1 in if b then memshow l st else Some (Inr st)) (check_keyboard l))"
    by (rule keeps_bindR) (rule check_keyboard_keeps)
  moreover have "current st = c" using st by (simp add: during_def)
  ultimately show ?thesis by (simp only: kernel_entry_def Let_def set_proc_sel)
qed

section \<open>System calls and exceptions\<close>

lemma page_alloc_keeps:
  assumes st: "during c st0 st" and r: "syscall_page_alloc l a st = Inr (v, st')"
  shows "during c st0 st'"
proof -
  have cu: "cursor_ok (kmem st)" using st by (simp add: during_def kernel_ok_def)
  obtain k p where ka: "kalloc (kernel_end l) (of_nat PAGESIZE) (kmem st) = (k, p)" by fastforce
  have k: "cursor_ok k" using cursor_ok_kalloc(1) [OF cu ka] .
  have "st' = st \<or> (\<exists>k'. st' = st\<lparr>kmem := k'\<rparr> \<and> cursor_ok k')"
  proof (cases "a < PROC_START_ADDR \<or> a \<ge> MEMSIZE_VIRTUAL")
    case True
    then show ?thesis using r by (auto simp: syscall_page_alloc_def)
  next
    case False
    then obtain it where it: "new_vmiter (kphys st) (pagetable (cur st)) a = Inr it"
      using r by (auto simp: syscall_page_alloc_def bindE_Inr_iff)
    have lv: "vm_level it \<le> 3" using new_vmiter_level [OF it] .
    have m: "ends map_err (\<lambda>(_, it', k'). cursor_ok k' \<and> vm_va it' = vm_va it \<and> vm_level it' \<le> 3)
       (vm_try_map (kernel_end l) p (PTE_P OR PTE_W OR PTE_U) it (k\<lparr>phys := memset (phys k) p 0 PAGESIZE\<rparr>))"
      by (rule try_map_ends) (use k lv in simp_all)
    show ?thesis using r False it ka k m
      by (cases "vm_try_map (kernel_end l) p (PTE_P OR PTE_W OR PTE_U) it (k\<lparr>phys := memset (phys k) p 0 PAGESIZE\<rparr>)")
        (auto simp: syscall_page_alloc_def split: if_splits)
  qed
  then show ?thesis
  proof
    assume "\<exists>k'. st' = st\<lparr>kmem := k'\<rparr> \<and> cursor_ok k'"
    then obtain k' where "st' = st\<lparr>kmem := k'\<rparr>" "cursor_ok k'" by blast
    then show ?thesis by (intro during_cong [OF st]) (use st in \<open>simp_all add: during_def kernel_ok_def\<close>)
  qed (use st in simp)
qed

lemma during_ptable:
  assumes st: "during c st0 st" and k: "cursor_ok k" and "length ps = NPROC" and "state (ps ! 0) = P_FREE"
    and "\<And>i. i < NPROC \<Longrightarrow> pid (ps ! i) = int i \<and> page_aligned (pagetable (ps ! i))"
    and "\<And>i. i < NPROC \<Longrightarrow> i \<noteq> c \<Longrightarrow> state (ptable st ! i) \<noteq> P_FREE \<Longrightarrow> ps ! i = ptable st ! i"
  shows "during c st0 (st\<lparr>kmem := k, ptable := ps\<rparr>)"
proof -
  have "others c st (st\<lparr>kmem := k, ptable := ps\<rparr>)" using assms(6) by (simp add: others_def)
  then have "others c st0 (st\<lparr>kmem := k, ptable := ps\<rparr>)" using st others_trans by (auto simp: during_def)
  then show ?thesis using assms by (auto simp: during_def kernel_ok_def ptable_ok_def list_all_iff)
qed

lemma fork_refused_keeps:
  assumes "during c st0 st" and "fork_refused st st'"
  shows "during c st0 st'"
proof (cases "st' = st")
  case False
  then obtain f k pt where f: "free_slot st = Some f" "cursor_ok k" "page_aligned pt"
    "st' = st\<lparr>kmem := k, ptable := (ptable st)[f := (ptable st ! f)\<lparr>pagetable := pt, pid := int f\<rparr>]\<rparr>"
    using assms(2) by (auto simp: fork_refused_def)
  have ok: "ptable_ok st" using assms(1) by (simp add: during_def kernel_ok_def)
  show ?thesis unfolding f(4)
    by (rule during_ptable [OF assms(1) f(2)])
      (use ok f(3) free_slot_props(1,2,3) [OF f(1)] in \<open>auto simp: ptable_ok_def list_all_iff nth_list_update\<close>)
qed (use assms in simp)

lemma forked_keeps:
  assumes st: "during c st0 st" and "forked st st' f"
  shows "during c st0 st'"
proof -
  obtain k pt where f: "free_slot st = Some f" "cursor_ok k" "page_aligned pt"
    "st' = st\<lparr>kmem := k, ptable := (ptable st)[f := child_of f pt (cur st),
        current st := (cur st)\<lparr>regs := (regs (cur st))\<lparr>reg_rax := of_nat f\<rparr>\<rparr>]\<rparr>"
    using assms(2) by (auto simp: forked_def)
  have ok: "ptable_ok st" and c: "current st = c" using st by (simp_all add: during_def kernel_ok_def)
  show ?thesis unfolding f(4)
    by (rule during_ptable [OF st f(2)])
      (use ok c f(3) free_slot_props(1,2,3) [OF f(1)] in
        \<open>auto simp: ptable_ok_def list_all_iff nth_list_update child_of_def cur_def\<close>)
qed

lemma fork_keeps:
  assumes st: "during c st0 st" and "state (cur st) \<noteq> P_FREE"
  shows "keeps c st0 (syscall_fork l st)"
proof -
  have ok: "procs_ok st" "cursor_ok (kmem st)" using assms by (simp_all add: during_def kernel_ok_def procs_ok_def)
  have "fork_result st r \<Longrightarrow> keeps c st0 (Some (Inr r))" for r
    using fork_refused_keeps [OF st] forked_keeps [OF st]
    by (auto simp: fork_result_def keeps_def split: flow.splits if_splits)
  moreover obtain r where "syscall_fork l st = Some r" "ends fork_err (fork_result st) r"
    using fork_returns [OF ok, of l] by (auto simp: returns_def)
  ultimately show ?thesis by (cases r) simp_all
qed

lemma exit_keeps:
  assumes st: "during c st0 st" 
  shows "keeps_mem c st0 (syscall_exit l st)"
proof -
  have ok: "ptable_ok st" and c: "current st = c" using st by (simp_all add: during_def kernel_ok_def)
  then have p: "pid (cur st) = int c" "c < NPROC" using ptable_ok_pid ptable_okD(2) by auto
  have "page_aligned (pagetable (ptable st ! c))" using ptable_okD(4) [OF ok] p by simp
  from exit_assist_returns [OF this, of l] obtain r where
    r: "syscall_exit_assist l c st = Some r" "ends free_err (freed c st) r" by (auto simp: returns_def)
  have "during c st0 st'" if fr: "freed c st st'" for st'
  proof -
    obtain k where k: "only_counts (kmem st) k" "st' = set_proc c (\<lambda>pr. pr\<lparr>state := P_FREE\<rparr>) (st\<lparr>kmem := k\<rparr>)"
      using fr by (auto simp: freed_def)
    have "during c st0 (st\<lparr>kmem := k\<rparr>)"
      by (rule during_cong [OF st]) (use st k in \<open>simp_all add: during_def kernel_ok_def only_counts_def\<close>)
    then show ?thesis unfolding k(2) by (rule during_set_proc) simp_all
  qed
  then show ?thesis using r p by (auto simp: syscall_exit_def keeps_mem_def)
qed

lemma check_keyboard_goes:
  "check_keyboard l st = Some (Inr (Goes x, st')) \<Longrightarrow> ptable st' = ptable st \<and> current st' = current st"
  by (auto simp: check_keyboard_def Let_def bindR_Inr_iff goes_def poweroff_def soft_reboot_def leaves_def
    split: prod.splits if_splits dest!: poll_frame)

lemma kernel_entry_goes:
  assumes "during c st0 st" and "kernel_entry l b r st = Some (Inr (Goes x, st'))"
  shows "ptable st' = ptable (set_proc c (\<lambda>pr. pr\<lparr>regs := r\<rparr>) st)"
proof -
  define st1 where "st1 = console_show_cursor (cursorpos (con st)) (set_proc c (\<lambda>pr. pr\<lparr>regs := r\<rparr>) st)"
  have c: "current st = c" "console_ok (con st1)" "showing st1 < NPROC"
    using assms(1) by (simp_all add: st1_def during_def kernel_ok_def console_show_cursor_def)
  then obtain st2 where st2: "(if b then memshow l st1 else Some (Inr st1)) = Some (Inr st2)" "check_keyboard l st2 = Some (Inr (Goes x, st'))"
    using assms(2) by (auto simp only: kernel_entry_def Let_def set_proc_sel st1_def bindR_Inr_iff)
  have "ptable st2 = ptable st1"
    using st2(1) memshow_shows [OF c(2,3), of l] by (auto simp: viewed_def with_page_def split: if_splits)
  moreover have "ptable st1 = ptable (set_proc c (\<lambda>pr. pr\<lparr>regs := r\<rparr>) st)" by (simp add: st1_def console_show_cursor_def)
  ultimately show ?thesis using check_keyboard_goes [OF st2(2)] by simp
qed

text \<open>What a handler knows when the common part of kernel entry is over.\<close>

lemma keeps_entry:
  assumes st: "during c st0 st" and live: "state (cur st) \<noteq> P_FREE"
    and f: "\<And>x st1. during c st0 st1 \<Longrightarrow> state (cur st1) = state (cur st) \<Longrightarrow> keeps c st0 (f x st1)"
  shows "keeps c st0 (bindK (kernel_entry l b r st) f)"
  unfolding bindK_def
proof (rule keeps_any, clarify)
  fix x st1
  assume e: "kernel_entry l b r st = Some (Inr (x, st1))"
  show "keeps c st0 (case x of Goes y \<Rightarrow> f y st1 | Leaves out \<Rightarrow> leaves out st1)"
  proof (cases x)
    case (Goes y)
    have c: "c < length (ptable st)" "current st = c" using st by (auto simp: during_def kernel_ok_def ptable_ok_def)
    have d: "during c st0 st1" using kernel_entry_keeps [OF st, of l b r] e Goes by (simp add: keeps_def)
    then have "current st1 = c" by (simp add: during_def)
    then have "state (cur st1) = state (cur st)"
      using kernel_entry_goes [OF st, of l b r y st1] e Goes c by (simp add: cur_def set_proc_def)
    then show ?thesis using f d Goes by simp
  next
    case (Leaves out)
    then show ?thesis using kernel_entry_keeps [OF st, of l b r] e by (auto simp: keeps_def leaves_def)
  qed
qed

lemma keeps_schedule_bind: "keeps_mem c st0 r \<Longrightarrow> keeps c st0 (bindR r (schedule l))"
  by (rule keeps_bindR) (simp_all add: schedule_keeps)

lemma syscall_keeps:
  assumes st: "during c st0 st" and live: "state (cur st) \<noteq> P_FREE"
  shows "keeps c st0 (syscall l r st)"
  unfolding syscall_def
proof (rule keeps_entry [OF st live])
  fix x st1
  assume d: "during c st0 st1" and s: "state (cur st1) = state (cur st)"
  have c: "current st1 = c" using d by (simp add: during_def)
  have yield: "keeps c st0 (schedule l (set_proc c (\<lambda>pr. pr\<lparr>regs := (regs pr)\<lparr>reg_rax := 0\<rparr>\<rparr>) st1) :: 64 word krun)"
    by (rule schedule_keeps, rule during_set_proc [OF d]) simp_all
  have alloc: "keeps c st0 (bindR (Some (syscall_page_alloc l a st1)) (\<lambda>(v, st). goes (of_int v :: 64 word) st))" for a
    by (rule keeps_any) (auto dest: page_alloc_keeps [OF d])
  have fork: "keeps c st0 (bindK (syscall_fork l st1) (\<lambda>v st. goes (of_int v :: 64 word) st))"
    by (rule keeps_bindK [OF fork_keeps [OF d]]) (use live s in simp_all)
  have exit: "keeps c st0 (bindR (syscall_exit l st1) (schedule l) :: 64 word krun)"
    by (rule keeps_schedule_bind [OF exit_keeps [OF d]])
  show "keeps c st0 (let n = reg_rax (regs (cur st1)) in
     if n = SYSCALL_PANIC then Some (Inl Abort)
     else if n = SYSCALL_GETPID then goes (of_int (pid (cur st1)) :: 64 word) st1
     else if n = SYSCALL_YIELD then schedule l (set_proc (current st1) (\<lambda>pr. pr\<lparr>regs := (regs pr)\<lparr>reg_rax := 0\<rparr>\<rparr>) st1)
     else if n = SYSCALL_PAGE_ALLOC then
       bindR (Some (syscall_page_alloc l (reg_rdi (regs (cur st1))) st1)) (\<lambda>(v, st). goes (of_int v) st)
     else if n = SYSCALL_FORK then bindK (syscall_fork l st1) (\<lambda>v st. goes (of_int v) st)
     else if n = SYSCALL_EXIT then bindR (syscall_exit l st1) (schedule l)
     else Some (Inl Abort))"
    unfolding Let_def c using d yield alloc fork exit by (simp only: keeps_stuck keeps_goes if_split simp_thms)
qed

lemma fault_message_printable:
  "printable (''Process %d page fault for %p (%s %s, rip=%p)!'' @ [CHR 0x0A]) (fault_message a p)"
  using int_arg [of "word_of_int (pid p)"] by (simp add: fault_message_def format_eval)

lemma exception_keeps:
  assumes st: "during c st0 st" and live: "state (cur st) \<noteq> P_FREE"
  shows "keeps c st0 (exception l cr2 r st :: 'a krun)"
  unfolding exception_def
proof (rule keeps_entry [OF st live])
  fix x st1
  assume d: "during c st0 st1" and s: "state (cur st1) = state (cur st)"
  have c: "current st1 = c" using d by (simp add: during_def)
  have c0: "c \<noteq> 0" using live st by (cases "c = 0") (auto simp: during_def kernel_ok_def ptable_ok_def cur_def)
  have timer: "keeps c st0 (schedule l (st1\<lparr>ticks := ticks st1 + 1\<rparr>) :: 'a krun)"
    by (rule schedule_keeps, rule during_cong [OF d]) (use d in \<open>simp_all add: during_def kernel_ok_def\<close>)
  have fault: "keeps c st0 (bindR (Some (printf_at (CPOS 24 0) 0x0C00 (''Process %d page fault for %p (%s %s, rip=%p)!'' @ [CHR 0x0A])
                        (fault_message cr2 (cur st1)) (con st1))) (\<lambda>co.
         let st = set_proc c (\<lambda>pr. pr\<lparr>state := P_BROKEN\<rparr>) (st1\<lparr>con := co\<rparr>) in
         if state (cur st) = P_RUNNABLE then run_proc l (current st) st else schedule l st) :: 'a krun)"
  proof (rule keeps_any)
    fix co
    assume co: "Some (printf_at (CPOS 24 0) 0x0C00 (''Process %d page fault for %p (%s %s, rip=%p)!'' @ [CHR 0x0A])
                        (fault_message cr2 (cur st1)) (con st1)) = Some (Inr co)"
    have "ends (\<lambda>_. False) console_ok (printf_at (CPOS 24 0) 0x0C00 (''Process %d page fault for %p (%s %s, rip=%p)!'' @ [CHR 0x0A])
                        (fault_message cr2 (cur st1)) (con st1))"
      by (rule printf_at_prints [OF _ fault_message_printable]) (use d in \<open>simp add: during_def kernel_ok_def\<close>)
    then have "console_ok co" using co by simp
    then have "during c st0 (st1\<lparr>con := co\<rparr>)"
      by (intro during_cong [OF d]) (use d in \<open>simp_all add: during_def kernel_ok_def\<close>)
    then have b: "during c st0 (set_proc c (\<lambda>pr. pr\<lparr>state := P_BROKEN\<rparr>) (st1\<lparr>con := co\<rparr>))"
      by (rule during_set_proc) (use c0 in simp_all)
    then have "c < NPROC" by (auto simp: during_def kernel_ok_def ptable_ok_def)
    then show "keeps c st0 (let st = set_proc c (\<lambda>pr. pr\<lparr>state := P_BROKEN\<rparr>) (st1\<lparr>con := co\<rparr>) in
         if state (cur st) = P_RUNNABLE then run_proc l (current st) st else schedule l st :: 'a krun)"
      using c by (simp add: Let_def schedule_keeps [OF b] run_proc_keeps [OF b])
  qed
  show "keeps c st0 (if reg_intno r = INT_IRQ + IRQ_TIMER then schedule l (st1\<lparr>ticks := ticks st1 + 1\<rparr>)
     else if reg_intno r = INT_PF then
       if reg_errcode r AND PFERR_USER = 0 then Some (Inl Abort)
       else
         bindR (Some (printf_at (CPOS 24 0) 0x0C00 (''Process %d page fault for %p (%s %s, rip=%p)!'' @ [CHR 0x0A])
                        (fault_message cr2 (cur st1)) (con st1))) (\<lambda>co.
         let st = set_proc (current st1) (\<lambda>pr. pr\<lparr>state := P_BROKEN\<rparr>) (st1\<lparr>con := co\<rparr>) in
         if state (cur st) = P_RUNNABLE then run_proc l (current st) st else schedule l st)
     else Some (Inl Abort) :: 'a krun)"
    unfolding c using timer fault by (simp only: keeps_stuck if_split simp_thms)
qed

section \<open>The state machine\<close>

text \<open>
  The steps between two moments at which user code runs: a system call that returns to the
  process, a system call or an exception that ends with resuming some process, input that
  arrives at the keyboard, and user code at work, which may write anything to memory.
\<close>

inductive kstep :: "layout \<Rightarrow> kernel \<Rightarrow> kernel \<Rightarrow> bool" for l :: layout where
  returns_to_user: "syscall l r st = Some (Inr (Goes v, st')) \<Longrightarrow> state (cur st') = P_RUNNABLE \<Longrightarrow> kstep l st st'"
| syscall_resumes: "syscall l r st = Some (Inr (Leaves Resumed, st')) \<Longrightarrow> kstep l st st'"
| exception_resumes: "(exception l cr2 r st :: unit krun) = Some (Inr (Leaves Resumed, st')) \<Longrightarrow> kstep l st st'"
| input_arrives: "kstep l st (st\<lparr>keys := ks\<rparr>)"
| user_writes: "kstep l st (st\<lparr>kmem := (kmem st)\<lparr>phys := m\<rparr>\<rparr>)"

definition user_ok :: "kernel \<Rightarrow> bool" where
  "user_ok st \<longleftrightarrow> kernel_ok st \<and> state (cur st) = P_RUNNABLE"

lemma kstep_ok:
  assumes "kstep l st st'" and "user_ok st"
  shows "user_ok st'" and "others (current st) st st'"
proof -
  have d: "during (current st) st st" and live: "state (cur st) \<noteq> P_FREE"
    using assms(2) by (auto simp: user_ok_def during_def)
  have sys: "keeps (current st) st (syscall l r st)" for r by (rule syscall_keeps [OF d live])
  have exc: "keeps (current st) st (exception l cr2 r st :: unit krun)" for cr2 r by (rule exception_keeps [OF d live])
  from assms(1) have "user_ok st' \<and> others (current st) st st'"
  proof cases
    case (returns_to_user r v)
    then show ?thesis using sys [of r] by (auto simp: keeps_def user_ok_def during_def)
  next
    case (syscall_resumes r)
    then show ?thesis using sys [of r] by (auto simp: keeps_def user_ok_def)
  next
    case (exception_resumes cr2 r)
    then show ?thesis using exc [of cr2 r] by (auto simp: keeps_def user_ok_def)
  next
    case (input_arrives ks)
    then show ?thesis using assms(2) by (auto simp: user_ok_def kernel_ok_def ptable_ok_def cur_def others_def)
  next
    case (user_writes m)
    then show ?thesis using assms(2) by (auto simp: user_ok_def kernel_ok_def ptable_ok_def cur_def others_def)
  qed
  then show "user_ok st'" "others (current st) st st'" by simp_all
qed

lemma one_process_current: "current one_process = 1"
  by (simp add: one_process_def)

lemma one_process_user_ok: "user_ok one_process"
  using one_process_ok by (auto simp: user_ok_def kernel_ok_def procs_ok_def cur_def)
    (simp add: one_process_def set_proc_def init_ptable_def idle_kernel_def NPROC_def numeral_eq_Suc)



text \<open>
  C10: processes are separated in the process table. Whatever system call or fault the running
  process causes, the saved registers, page table, number and state of every other live process
  are exactly what they were.
\<close>

theorem step_respects_others:
  assumes "kstep l st st'" and "user_ok st" and "q < NPROC" and "q \<noteq> current st" and "state (ptable st ! q) \<noteq> P_FREE"
  shows "ptable st' ! q = ptable st ! q"
  using kstep_ok(2) [OF assms(1,2)] assms(3-5) by (simp add: others_def)

theorem step_respects_others_witness:
  "ptable ((set_proc 2 (\<lambda>pr. pr\<lparr>state := P_BLOCKED\<rparr>) one_process)\<lparr>keys := []\<rparr>) ! 2 = ptable (set_proc 2 (\<lambda>pr. pr\<lparr>state := P_BLOCKED\<rparr>) one_process) ! 2"
proof (rule step_respects_others [OF input_arrives [of plain_layout]])
  show "user_ok (set_proc 2 (\<lambda>pr. pr\<lparr>state := P_BLOCKED\<rparr>) one_process)"
    using one_process_user_ok one_process_current
    by (auto simp: user_ok_def kernel_ok_def ptable_ok_def set_proc_def cur_def list_all_iff nth_list_update NPROC_def)
qed (simp_all add: one_process_def set_proc_def init_ptable_def idle_kernel_def NPROC_def)

end
