(* ===== verification/Scheduling.thy ===== *)
theory Scheduling
  imports KernelSteps
begin

unbundle bit_operations_syntax

text \<open>
  The scheduler (\<open>schedule\<close> in \<open>weensyos/kernel.cc\<close>) is round robin: it runs the next runnable
  process after the current one, in the cyclic order of the table. When no key is pressed the loop
  is the search for that process.
\<close>

section \<open>Round robin\<close>

text \<open>The processes in the order in which the scheduler looks at them.\<close>

definition turns :: "nat \<Rightarrow> nat list" where
  "turns p = map (\<lambda>i. (p + 1 + i) mod NPROC) [0..<NPROC]"

definition next_proc :: "kernel \<Rightarrow> nat option" where
  "next_proc st = List.find (\<lambda>p. state (ptable st ! p) = P_RUNNABLE) (turns (current st))"

lemma set_turns: "set (turns p) = {..<NPROC}"
proof -
  have "q \<in> set (turns p)" if "q < NPROC" for q
  proof -
    let ?i = "(q + NPROC * (p + 1) - (p + 1)) mod NPROC"
    have "(p + 1 + ?i) mod NPROC = (p + 1 + (q + NPROC * (p + 1) - (p + 1))) mod NPROC" by (simp only: mod_add_right_eq)
    also have "p + 1 + (q + NPROC * (p + 1) - (p + 1)) = q + NPROC * (p + 1)" by (simp add: NPROC_def)
    also have "(q + NPROC * (p + 1)) mod NPROC = q" using that by (simp only: mod_mult_self2 mod_less)
    finally have "(p + 1 + ?i) mod NPROC = q" .
    moreover have "?i < NPROC" by (simp add: NPROC_def)
    ultimately show ?thesis by (auto simp: turns_def intro!: image_eqI [of _ _ ?i])
  qed
  moreover have "set (turns p) \<subseteq> {..<NPROC}" by (auto simp: turns_def NPROC_def)
  ultimately show ?thesis by auto
qed

lemma check_keyboard_idle: "keys st = [] \<Longrightarrow> check_keyboard l st = goes (- 1) st"
  by (cases st) (simp add: check_keyboard_def poll_def keyboard_readc_def)

lemma schedule_loop_skip:
  assumes "keys st = []" and "state (ptable st ! ((p + 1) mod NPROC)) \<noteq> P_RUNNABLE" and "spins mod 4096 \<noteq> 0"
  shows "schedule_loop l p spins st = schedule_loop l ((p + 1) mod NPROC) (spins + 1) st"
  using assms by (subst schedule_loop.simps) (simp add: Let_def check_keyboard_idle goes_def)

lemma spins_small: "list_all (\<lambda>i. (of_nat (Suc i) :: 32 word) mod 4096 \<noteq> 0) [0..<16]"
  by (simp add: upt_rec)

lemma schedule_loop_skips:
  assumes "keys st = []" and "\<forall>j < i. state (ptable st ! ((p + 1 + j) mod NPROC)) \<noteq> P_RUNNABLE" and "i \<le> NPROC"
  shows "(schedule_loop l p 1 st :: 'a krun) = schedule_loop l ((p + i) mod NPROC) (of_nat (Suc i)) st \<or> i = 0"
  using assms(2,3)
proof (induction i)
  case (Suc i)
  have ne: "(of_nat (Suc i) :: 32 word) mod 4096 \<noteq> 0"
    using spins_small Suc.prems(2) by (simp add: list_all_iff NPROC_def)
  have nr: "state (ptable st ! ((p + 1 + i) mod NPROC)) \<noteq> P_RUNNABLE" using Suc.prems(1) by simp
  show ?case
  proof (cases "i = 0")
    case True
    have "(schedule_loop l p 1 st :: 'a krun) = schedule_loop l ((p + 1) mod NPROC) (1 + 1) st"
      by (rule schedule_loop_skip [OF assms(1)]) (use nr True ne in simp_all)
    then show ?thesis using True by simp
  next
    case False
    then have "(schedule_loop l p 1 st :: 'a krun) = schedule_loop l ((p + i) mod NPROC) (of_nat (Suc i)) st" using Suc by simp
    also have "\<dots> = schedule_loop l (((p + i) mod NPROC + 1) mod NPROC) (of_nat (Suc i) + 1) st"
      by (rule schedule_loop_skip [OF assms(1) _ ne]) (use nr in \<open>simp add: mod_Suc_eq add.commute\<close>)
    finally show ?thesis by (simp add: mod_Suc_eq add.commute add.left_commute)
  qed
qed simp

lemma schedule_next:
  assumes "ptable_ok st" and "keys st = []" and "next_proc st = Some q"
  shows "(schedule l st :: 'a krun) = run_proc l q st"
proof -
  obtain i where i: "i < NPROC" "q = (current st + 1 + i) mod NPROC" "state (ptable st ! q) = P_RUNNABLE"
    "\<forall>j < i. state (ptable st ! ((current st + 1 + j) mod NPROC)) \<noteq> P_RUNNABLE"
    using assms(3) by (auto simp: next_proc_def turns_def find_Some_iff)
  have c: "current st mod NPROC = current st" using ptable_okD(2) [OF assms(1)] by simp
  have "(schedule_loop l (current st) 1 st :: 'a krun) = schedule_loop l ((current st + i) mod NPROC) (of_nat (Suc i)) st"
    using schedule_loop_skips [OF assms(2) i(4), of l] i(1) c by (cases "i = 0") auto
  also have "\<dots> = run_proc l q st"
    using i by (subst schedule_loop.simps) (simp add: Let_def mod_Suc_eq)
  finally show ?thesis using ptable_ok_pid [OF assms(1)] by (simp add: schedule_def)
qed

text \<open>
  C23: scheduling is round robin. With no key pressed, the scheduler runs the first runnable
  process behind the current one in the cyclic order of the process table, so a runnable process
  waits for at most 15 others; it finds one whenever there is one.
\<close>

theorem schedule_round_robin:
  assumes "ptable_ok st" and "keys st = []" and "p < NPROC" and "state (ptable st ! p) = P_RUNNABLE"
  shows "\<exists>q. next_proc st = Some q \<and> (schedule l st :: 'a krun) = run_proc l q st"
proof -
  have "next_proc st \<noteq> None" using assms(3,4) set_turns [of "current st"] by (auto simp: next_proc_def find_None_iff)
  then obtain q where "next_proc st = Some q" by blast
  then show ?thesis using schedule_next [OF assms(1,2)] by blast
qed

theorem schedule_round_robin_witness:
  "next_proc one_process = Some 1 \<and> (schedule plain_layout one_process :: unit krun) = run_proc plain_layout 1 one_process"
proof -
  have n: "next_proc one_process = Some 1"
    by code_simp
  have k: "keys one_process = []" "1 < NPROC" "state (ptable one_process ! 1) = P_RUNNABLE"
    by (simp_all add: one_process_def set_proc_def init_ptable_def idle_kernel_def NPROC_def)
  have "ptable_ok one_process" using one_process_user_ok by (simp add: user_ok_def kernel_ok_def)
  from schedule_round_robin [OF this k, of plain_layout] n show ?thesis by auto
qed

end
