(* ===== verification/Spaces.thy ===== *)
theory Spaces
  imports KernelFrames
begin

unbundle bit_operations_syntax

text \<open>
  Address spaces side by side. A change of physical memory is described by the pages it may
  write: pages that were free before, and a given set of pages in use. Page tables outside that set
  keep all their translations. Mapping a page changes the table's own pages and free ones only, and
  so does filling a fresh page.
\<close>

section \<open>Changes to memory\<close>

text \<open>Page \<open>i\<close> is in use or not the allocator's business.\<close>

definition live :: "addr \<Rightarrow> pmem \<Rightarrow> nat \<Rightarrow> bool" where
  "live ke k i \<longleftrightarrow> \<not> (i < NPAGES \<and> free_page ke k i)"

definition touches :: "addr \<Rightarrow> nat set \<Rightarrow> pmem \<Rightarrow> pmem \<Rightarrow> bool" where
  "touches ke F k k' \<longleftrightarrow> pmem_ok ke k' \<and> (\<forall>i. live ke k i \<longrightarrow> live ke k' i)
     \<and> (\<forall>x. live ke k (page_of x) \<longrightarrow> page_of x \<notin> F \<longrightarrow> phys k' x = phys k x)"

lemma touches_refl: "pmem_ok ke k \<Longrightarrow> touches ke F k k"
  by (simp add: touches_def)

lemma touches_live: "touches ke F k k' \<Longrightarrow> live ke k i \<Longrightarrow> live ke k' i"
  by (simp add: touches_def)

lemma touches_trans:
  assumes "touches ke F k k1" and "touches ke G k1 k2" and "\<And>i. i \<in> G \<Longrightarrow> live ke k i \<Longrightarrow> i \<in> F"
  shows "touches ke F k k2"
  using assms unfolding touches_def by metis

lemma touches_mono: "touches ke F k k' \<Longrightarrow> F \<subseteq> G \<Longrightarrow> touches ke G k k'"
  by (auto simp: touches_def)

text \<open>The pages a page table occupies.\<close>

definition tables :: "memory \<Rightarrow> addr \<Rightarrow> nat set" where
  "tables m pt = {page_of a | a va n. n \<le> 3 \<and> walk m pt va n = Some a}"

lemma in_tables: "n \<le> 3 \<Longrightarrow> walk m pt va n = Some a \<Longrightarrow> page_of a \<in> tables m pt"
  unfolding tables_def by blast

lemma pt_ok_live: "pt_ok ke k pt \<Longrightarrow> i \<in> tables (phys k) pt \<Longrightarrow> live ke k i"
  by (auto simp: pt_ok_def pt_held_def live_def tables_def)

lemma entry_page:
  assumes "page_aligned b" and "i < 512" and "j < 8"
  shows "page_of (pt_entry b i + of_nat j) = page_of b"
proof -
  obtain q where q: "unat b = 4096 * q" using assms(1) by (auto simp: page_aligned_unat elim: dvdE)
  have "unat b + 4096 \<le> 2 ^ 64" using q unat_bound64 [of b] by simp
  moreover have "unat (pt_entry b i + of_nat j) = (unat (pt_entry b i) + j) mod 2 ^ 64"
    using unat_of_nat_small [of j] assms(3) by (simp add: unat_word_ariths)
  moreover have "unat (pt_entry b i) = unat b + 8 * i" using unat_pt_entry [OF assms(1,2)] .
  ultimately have "unat (pt_entry b i + of_nat j) = 4096 * q + (8 * i + j)" using assms(2,3) q by simp
  moreover have "8 * i + j < 4096" using assms(2,3) by simp
  ultimately show ?thesis using q by (simp add: page_of_def)
qed

lemma load_same_page:
  assumes "page_aligned b" and "i < 512" and "\<And>x. page_of x = page_of b \<Longrightarrow> m' x = m x"
  shows "load64 m' (pt_entry b i) = load64 m (pt_entry b i)"
proof -
  have "read_bytes m' (pt_entry b i) 8 = read_bytes m (pt_entry b i) 8"
    using assms entry_page by (auto simp: read_bytes_def)
  then show ?thesis by (simp add: load64_def)
qed

lemma touches_loads:
  assumes "pt_ok ke k pt" and "touches ke F k k'" and "F \<inter> tables (phys k) pt = {}"
    and "n \<le> 3" and "walk (phys k) pt va n = Some a"
  shows "load64 (phys k') a = load64 (phys k) a"
proof -
  obtain b i where a: "page_aligned b" "i < 512" "a = pt_entry b i"
    using walk_entry [OF _ assms(5)] assms(1) by (auto simp: pt_ok_def)
  have "page_of a \<in> tables (phys k) pt" using in_tables assms(4,5) by blast
  moreover have "page_of a = page_of b" using a page_of_entry by simp
  ultimately have "phys k' x = phys k x" if "page_of x = page_of b" for x
    using that assms(2,3) pt_ok_live [OF assms(1)] unfolding touches_def by (metis disjoint_iff)
  then show ?thesis using load_same_page [OF a(1,2)] a(3) by blast
qed

lemma touches_walk:
  assumes "pt_ok ke k pt" and "touches ke F k k'" and "F \<inter> tables (phys k) pt = {}" and "n \<le> 3"
  shows "walk (phys k') pt va n = walk (phys k) pt va n" and "walk_perm (phys k') pt va n = walk_perm (phys k) pt va n"
proof -
  have "j < n \<Longrightarrow> walk (phys k) pt va j = Some a \<Longrightarrow> load64 (phys k') a = load64 (phys k) a" for j a
    using touches_loads [OF assms(1-3), of j va a] assms(4) by simp
  then show "walk (phys k') pt va n = walk (phys k) pt va n" "walk_perm (phys k') pt va n = walk_perm (phys k) pt va n"
    using walk_cong [of n "phys k" pt va "phys k'"] by blast+
qed

lemma touches_pt:
  assumes ok: "pt_ok ke k pt" and t: "touches ke F k k'" and d: "F \<inter> tables (phys k) pt = {}"
  shows "pt_ok ke k' pt" and "tables (phys k') pt = tables (phys k) pt"
    and "va_is_canonical va \<Longrightarrow> lookup_va (phys k') pt va = lookup_va (phys k) pt va"
    and "va_is_canonical va \<Longrightarrow> new_vmiter (phys k') pt va = new_vmiter (phys k) pt va"
proof -
  note w = touches_walk [OF ok t d] and ld = touches_loads [OF ok t d]
  have held: "pt_held ke k pt" using ok by (simp add: pt_ok_def)
  show tb: "tables (phys k') pt = tables (phys k) pt" unfolding tables_def using w(1) by metis
  have "pt_sep (phys k') pt" using ok w(1) unfolding pt_ok_def pt_sep_def by metis
  moreover have "pt_held ke k' pt" unfolding pt_held_def
  proof (intro allI impI)
    fix va n a
    assume a: "n \<le> 3" "walk (phys k') pt va n = Some a"
    then have a': "walk (phys k) pt va n = Some a" using w(1) by simp
    have "live ke k' (page_of a)" using touches_live [OF t] pt_ok_live [OF ok in_tables [OF a(1) a']] .
    moreover have "load64 (phys k') a AND PTE_PAMASK < 0x100000000" using ld [OF a(1) a'] held a(1) a' by (simp add: pt_held_def)
    ultimately show "\<not> (page_of a < 512 \<and> free_page ke k' (page_of a)) \<and> load64 (phys k') a AND PTE_PAMASK < 0x100000000"
      by (simp add: live_def)
  qed
  ultimately show "pt_ok ke k' pt" using ok t by (simp add: pt_ok_def touches_def)
  have lc: "j \<le> 3 \<Longrightarrow> walk (phys k) pt va j = Some a \<Longrightarrow> load64 (phys k') a = load64 (phys k) a \<and> load64 (phys k) a AND PTE_PAMASK < 0x100000000" for va j a
    using ld held by (simp add: pt_held_def)
  then show "lookup_va (phys k') pt va = lookup_va (phys k) pt va" if "va_is_canonical va"
    using lookup_cong [OF that, of "phys k" pt "phys k'"] by blast
  show "new_vmiter (phys k') pt va = new_vmiter (phys k) pt va" if can: "va_is_canonical va"
  proof -
    obtain n a where s: "stops (phys k) pt va n a" using stops_exists by blast
    then have n: "n \<le> 3" "walk (phys k) pt va n = Some a" by (simp_all add: stops_def)
    have "stops (phys k') pt va n a" using s w(1) [OF n(1), of va] lc [OF n] by (simp add: stops_def)
    from stops_vmiter [OF this can] stops_vmiter [OF s can] show ?thesis using lc [OF n] w(2) [OF n(1), of va] by simp
  qed
qed

lemma in_page:
  assumes "page_aligned p" and "unat (x - p) < 4096"
  shows "page_of x = page_of p"
proof -
  obtain q where q: "unat p = 4096 * q" using assms(1) by (auto simp: page_aligned_unat elim: dvdE)
  have "unat p + 4096 \<le> 2 ^ 64" using q unat_bound64 [of p] by simp
  moreover have "unat (p + (x - p)) = (unat p + unat (x - p)) mod 2 ^ 64" unfolding unat_word_ariths by simp
  ultimately have "unat x = 4096 * q + unat (x - p)" using assms(2) q by simp
  then show ?thesis using assms(2) q by (simp add: page_of_def)
qed

text \<open>Handing out a page and filling it.\<close>

lemma kalloc_touches:
  assumes "pmem_ok ke k" and "kalloc ke 4096 k = (k1, p)" and "p \<noteq> 0" and "\<And>x. page_of x \<noteq> page_of p \<Longrightarrow> m x = phys k1 x"
  shows "touches ke {} k (k1\<lparr>phys := m\<rparr>)" and "\<not> live ke k (page_of p)" and "live ke (k1\<lparr>phys := m\<rparr>) (page_of p)"
proof -
  note kp = kalloc_page [OF assms(1-3)]
  have fr: "free_page ke (k1\<lparr>phys := m\<rparr>) i = free_page ke k1 i" for i by (simp add: free_page_def used_def)
  show dead: "\<not> live ke k (page_of p)" using kp(3,4) by (simp add: live_def)
  show "live ke (k1\<lparr>phys := m\<rparr>) (page_of p)" using kp(7) by (auto simp: live_def fr)
  have "phys k1 x = phys k x" if "page_of x \<noteq> page_of p" for x
  proof -
    have "\<not> unat (x - p) < 4096" using in_page [OF kp(1)] that by blast
    then show ?thesis by (simp add: kp(5) fill_bytes_def)
  qed
  then have "m x = phys k x" if "live ke k (page_of x)" for x using that dead assms(4) [of x] by metis
  moreover have "live ke k i \<Longrightarrow> live ke (k1\<lparr>phys := m\<rparr>) i" for i using kp(7) by (auto simp: live_def fr)
  moreover have "pmem_ok ke (k1\<lparr>phys := m\<rparr>)" using kp(6) by (simp add: pmem_ok_iff fr)
  ultimately show "touches ke {} k (k1\<lparr>phys := m\<rparr>)" by (simp add: touches_def)
qed

section \<open>Mapping and other address spaces\<close>

text \<open>
  A table as \<open>try_map\<close> makes it: every table on the way to an entry grants all permissions, and
  only entries of the last level map memory.
\<close>

definition plain_table :: "memory \<Rightarrow> addr \<Rightarrow> bool" where
  "plain_table m pt \<longleftrightarrow> (\<forall>va n a. n \<le> 3 \<longrightarrow> walk m pt va n = Some a \<longrightarrow>
     walk_perm m pt va n AND table_flags = table_flags \<and> (n < 3 \<longrightarrow> load64 m a AND PTE_P \<noteq> 0 \<longrightarrow> is_table (load64 m a)))"

lemma plain_tableD:
  assumes "plain_table m pt" and "n \<le> 3" and "walk m pt va n = Some a"
  shows "walk_perm m pt va n AND table_flags = table_flags" and "n < 3 \<Longrightarrow> load64 m a AND PTE_P \<noteq> 0 \<Longrightarrow> is_table (load64 m a)"
  using assms unfolding plain_table_def by blast+

text \<open>What adding to a page table costs the rest of memory.\<close>

definition grows :: "addr \<Rightarrow> addr \<Rightarrow> pmem \<Rightarrow> pmem \<Rightarrow> bool" where
  "grows ke pt k k' \<longleftrightarrow> touches ke (tables (phys k) pt) k k'
     \<and> tables (phys k') pt \<subseteq> tables (phys k) pt \<union> {i. \<not> live ke k i} \<and> (plain_table (phys k) pt \<longrightarrow> plain_table (phys k') pt)
     \<and> (\<forall>i. live ke k i \<longrightarrow> refcounts k' ! i = refcounts k ! i)
     \<and> (\<forall>va n a. n \<le> 3 \<longrightarrow> walk (phys k) pt va n = Some a \<longrightarrow>
          walk (phys k') pt va n = Some a \<and> walk_perm (phys k') pt va n = walk_perm (phys k) pt va n)"

lemma grows_refl: "pmem_ok ke k \<Longrightarrow> grows ke pt k k"
  by (simp add: grows_def touches_refl)

lemma growsD:
  assumes "grows ke pt k k'"
  shows "touches ke (tables (phys k) pt) k k'" and "i \<in> tables (phys k') pt \<Longrightarrow> i \<in> tables (phys k) pt \<or> \<not> live ke k i"
    and "plain_table (phys k) pt \<Longrightarrow> plain_table (phys k') pt" and "live ke k i \<Longrightarrow> refcounts k' ! i = refcounts k ! i"
    and "n \<le> 3 \<Longrightarrow> walk (phys k) pt va n = Some a \<Longrightarrow> walk (phys k') pt va n = Some a"
    and "n \<le> 3 \<Longrightarrow> walk (phys k) pt va n = Some a \<Longrightarrow> walk_perm (phys k') pt va n = walk_perm (phys k) pt va n"
  using assms unfolding grows_def by blast+

lemma grows_trans:
  assumes g: "grows ke pt k k1" "grows ke pt k1 k2"
  shows "grows ke pt k k2"
proof -
  note g1 = growsD [OF g(1)] and g2 = growsD [OF g(2)]
  have "touches ke (tables (phys k) pt) k k2" by (rule touches_trans [OF g1(1) g2(1)]) (use g1(2) in blast)
  moreover have "tables (phys k2) pt \<subseteq> tables (phys k) pt \<union> {i. \<not> live ke k i}"
    using g1(2) g2(2) touches_live [OF g1(1)] by blast
  moreover have "live ke k i \<Longrightarrow> refcounts k2 ! i = refcounts k ! i" for i
    using g1(4) g2(4) touches_live [OF g1(1)] by metis
  ultimately show ?thesis using g1(3,5,6) g2(3,5,6) unfolding grows_def by metis
qed

lemma store_other_page:
  assumes "page_aligned b" and "i < 512" and "page_of x \<noteq> page_of b"
  shows "store64 m (pt_entry b i) v x = m x"
proof -
  have "\<not> unat (x - pt_entry b i) < 8"
  proof
    assume lt: "unat (x - pt_entry b i) < 8"
    have "page_of (pt_entry b i + of_nat (unat (x - pt_entry b i))) = page_of b" by (rule entry_page [OF assms(1,2) lt])
    then show False using assms(3) by (simp add: word_of_nat_unat_self)
  qed
  then show ?thesis by (simp add: store64_def write_bytes_def)
qed

lemma fill_other_page: "page_aligned p \<Longrightarrow> page_of x \<noteq> page_of p \<Longrightarrow> fill_bytes m p c 4096 x = m x"
  using in_page [of p x] by (auto simp: fill_bytes_def)

lemma touches_entry:
  assumes "pmem_ok ke k" and b: "page_aligned b" "i < 512"
  shows "touches ke {page_of b} k (k\<lparr>phys := store64 (phys k) (pt_entry b i) v\<rparr>)"
  using assms(1) store_other_page [OF b]
  by (simp add: touches_def live_def pmem_ok_iff free_page_def used_def)

lemma touches_store:
  assumes ok: "pt_ok ke k pt" and a: "n \<le> 3" "walk (phys k) pt va n = Some a"
  shows "touches ke (tables (phys k) pt) k (k\<lparr>phys := store64 (phys k) a v\<rparr>)"
proof -
  obtain b i where b: "page_aligned b" "i < 512" "a = pt_entry b i" using walk_entry [OF _ a(2)] ok by (auto simp: pt_ok_def)
  have "touches ke {page_of b} k (k\<lparr>phys := store64 (phys k) a v\<rparr>)"
    unfolding b(3) by (rule touches_entry [OF _ b(1,2)]) (use ok in \<open>simp add: pt_ok_def\<close>)
  then show ?thesis by (rule touches_mono) (use in_tables [OF a] b page_of_entry in auto)
qed

lemma kalloc_counts:
  assumes "pmem_ok ke k" and "kalloc ke 4096 k = (k1, p)" and "live ke k i"
  shows "refcounts k1 ! i = refcounts k ! i"
  by (cases rule: kalloc_cases [OF assms(1), of 4096]) (use assms in \<open>auto simp: live_def\<close>, metis nth_list_update_neq)

lemma add_table_grows:
  assumes ok: "pt_ok ke k pt" and a: "n < 3" "walk (phys k) pt va n = Some a" "\<not> is_table (load64 (phys k) a)"
    and ka: "kalloc ke 4096 k = (k1, p)" "p \<noteq> 0"
  shows "grows ke pt k (add_table a p k1)"
proof -
  let ?m' = "phys (add_table a p k1)"
  have pm: "pmem_ok ke k" and al: "page_aligned pt" and sep: "pt_sep (phys k) pt" using ok by (simp_all add: pt_ok_def)
  note kp = kalloc_page [OF pm ka] and w = add_table_walk [OF ok a ka]
  have n3: "n \<le> 3" using a(1) by simp
  note ld = add_table_loads [OF ok n3 a(2) ka]
  have dead: "\<not> live ke k (page_of p)" using kp(3,4) by (simp add: live_def)
  define k2 where "k2 = k1\<lparr>phys := memset (phys k1) p 0 4096\<rparr>"
  have t: "touches ke {} k k2" unfolding k2_def
    by (rule kalloc_touches(1) [OF pm ka]) (simp add: memset_fill fill_other_page [OF kp(1)])
  obtain b i where b: "page_aligned b" "i < 512" "a = pt_entry b i" using walk_entry [OF al a(2)] by blast
  have F: "{page_of b} \<subseteq> tables (phys k) pt" using in_tables [OF n3 a(2)] b page_of_entry by simp
  have u: "touches ke {page_of b} k2 (add_table a p k1)"
    using touches_entry [OF _ b(1,2), of ke k2] t by (simp add: add_table_def k2_def b(3) touches_def)
  have touch: "touches ke (tables (phys k) pt) k (add_table a p k1)"
    by (rule touches_trans [OF touches_mono [OF t] u]) (use F in auto)
  have cases': "j \<le> n \<or> \<not> same_prefix n va va' \<and> j \<le> 3 \<Longrightarrow> walk ?m' pt va' j = walk (phys k) pt va' j \<and> walk_perm ?m' pt va' j = walk_perm (phys k) pt va' j" for va' j
    using w(1,2) n3 by (cases "same_prefix n va va'") auto
  have stop: "walk (phys k) pt va' j = None" if "same_prefix n va va'" "n < j" for va' j
    using \<open>n < j\<close>
  proof (induction j)
    case (Suc j)
    then show ?case using that(1) a(2,3) walk_prefix [of n va va' "phys k" pt] by (cases "j = n") auto
  qed simp
  have new: "same_prefix n va va' \<and> j = Suc n \<and> c = pt_entry p (pageindex va' (2 - n))"
    if "walk ?m' pt va' j = Some c" "\<not> (j \<le> n \<or> \<not> same_prefix n va va')" for va' j c
    using that w(3,4) [of va'] by (cases "j = Suc n") auto
  have "tables ?m' pt \<subseteq> tables (phys k) pt \<union> {i. \<not> live ke k i}"
  proof
    fix i
    assume "i \<in> tables ?m' pt"
    then obtain va' j c where c: "j \<le> 3" "walk ?m' pt va' j = Some c" "i = page_of c" by (auto simp: tables_def)
    show "i \<in> tables (phys k) pt \<union> {i. \<not> live ke k i}"
    proof (cases "j \<le> n \<or> \<not> same_prefix n va va'")
      case True
      then show ?thesis using cases' [of j va'] c in_tables [of j "phys k" pt va' c] by auto
    next
      case False
      then show ?thesis using new [OF c(2)] dead c(3) page_of_entry [OF kp(1) pageindex_lt] by simp
    qed
  qed
  moreover have "plain_table ?m' pt" if op: "plain_table (phys k) pt"
    unfolding plain_table_def
  proof (intro allI impI)
    fix va' j c
    assume c: "j \<le> 3" "walk ?m' pt va' j = Some c"
    show "walk_perm ?m' pt va' j AND table_flags = table_flags \<and> (j < 3 \<longrightarrow> load64 ?m' c AND PTE_P \<noteq> 0 \<longrightarrow> is_table (load64 ?m' c))"
    proof (cases "j \<le> n \<or> \<not> same_prefix n va va'")
      case True
      then have old: "walk (phys k) pt va' j = Some c" "walk_perm ?m' pt va' j = walk_perm (phys k) pt va' j"
        using cases' [of j va'] c by auto
      have "is_table (load64 ?m' a)" using ld(1) table_entry(1) [OF kp(1)] kp(2) by simp
      then show ?thesis using plain_tableD [OF op c(1) old(1)] old(2) ld(3) [OF c(1) old(1)] by (cases "c = a") auto
    next
      case False
      note j = new [OF c(2) False]
      have wn: "walk (phys k) pt va' n = Some a" using a(2) walk_prefix [of n va va' "phys k" pt] j by simp
      have "walk_perm (phys k) pt va' n AND table_flags = table_flags" using plain_tableD(1) [OF op n3 wn] .
      moreover have "(p OR table_flags) AND table_flags = table_flags" using table_entry(3) [OF kp(1)] kp(2) by simp
      ultimately have "walk_perm ?m' pt va' j AND table_flags = table_flags" using j wn cases' [of n va'] ld(1) by (simp add: and.assoc)
      then show ?thesis using j ld(4) [OF pageindex_lt] by simp
    qed
  qed
  moreover have "walk ?m' pt va' j = Some c \<and> walk_perm ?m' pt va' j = walk_perm (phys k) pt va' j"
    if "j \<le> 3" "walk (phys k) pt va' j = Some c" for va' j c
  proof -
    have "j \<le> n \<or> \<not> same_prefix n va va'" using stop [of va' j] that by (cases "j \<le> n") auto
    then show ?thesis using cases' [of j va'] that by auto
  qed
  moreover have "live ke k i \<Longrightarrow> refcounts (add_table a p k1) ! i = refcounts k ! i" for i
    using kalloc_counts [OF pm ka(1)] by (simp add: add_table_def)
  ultimately show ?thesis using touch unfolding grows_def by blast
qed

lemma set_entry_grows:
  assumes ok: "pt_ok ke k pt" and a: "walk (phys k) pt va 3 = Some a" and e: "e AND PTE_PAMASK < 0x100000000"
  shows "grows ke pt k (k\<lparr>phys := store64 (phys k) a e\<rparr>)"
proof -
  note se = set_entry_ok [OF ok a e, simplified]
  have "tables (store64 (phys k) a e) pt = tables (phys k) pt" unfolding tables_def
    by (intro Collect_cong ex_cong1 conj_cong refl) (simp add: se(2))
  moreover have "plain_table (store64 (phys k) a e) pt" if op: "plain_table (phys k) pt" unfolding plain_table_def
  proof (intro allI impI)
    fix va' n b
    assume b: "n \<le> 3" "walk (store64 (phys k) a e) pt va' n = Some b"
    then have b': "walk (phys k) pt va' n = Some b" using se(2) by simp
    show "walk_perm (store64 (phys k) a e) pt va' n AND table_flags = table_flags
        \<and> (n < 3 \<longrightarrow> load64 (store64 (phys k) a e) b AND PTE_P \<noteq> 0 \<longrightarrow> is_table (load64 (store64 (phys k) a e) b))"
      using plain_tableD [OF op b(1) b'] se(3) [OF b(1)] se(4) [OF b(1) b'] by simp
  qed
  ultimately show ?thesis
    using touches_store [OF ok _ a, of e] se(2,3) unfolding grows_def by simp
qed

lemma try_map_loop_space:
  assumes "pt_ok ke k pt" and "n \<le> 3" and "walk (phys k) pt va n = Some a" and "n < 3 \<Longrightarrow> load64 (phys k) a AND PTE_P = 0"
  shows "ends (\<lambda>_. True) (\<lambda>(fin, it', k'). grows ke pt k k') (try_map_loop fuel ke perm (at_walk (phys k) pt va n a) k)"
  using assms
proof (induction fuel arbitrary: n a k)
  case (Suc fuel)
  have pm: "pmem_ok ke k" using Suc.prems(1) by (simp add: pt_ok_def)
  show ?case
  proof (cases "n < 3 \<and> perm \<noteq> 0")
    case False
    then show ?thesis using grows_refl [OF pm] by (auto simp: at_walk_def)
  next
    case True
    then have n: "n < 3" and z: "load64 (phys k) a AND PTE_P = 0" using Suc.prems(4) by simp_all
    obtain k1 p where ka: "kalloc ke 4096 k = (k1, p)" by fastforce
    show ?thesis
    proof (cases "p = 0")
      case True
      have "phys k1 = phys k" "free_page ke k1 = free_page ke k" "pmem_ok ke k1"
        using ka True pmem_ok_kalloc [OF pm, of 4096]
        by (cases rule: kalloc_cases [OF pm, of 4096]; fastforce simp: free_page_def used_def fun_eq_iff)+
      moreover have "live ke k i \<Longrightarrow> refcounts k1 ! i = refcounts k ! i" for i using kalloc_counts [OF pm ka] .
      ultimately have "grows ke pt k k1" by (simp add: grows_def touches_def live_def)
      then show ?thesis using True ka n z \<open>n < 3 \<and> perm \<noteq> 0\<close> by (auto simp: at_walk_def)
    next
      case False
      let ?k2 = "add_table a p k1"
      have nt: "\<not> is_table (load64 (phys k) a)" using is_table_present z by blast
      note dn = vm_down_add_table [OF Suc.prems(1) n Suc.prems(3) z ka False]
      have "grows ke pt k ?k2" using add_table_grows [OF Suc.prems(1) n Suc.prems(3) nt ka False] .
      moreover have "pt_ok ke ?k2 pt" using add_table_ok [OF Suc.prems(1) n Suc.prems(3) nt ka False] .
      moreover have "try_map_loop (Suc fuel) ke perm (at_walk (phys k) pt va n a) k =
          try_map_loop fuel ke perm (at_walk (phys ?k2) pt va (Suc n) (pt_entry p (pageindex va (2 - n)))) ?k2"
        using n z ka False True dn(1) by (simp add: at_walk_def add_table_def table_flags_def Let_def)
      ultimately show ?thesis
        using Suc.IH [of ?k2 "Suc n"] dn(2,3) n grows_trans by (auto simp: ends_def split: sum.splits)
    qed
  qed
qed simp

text \<open>
  Mapping a page in a plain table: all of memory that the call may change, and all it does to the
  table's own translations.
\<close>

lemma plain_not_large:
  assumes "plain_table m pt" and "stops m pt va n a" and "n < 3"
  shows "load64 m a AND PTE_P = 0"
  using plain_tableD(2) [OF assms(1), of n va a] assms(2,3) by (auto simp: stops_def)

lemma flagged_entry:
  assumes pa: "page_aligned pa" "unat pa < 2 ^ 32" and perm: "perm AND NOT PAGEOFFMASK = 0" "perm AND PTE_P \<noteq> 0"
    and wp: "wp AND NOT PAGEOFFMASK = 0"
  shows "entry_result (pa OR perm) 3 wp va = (pa + (va AND PAGEOFFMASK), perm AND wp)" and "(pa OR perm) AND PTE_PAMASK = pa"
proof -
  have tf: "PTE_P AND NOT PAGEOFFMASK = 0" by (simp add: PTE_P_def PAGEOFFMASK_def)
  note o = flags_disjoint [OF pa(1) perm(1)]
  show pam: "(pa OR perm) AND PTE_PAMASK = pa" unfolding o using PAMASK_aligned [OF pa(1)] pa(2) by simp
  have "(pa OR perm) AND PTE_P = perm AND PTE_P" using and_offmask [OF tf, of "pa OR perm"] o(1) by simp
  moreover have "(pa OR perm) AND wp = perm AND wp" using and_offmask [OF wp, of "pa OR perm"] o(1) by simp
  moreover have "pageoffmask 0 = PAGEOFFMASK" by (simp add: pageoffmask_def PAGEOFFMASK_def)
  ultimately show "entry_result (pa OR perm) 3 wp va = (pa + (va AND PAGEOFFMASK), perm AND wp)"
    using perm(2) pam by (simp add: entry_result_def)
qed

lemma map_in_space:
  assumes ok: "pt_ok ke k pt" "plain_table (phys k) pt" and va: "va_is_canonical va" "page_aligned va"
    and it: "new_vmiter (phys k) pt va = Inr it"
    and pa: "page_aligned pa" "unat pa < 2 ^ 32" and perm: "perm AND NOT PAGEOFFMASK = 0" "perm AND PTE_P \<noteq> 0"
  obtains r it' k' w where "vm_try_map ke pa perm it k = Inr (r, it', k')" "pt_ok ke k' pt" "grows ke pt k k'"
    "r = 0 \<or> r = - 1 \<and> (\<forall>i < NPAGES. \<not> free_page ke k' i)" "w AND table_flags = table_flags"
    "\<And>va'. va_is_canonical va' \<Longrightarrow> lookup_va (phys k') pt va' =
        (if r = 0 \<and> drop_bit 12 va' = drop_bit 12 va then Inr (pa + (va' AND PAGEOFFMASK), perm AND w) else lookup_va (phys k) pt va')"
proof -
  obtain n a where s: "stops (phys k) pt va n a" using stops_exists by blast
  then have n: "n \<le> 3" "walk (phys k) pt va n = Some a" by (simp_all add: stops_def)
  then have "load64 (phys k) a AND PTE_PAMASK < 0x100000000" using ok(1) by (simp add: pt_ok_def pt_held_def)
  then have at: "it = at_walk (phys k) pt va n a" using stops_vmiter [OF s va(1)] it by (simp add: at_walk_def)
  have z: "n < 3 \<Longrightarrow> load64 (phys k) a AND PTE_P = 0" using plain_not_large [OF ok(2) s] .
  have nz: "perm \<noteq> 0" using perm(2) by auto
  obtain fin it' k' where loop: "try_map_loop 4 ke perm it k = Inr (fin, it', k')" and ok': "pt_ok ke k' pt"
    and lk: "\<forall>va'. va_is_canonical va' \<longrightarrow> lookup_va (phys k') pt va' = lookup_va (phys k) pt va'"
    and fin: "fin \<Longrightarrow> \<exists>a'. walk (phys k') pt va 3 = Some a' \<and> it' = at_walk (phys k') pt va 3 a'"
    and out: "\<not> fin \<Longrightarrow> \<forall>i < NPAGES. \<not> free_page ke k' i"
    using try_map_loop_exact [OF ok(1) n z va(1), of 4 perm] nz unfolding at by fastforce
  have g: "grows ke pt k k'" using try_map_loop_space [OF ok(1) n z, of 4 perm] loop unfolding at by simp
  have pt': "plain_table (phys k') pt" using growsD(3) [OF g ok(2)] .
  have wp: "vm_perm it AND table_flags = table_flags" using plain_tableD(1) [OF ok(2) n] by (simp add: at at_walk_def)
  then have "(PTE_P OR PTE_W OR PTE_U) AND NOT (vm_perm it) = 0"
    using and_through_flags [of table_flags table_flags table_flags "vm_perm it"] by (simp add: table_flags_def)
  then have "perm AND NOT (vm_perm it) AND (PTE_P OR PTE_W OR PTE_U) = 0" by (simp add: and.assoc and.commute)
  moreover have "pa AND PTE_PAMASK = pa" using PAMASK_aligned [OF pa(1)] pa(2) by simp
  moreover have "pa \<noteq> - 1" using pa(2) by (auto simp: unsigned_minus_1_eq_mask mask_eq_exp_minus_1)
  ultimately have tm: "vm_try_map ke pa perm it k =
    (if \<not> fin then Inr (- 1, it', k') else if vm_level it' = 0 then case vm_pep it' of None \<Rightarrow> Inl Undefined
      | Some pep \<Rightarrow> Inr (0, it', k'\<lparr>phys := store64 (phys k') pep (pa OR perm)\<rparr>) else Inr (0, it', k'))"
    using va(2) perm(2) nz loop by (simp add: vm_try_map_def at at_walk_def page_aligned_def)
  show thesis
  proof (cases fin)
    case False
    show thesis by (rule that [of "- 1" it' k' table_flags]) (use False tm ok' g lk out in auto)
  next
    case True
    then obtain a' where a': "walk (phys k') pt va 3 = Some a'" "it' = at_walk (phys k') pt va 3 a'" using fin by blast
    let ?w = "walk_perm (phys k') pt va 3"
    note fe = flagged_entry [OF pa perm walk_perm_flags]
    have e: "(pa OR perm) AND PTE_PAMASK < 0x100000000" using pa(2) unfolding fe(2) by (simp add: word_less_nat_alt)
    have 1: "vm_try_map ke pa perm it k = Inr (0, it', k'\<lparr>phys := store64 (phys k') a' (pa OR perm)\<rparr>)"
      using tm True a'(2) by (simp add: at_walk_def)
    show thesis
    proof (rule that [OF 1 set_entry_ok(1) [OF ok' a'(1) e] grows_trans [OF g set_entry_grows [OF ok' a'(1) e]]])
      show "?w AND table_flags = table_flags" using plain_tableD(1) [OF pt' _ a'(1)] by simp
    qed (use set_entry_lookup [OF ok' a'(1) e] same_page_iff [OF va(1)] lk fe(1) in simp_all)
  qed
qed

lemma walk_perm_present: "walk m pt va n = Some a \<Longrightarrow> walk_perm m pt va n AND PTE_P = PTE_P"
proof (induction n arbitrary: a)
  case 0
  then show ?case by (simp add: initial_perm_def PTE_P_def)
next
  case (Suc n)
  then obtain b where b: "walk m pt va n = Some b" "is_table (load64 m b)" by (auto split: option.splits if_splits)
  have "load64 m b AND PTE_P = (load64 m b AND (PTE_P OR PTE_PS)) AND PTE_P" by (simp add: and.assoc PTE_P_def PTE_PS_def)
  then have "load64 m b AND PTE_P = PTE_P" using b(2) by (simp add: is_table_def)
  then show ?case using Suc.IH [OF b(1)] b(1) by (simp add: and.assoc)
qed

lemma present_perm:
  assumes "walk m pt va n = Some a" and "e AND PTE_P \<noteq> 0"
  shows "(e AND walk_perm m pt va n) AND PTE_P \<noteq> 0"
  using assms(2) walk_perm_present [OF assms(1)] by (simp add: and.assoc)

text \<open>Mapping with no permissions at all makes no table and leaves an unmapped page unmapped.\<close>

lemma unmap_in_space:
  assumes ok: "pt_ok ke k pt" and va: "va_is_canonical va" "page_aligned va" and it: "new_vmiter (phys k) pt va = Inr it"
    and un: "lookup_va (phys k) pt va = Inr (- 1, 0)"
  obtains it' k' where "vm_try_map ke (- 1) 0 it k = Inr (0, it', k')" "pt_ok ke k' pt" "grows ke pt k k'"
    "\<And>va'. va_is_canonical va' \<Longrightarrow> lookup_va (phys k') pt va' = lookup_va (phys k) pt va'"
proof -
  obtain n a where n: "n \<le> 3" "walk (phys k) pt va n = Some a" and at: "it = at_walk (phys k) pt va n a"
    using vmiter_at_walk [OF ok va(1) it] .
  have pm: "pmem_ok ke k" using ok by (simp add: pt_ok_def)
  have tm: "vm_try_map ke (- 1) 0 it k = (if n = 3 then Inr (0, it, k\<lparr>phys := store64 (phys k) a 0\<rparr>) else Inr (0, it, k))"
    using va(2) n(1) by (simp add: vm_try_map_def at at_walk_def page_aligned_def numeral_eq_Suc)
  show thesis
  proof (cases "n = 3")
    case False
    then show thesis using tm ok grows_refl [OF pm] that [of it k] by simp
  next
    case True
    then have a: "walk (phys k) pt va 3 = Some a" using n(2) by simp
    have "lookup_va (store64 (phys k) a 0) pt va' = lookup_va (phys k) pt va'" if can: "va_is_canonical va'" for va'
    proof (cases "same_prefix 3 va va'")
      case s: True
      have st: "stops (phys k) pt va 3 a" "stops (phys k) pt va' 3 a"
        using a walk_prefix [OF s, of "phys k" pt] by (simp_all add: stops_def)
      have l: "load64 (phys k) a AND PTE_PAMASK < 0x100000000" using ok a unfolding pt_ok_def pt_held_def by (metis order_refl)
      have "load64 (phys k) a AND PTE_P = 0" 
        using lookup_stops [OF st(1) va(1) l] un present_perm [OF a, of "load64 (phys k) a"] by (auto simp: entry_result_def split: if_splits)
      then show ?thesis using lookup_stops [OF st(2) can l] set_entry_lookup [OF ok a _ can, of 0] s by (simp add: entry_result_def)
    qed (use set_entry_lookup [OF ok a _ can, of 0] in simp)
    then show thesis using that [of it "k\<lparr>phys := store64 (phys k) a 0\<rparr>"] tm True set_entry_ok(1) [OF ok a, of 0] set_entry_grows [OF ok a, of 0] by simp
  qed
qed

end
