(* ===== verification/Isolation.thy ===== *)
theory Isolation
  imports Spaces
begin

unbundle bit_operations_syntax

text \<open>
  What the system calls that change address spaces do to memory: allocating a page for a process
  and copying a process. Both write the tables of the space they build and pages that were free;
  every other page in use and every translation of another address space stays.
\<close>

section \<open>Fresh pages\<close>

lemma vmiter_total:
  assumes "pt_ok ke k pt" and "va_is_canonical va"
  obtains it where "new_vmiter (phys k) pt va = Inr it"
proof -
  obtain n a where s: "stops (phys k) pt va n a" using stops_exists by blast
  then have "load64 (phys k) a AND PTE_PAMASK < 0x100000000" using assms(1) by (auto simp: stops_def pt_ok_def pt_held_def)
  then show thesis using stops_vmiter [OF s assms(2)] that by blast
qed

lemma kalloc_null:
  assumes "pmem_ok ke k" and "kalloc ke 4096 k = (k1, 0)"
  shows "phys k1 = phys k" and "free_page ke k1 = free_page ke k" and "pmem_ok ke k1" and "\<forall>i < 512. \<not> free_page ke k i"
  using assms pmem_ok_kalloc [OF assms(1), of 4096]
  by (cases rule: kalloc_cases [OF assms(1), of 4096]; fastforce simp: free_page_def used_def fun_eq_iff)+

lemma fill_page:
  assumes "page_aligned p" and "page_of x = page_of p"
  shows "fill_bytes m p c 4096 x = c"
proof -
  obtain q where q: "unat p = 4096 * q" using assms(1) by (auto simp: page_aligned_unat elim: dvdE)
  have u: "unat x = 4096 * q + unat x mod 4096" using assms(2) q mult_div_mod_eq [of 4096 "unat x"] by (simp add: page_of_def)
  have "p \<le> x" using u q by (simp add: word_le_nat_alt)
  then have "unat (x - p) = unat x - unat p" by (simp add: word_le_nat_alt unat_sub_if')
  then have "unat (x - p) < 4096" using u q mod_less_divisor [of 4096 "unat x"] by linarith
  then show ?thesis by (simp add: fill_bytes_def)
qed

lemma same_plain:
  assumes "pt_ok ke k pt" and "touches ke F k k'" and "F \<inter> tables (phys k) pt = {}"
  shows "plain_table (phys k') pt = plain_table (phys k) pt"
proof -
  have "load64 (phys k') a = load64 (phys k) a" if "n < 3" "walk (phys k) pt va n = Some a" for va n a
    using touches_loads [OF assms _ that(2)] that(1) by simp
  then show ?thesis unfolding plain_table_def
    by (intro all_cong1 imp_cong refl conj_cong) (simp_all add: touches_walk [OF assms])
qed

section \<open>Allocating a page\<close>

lemma page_alloc_maps:
  assumes ok: "pt_ok ke k pt" "plain_table (phys k) pt" and va: "va_is_canonical va" "page_aligned va"
    and it: "new_vmiter (phys k) pt va = Inr it"
    and ka: "kalloc ke 4096 k = (k1, pa)" "pa \<noteq> 0"
  defines "k2 \<equiv> k1\<lparr>phys := memset (phys k1) pa 0 4096\<rparr>"
  obtains r it' k' where "vm_try_map ke pa table_flags it k2 = Inr (r, it', k')" "pt_ok ke k' pt" "grows ke pt k k'"
    "page_aligned pa" "\<not> live ke k (page_of pa)" "live ke k' (page_of pa)" "\<forall>x. page_of x = page_of pa \<longrightarrow> phys k' x = 0"
    "r = 0 \<or> r = - 1 \<and> (\<forall>i < NPAGES. \<not> free_page ke k' i)"
    "\<And>va'. va_is_canonical va' \<Longrightarrow> lookup_va (phys k') pt va' =
        (if r = 0 \<and> drop_bit 12 va' = drop_bit 12 va then Inr (pa + (va' AND PAGEOFFMASK), table_flags) else lookup_va (phys k) pt va')"
proof -
  have pm: "pmem_ok ke k" using ok by (simp add: pt_ok_def)
  note kp = kalloc_page [OF pm ka]
  have other: "page_of x \<noteq> page_of pa \<Longrightarrow> memset (phys k1) pa 0 4096 x = phys k1 x" for x
    by (simp add: memset_fill fill_other_page [OF kp(1)])
  have t: "touches ke {} k k2" "\<not> live ke k (page_of pa)" "live ke k2 (page_of pa)"
    unfolding k2_def using kalloc_touches [OF pm ka, of "memset (phys k1) pa 0 4096"] other by blast+
  have F: "{} \<inter> tables (phys k) pt = {}" by simp
  note tp = touches_pt [OF ok(1) t(1) F] and ss = same_plain [OF ok(1) t(1) F]
  have tf: "table_flags AND NOT PAGEOFFMASK = 0" "table_flags AND PTE_P \<noteq> 0"
    by (simp_all add: table_flags_def PTE_P_def PTE_W_def PTE_U_def PAGEOFFMASK_def)
  have it2: "new_vmiter (phys k2) pt va = Inr it" using tp(4) [OF va(1)] it by simp
  have ok2: "plain_table (phys k2) pt" using ss ok(2) by simp
  have pa32: "unat pa < 2 ^ 32" using kp(2) by simp
  obtain r it' k' w where tm: "vm_try_map ke pa table_flags it k2 = Inr (r, it', k')" "pt_ok ke k' pt" and g: "grows ke pt k2 k'"
    and r: "r = 0 \<or> r = - 1 \<and> (\<forall>i < NPAGES. \<not> free_page ke k' i)"
    and w: "w AND table_flags = table_flags"
    and lk: "\<And>va'. va_is_canonical va' \<Longrightarrow> lookup_va (phys k') pt va' =
        (if r = 0 \<and> drop_bit 12 va' = drop_bit 12 va then Inr (pa + (va' AND PAGEOFFMASK), table_flags AND w) else lookup_va (phys k2) pt va')"
    by (rule map_in_space [OF tp(1) ok2 va it2 kp(1) pa32 tf]) blast
  have out: "page_of pa \<notin> tables (phys k2) pt" using t(2) tp(2) pt_ok_live [OF ok(1)] by blast
  have z: "phys k' x = 0" if "page_of x = page_of pa" for x
  proof -
    have "phys k' x = phys k2 x" using growsD(1) [OF g] t(3) out that by (simp add: touches_def)
    also have "\<dots> = 0" using fill_page [OF kp(1) that] by (simp add: k2_def memset_fill)
    finally show ?thesis .
  qed
  have "refcounts k2 ! i = refcounts k ! i" if "live ke k i" for i using kalloc_counts [OF pm ka(1) that] by (simp add: k2_def)
  then have g2: "grows ke pt k k2" using t(1) tp(2) ss touches_mono [of ke "{}"] touches_walk [OF ok(1) t(1) F] by (simp add: grows_def)
  have lv: "live ke k' (page_of pa)" using growsD(1) [OF g] t(3) by (simp add: touches_def)
  have "\<And>va'. va_is_canonical va' \<Longrightarrow> lookup_va (phys k') pt va' =
        (if r = 0 \<and> drop_bit 12 va' = drop_bit 12 va then Inr (pa + (va' AND PAGEOFFMASK), table_flags) else lookup_va (phys k) pt va')"
    using lk tp(3) w by (simp add: and.commute)
  with that [OF tm grows_trans [OF g2 g] kp(1) t(2) lv _ r] z show thesis by blast
qed

lemma touches_keeps:
  assumes "touches ke F k k'"
  shows "(\<forall>x. live ke k (page_of x) \<longrightarrow> page_of x \<notin> F \<longrightarrow> phys k' x = phys k x)
    \<and> (\<forall>pt va. pt_ok ke k pt \<longrightarrow> F \<inter> tables (phys k) pt = {} \<longrightarrow> va_is_canonical va \<longrightarrow> lookup_va (phys k') pt va = lookup_va (phys k) pt va)"
  using touches_pt(3) [OF _ assms] assms by (simp add: touches_def)

lemma user_canonical: "va < MEMSIZE_VIRTUAL \<Longrightarrow> va_is_canonical va"
  by (simp add: va_is_canonical_def VA_LOWMAX_def MEMSIZE_VIRTUAL_def word_le_nat_alt word_less_nat_alt)


text \<open>A process with an empty page table, for examples.\<close>

definition bare_process :: kernel where
  "bare_process = set_proc 1 (\<lambda>pr. pr\<lparr>pagetable := 0x1000\<rparr>) (one_process\<lparr>kmem := one_table\<rparr>)"

lemma bare_process_fields: "pagetable (cur bare_process) = 0x1000" "kmem bare_process = one_table"
  by (simp_all add: bare_process_def cur_def set_proc_def one_process_def init_ptable_def idle_kernel_def NPROC_def)

lemma one_table_walk: "walk (phys one_table) 0x1000 va n = (if n = 0 then Some (pt_entry 0x1000 (pageindex va 3)) else None)"
  by (rule walk_empty) (simp add: one_table_def boot_pmem_def load_zero)

lemma one_table_plain: "plain_table (phys one_table) 0x1000"
proof -
  have "load64 (phys one_table) a = 0" for a by (simp add: one_table_def boot_pmem_def load_zero)
  then show ?thesis
    by (simp add: plain_table_def one_table_walk initial_perm_def table_flags_def PTE_P_def PTE_W_def PTE_U_def)
qed


end
