(* ===== verification/Reclaim.thy ===== *)
theory Reclaim
  imports Isolation
begin

unbundle bit_operations_syntax

text \<open>
  Giving an address space back. The pages that \<open>ptiter\<close> visits are pages of the table it
  walks, so freeing the pages of a process and of its table gives back only what is its own.
\<close>

section \<open>The table iterator visits tables\<close>

lemma pageindex_mod: "pageindex va l = unat va div 2 ^ (12 + l * 9) mod 512"
proof -
  have "(0x1FF :: 64 word) = mask 9" by (simp add: mask_eq_exp_minus_1)
  then have "pageindex va l = unat (take_bit 9 (drop_bit (12 + l * 9) va))" by (simp only: pageindex_def take_bit_eq_mask)
  also have "\<dots> = unat va div 2 ^ (12 + l * 9) mod 2 ^ 9" by (simp only: unat_take_mod unat_drop_div)
  finally show ?thesis by simp
qed

lemma pageindex_next:
  assumes "l \<le> 3" and "unat va < 2 ^ 48"
    and "(((va OR pageoffmask l) + 1) XOR va) AND NOT (pageoffmask (l + 1)) = 0"
  shows "pageindex ((va OR pageoffmask l) + 1) l = pageindex va l + 1"
proof -
  let ?va = "(va OR pageoffmask l) + 1" and ?b = "12 + l * 9" and ?q = "unat va div 2 ^ (12 + l * 9)"
  have "unat va - unat va mod 2 ^ ?b = 2 ^ ?b * ?q" by (simp add: minus_mod_eq_mult_div)
  then have "unat ?va = 2 ^ ?b * Suc ?q" using unat_next(1) [of l 48 va] assms(1,2) by simp
  then have d: "unat ?va div 2 ^ ?b = Suc ?q" by simp
  have "unat (drop_bit (12 + (l + 1) * 9) ?va) = unat (drop_bit (12 + (l + 1) * 9) va)" using agree_above [OF assms(3)] by simp
  then have "unat ?va div 2 ^ (12 + (l + 1) * 9) = unat va div 2 ^ (12 + (l + 1) * 9)" by (simp only: unat_drop_div)
  moreover have "(2 :: nat) ^ (12 + (l + 1) * 9) = 2 ^ ?b * 512" by (simp add: power_add)
  ultimately have "Suc ?q div 512 = ?q div 512" by (simp only: div_mult2_eq d)
  then have "Suc ?q mod 512 = Suc (?q mod 512)" using div_Suc [of ?q 512] mod_Suc [of ?q 512] by (simp split: if_splits)
  then show ?thesis by (simp add: pageindex_mod d del: power_Suc)
qed

text \<open>The iterator stands at an entry of the walk to its address.\<close>

definition pti_on :: "memory \<Rightarrow> ptiter \<Rightarrow> bool" where
  "pti_on m it \<longleftrightarrow> pti_ok it \<and> page_aligned (pti_pt it) \<and> walk m (pti_pt it) (pti_va it) (3 - pti_level it) = Some (pti_pep it)"

lemma pti_on_right:
  assumes on: "pti_on m it" and "(((pti_va it OR pageoffmask (pti_level it)) + 1) XOR pti_va it) AND NOT (pageoffmask (pti_level it + 1)) = 0"
  shows "pti_on m (it\<lparr>pti_pep := pti_pep it + 8, pti_va := (pti_va it OR pageoffmask (pti_level it)) + 1\<rparr>)"
proof -
  let ?l = "pti_level it" and ?va = "(pti_va it OR pageoffmask (pti_level it)) + 1"
  have ok: "pti_ok it" and w: "walk m (pti_pt it) (pti_va it) (3 - ?l) = Some (pti_pep it)" using on by (simp_all add: pti_on_def)
  then have l: "1 \<le> ?l" "?l \<le> 3" "unat (pti_va it) < 2 ^ 48" by (simp_all add: pti_ok_def)
  have i: "pageindex ?va ?l = pageindex (pti_va it) ?l + 1" by (rule pageindex_next [OF l(2,3) assms(2)])
  have above: "pageindex ?va j = pageindex (pti_va it) j" if "?l < j" for j
    using pageindex_agree [OF _ that, of ?va "pti_va it"] assms(2) by simp
  have "walk m (pti_pt it) ?va (3 - ?l) = Some (pti_pep it + 8)"
  proof (cases "?l = 3")
    case True
    then show ?thesis using w i by (simp add: pt_entry_def algebra_simps)
  next
    case False
    define n where "n = 2 - ?l"
    have n: "3 - ?l = Suc n" "2 - n = ?l" "n < 3" using l False by (auto simp: n_def)
    have "same_prefix n (pti_va it) ?va" unfolding same_prefix_def using above n by auto
    then have "walk m (pti_pt it) ?va n = walk m (pti_pt it) (pti_va it) n" using walk_prefix by metis
    then show ?thesis using w i unfolding n(1) by (auto simp: n(2) pt_entry_def algebra_simps split: option.splits if_splits)
  qed
  then show ?thesis using on pti_step_right(2) [OF ok refl assms(2)] l by (simp add: pti_on_def pti_ok_def)
qed

lemma pti_on_deeper:
  assumes on: "pti_on m it" and "is_table (load64 m (pti_pep it))" and "1 < pti_level it"
  shows "pti_on m (it\<lparr>pti_level := pti_level it - 1,
    pti_pep := pt_entry (load64 m (pti_pep it) AND PTE_PAMASK) (pageindex (pti_va it) (pti_level it - 1))\<rparr>)"
proof -
  have "3 - (pti_level it - 1) = Suc (3 - pti_level it)" "2 - (3 - pti_level it) = pti_level it - 1"
    using on assms(3) by (auto simp: pti_on_def pti_ok_def)
  moreover have "1 \<le> pti_level it - 1" "pti_level it - 1 \<le> 3" using on assms(3) by (auto simp: pti_on_def pti_ok_def)
  ultimately show ?thesis using on assms(2) by (simp add: pti_on_def pti_ok_def)
qed

lemma pti_down_loop_on:
  assumes "pti_down_loop m stop skip it = Some it'"
  shows "pti_on m it \<longrightarrow> 1 \<le> stop \<longrightarrow> stop \<le> pti_level it \<longrightarrow> pti_active it' \<longrightarrow> pti_on m it' \<and> is_table (load64 m (pti_pep it'))"
proof (rule pti_down_loop.raw_induct [rotated, OF assms], intro impI)
  fix rec :: "memory \<Rightarrow> nat \<Rightarrow> bool \<Rightarrow> ptiter \<Rightarrow> ptiter option" and m :: memory and stop :: nat and skip and it it' :: ptiter
  let ?l = "pti_level it" and ?va = "(pti_va it OR pageoffmask (pti_level it)) + 1"
  let ?deep = "it\<lparr>pti_level := ?l - 1, pti_pep := pt_entry (load64 m (pti_pep it) AND PTE_PAMASK) (pageindex (pti_va it) (?l - 1))\<rparr>"
    and ?up = "it\<lparr>pti_level := 3, pti_pep := pt_entry (pti_pt it) (pageindex (pti_va it) 3)\<rparr>"
    and ?right = "it\<lparr>pti_pep := pti_pep it + 8, pti_va := ?va\<rparr>"
  assume IH: "\<And>m stop skip it it'. rec m stop skip it = Some it' \<Longrightarrow> pti_on m it \<longrightarrow> 1 \<le> stop \<longrightarrow> stop \<le> pti_level it \<longrightarrow>
      pti_active it' \<longrightarrow> pti_on m it' \<and> is_table (load64 m (pti_pep it'))"
    and step: "(if is_table (load64 m (pti_pep it)) \<and> \<not> skip then if ?l = stop then Some it else
        let level = ?l - 1 in rec m stop skip (it\<lparr>pti_level := level, pti_pep := pt_entry (load64 m (pti_pep it) AND PTE_PAMASK) (pageindex (pti_va it) level)\<rparr>)
      else let va = ?va in if (va XOR pti_va it) AND NOT (pageoffmask (?l + 1)) \<noteq> 0 then
          if ?l = 3 then Some (it\<lparr>pti_va := VA_NONCANONMAX + 1\<rparr>) else rec m (?l + 1) False ?up
        else rec m stop False (it\<lparr>pti_pep := pti_pep it + 8, pti_va := va\<rparr>)) = Some it'"
    and on: "pti_on m it" and stop: "1 \<le> stop" "stop \<le> ?l" and act: "pti_active it'"
  have l: "1 \<le> ?l" "?l \<le> 3" using on by (simp_all add: pti_on_def pti_ok_def)
  consider (found) "is_table (load64 m (pti_pep it))" "it' = it" | (deeper) "is_table (load64 m (pti_pep it))" "?l \<noteq> stop" "rec m stop skip ?deep = Some it'"
    | (over) "it' = it\<lparr>pti_va := VA_NONCANONMAX + 1\<rparr>" | (up) "?l \<noteq> 3" "rec m (?l + 1) False ?up = Some it'"
    | (right) "(?va XOR pti_va it) AND NOT (pageoffmask (?l + 1)) = 0" "rec m stop False ?right = Some it'"
    using step by (auto simp: Let_def split: if_splits)
  then show "pti_on m it' \<and> is_table (load64 m (pti_pep it'))"
  proof cases
    case found
    then show ?thesis using on by simp
  next
    case deeper
    then have "1 < ?l" "stop \<le> ?l - 1" using stop by auto
    then show ?thesis using IH [OF deeper(3)] pti_on_deeper [OF on deeper(1)] stop act by simp
  next
    case over
    then show ?thesis using act by (simp add: pti_active_def VA_NONCANONMAX_def)
  next
    case up
    have "pti_on m ?up" using on by (simp add: pti_on_def pti_ok_def)
    then show ?thesis using IH [OF up(2)] l up(1) act by simp
  next
    case right
    show ?thesis using IH [OF right(2)] pti_on_right [OF on right(1)] stop act by simp
  qed
qed

lemma pti_pa_table:
  assumes "pti_on m it" and "is_table (load64 m (pti_pep it))"
  shows "page_of (pti_pa m it) \<in> tables m (pti_pt it)"
proof -
  let ?n = "3 - pti_level it"
  have "walk m (pti_pt it) (pti_va it) (Suc ?n) = Some (pt_entry (pti_pa m it) (pageindex (pti_va it) (2 - ?n)))"
    using assms by (simp add: pti_on_def pti_pa_def)
  moreover have "Suc ?n \<le> 3" using assms(1) by (auto simp: pti_on_def pti_ok_def)
  ultimately have "page_of (pt_entry (pti_pa m it) (pageindex (pti_va it) (2 - ?n))) \<in> tables m (pti_pt it)" by (rule in_tables [rotated])
  then show ?thesis using page_of_entry [OF page_aligned_PAMASK pageindex_lt] by (simp add: pti_pa_def)
qed

lemma pti_pages_tables:
  assumes "pti_pages m it = Some pas"
  shows "(pti_active it \<longrightarrow> pti_on m it \<and> is_table (load64 m (pti_pep it))) \<longrightarrow> (\<forall>p \<in> set pas. page_of p \<in> tables m (pti_pt it))"
proof (rule pti_pages.raw_induct [rotated, OF assms], intro impI)
  fix rec m it pas
  assume IH: "\<And>m it pas. rec m it = Some pas \<Longrightarrow>
      (pti_active it \<longrightarrow> pti_on m it \<and> is_table (load64 m (pti_pep it))) \<longrightarrow> (\<forall>p \<in> set pas. page_of p \<in> tables m (pti_pt it))"
    and step: "(if pti_active it then case pti_next m it of None \<Rightarrow> None
           | Some it' \<Rightarrow> Option.bind (rec m it') (\<lambda>pas. Some (pti_pa m it # pas)) else Some []) = Some pas"
    and on: "pti_active it \<longrightarrow> pti_on m it \<and> is_table (load64 m (pti_pep it))"
  show "\<forall>p \<in> set pas. page_of p \<in> tables m (pti_pt it)"
  proof (cases "pti_active it")
    case True
    then have it: "pti_on m it" "is_table (load64 m (pti_pep it))" "pti_ok it" using on by (simp_all add: pti_on_def)
    from step True obtain it1 pas1 where n: "pti_next m it = Some it1" "rec m it1 = Some pas1" "pas = pti_pa m it # pas1"
      by (auto simp: bind_eq_Some_conv split: option.splits)
    have "pti_active it1 \<longrightarrow> pti_on m it1 \<and> is_table (load64 m (pti_pep it1))"
      using pti_down_loop_on [of m 1 True it it1] n(1) it by (auto simp: pti_next_def pti_down_def pti_ok_def)
    moreover have "pti_pt it1 = pti_pt it" using pti_next_after [OF it(3), of m] n(1) by (auto simp: pti_after_def)
    ultimately show ?thesis using IH [OF n(2)] pti_pa_table [OF it(1,2)] n(3) by simp
  qed (use step in simp)
qed

lemma table_pages_tables:
  assumes "page_aligned pt" and "table_pages m pt = Some pas"
  shows "\<forall>p \<in> set pas. page_of p \<in> tables m pt"
proof -
  obtain it where it: "new_ptiter m pt 0 = Some it" "pti_pt it = pt" using new_ptiter_after [of 0 m pt] by auto
  have "pti_on m \<lparr>pti_pt = pt, pti_pep = pt_entry pt (pageindex 0 3), pti_level = 3, pti_va = 0\<rparr>"
    using assms(1) by (simp add: pti_on_def pti_ok_def)
  then have "pti_active it \<longrightarrow> pti_on m it \<and> is_table (load64 m (pti_pep it))"
    using pti_down_loop_on [of m 1 False _ it] it(1) by (simp add: new_ptiter_def pti_down_def)
  then show ?thesis using pti_pages_tables [of m it pas] assms(2) it by (simp add: table_pages_def)
qed

section \<open>Permissions of a translation\<close>

lemma iter_lookup: "new_vmiter m pt va = Inr it \<Longrightarrow> lookup_va m pt va = Inr (vm_pa m it, vm_perms m it)"
  by (simp add: lookup_va_def)

lemma has_perm_perms: "vm_has_perm m it (PTE_P OR q) \<longleftrightarrow> vm_perms m it AND (PTE_P OR q) = PTE_P OR q"
proof (cases "vm_present m it")
  case True
  then show ?thesis by (simp add: vm_has_perm_def vm_perms_def vm_present_def Let_def and.assoc)
next
  case False
  then have z: "pe m (vm_pep it) AND PTE_P = 0" by (simp add: vm_present_def)
  have "\<not> vm_has_perm m it (PTE_P OR q)"
  proof
    assume "vm_has_perm m it (PTE_P OR q)"
    then have "(pe m (vm_pep it) AND vm_perm it AND (PTE_P OR q)) AND PTE_P = (PTE_P OR q) AND PTE_P" by (simp add: vm_has_perm_def)
    moreover have "(PTE_P OR q) AND PTE_P = PTE_P" by (simp add: bit.conj_disj_distrib2 and.commute)
    moreover have "(pe m (vm_pep it) AND vm_perm it AND (PTE_P OR q)) AND PTE_P = (pe m (vm_pep it) AND PTE_P) AND vm_perm it AND (PTE_P OR q)"
      by (simp only: ac_simps)
    ultimately show False using z by (simp add: PTE_P_def)
  qed
  moreover have "vm_perms m it = 0" using False by (simp add: vm_perms_def vm_present_def)
  moreover have "PTE_P OR q \<noteq> 0" by (metis and_zero_eq or.commute PTE_P_def word_bw_comms(1) bit.conj_disj_distrib2 and.idem or_eq_0_iff zero_neq_one)
  ultimately show ?thesis by simp
qed

section \<open>Giving pages back\<close>

definition gives_back :: "addr \<Rightarrow> nat set \<Rightarrow> pmem \<Rightarrow> pmem \<Rightarrow> bool" where
  "gives_back ke S k k' \<longleftrightarrow> phys k' = phys k \<and> (pmem_ok ke k \<longrightarrow> pmem_ok ke k') \<and> length (refcounts k') = length (refcounts k)
     \<and> (\<forall>i. i \<notin> S \<longrightarrow> refcounts k' ! i = refcounts k ! i)"

lemma gives_back_refl: "gives_back ke S k k"
  by (simp add: gives_back_def)

lemma gives_back_trans: "gives_back ke S k k1 \<Longrightarrow> gives_back ke S k1 k2 \<Longrightarrow> gives_back ke S k k2"
  by (simp add: gives_back_def)

lemma kfree_gives_back:
  assumes "page_aligned p" and "page_of p < length (refcounts k)" and "page_of p \<in> S"
  shows "ends (\<lambda>_. False) (gives_back ke S k) (kfree ke p k)"
proof (cases "kfree ke p k")
  case (Inl e)
  then show ?thesis using assms(2) by (auto simp: kfree_def at_def Let_def split: if_splits)
next
  case (Inr k')
  then have "pmem_ok ke k \<longrightarrow> pmem_ok ke k'" using pmem_ok_kfree assms(1) by (auto simp: page_aligned_unat)
  then show ?thesis using Inr assms(2,3) by (auto simp: kfree_def at_def Let_def gives_back_def nth_list_update split: if_splits)
qed

lemma kfree_all_gives_back:
  assumes "\<forall>p \<in> set ps. page_aligned p \<and> page_of p < length (refcounts k) \<and> page_of p \<in> S"
  shows "ends (\<lambda>_. False) (gives_back ke S k) (kfree_all ke ps k)"
  using assms
proof (induction ps arbitrary: k)
  case (Cons p ps)
  show ?case unfolding kfree_all.simps
  proof (rule ends_bindE [OF kfree_gives_back])
    fix k1
    assume g: "gives_back ke S k k1"
    then have "\<forall>p \<in> set ps. page_aligned p \<and> page_of p < length (refcounts k1) \<and> page_of p \<in> S"
      using Cons.prems by (simp add: gives_back_def)
    from Cons.IH [OF this] show "ends (\<lambda>_. False) (gives_back ke S k) (kfree_all ke ps k1)"
      by (rule ends_mono) (use gives_back_trans [OF g] in auto)
  qed (use Cons.prems in auto)
qed (simp add: gives_back_refl)

text \<open>The pages of an address space: its tables and what the program sees, apart from the console.\<close>

definition user_page :: "memory \<Rightarrow> addr \<Rightarrow> addr \<Rightarrow> addr \<Rightarrow> bool" where
  "user_page m pt va pa \<longleftrightarrow> \<not> va < PROC_START_ADDR \<and> va < MEMSIZE_VIRTUAL \<and> page_aligned va
     \<and> (\<exists>perm. lookup_va m pt va = Inr (pa, perm) \<and> perm AND (PTE_P OR PTE_U) = PTE_P OR PTE_U)"

definition own_pages :: "memory \<Rightarrow> addr \<Rightarrow> nat set" where
  "own_pages m pt = tables m pt \<union> {page_of pa | va pa. user_page m pt va pa}"

lemma vm_step:
  assumes "pt_ok ke k pt" and "new_vmiter (phys k) pt va = Inr it" and "va < MEMSIZE_VIRTUAL"
  obtains it' where "vm_add (phys k) 4096 it = Inr it'" "new_vmiter (phys k) pt (va + 4096) = Inr it'"
proof -
  have u: "unat va < 3145728" using assms(3) by (simp add: word_less_nat_alt MEMSIZE_VIRTUAL_def)
  then have "unat (va + 4096) = unat va + 4096" by (simp add: unat_word_ariths)
  then have "va_is_canonical (va + 4096)" using u by (simp add: va_is_canonical_def VA_LOWMAX_def word_le_nat_alt)
  then obtain it' where it': "new_vmiter (phys k) pt (va + 4096) = Inr it'" using vmiter_total [OF assms(1)] by blast
  have al: "page_aligned pt" using assms(1) by (simp add: pt_ok_def)
  have "vm_pt it = pt" "vm_va it = va" using new_vmiter_fields [OF assms(2)] by simp_all
  then have "vm_add (phys k) 4096 it = Inr it'"
    using real_find_walk [OF new_vmiter_valid [OF al assms(2)]] it' by (simp add: vm_add_def vm_find_def)
  then show thesis using that it' by blast
qed

lemma free_user_pages_own:
  assumes ok: "pt_ok ke k pt" and small: "\<And>i. i \<in> own_pages (phys k) pt \<Longrightarrow> i < NPAGES"
    and it: "new_vmiter (phys k) pt PROC_START_ADDR = Inr it" and ke: "ke = kernel_end l"
  shows "ends (\<lambda>_. False) (gives_back ke (own_pages (phys k) pt) k) (page_loop 512 MEMSIZE_VIRTUAL (free_user_page l) phys it k)"
proof -
  let ?S = "own_pages (phys k) pt"
  let ?at = "\<lambda>m it. m = phys k \<and> new_vmiter m pt (vm_va it) = Inr it"
  let ?inv = "\<lambda>va k1. page_aligned va \<and> \<not> va < PROC_START_ADDR \<and> gives_back ke ?S k k1"
  have len: "length (refcounts k) = 512" using ok by (simp add: pt_ok_def pmem_ok_iff)
  have "ends (\<lambda>_. False) (\<lambda>k'. \<exists>va. \<not> va < MEMSIZE_VIRTUAL \<and> ?inv va k') (page_loop 512 MEMSIZE_VIRTUAL (free_user_page l) phys it k)"
  proof (rule page_loop_inv [where at_it = ?at and moved = "\<lambda>m it. ?at m it \<and> vm_va it < MEMSIZE_VIRTUAL"])
    fix it :: vmiter and k1
    assume inv: "?inv (vm_va it) k1" and at: "?at (phys k1) it" and va: "vm_va it < MEMSIZE_VIRTUAL"
    have u: "unat (vm_va it + 4096) = unat (vm_va it) + 4096"
      using va by (simp add: word_less_nat_alt MEMSIZE_VIRTUAL_def unat_word_ariths)
    then have nx: "page_aligned (vm_va it + 4096)" "\<not> vm_va it + 4096 < PROC_START_ADDR"
      using inv by (simp_all add: page_aligned_unat word_less_nat_alt)
    have own: "page_aligned (vm_pa (phys k1) it) \<and> page_of (vm_pa (phys k1) it) \<in> ?S" if us: "vm_user (phys k1) it"
    proof
      show "page_aligned (vm_pa (phys k1) it)" using vm_pa_aligned [OF _ us] inv by blast
      have "vm_perms (phys k1) it AND (PTE_P OR PTE_U) = PTE_P OR PTE_U" using us has_perm_perms by (simp add: vm_user_def)
      then have "user_page (phys k) pt (vm_va it) (vm_pa (phys k1) it)"
        using inv va at iter_lookup [of "phys k1" pt "vm_va it" it] by (auto simp: user_page_def)
      then show "page_of (vm_pa (phys k1) it) \<in> ?S" by (auto simp: own_pages_def)
    qed
    have "ends (\<lambda>_. False) (\<lambda>(it', k2). gives_back ke ?S k k2 \<and> it' = it) (free_user_page l it k1)"
    proof (cases "vm_user (phys k1) it \<and> vm_va it \<noteq> CONSOLE_ADDR")
      case True
      have "ends (\<lambda>_. False) (gives_back ke ?S k1) (kfree (kernel_end l) (vm_pa (phys k1) it) k1)"
        unfolding ke [symmetric]
        by (rule kfree_gives_back) (use own True small inv len in \<open>auto simp: gives_back_def\<close>)
      then show ?thesis using True inv
        by (auto simp: free_user_page_def intro!: ends_bindE [of _ "gives_back ke ?S k1"] dest: gives_back_trans)
    qed (use inv in \<open>auto simp: free_user_page_def\<close>)
    then show "ends (\<lambda>_. False) (\<lambda>(it', k2). ?inv (vm_va it + 4096) k2 \<and> (?at (phys k2) it' \<and> vm_va it' < MEMSIZE_VIRTUAL) \<and> vm_va it' = vm_va it)
        (free_user_page l it k1)"
      by (rule ends_mono) (use nx at va inv in \<open>auto simp: gives_back_def\<close>)
  next
    fix m and it :: vmiter
    assume at: "?at m it \<and> vm_va it < MEMSIZE_VIRTUAL"
    then obtain it' where "vm_add (phys k) 4096 it = Inr it'" "new_vmiter (phys k) pt (vm_va it + 4096) = Inr it'"
      using vm_step [OF ok, of "vm_va it" it] by blast
    then show "ends (\<lambda>_. False) (\<lambda>it'. ?at m it' \<and> vm_va it' = vm_va it + 4096) (vm_add m 4096 it)"
      using at new_vmiter_fields [of "phys k" pt "vm_va it + 4096" it'] by simp
  qed (use it new_vmiter_fields [OF it] in \<open>simp_all add: gives_back_refl PROC_START_ADDR_def MEMSIZE_VIRTUAL_def page_aligned_def PAGEOFFMASK_def\<close>)
  then show ?thesis by (rule ends_mono) auto
qed

lemma exit_assist_own:
  assumes ok: "pt_ok (kernel_end l) (kmem st) (pagetable (ptable st ! p))"
    and small: "\<And>i. i \<in> own_pages (kphys st) (pagetable (ptable st ! p)) \<Longrightarrow> i < NPAGES"
  shows "\<exists>k. syscall_exit_assist l p st = Some (Inr (set_proc p (\<lambda>pr. pr\<lparr>state := P_FREE\<rparr>) (st\<lparr>kmem := k\<rparr>)))
    \<and> gives_back (kernel_end l) (own_pages (kphys st) (pagetable (ptable st ! p))) (kmem st) k"
proof -
  define ke pt S where "ke = kernel_end l" and "pt = pagetable (ptable st ! p)" and "S = own_pages (kphys st) pt"
  note ok = ok [folded ke_def pt_def] and small = small [folded pt_def S_def]
  have len: "length (refcounts (kmem st)) = 512" and al: "page_aligned pt" using ok by (simp_all add: pt_ok_def pmem_ok_iff)
  have can: "va_is_canonical PROC_START_ADDR" by (simp add: va_is_canonical_def PROC_START_ADDR_def VA_LOWMAX_def)
  obtain it where it: "new_vmiter (kphys st) pt PROC_START_ADDR = Inr it" using vmiter_total [OF ok can] .
  obtain k1 where k1: "page_loop 512 MEMSIZE_VIRTUAL (free_user_page l) phys it (kmem st) = Inr k1" "gives_back ke S (kmem st) k1"
    using free_user_pages_own [OF ok small [unfolded S_def] it ke_def] by (auto simp: ends_def S_def split: sum.splits)
  obtain pages where pages: "table_pages (phys k1) pt = Some pages" using table_pages_returns by blast
  have "\<forall>q \<in> set pages. page_aligned q \<and> page_of q < length (refcounts k1) \<and> page_of q \<in> S"
    using table_pages_tables [OF al pages] returns_tables [of "\<lambda>_. False" "phys k1" pt] pages k1(2) small len
    by (auto simp: S_def own_pages_def gives_back_def list_all_iff)
  then obtain k2 where k2: "kfree_all ke pages k1 = Inr k2" "gives_back ke S k1 k2"
    using kfree_all_gives_back [of pages k1 S ke] by (auto simp: ends_def split: sum.splits)
  have "page_of pt \<in> S" using in_tables [of 0 "kphys st" pt 0] page_of_entry [OF al pageindex_lt] by (simp add: S_def own_pages_def)
  then obtain k3 where k3: "kfree ke pt k2 = Inr k3" "gives_back ke S k2 k3"
    using kfree_gives_back [OF al, of k2 S ke] small len k1(2) k2(2) by (auto simp: ends_def gives_back_def split: sum.splits)
  have "gives_back ke S (kmem st) k3" using gives_back_trans k1(2) k2(2) k3(2) by metis
  then show ?thesis
    using it k1(1) pages k2(1) k3(1) by (auto simp: syscall_exit_assist_def Let_def ke_def pt_def S_def)
qed

text \<open>
  C9: a process that exits gives back its own pages only. When its page table is sound and what
  it maps for itself lies in physical memory, exit succeeds: the reference counts of pages that
  are neither part of its page table nor mapped for its program stay as they are, memory is not
  written, the allocator's invariant is kept, and the process is free.
\<close>

theorem exit_own_pages:
  assumes "procs_ok st" and "pt_ok (kernel_end l) (kmem st) (pagetable (cur st))"
    and "\<And>va pa. user_page (kphys st) (pagetable (cur st)) va pa \<Longrightarrow> page_of pa < NPAGES"
    and "\<And>i. i \<in> tables (kphys st) (pagetable (cur st)) \<Longrightarrow> i < NPAGES"
  shows "\<exists>k. syscall_exit l st = Some (Inr (st\<lparr>kmem := k, ptable := (ptable st)[current st := (cur st)\<lparr>state := P_FREE\<rparr>]\<rparr>))
    \<and> phys k = kphys st \<and> pmem_ok (kernel_end l) k
    \<and> (\<forall>i. i \<notin> own_pages (kphys st) (pagetable (cur st)) \<longrightarrow> refcounts k ! i = refcounts (kmem st) ! i)"
proof -
  have p: "pid (cur st) = int (current st)" "current st < length (ptable st)"
    using procs_ok_pid [OF assms(1)] procs_okD(1,2) [OF assms(1)] by simp_all
  have "i < NPAGES" if "i \<in> own_pages (kphys st) (pagetable (cur st))" for i using that assms(3,4) by (auto simp: own_pages_def)
  then obtain k where "syscall_exit_assist l (current st) st = Some (Inr (set_proc (current st) (\<lambda>pr. pr\<lparr>state := P_FREE\<rparr>) (st\<lparr>kmem := k\<rparr>)))"
    "gives_back (kernel_end l) (own_pages (kphys st) (pagetable (cur st))) (kmem st) k"
    using exit_assist_own [of l st "current st"] assms(2) unfolding cur_def by blast
  then show ?thesis using p assms(2) by (auto simp: syscall_exit_def set_proc_def cur_def gives_back_def pt_ok_def)
qed

lemma empty_table:
  assumes "\<forall>i < 512. load64 m (pt_entry pt i) = 0" and "page_aligned pt"
  shows "va_is_canonical va \<Longrightarrow> lookup_va m pt va = Inr (- 1, 0)" and "tables m pt = {page_of pt}" and "plain_table m pt"
proof -
  note w = walk_empty [OF assms(1)]
  have z: "load64 m (pt_entry pt (pageindex va 3)) = 0" for va using assms(1) pageindex_lt by blast
  have "stops m pt va 0 (pt_entry pt (pageindex va 3))" using z by (simp add: stops_def is_table_def PTE_P_def)
  from lookup_stops [OF this] z show "va_is_canonical va \<Longrightarrow> lookup_va m pt va = Inr (- 1, 0)" by (simp add: entry_result_def)
  have "page_of pt \<in> tables m pt" using in_tables [of 0 m pt 0] page_of_entry [OF assms(2) pageindex_lt] by simp
  moreover have "tables m pt \<subseteq> {page_of pt}" using page_of_entry [OF assms(2) pageindex_lt] by (auto simp: tables_def w split: if_splits)
  ultimately show "tables m pt = {page_of pt}" by blast
  show "plain_table m pt" using z by (simp add: plain_table_def w initial_perm_def table_flags_def PTE_P_def PTE_W_def PTE_U_def)
qed

lemma one_table_empty: "\<forall>i < 512. load64 (phys one_table) (pt_entry 0x1000 i) = 0"
  by (simp add: one_table_def boot_pmem_def load_zero)

lemma bare_process_ok: "procs_ok bare_process"
  by (simp add: bare_process_def one_process_def procs_ok_def ptable_ok_def cur_def set_proc_def init_ptable_def
    idle_kernel_def NPROC_def page_aligned_def PAGEOFFMASK_def upt_rec numeral_eq_Suc)

theorem exit_own_pages_witness:
  "\<exists>k. syscall_exit plain_layout bare_process =
    Some (Inr (bare_process\<lparr>kmem := k, ptable := (ptable bare_process)[current bare_process := (cur bare_process)\<lparr>state := P_FREE\<rparr>]\<rparr>))"
proof -
  have al: "page_aligned 0x1000" by (simp add: page_aligned_def PAGEOFFMASK_def)
  note e = empty_table [OF one_table_empty al]
  have "user_page (phys one_table) 0x1000 va pa \<Longrightarrow> page_of pa < NPAGES" for va pa
    using e(1) [OF user_canonical, of va] by (auto simp: user_page_def PTE_P_def PTE_U_def)
  moreover have "i \<in> tables (phys one_table) 0x1000 \<Longrightarrow> i < NPAGES" for i unfolding e(2) by (simp add: page_of_def)
  ultimately show ?thesis
    using exit_own_pages [OF bare_process_ok, of plain_layout] pt_ok_one_table unfolding bare_process_fields by blast
qed

end
