(* ===== verification/ForkCopy.thy ===== *)
theory ForkCopy
  imports Reclaim
begin

unbundle bit_operations_syntax

text \<open>
  What fork makes of the two address spaces. While the loop over the parent's pages runs, no page
  that was in use before is written; the part of the child's space that is done is a copy of the
  parent's, with a page of its own for every page the program can write, and the rest is empty.
\<close>

section \<open>The parent's mapping of a page\<close>

lemma parent_entry:
  assumes ok: "pt_ok ke k pt" and va: "va_is_canonical va" "page_aligned va" and it: "new_vmiter (phys k) pt va = Inr it"
  defines "pa \<equiv> vm_pa (phys k) it" and "perm \<equiv> vm_perms (phys k) it"
  shows "perm AND NOT PAGEOFFMASK = 0" and "vm_present (phys k) it \<longleftrightarrow> perm AND PTE_P \<noteq> 0"
    and "perm AND PTE_P = 0 \<Longrightarrow> pa = - 1 \<and> perm = 0" and "perm AND PTE_P \<noteq> 0 \<Longrightarrow> page_aligned pa"
    and "vm_writable (phys k) it \<longleftrightarrow> perm AND (PTE_P OR PTE_W) = PTE_P OR PTE_W"
    and "vm_user (phys k) it \<longleftrightarrow> perm AND (PTE_P OR PTE_U) = PTE_P OR PTE_U"
proof -
  obtain n a where n: "n \<le> 3" "walk (phys k) pt va n = Some a" and at: "it = at_walk (phys k) pt va n a"
    using vmiter_at_walk [OF ok va(1) it] .
  let ?e = "load64 (phys k) a" and ?w = "walk_perm (phys k) pt va n"
  have perm: "perm = (if ?e AND PTE_P \<noteq> 0 then ?e AND ?w else 0)" by (simp add: perm_def at at_walk_def vm_perms_def)
  have "(?e AND ?w) AND NOT PAGEOFFMASK = ?e AND (?w AND NOT PAGEOFFMASK)" by (simp only: and.assoc)
  then show "perm AND NOT PAGEOFFMASK = 0" using walk_perm_flags by (simp add: perm)
  have pr: "vm_present (phys k) it \<longleftrightarrow> ?e AND PTE_P \<noteq> 0" by (simp add: vm_present_def at at_walk_def)
  then show pp: "vm_present (phys k) it \<longleftrightarrow> perm AND PTE_P \<noteq> 0" using present_perm [OF n(2), of ?e] by (auto simp: perm)
  show "perm AND PTE_P = 0 \<Longrightarrow> pa = - 1 \<and> perm = 0" using pr pp by (simp add: perm pa_def vm_pa_def at at_walk_def)
  have "page_aligned ((if vm_level it > 0 then (?e AND PTE_PAMASK) AND NOT 0x1000 else ?e AND PTE_PAMASK) + (va AND pageoffmask (vm_level it)))"
    using page_aligned_PAMASK page_aligned_and va(2) by (intro page_aligned_plus) auto
  then show "perm AND PTE_P \<noteq> 0 \<Longrightarrow> page_aligned pa" using pr pp by (simp add: pa_def vm_pa_def at at_walk_def Let_def)
  show "vm_writable (phys k) it \<longleftrightarrow> perm AND (PTE_P OR PTE_W) = PTE_P OR PTE_W"
    "vm_user (phys k) it \<longleftrightarrow> perm AND (PTE_P OR PTE_U) = PTE_P OR PTE_U"
    by (simp_all only: perm_def vm_writable_def vm_user_def has_perm_perms)
qed

text \<open>A mapping the program may write, other than the console, and one that nobody may write.\<close>

definition is_private :: "addr \<Rightarrow> 64 word \<Rightarrow> bool" where
  "is_private va perm \<longleftrightarrow> perm AND table_flags = table_flags \<and> va \<noteq> CONSOLE_ADDR"

definition read_only :: "64 word \<Rightarrow> bool" where
  "read_only perm \<longleftrightarrow> perm AND PTE_P \<noteq> 0 \<and> perm AND (PTE_P OR PTE_W) \<noteq> PTE_P OR PTE_W"

abbreviation user_perm :: "64 word \<Rightarrow> bool" where
  "user_perm perm \<equiv> perm AND (PTE_P OR PTE_U) = PTE_P OR PTE_U"

lemma and_or_iff: "(x :: 64 word) AND (a OR b) = a OR b \<longleftrightarrow> x AND a = a \<and> x AND b = b"
proof
  have abs: "(a OR b) AND a = a" "(a OR b) AND b = b" by (simp_all add: bit.conj_disj_distrib2 and.commute)
  assume e: "x AND (a OR b) = a OR b"
  have "x AND a = (x AND (a OR b)) AND a" "x AND b = (x AND (a OR b)) AND b" using abs by (simp_all add: and.assoc)
  then show "x AND a = a \<and> x AND b = b" using abs by (simp add: e)
qed (simp add: bit.conj_disj_distrib)

lemma P_nonzero [simp]: "PTE_P \<noteq> 0"
  by (simp add: PTE_P_def)

lemma has_P: "perm AND PTE_P \<noteq> 0 \<longleftrightarrow> perm AND PTE_P = PTE_P"
  by (auto simp: PTE_P_def and_one_eq mod2_eq_if)

lemmas perm_bits = table_flags_def and_or_iff has_P

lemma perm_cases: "\<not> read_only perm \<Longrightarrow> perm AND table_flags = table_flags \<longleftrightarrow> user_perm perm"
  "read_only perm \<Longrightarrow> perm AND table_flags \<noteq> table_flags" "perm AND table_flags = table_flags \<Longrightarrow> perm AND PTE_P \<noteq> 0"
  by (auto simp: read_only_def perm_bits)

section \<open>Copies of mappings\<close>

text \<open>
  The child's mapping of a page that is done: memory of its own with the parent's content, or the
  parent's mapping, with the same permissions.
\<close>

definition copied :: "addr \<Rightarrow> pmem \<Rightarrow> addr \<Rightarrow> addr \<Rightarrow> pmem \<Rightarrow> addr \<Rightarrow> bool" where
  "copied ke k0 P C k va \<longleftrightarrow> (\<exists>pa perm pa' perm'. lookup_va (phys k0) P va = Inr (pa, perm) \<and> lookup_va (phys k) C va = Inr (pa', perm')
     \<and> perm' AND table_flags = perm AND table_flags
     \<and> (if is_private va perm
        then page_aligned pa' \<and> \<not> live ke k0 (page_of pa') \<and> live ke k (page_of pa') \<and> page_of pa' \<notin> tables (phys k) C
          \<and> (\<forall>i < PAGESIZE. phys k (pa' + of_nat i) = phys k0 (pa + of_nat i))
        else pa' = (if perm AND table_flags = table_flags then CONSOLE_ADDR else pa)))"

definition private_distinct :: "memory \<Rightarrow> addr \<Rightarrow> addr \<Rightarrow> bool" where
  "private_distinct m pt va \<longleftrightarrow> (\<forall>v1 v2 p1 p2 q1 q2. v1 < va \<longrightarrow> v2 < va \<longrightarrow> page_aligned v1 \<longrightarrow> page_aligned v2 \<longrightarrow>
     lookup_va m pt v1 = Inr (p1, q1) \<longrightarrow> lookup_va m pt v2 = Inr (p2, q2) \<longrightarrow> is_private v1 q1 \<longrightarrow> is_private v2 q2 \<longrightarrow>
     page_of p1 = page_of p2 \<longrightarrow> v1 = v2)"

definition child_inv :: "addr \<Rightarrow> pmem \<Rightarrow> addr \<Rightarrow> addr \<Rightarrow> addr \<Rightarrow> pmem \<Rightarrow> bool" where
  "child_inv ke k0 P C va k \<longleftrightarrow> touches ke {} k0 k \<and> pt_ok ke k C \<and> plain_table (phys k) C \<and> (\<forall>i \<in> tables (phys k) C. \<not> live ke k0 i)
     \<and> (\<forall>v. v < va \<longrightarrow> page_aligned v \<longrightarrow> copied ke k0 P C k v)
     \<and> (\<forall>v. va_is_canonical v \<longrightarrow> \<not> v < va \<longrightarrow> lookup_va (phys k) C v = Inr (- 1, 0))
     \<and> private_distinct (phys k) C va"

lemma child_invD:
  assumes "child_inv ke k0 P C va k"
  shows "touches ke {} k0 k" and "pt_ok ke k C" and "plain_table (phys k) C" and "i \<in> tables (phys k) C \<Longrightarrow> \<not> live ke k0 i"
    and "v < va \<Longrightarrow> page_aligned v \<Longrightarrow> copied ke k0 P C k v"
    and "va_is_canonical v \<Longrightarrow> \<not> v < va \<Longrightarrow> lookup_va (phys k) C v = Inr (- 1, 0)"
    and "private_distinct (phys k) C va"
  using assms unfolding child_inv_def by blast+

text \<open>Growing the child's table keeps what is done.\<close>

lemma own_page_kept:
  assumes g: "grows ke C k k'" and o: "page_aligned p" "live ke k (page_of p)" "page_of p \<notin> tables (phys k) C"
  shows "live ke k' (page_of p) \<and> page_of p \<notin> tables (phys k') C \<and> (\<forall>i < 4096. phys k' (p + of_nat i) = phys k (p + of_nat i))"
proof (intro conjI allI impI)
  show "live ke k' (page_of p)" using touches_live [OF growsD(1) [OF g] o(2)] .
  show "page_of p \<notin> tables (phys k') C" using growsD(2) [OF g] o(2,3) by blast
  fix i :: nat
  assume "i < 4096"
  then have "page_of (p + of_nat i) = page_of p" by (intro in_page [OF o(1)]) (simp add: unat_of_nat_small)
  then show "phys k' (p + of_nat i) = phys k (p + of_nat i)" using growsD(1) [OF g] o(2,3) by (simp add: touches_def)
qed

lemma copied_cong:
  assumes c: "copied ke k0 P C k v" and lk: "lookup_va (phys k') C v = lookup_va (phys k) C v"
    and own: "\<And>p. page_aligned p \<Longrightarrow> live ke k (page_of p) \<Longrightarrow> page_of p \<notin> tables (phys k) C \<Longrightarrow>
      live ke k' (page_of p) \<and> page_of p \<notin> tables (phys k') C \<and> (\<forall>i < 4096. phys k' (p + of_nat i) = phys k (p + of_nat i))"
  shows "copied ke k0 P C k' v"
proof -
  obtain pa perm pa' perm' where e: "lookup_va (phys k0) P v = Inr (pa, perm)" "lookup_va (phys k) C v = Inr (pa', perm')"
    "perm' AND table_flags = perm AND table_flags"
    "if is_private v perm
        then page_aligned pa' \<and> \<not> live ke k0 (page_of pa') \<and> live ke k (page_of pa') \<and> page_of pa' \<notin> tables (phys k) C
          \<and> (\<forall>i < PAGESIZE. phys k (pa' + of_nat i) = phys k0 (pa + of_nat i))
        else pa' = (if perm AND table_flags = table_flags then CONSOLE_ADDR else pa)"
    using c unfolding copied_def by blast
  show ?thesis unfolding copied_def
    by (rule exI [of _ pa], rule exI [of _ perm], rule exI [of _ pa'], rule exI [of _ perm']) (use e lk own in \<open>auto split: if_splits\<close>)
qed

lemma same_page_unat:
  "drop_bit 12 v = drop_bit 12 (va :: addr) \<longleftrightarrow> unat v div 4096 = unat va div 4096"
  unfolding word_unat_eq_iff unat_drop_div by simp

lemma next_page:
  assumes "va < MEMSIZE_VIRTUAL" and "page_aligned va"
  shows "unat (va + 4096) = unat va + 4096" and "page_aligned (va + 4096)"
    and "page_aligned v \<Longrightarrow> v < va + 4096 \<longleftrightarrow> v < va \<or> v = va"
    and "\<not> v < va + 4096 \<Longrightarrow> \<not> v < va \<and> drop_bit 12 v \<noteq> drop_bit 12 va"
    and "page_aligned v \<Longrightarrow> drop_bit 12 v = drop_bit 12 va \<longleftrightarrow> v = va"
proof -
  show u: "unat (va + 4096) = unat va + 4096"
    using assms(1) by (simp add: word_less_nat_alt MEMSIZE_VIRTUAL_def unat_word_ariths)
  obtain q where q: "unat va = 4096 * q" using assms(2) by (auto simp: page_aligned_unat elim: dvdE)
  show "page_aligned (va + 4096)" by (simp add: page_aligned_unat u q)
  show "\<not> v < va \<and> drop_bit 12 v \<noteq> drop_bit 12 va" if "\<not> v < va + 4096"
  proof -
    have "unat va + 4096 \<le> unat v" using that by (simp add: word_less_nat_alt u)
    then show ?thesis unfolding same_page_unat word_less_nat_alt q by auto
  qed
  assume "page_aligned v"
  then obtain r where r: "unat v = 4096 * r" by (auto simp: page_aligned_unat elim: dvdE)
  show "v < va + 4096 \<longleftrightarrow> v < va \<or> v = va" by (auto simp: word_less_nat_alt word_unat_eq_iff u q r)
  show "drop_bit 12 v = drop_bit 12 va \<longleftrightarrow> v = va" unfolding same_page_unat q r by (simp add: word_unat_eq_iff [of v va] q r)
qed

section \<open>One page\<close>

text \<open>Any change of free memory alone keeps the invariant.\<close>

lemma touch_grows:
  assumes "pt_ok ke k pt" and "touches ke {} k k'" and "\<And>i. live ke k i \<Longrightarrow> refcounts k' ! i = refcounts k ! i"
  shows "grows ke pt k k'"
proof -
  have F: "{} \<inter> tables (phys k) pt = {}" by simp
  show ?thesis
    using assms touches_pt(2) [OF assms(1,2) F] same_plain [OF assms(1,2) F] touches_walk [OF assms(1,2) F] touches_mono [OF assms(2)]
    by (simp add: grows_def)
qed

lemma child_inv_grows:
  assumes inv: "child_inv ke k0 P C va k" and g: "grows ke C k k'" and ok: "pt_ok ke k' C"
    and lk: "\<And>v. va_is_canonical v \<Longrightarrow> lookup_va (phys k') C v = lookup_va (phys k) C v" and va: "va < MEMSIZE_VIRTUAL"
  shows "child_inv ke k0 P C va k'"
proof -
  note i = child_invD [OF inv]
  have "touches ke {} k0 k'" by (rule touches_trans [OF i(1) growsD(1) [OF g]]) (use i(4) in blast)
  moreover have "\<forall>i \<in> tables (phys k') C. \<not> live ke k0 i" using growsD(2) [OF g] i(4) touches_live [OF i(1)] by blast
  moreover have low: "va_is_canonical v" if "v < va" for v using user_canonical [of v] that va by simp
  then have "v < va \<Longrightarrow> page_aligned v \<Longrightarrow> copied ke k0 P C k' v" for v using copied_cong [OF i(5) lk own_page_kept [OF g]] by blast
  moreover have "private_distinct (phys k') C va" using i(7) lk low unfolding private_distinct_def by metis
  ultimately show ?thesis using i(3,6) growsD(3) [OF g] ok lk unfolding child_inv_def by auto
qed

lemma child_inv_mapped:
  assumes inv: "child_inv ke k0 P C va k" and g: "grows ke C k k'" and ok: "pt_ok ke k' C"
    and va: "va < MEMSIZE_VIRTUAL" "page_aligned va"
    and lk: "\<And>v. va_is_canonical v \<Longrightarrow> drop_bit 12 v \<noteq> drop_bit 12 va \<Longrightarrow> lookup_va (phys k') C v = lookup_va (phys k) C v"
    and c: "copied ke k0 P C k' va"
    and fresh: "\<And>v p q p' q'. v < va \<Longrightarrow> page_aligned v \<Longrightarrow> lookup_va (phys k) C v = Inr (p, q) \<Longrightarrow> is_private v q \<Longrightarrow>
      lookup_va (phys k') C va = Inr (p', q') \<Longrightarrow> is_private va q' \<Longrightarrow> page_of p \<noteq> page_of p'"
  shows "child_inv ke k0 P C (va + 4096) k'"
proof -
  note i = child_invD [OF inv] and nx = next_page [OF va]
  have "touches ke {} k0 k'" by (rule touches_trans [OF i(1) growsD(1) [OF g]]) (use i(4) in blast)
  moreover have "\<forall>i \<in> tables (phys k') C. \<not> live ke k0 i" using growsD(2) [OF g] i(4) touches_live [OF i(1)] by blast
  moreover have old: "lookup_va (phys k') C v = lookup_va (phys k) C v" if "v < va" "page_aligned v" for v
    using lk [of v] user_canonical [of v] that va(1) nx(5) [of v] by fastforce
  then have "copied ke k0 P C k' v" if "v < va + 4096" "page_aligned v" for v
    using that copied_cong [OF i(5) old own_page_kept [OF g]] c nx(3) by blast
  moreover have "lookup_va (phys k') C v = Inr (- 1, 0)" if "va_is_canonical v" "\<not> v < va + 4096" for v
    using nx(4) [OF that(2)] lk i(6) that(1) by metis
  moreover have "private_distinct (phys k') C (va + 4096)"
    unfolding private_distinct_def
  proof (intro allI impI)
    fix v1 v2 p1 p2 q1 q2
    assume v: "v1 < va + 4096" "v2 < va + 4096" "page_aligned v1" "page_aligned v2"
      and l: "lookup_va (phys k') C v1 = Inr (p1, q1)" "lookup_va (phys k') C v2 = Inr (p2, q2)"
      and pr: "is_private v1 q1" "is_private v2 q2" and eq: "page_of p1 = page_of p2"
    consider "v1 < va" "v2 < va" | "v1 = va" "v2 = va" | "v1 < va" "v2 = va" | "v1 = va" "v2 < va" using v nx(3) by blast
    then show "v1 = v2"
    proof cases
      case 1
      then show ?thesis using i(7) old [of v1] old [of v2] v l pr eq unfolding private_distinct_def by metis
    next
      case 3
      then show ?thesis using fresh [of v1 p1 q1 p2 q2] old [of v1] v l pr eq by simp
    next
      case 4
      then show ?thesis using fresh [of v2 p2 q2 p1 q1] old [of v2] v l pr eq by simp
    qed simp
  qed
  ultimately show ?thesis using i(3) growsD(3) [OF g] ok unfolding child_inv_def by blast
qed

text \<open>
  What fork relies on: a sound page table, whose mappings lie in physical memory; pages the
  program can write and read-only pages are in use, and a read-only page is mapped once and can take another reference.
\<close>

definition forkable :: "addr \<Rightarrow> pmem \<Rightarrow> addr \<Rightarrow> bool" where
  "forkable ke k pt \<longleftrightarrow> pt_ok ke k pt
     \<and> (\<forall>va pa perm. va < MEMSIZE_VIRTUAL \<longrightarrow> page_aligned va \<longrightarrow> lookup_va (phys k) pt va = Inr (pa, perm) \<longrightarrow> perm AND PTE_P \<noteq> 0 \<longrightarrow>
          pa < MEMSIZE_PHYSICAL \<and> (is_private va perm \<longrightarrow> PAGESIZE \<le> unat pa)
          \<and> (is_private va perm \<or> read_only perm \<longrightarrow> live ke k (page_of pa)) \<and> (read_only perm \<longrightarrow> refcounts k ! page_of pa \<noteq> 255))
     \<and> (\<forall>v1 v2 p1 p2 q1 q2. v1 < MEMSIZE_VIRTUAL \<longrightarrow> v2 < MEMSIZE_VIRTUAL \<longrightarrow> page_aligned v1 \<longrightarrow> page_aligned v2 \<longrightarrow>
          lookup_va (phys k) pt v1 = Inr (p1, q1) \<longrightarrow> lookup_va (phys k) pt v2 = Inr (p2, q2) \<longrightarrow> read_only q1 \<longrightarrow> read_only q2 \<longrightarrow>
          page_of p1 = page_of p2 \<longrightarrow> v1 = v2)"

lemma forkableD:
  assumes "forkable ke k pt"
  shows "pt_ok ke k pt"
    and "va < MEMSIZE_VIRTUAL \<Longrightarrow> page_aligned va \<Longrightarrow> lookup_va (phys k) pt va = Inr (pa, perm) \<Longrightarrow> perm AND PTE_P \<noteq> 0 \<Longrightarrow> unat pa < 2 ^ 21"
    and "va < MEMSIZE_VIRTUAL \<Longrightarrow> page_aligned va \<Longrightarrow> lookup_va (phys k) pt va = Inr (pa, perm) \<Longrightarrow> is_private va perm \<Longrightarrow>
      4096 \<le> unat pa \<and> live ke k (page_of pa)"
    and "va < MEMSIZE_VIRTUAL \<Longrightarrow> page_aligned va \<Longrightarrow> lookup_va (phys k) pt va = Inr (pa, perm) \<Longrightarrow> read_only perm \<Longrightarrow>
      live ke k (page_of pa) \<and> refcounts k ! page_of pa \<noteq> 255"
    and "v1 < MEMSIZE_VIRTUAL \<Longrightarrow> v2 < MEMSIZE_VIRTUAL \<Longrightarrow> page_aligned v1 \<Longrightarrow> page_aligned v2 \<Longrightarrow>
      lookup_va (phys k) pt v1 = Inr (p1, q1) \<Longrightarrow> lookup_va (phys k) pt v2 = Inr (p2, q2) \<Longrightarrow> read_only q1 \<Longrightarrow> read_only q2 \<Longrightarrow>
      page_of p1 = page_of p2 \<Longrightarrow> v1 = v2"
proof -
  show "pt_ok ke k pt" using assms by (simp add: forkable_def)
  show "v1 < MEMSIZE_VIRTUAL \<Longrightarrow> v2 < MEMSIZE_VIRTUAL \<Longrightarrow> page_aligned v1 \<Longrightarrow> page_aligned v2 \<Longrightarrow>
      lookup_va (phys k) pt v1 = Inr (p1, q1) \<Longrightarrow> lookup_va (phys k) pt v2 = Inr (p2, q2) \<Longrightarrow> read_only q1 \<Longrightarrow> read_only q2 \<Longrightarrow>
      page_of p1 = page_of p2 \<Longrightarrow> v1 = v2" using assms unfolding forkable_def by blast
  assume v: "va < MEMSIZE_VIRTUAL" "page_aligned va" "lookup_va (phys k) pt va = Inr (pa, perm)"
  have all: "pa < MEMSIZE_PHYSICAL \<and> (is_private va perm \<longrightarrow> PAGESIZE \<le> unat pa)
          \<and> (is_private va perm \<or> read_only perm \<longrightarrow> live ke k (page_of pa)) \<and> (read_only perm \<longrightarrow> refcounts k ! page_of pa \<noteq> 255)"
    if "perm AND PTE_P \<noteq> 0" using assms v that unfolding forkable_def by blast
  then show "perm AND PTE_P \<noteq> 0 \<Longrightarrow> unat pa < 2 ^ 21" by (simp add: word_less_nat_alt MEMSIZE_PHYSICAL_def)
  show "is_private va perm \<Longrightarrow> 4096 \<le> unat pa \<and> live ke k (page_of pa)" using all perm_cases(3) [of perm] by (simp add: is_private_def)
  show "read_only perm \<Longrightarrow> live ke k (page_of pa) \<and> refcounts k ! page_of pa \<noteq> 255" using all by (simp add: read_only_def)
qed

lemma dead_page: "\<not> live ke k i \<Longrightarrow> i < NPAGES"
  by (simp add: live_def)

lemma small_page: "unat pa < 2 ^ 21 \<Longrightarrow> page_of pa < 512"
  by (simp add: page_of_def div_less_iff_less_mult)

lemma child_own_small:
  assumes inv: "child_inv ke k0 P C va k" and f: "forkable ke k0 P" and i: "i \<in> own_pages (phys k) C"
  shows "i < NPAGES"
proof -
  note ci = child_invD [OF inv]
  consider "i \<in> tables (phys k) C" | v pa where "i = page_of pa" "user_page (phys k) C v pa" using i by (auto simp: own_pages_def)
  then show ?thesis
  proof cases
    case 1
    then show ?thesis using ci(4) dead_page by blast
  next
    case 2
    then obtain perm where v: "v < MEMSIZE_VIRTUAL" "page_aligned v" "lookup_va (phys k) C v = Inr (pa, perm)" "user_perm perm"
      by (auto simp: user_page_def)
    have "v < va" by (rule ccontr) (use ci(6) [OF user_canonical [OF v(1)]] v(3,4) in \<open>simp add: PTE_P_def PTE_U_def\<close>)
    from ci(5) [OF this v(2)] v(3) obtain pa0 perm0 where e: "lookup_va (phys k0) P v = Inr (pa0, perm0)" "perm AND table_flags = perm0 AND table_flags"
      "if is_private v perm0 then \<not> live ke k0 (page_of pa) else pa = (if perm0 AND table_flags = table_flags then CONSOLE_ADDR else pa0)"
      by (auto simp: copied_def split: if_splits)
    have "perm AND table_flags AND PTE_P = perm0 AND table_flags AND PTE_P" using e(2) by (simp only: and.assoc [symmetric])
    moreover have "table_flags AND PTE_P = PTE_P" by (simp add: table_flags_def PTE_P_def PTE_W_def PTE_U_def)
    ultimately have "perm0 AND PTE_P \<noteq> 0" using v(4) by (simp add: perm_bits)
    then have "unat pa0 < 2 ^ 21" using forkableD(2) [OF f v(1,2) e(1)] by blast
    then show ?thesis using e(3) 2(1) dead_page [of ke k0 "page_of pa"] small_page [of pa0]
      by (auto simp: page_of_def CONSOLE_ADDR_def split: if_splits)
  qed
qed

text \<open>When fork gives up, nothing that was in use has been written.\<close>

definition kept :: "addr \<Rightarrow> pmem \<Rightarrow> pmem \<Rightarrow> bool" where
  "kept ke k0 k \<longleftrightarrow> pmem_ok ke k \<and> (\<forall>x. live ke k0 (page_of x) \<longrightarrow> phys k x = phys k0 x)"

abbreviation given_up :: "nat \<Rightarrow> kernel \<Rightarrow> pmem \<Rightarrow> kernel" where
  "given_up child st k \<equiv> set_proc child (\<lambda>pr. pr\<lparr>state := P_FREE\<rparr>) (st\<lparr>kmem := k\<rparr>)"

lemma fork_fails:
  assumes inv: "child_inv (kernel_end l) k0 P C va k" and f: "forkable (kernel_end l) k0 P" and C: "pagetable (ptable st ! child) = C"
    and extra: "\<And>p. extra = Some p \<Longrightarrow> page_aligned p \<and> page_of p < NPAGES"
  shows "\<exists>k'. bindR (syscall_exit_assist l child (st\<lparr>kmem := k\<rparr>)) (\<lambda>st.
       case extra of
         None \<Rightarrow> Some (Inr (False, st))
       | Some p \<Rightarrow> bindR (Some (kfree (kernel_end l) p (kmem st))) (\<lambda>k. Some (Inr (False, st\<lparr>kmem := k\<rparr>)))) = Some (Inr (False, given_up child st k'))
     \<and> kept (kernel_end l) k0 k'"
proof -
  note ci = child_invD [OF inv]
  obtain k1 where k1: "syscall_exit_assist l child (st\<lparr>kmem := k\<rparr>) = Some (Inr (given_up child st k1))"
    "gives_back (kernel_end l) (own_pages (phys k) C) k k1"
    using exit_assist_own [of l "st\<lparr>kmem := k\<rparr>" child] ci(2) child_own_small [OF inv f] C by auto
  have pm: "pmem_ok (kernel_end l) k" using ci(2) by (simp add: pt_ok_def)
  then have kept1: "kept (kernel_end l) k0 k1" using k1(2) ci(1) by (simp add: kept_def gives_back_def touches_def)
  show ?thesis
  proof (cases extra)
    case None
    then show ?thesis using k1(1) kept1 by auto
  next
    case (Some p)
    have len: "length (refcounts k1) = 512" using pm k1(2) by (simp add: gives_back_def pmem_ok_iff)
    obtain k2 where k2: "kfree (kernel_end l) p k1 = Inr k2" "gives_back (kernel_end l) UNIV k1 k2"
      using kfree_gives_back [of p k1 UNIV "kernel_end l"] extra [OF Some] len by (auto simp: ends_def split: sum.splits)
    have "kept (kernel_end l) k0 k2" using k2(2) kept1 by (simp add: kept_def gives_back_def)
    then show ?thesis using Some k1(1) k2(1) by (auto simp: set_proc_kmem)
  qed
qed

text \<open>Mapping the next page in the child.\<close>

definition copy_target :: "addr \<Rightarrow> pmem \<Rightarrow> addr \<Rightarrow> pmem \<Rightarrow> addr \<Rightarrow> 64 word \<Rightarrow> 64 word \<Rightarrow> 64 word \<Rightarrow> bool" where
  "copy_target ke k0 C k va pa perm pa' \<longleftrightarrow>
     (if is_private va perm
      then page_aligned pa' \<and> \<not> live ke k0 (page_of pa') \<and> live ke k (page_of pa') \<and> page_of pa' \<notin> tables (phys k) C
        \<and> (\<forall>i < PAGESIZE. phys k (pa' + of_nat i) = phys k0 (pa + of_nat i))
        \<and> (\<forall>v p q. v < va \<longrightarrow> page_aligned v \<longrightarrow> lookup_va (phys k) C v = Inr (p, q) \<longrightarrow> is_private v q \<longrightarrow> page_of p \<noteq> page_of pa')
      else pa' = (if perm AND table_flags = table_flags then CONSOLE_ADDR else pa))"

lemma copied_new:
  assumes t: "copy_target ke k0 C k va pa perm pa'" and g: "grows ke C k k'" and p: "lookup_va (phys k0) P va = Inr (pa, perm)"
    and c: "lookup_va (phys k') C va = Inr (pa', perm')" "perm' AND table_flags = perm AND table_flags"
  shows "copied ke k0 P C k' va"
  unfolding copied_def
  by (rule exI [of _ pa], rule exI [of _ perm], rule exI [of _ pa'], rule exI [of _ perm'])
    (use t own_page_kept [OF g] p c in \<open>auto simp: copy_target_def split: if_splits\<close>)

lemma private_cong: "q AND table_flags = perm AND table_flags \<Longrightarrow> is_private va q = is_private va perm"
  by (simp add: is_private_def)

lemma copied_live:
  assumes "copied ke k0 P C k v" and "lookup_va (phys k) C v = Inr (p, q)" and "is_private v q"
  shows "live ke k (page_of p)"
proof -
  obtain pa perm pa' perm' where e: "lookup_va (phys k) C v = Inr (pa', perm')" "perm' AND table_flags = perm AND table_flags"
    "is_private v perm \<longrightarrow> live ke k (page_of pa')"
    using assms(1) unfolding copied_def by meson
  then show ?thesis using private_cong [OF e(2), of v] assms(2,3) by simp
qed

lemma child_maps:
  assumes inv: "child_inv ke k0 P C va k" and va: "va < MEMSIZE_VIRTUAL" "page_aligned va"
    and p: "lookup_va (phys k0) P va = Inr (pa, perm)" and it: "new_vmiter (phys k) C va = Inr it"
    and t: "copy_target ke k0 C k va pa perm pa'"
    and perm: "perm AND PTE_P \<noteq> 0 \<and> perm AND NOT PAGEOFFMASK = 0 \<and> page_aligned pa' \<and> unat pa' < 2 ^ 32 \<or> pa' = - 1 \<and> pa = - 1 \<and> perm = 0"
  obtains r it' k' where "vm_try_map ke pa' perm it k = Inr (r, it', k')" "r = 0 \<or> r = - 1" "grows ke C k k'"
    "child_inv ke k0 P C (if r = 0 then va + 4096 else va) k'"
proof -
  note ci = child_invD [OF inv]
  have can: "va_is_canonical va" using user_canonical [OF va(1)] .
  have un: "lookup_va (phys k) C va = Inr (- 1, 0)" using ci(6) [OF can] by simp
  show thesis
  proof (cases "perm = 0")
    case True
    then have pa': "pa' = - 1" "pa = - 1" using perm by auto
    obtain it' k' where m: "vm_try_map ke (- 1) 0 it k = Inr (0, it', k')" "pt_ok ke k' C" "grows ke C k k'"
      "\<And>v. va_is_canonical v \<Longrightarrow> lookup_va (phys k') C v = lookup_va (phys k) C v"
      by (rule unmap_in_space [OF ci(2) can va(2) it un]) blast
    have c: "copied ke k0 P C k' va" by (rule copied_new [OF t m(3) p, of 0]) (use m(4) [OF can] un pa' True in simp_all)
    have "child_inv ke k0 P C (va + 4096) k'"
      by (rule child_inv_mapped [OF inv m(3,2) va _ c]) (use m(4) [OF can] un m(4) in \<open>auto simp: is_private_def table_flags_def PTE_P_def PTE_W_def PTE_U_def\<close>)
    then show thesis using that [of 0 it' k'] m pa' True by simp
  next
    case False
    then have pm: "perm AND PTE_P \<noteq> 0" "perm AND NOT PAGEOFFMASK = 0" "page_aligned pa'" "unat pa' < 2 ^ 32" using perm by auto
    obtain r it' k' w where m: "vm_try_map ke pa' perm it k = Inr (r, it', k')" "pt_ok ke k' C" "grows ke C k k'"
      and r: "r = 0 \<or> r = - 1 \<and> (\<forall>i < NPAGES. \<not> free_page ke k' i)" and w: "w AND table_flags = table_flags"
      and lk: "\<And>v. va_is_canonical v \<Longrightarrow> lookup_va (phys k') C v =
        (if r = 0 \<and> drop_bit 12 v = drop_bit 12 va then Inr (pa' + (v AND PAGEOFFMASK), perm AND w) else lookup_va (phys k) C v)"
      by (rule map_in_space [OF ci(2,3) can va(2) it pm(3,4,2,1)]) blast
    show thesis
    proof (cases "r = 0")
      case True
      have l: "lookup_va (phys k') C va = Inr (pa', perm AND w)" using lk [OF can] True va(2) by (simp add: page_aligned_def)
      have q: "(perm AND w) AND table_flags = perm AND table_flags" using w by (simp add: and.assoc)
      have c: "copied ke k0 P C k' va" by (rule copied_new [OF t m(3) p l q])
      have "child_inv ke k0 P C (va + 4096) k'"
        by (rule child_inv_mapped [OF inv m(3,2) va _ c])
          (use lk l t private_cong [OF q] in \<open>auto simp: copy_target_def\<close>)
      then show thesis using that [OF m(1) _ m(3)] True by simp
    next
      case False
      have "child_inv ke k0 P C va k'" by (rule child_inv_grows [OF inv m(3,2) _ va(1)]) (use lk False in simp)
      then show thesis using that [OF m(1) _ m(3)] r False by simp
    qed
  qed
qed

lemma fork_map_copies:
  assumes inv: "child_inv (kernel_end l) k0 P C va (kmem st)" and f: "forkable (kernel_end l) k0 P" and va: "va < MEMSIZE_VIRTUAL" "page_aligned va"
    and C: "pagetable (ptable st ! child) = C" and extra: "\<And>p. extra = Some p \<Longrightarrow> page_aligned p \<and> page_of p < NPAGES"
    and p: "lookup_va (phys k0) P va = Inr (pa, perm)" and t: "copy_target (kernel_end l) k0 C (kmem st) va pa perm pa'"
    and perm: "perm AND PTE_P \<noteq> 0 \<and> perm AND NOT PAGEOFFMASK = 0 \<and> page_aligned pa' \<and> unat pa' < 2 ^ 32 \<or> pa' = - 1 \<and> pa = - 1 \<and> perm = 0"
  shows "(\<exists>k'. fork_map l child va pa' perm extra st = Some (Inr (True, st\<lparr>kmem := k'\<rparr>)) \<and> child_inv (kernel_end l) k0 P C (va + 4096) k'
      \<and> grows (kernel_end l) C (kmem st) k')
    \<or> (\<exists>k'. fork_map l child va pa' perm extra st = Some (Inr (False, given_up child st k')) \<and> kept (kernel_end l) k0 k')"
proof -
  obtain it where it: "new_vmiter (kphys st) C va = Inr it" using vmiter_total [OF child_invD(2) [OF inv] user_canonical [OF va(1)]] .
  obtain r it' k' where m: "vm_try_map (kernel_end l) pa' perm it (kmem st) = Inr (r, it', k')" "r = 0 \<or> r = - 1"
    "grows (kernel_end l) C (kmem st) k'" "child_inv (kernel_end l) k0 P C (if r = 0 then va + 4096 else va) k'"
    using child_maps [OF inv va p it t perm] .
  show ?thesis
  proof (cases "r = 0")
    case True
    then show ?thesis using m it C by (auto simp: fork_map_def)
  next
    case False
    then have r: "r = - 1" "child_inv (kernel_end l) k0 P C va k'" using m by auto
    show ?thesis using fork_fails [OF r(2) f C extra] m(1) it C r(1) by (simp add: fork_map_def)
  qed
qed

section \<open>References to shared pages\<close>

definition shares :: "memory \<Rightarrow> addr \<Rightarrow> addr \<Rightarrow> nat \<Rightarrow> bool" where
  "shares m pt va i \<longleftrightarrow> (\<exists>v pa perm. v < va \<and> page_aligned v \<and> lookup_va m pt v = Inr (pa, perm) \<and> read_only perm \<and> page_of pa = i)"

definition count_inv :: "addr \<Rightarrow> pmem \<Rightarrow> addr \<Rightarrow> addr \<Rightarrow> pmem \<Rightarrow> bool" where
  "count_inv ke k0 P va k \<longleftrightarrow>
     (\<forall>i. live ke k0 i \<longrightarrow> refcounts k ! i = refcounts k0 ! i + (if shares (phys k0) P va i then 1 else 0))"

lemma shares_next:
  assumes "va < MEMSIZE_VIRTUAL" and "page_aligned va" and "lookup_va m pt va = Inr (pa, perm)"
  shows "shares m pt (va + 4096) i \<longleftrightarrow> shares m pt va i \<or> read_only perm \<and> page_of pa = i"
  using next_page(3) [OF assms(1,2)] assms(2,3) unfolding shares_def by (metis Inr_inject prod.inject)

lemma count_inv_grows:
  assumes "count_inv ke k0 P va k" and "touches ke {} k0 k" and "grows ke C k k'"
  shows "count_inv ke k0 P va k'"
  using assms(1) growsD(4) [OF assms(3)] touches_live [OF assms(2)] by (simp add: count_inv_def)

lemma count_inv_next:
  assumes "count_inv ke k0 P va k" and "va < MEMSIZE_VIRTUAL" "page_aligned va" "lookup_va (phys k0) P va = Inr (pa, perm)" and "\<not> read_only perm"
  shows "count_inv ke k0 P (va + 4096) k"
  using assms(1,5) shares_next [OF assms(2-4)] by (simp add: count_inv_def)

text \<open>One more reference to a page keeps it in use, unless the counter overflows.\<close>

lemma add_reference_keeps:
  assumes inv: "child_inv ke k0 P C va k" and i: "i < 512" "refcounts k ! i + 1 \<noteq> 0"
  shows "child_inv ke k0 P C va (k\<lparr>refcounts := (refcounts k)[i := refcounts k ! i + 1]\<rparr>)"
proof -
  let ?k = "k\<lparr>refcounts := (refcounts k)[i := refcounts k ! i + 1]\<rparr>"
  note ci = child_invD [OF inv]
  have pm: "pmem_ok ke k" using ci(2) by (simp add: pt_ok_def)
  have free: "free_page ke ?k j \<Longrightarrow> free_page ke k j" for j
    using i pm by (cases "j = i") (auto simp: free_page_def used_def pmem_ok_iff)
  then have lv: "live ke k j \<Longrightarrow> live ke ?k j" for j by (auto simp: live_def)
  have "pmem_ok ke ?k" using pm free by (simp add: pmem_ok_iff)
  then have t: "touches ke {} k ?k" using lv by (simp add: touches_def)
  have "touches ke {} k0 ?k" by (rule touches_trans [OF ci(1) t]) simp
  moreover have "pt_ok ke ?k C" using touches_pt(1) [OF ci(2) t] by simp
  moreover have "copied ke k0 P C k v \<Longrightarrow> copied ke k0 P C ?k v" for v by (erule copied_cong) (auto intro: lv)
  ultimately show ?thesis using inv unfolding child_inv_def by auto
qed

section \<open>A page of the parent\<close>

definition walks_kept :: "addr \<Rightarrow> memory \<Rightarrow> memory \<Rightarrow> bool" where
  "walks_kept pt m m' \<longleftrightarrow> (\<forall>v n a. n \<le> 3 \<longrightarrow> walk m pt v n = Some a \<longrightarrow> walk m' pt v n = Some a \<and> walk_perm m' pt v n = walk_perm m pt v n)"

lemma grows_walks: "grows ke pt k k' \<Longrightarrow> walks_kept pt (phys k) (phys k')"
  by (simp add: grows_def walks_kept_def)

definition page_done :: "addr \<Rightarrow> pmem \<Rightarrow> addr \<Rightarrow> addr \<Rightarrow> addr \<Rightarrow> nat \<Rightarrow> kernel \<Rightarrow> (bool \<times> kernel) run \<Rightarrow> bool" where
  "page_done ke k0 P C va child st r \<longleftrightarrow>
     (\<exists>k'. r = Some (Inr (True, st\<lparr>kmem := k'\<rparr>)) \<and> child_inv ke k0 P C (va + 4096) k' \<and> count_inv ke k0 P (va + 4096) k'
        \<and> walks_kept C (kphys st) (phys k'))
     \<or> (\<exists>k'. r = Some (Inr (False, given_up child st k')) \<and> kept ke k0 k')"

lemma fork_shared_page:
  assumes inv: "child_inv (kernel_end l) k0 P C va (kmem st)" and cnt: "count_inv (kernel_end l) k0 P va (kmem st)"
    and f: "forkable (kernel_end l) k0 P" and va: "va < MEMSIZE_VIRTUAL" "page_aligned va" and C: "pagetable (ptable st ! child) = C"
    and p: "lookup_va (phys k0) P va = Inr (pa, perm)" and t: "copy_target (kernel_end l) k0 C (kmem st) va pa perm pa'"
    and perm: "perm AND PTE_P \<noteq> 0 \<and> perm AND NOT PAGEOFFMASK = 0 \<and> page_aligned pa' \<and> unat pa' < 2 ^ 32 \<or> pa' = - 1 \<and> pa = - 1 \<and> perm = 0"
    and ro: "\<not> read_only perm"
  shows "page_done (kernel_end l) k0 P C va child st (fork_map l child va pa' perm None st)"
proof -
  have "(\<exists>k'. fork_map l child va pa' perm None st = Some (Inr (True, st\<lparr>kmem := k'\<rparr>)) \<and> child_inv (kernel_end l) k0 P C (va + 4096) k'
      \<and> grows (kernel_end l) C (kmem st) k')
    \<or> (\<exists>k'. fork_map l child va pa' perm None st = Some (Inr (False, given_up child st k')) \<and> kept (kernel_end l) k0 k')"
    by (rule fork_map_copies [OF inv f va C _ p t perm]) simp
  then show ?thesis
  proof (elim disjE exE conjE)
  fix k'
  assume k': "child_inv (kernel_end l) k0 P C (va + 4096) k'" "grows (kernel_end l) C (kmem st) k'"
    and r: "fork_map l child va pa' perm None st = Some (Inr (True, st\<lparr>kmem := k'\<rparr>))"
  have "count_inv (kernel_end l) k0 P (va + 4096) k'"
    by (rule count_inv_next [OF count_inv_grows [OF cnt child_invD(1) [OF inv] k'(2)] va p ro])
  then show ?thesis using k' r grows_walks unfolding page_done_def by blast
  qed (auto simp: page_done_def)
qed

lemma fork_private_page:
  assumes inv: "child_inv (kernel_end l) k0 P C va (kmem st)" and cnt: "count_inv (kernel_end l) k0 P va (kmem st)"
    and f: "forkable (kernel_end l) k0 P" and va: "va < MEMSIZE_VIRTUAL" "page_aligned va" and C: "pagetable (ptable st ! child) = C"
    and p: "lookup_va (phys k0) P va = Inr (pa, perm)" and pr: "is_private va perm" "perm AND NOT PAGEOFFMASK = 0" "page_aligned pa"
    and ka: "kalloc (kernel_end l) 4096 (kmem st) = (k1, q)" "q \<noteq> 0"
  shows "page_done (kernel_end l) k0 P C va child st
    (fork_map l child va q perm (Some q) (st\<lparr>kmem := k1\<lparr>phys := memcpy (phys k1) q pa 4096\<rparr>\<rparr>))"
proof -
  let ?ke = "kernel_end l" and ?k = "kmem st"
  define k2 where "k2 = k1\<lparr>phys := memcpy (phys k1) q pa 4096\<rparr>"
  note ci = child_invD [OF inv]
  have pm: "pmem_ok ?ke ?k" using ci(2) by (simp add: pt_ok_def)
  note kp = kalloc_page [OF pm ka]
  have pa: "4096 \<le> unat pa" "live ?ke k0 (page_of pa)" "unat pa < 2 ^ 21"
    using forkableD(2,3) [OF f va p] pr(1) perm_cases(3) [of perm] by (auto simp: is_private_def)
  have dead: "\<not> live ?ke ?k (page_of q)" using kp(3,4) by (simp add: live_def)
  then have apart: "page_of pa \<noteq> page_of q" using touches_live [OF ci(1) pa(2)] by auto
  have cpy: "memcpy (phys k1) q pa 4096 = write_bytes (phys k1) q (read_bytes (phys k1) pa 4096)"
  proof (rule memcpy_eq)
    obtain a b where "unat pa = 4096 * a" "unat q = 4096 * b" using pr(3) kp(1) by (auto simp: page_aligned_unat elim!: dvdE)
    then show "unat q \<le> unat pa \<or> unat pa + 4096 \<le> unat q" by (cases "b \<le> a") auto
  qed (use pa(3) kp(2) in simp_all)
  have other: "memcpy (phys k1) q pa 4096 x = phys k1 x" if "page_of x \<noteq> page_of q" for x
    using in_page [OF kp(1), of x] that by (auto simp: cpy write_bytes_def)
  have t: "touches ?ke {} ?k k2" "live ?ke k2 (page_of q)"
    unfolding k2_def using kalloc_touches [OF pm ka, of "memcpy (phys k1) q pa 4096"] other by blast+
  have cnts: "refcounts k2 ! i = refcounts ?k ! i" if "live ?ke ?k i" for i using kalloc_counts [OF pm ka(1) that] by (simp add: k2_def)
  note g = touch_grows [OF ci(2) t(1) cnts]
  have F: "{} \<inter> tables (kphys st) C = {}" by simp
  note tp = touches_pt [OF ci(2) t(1) F]
  have inv2: "child_inv ?ke k0 P C va k2" by (rule child_inv_grows [OF inv g tp(1) tp(3) va(1)])
  have cont: "phys k2 (q + of_nat i) = phys k0 (pa + of_nat i)" if i: "i < 4096" for i
  proof -
    have pg: "page_of (pa + of_nat i) = page_of pa" by (rule in_page [OF pr(3)]) (use i in \<open>simp add: unat_of_nat_small\<close>)
    have "phys k2 (q + of_nat i) = phys k1 (pa + of_nat i)" using i by (simp add: k2_def cpy write_bytes_def read_bytes_def unat_of_nat_small)
    also have "\<dots> = phys k2 (pa + of_nat i)" using other [of "pa + of_nat i"] pg apart by (simp add: k2_def)
    also have "\<dots> = phys k0 (pa + of_nat i)" using child_invD(1) [OF inv2] pa(2) pg by (simp add: touches_def)
    finally show ?thesis .
  qed
  have new: "page_of p' \<noteq> page_of q" if v: "v < va" "page_aligned v" "lookup_va (phys k2) C v = Inr (p', q')" "is_private v q'" for v p' q'
  proof -
    have "lookup_va (phys k2) C v = lookup_va (kphys st) C v" using tp(3) user_canonical [of v] v(1) va(1) by auto
    then have "live ?ke ?k (page_of p')" using copied_live [OF ci(5) [OF v(1,2)]] v(3,4) by metis
    then show ?thesis using dead by metis
  qed
  have "page_of q \<notin> tables (phys k2) C" using tp(2) pt_ok_live [OF ci(2)] dead by blast
  then have tg: "copy_target ?ke k0 C k2 va pa perm q"
    using pr(1) kp(1) dead touches_live [OF ci(1)] t(2) cont new unfolding copy_target_def by auto
  have pq: "perm AND PTE_P \<noteq> 0 \<and> perm AND NOT PAGEOFFMASK = 0 \<and> page_aligned q \<and> unat q < 2 ^ 32 \<or> q = - 1 \<and> pa = - 1 \<and> perm = 0"
    using pr(1,2) perm_cases(3) [of perm] kp(1,2) by (simp add: is_private_def)
  have cnt2: "count_inv ?ke k0 P va k2" by (rule count_inv_grows [OF cnt ci(1) g])
  have ro: "\<not> read_only perm" using pr(1) perm_cases(2) by (auto simp: is_private_def)
  have "(\<exists>k'. fork_map l child va q perm (Some q) (st\<lparr>kmem := k2\<rparr>) = Some (Inr (True, st\<lparr>kmem := k'\<rparr>)) \<and> child_inv ?ke k0 P C (va + 4096) k'
      \<and> grows ?ke C k2 k')
    \<or> (\<exists>k'. fork_map l child va q perm (Some q) (st\<lparr>kmem := k2\<rparr>) = Some (Inr (False, given_up child st k')) \<and> kept ?ke k0 k')"
    using fork_map_copies [of l k0 P C va "st\<lparr>kmem := k2\<rparr>" child "Some q" pa perm q] inv2 f va C p tg pq kp(1,3) by simp
  then show ?thesis
  proof (elim disjE exE conjE)
    fix k'
    assume k': "child_inv ?ke k0 P C (va + 4096) k'" "grows ?ke C k2 k'"
      and r: "fork_map l child va q perm (Some q) (st\<lparr>kmem := k2\<rparr>) = Some (Inr (True, st\<lparr>kmem := k'\<rparr>))"
    have "count_inv ?ke k0 P (va + 4096) k'"
      by (rule count_inv_next [OF count_inv_grows [OF cnt2 child_invD(1) [OF inv2] k'(2)] va p ro])
    moreover have "walks_kept C (kphys st) (phys k')" using grows_walks [OF grows_trans [OF g k'(2)]] .
    ultimately show ?thesis using k'(1) r unfolding page_done_def k2_def by blast
  qed (auto simp: page_done_def k2_def)
qed

end
