(* ===== verification/ForkIsolation.thy ===== *)
theory ForkIsolation
  imports ForkCopy
begin

unbundle bit_operations_syntax

text \<open>
  Fork as a whole: the loop over the parent's pages with its two iterators, and the isolation of
  parent, child and all other address spaces.
\<close>

section \<open>Every page\<close>

lemma parent_kept:
  assumes inv: "child_inv ke k0 P C va k" and f: "forkable ke k0 P" and v: "va_is_canonical v"
  shows "lookup_va (phys k) P v = lookup_va (phys k0) P v" and "new_vmiter (phys k) P v = new_vmiter (phys k0) P v" and "pt_ok ke k P"
  using touches_pt [OF forkableD(1) [OF f] child_invD(1) [OF inv]] v by simp_all

lemma fork_read_only_page:
  assumes inv: "child_inv (kernel_end l) k0 P C va (kmem st)" and cnt: "count_inv (kernel_end l) k0 P va (kmem st)"
    and f: "forkable (kernel_end l) k0 P" and va: "va < MEMSIZE_VIRTUAL" "page_aligned va" and C: "pagetable (ptable st ! child) = C"
    and it: "new_vmiter (phys k0) P va = Inr it"
    and p: "lookup_va (phys k0) P va = Inr (pa, perm)" and ro: "read_only perm" "perm AND NOT PAGEOFFMASK = 0" "page_aligned pa"
  shows "page_done (kernel_end l) k0 P C va child st
    (bindR (fork_map l child va pa perm None st) (\<lambda>(ok, st).
        if ok then bindR (Some (add_reference (vm_pa (kphys st) it) st)) (\<lambda>st. Some (Inr (True, st)))
        else Some (Inr (False, st))))"
proof -
  let ?ke = "kernel_end l"
  have can: "va_is_canonical va" using user_canonical [OF va(1)] .
  have P: "perm AND PTE_P \<noteq> 0" using ro(1) by (simp add: read_only_def)
  have pa: "unat pa < 2 ^ 21" "live ?ke k0 (page_of pa)" "refcounts k0 ! page_of pa \<noteq> 255" using forkableD(2,4) [OF f va p] P ro(1) by auto
  have t: "copy_target ?ke k0 C (kmem st) va pa perm pa" using perm_cases(2) [OF ro(1)] by (simp add: copy_target_def is_private_def)
  have "(\<exists>k'. fork_map l child va pa perm None st = Some (Inr (True, st\<lparr>kmem := k'\<rparr>)) \<and> child_inv ?ke k0 P C (va + 4096) k'
      \<and> grows ?ke C (kmem st) k')
    \<or> (\<exists>k'. fork_map l child va pa perm None st = Some (Inr (False, given_up child st k')) \<and> kept ?ke k0 k')"
    by (rule fork_map_copies [OF inv f va C _ p t]) (use P ro(2,3) pa(1) in simp_all)
  then show ?thesis
  proof (elim disjE exE conjE)
    fix k'
    assume k': "child_inv ?ke k0 P C (va + 4096) k'" "grows ?ke C (kmem st) k'"
      and r: "fork_map l child va pa perm None st = Some (Inr (True, st\<lparr>kmem := k'\<rparr>))"
    let ?i = "page_of pa" and ?k = "k'\<lparr>refcounts := (refcounts k')[page_of pa := refcounts k' ! page_of pa + 1]\<rparr>"
    have i: "?i < 512" "length (refcounts k') = 512"
      using small_page [OF pa(1)] child_invD(2) [OF k'(1)] by (simp_all add: pt_ok_def pmem_ok_iff)
    have "vm_pa (phys k') it = pa"
      using iter_lookup [of "phys k'" P va it] parent_kept [OF k'(1) f can] it p by simp
    then have "add_reference (vm_pa (phys k') it) (st\<lparr>kmem := k'\<rparr>) = Inr (st\<lparr>kmem := ?k\<rparr>)"
      using i by (simp add: add_reference_def at_def)
    moreover have cnt': "count_inv ?ke k0 P va k'" by (rule count_inv_grows [OF cnt child_invD(1) [OF inv] k'(2)])
    have once: "\<not> shares (phys k0) P va ?i"
    proof
      assume "shares (phys k0) P va ?i"
      then obtain v p' q where v: "v < va" "page_aligned v" "lookup_va (phys k0) P v = Inr (p', q)" "read_only q" "page_of p' = ?i"
        by (auto simp: shares_def)
      then have "v = va" using forkableD(5) [OF f _ va(1) v(2) va(2) v(3) p v(4) ro(1)] va(1) by simp
      then show False using v(1) by simp
    qed
    then have rc: "refcounts k' ! ?i = refcounts k0 ! ?i" using cnt' pa(2) by (simp add: count_inv_def)
    have "(- 1 :: 8 word) = 255" by simp
    then have "refcounts k' ! ?i + 1 \<noteq> 0" using pa(3) unfolding rc by (metis add_eq_0_iff2)
    then have "child_inv ?ke k0 P C (va + 4096) ?k" using add_reference_keeps [OF k'(1) i(1)] by simp
    moreover have "count_inv ?ke k0 P (va + 4096) ?k"
      using cnt' rc once shares_next [OF va p] ro(1) i unfolding count_inv_def by (auto simp: nth_list_update)
    moreover have "walks_kept C (kphys st) (phys ?k)" using grows_walks [OF k'(2)] by simp
    ultimately show ?thesis using r unfolding page_done_def by auto
  qed (auto simp: page_done_def)
qed

lemma fork_page_copies:
  assumes inv: "child_inv (kernel_end l) k0 P C va (kmem st)" and cnt: "count_inv (kernel_end l) k0 P va (kmem st)"
    and f: "forkable (kernel_end l) k0 P" and va: "va < MEMSIZE_VIRTUAL" "page_aligned va" and C: "pagetable (ptable st ! child) = C"
    and it: "new_vmiter (phys k0) P va = Inr it"
  shows "page_done (kernel_end l) k0 P C va child st (fork_page l child it st)"
proof -
  let ?ke = "kernel_end l" and ?m = "kphys st"
  have can: "va_is_canonical va" using user_canonical [OF va(1)] .
  note pk = parent_kept [OF inv f can]
  have it': "new_vmiter ?m P va = Inr it" and vv: "vm_va it = va" using pk(2) it new_vmiter_fields [OF it] by simp_all
  define pa perm where "pa = vm_pa ?m it" and "perm = vm_perms ?m it"
  note e = parent_entry [OF pk(3) can va(2) it', folded pa_def perm_def]
  have p: "lookup_va (phys k0) P va = Inr (pa, perm)" using iter_lookup [OF it'] pk(1) by (simp add: pa_def perm_def)
  have small: "perm AND PTE_P \<noteq> 0 \<Longrightarrow> unat pa < 2 ^ 21" using forkableD(2) [OF f va p] .
  have fp: "fork_page l child it st =
    (if read_only perm then
        bindR (fork_map l child va pa perm None st) (\<lambda>(ok, st).
        if ok then bindR (Some (add_reference (vm_pa (kphys st) it) st)) (\<lambda>st. Some (Inr (True, st)))
        else Some (Inr (False, st)))
      else if user_perm perm then
        if va = CONSOLE_ADDR then fork_map l child va CONSOLE_ADDR perm None st
        else
          let (k, child_pa) = kalloc ?ke 4096 (kmem st) in
          if child_pa = 0 then bindR (syscall_exit_assist l child (st\<lparr>kmem := k\<rparr>)) (\<lambda>st. Some (Inr (False, st)))
          else if \<not> kernel_reads pa PAGESIZE then Some (Inl Undefined)
          else fork_map l child va child_pa perm (Some child_pa) (st\<lparr>kmem := k\<lparr>phys := memcpy (phys k) child_pa pa 4096\<rparr>\<rparr>)
      else fork_map l child va pa perm None st)"
    by (simp add: fork_page_def Let_def vv e(2,5,6) read_only_def flip: pa_def perm_def split: prod.splits)
  consider (ro) "read_only perm" | (console) "\<not> read_only perm" "user_perm perm" "va = CONSOLE_ADDR"
    | (own) "\<not> read_only perm" "user_perm perm" "va \<noteq> CONSOLE_ADDR" | (other) "\<not> read_only perm" "\<not> user_perm perm" by blast
  then show ?thesis
  proof cases
    case ro
    then have "perm AND PTE_P \<noteq> 0" by (simp add: read_only_def)
    then show ?thesis using fork_read_only_page [OF inv cnt f va C it p ro e(1) e(4)] ro by (simp add: fp)
  next
    case console
    then have flags: "perm AND table_flags = table_flags" using perm_cases(1) by blast
    have t: "copy_target ?ke k0 C (kmem st) va pa perm CONSOLE_ADDR" using flags console(3) by (simp add: copy_target_def is_private_def)
    have "page_done ?ke k0 P C va child st (fork_map l child va CONSOLE_ADDR perm None st)"
      by (rule fork_shared_page [OF inv cnt f va C p t _ console(1)])
        (use perm_cases(3) [OF flags] e(1) in \<open>simp add: page_aligned_def PAGEOFFMASK_def CONSOLE_ADDR_def\<close>)
    then show ?thesis using console by (simp add: fp)
  next
    case other
    have t: "copy_target ?ke k0 C (kmem st) va pa perm pa" using other perm_cases(1) by (simp add: copy_target_def is_private_def)
    have "page_done ?ke k0 P C va child st (fork_map l child va pa perm None st)"
      by (rule fork_shared_page [OF inv cnt f va C p t _ other(1)]) (use e small in \<open>cases "perm AND PTE_P = 0"; simp\<close>)
    then show ?thesis using other by (simp add: fp)
  next
    case own
    then have pr: "is_private va perm" "perm AND PTE_P \<noteq> 0" using perm_cases(1,3) by (auto simp: is_private_def)
    then have pa: "4096 \<le> unat pa" "unat pa < 2 ^ 21" using forkableD(3) [OF f va p] small by auto
    obtain a where "unat pa = 4096 * a" using e(4) [OF pr(2)] by (auto simp: page_aligned_unat elim: dvdE)
    then have "kernel_reads pa 4096" using pa by (auto simp: kernel_reads_def MEMSIZE_PHYSICAL_def)
    moreover obtain k1 q where ka: "kalloc ?ke 4096 (kmem st) = (k1, q)" by fastforce
    ultimately have fp1: "fork_page l child it st = (if q = 0 then bindR (syscall_exit_assist l child (st\<lparr>kmem := k1\<rparr>)) (\<lambda>st. Some (Inr (False, st)))
        else fork_map l child va q perm (Some q) (st\<lparr>kmem := k1\<lparr>phys := memcpy (phys k1) q pa 4096\<rparr>\<rparr>))"
      using own by (simp add: fp)
    show ?thesis
    proof (cases "q = 0")
      case True
      have pm: "pmem_ok ?ke (kmem st)" using child_invD(2) [OF inv] by (simp add: pt_ok_def)
      note kn = kalloc_null [OF pm ka [unfolded True]]
      have tt: "touches ?ke {} (kmem st) k1" using kn by (simp add: touches_def live_def)
      have g: "grows ?ke C (kmem st) k1" by (rule touch_grows [OF child_invD(2) [OF inv] tt kalloc_counts [OF pm ka]])
      have "child_inv ?ke k0 P C va k1"
        by (rule child_inv_grows [OF inv g touches_pt(1) [OF child_invD(2) [OF inv] tt] _ va(1)]) (simp_all add: kn(1))
      from fork_fails [OF this f C, of None] show ?thesis using True by (simp add: fp1 page_done_def)
    next
      case False
      then show ?thesis using fork_private_page [OF inv cnt f va C p pr(1) e(1) e(4) [OF pr(2)] ka] by (simp add: fp1)
    qed
  qed
qed

section \<open>The two iterators\<close>

text \<open>
  The iterator over the child's table is moved while the table grows under it. It need not stand
  where a walk ends, but it stands on the walk, and moving it gives a fresh walk.
\<close>

lemma real_find_at_walk:
  assumes "page_aligned pt" and "n \<le> 3" and "walk m pt va n = Some a" and "va_is_canonical va" and "va_is_canonical va'"
  shows "vm_real_find m va' (at_walk m pt va n a) = new_vmiter m pt va'"
proof (cases "3 - n = 3 \<or> (va XOR va') AND NOT (pageoffmask (3 - n + 1)) \<noteq> 0")
  case True
  then show ?thesis by (auto simp: new_vmiter_def vm_real_find_def at_walk_def)
next
  case False
  then obtain j where j: "n = Suc j" by (cases n) auto
  then have l: "3 - n = 2 - j" by simp
  from assms(3) j obtain b where b: "walk m pt va j = Some b" "is_table (load64 m b)"
    "a = pt_entry (load64 m b AND PTE_PAMASK) (pageindex va (2 - j))" by (auto split: option.splits if_splits)
  have "pageindex va i = pageindex va' i" if "3 - n < i" for i
    using pageindex_agree [of va va' "3 - n" i] False that by simp
  then have pre: "same_prefix j va va'" unfolding same_prefix_def using assms(2) j by auto
  let ?a = "pt_entry (load64 m b AND PTE_PAMASK) (pageindex va' (2 - j))"
  have "walk m pt va' j = Some b" using walk_prefix [OF pre, of m pt] b(1) by simp
  then have w: "walk m pt va' n = Some ?a" using b(2) j by simp
  have wp: "walk_perm m pt va' n = walk_perm m pt va n" using walk_perm_prefix [OF pre, of m pt] walk_prefix [OF pre, of m pt] j by simp
  have "a + 8 * (of_nat (pageindex va' (2 - j)) - drop_bit 3 (a AND PAGEOFFMASK)) = ?a"
    unfolding b(3) entry_index [OF page_aligned_PAMASK pageindex_lt] by (simp add: pt_entry_def algebra_simps)
  then have "vm_real_find m va' (at_walk m pt va n a) = vm_down m (at_walk m pt va' n ?a)"
    using False wp by (simp add: vm_real_find_def at_walk_def Let_def l)
  also have "\<dots> = new_vmiter m pt va'"
    using down_loop_walk [OF assms(2) w] assms(5) by (simp add: new_vmiter_def vm_real_find_def vm_down_def at_walk_def Let_def split: prod.splits)
  finally show ?thesis .
qed

definition on_walk :: "memory \<Rightarrow> addr \<Rightarrow> addr \<Rightarrow> vmiter \<Rightarrow> bool" where
  "on_walk m pt va it \<longleftrightarrow> (\<exists>n a. n \<le> 3 \<and> walk m pt va n = Some a \<and> it = at_walk m pt va n a)"

lemma on_walk_kept: "on_walk m pt va it \<Longrightarrow> walks_kept pt m m' \<Longrightarrow> on_walk m' pt va it"
  unfolding on_walk_def walks_kept_def at_walk_def by metis

lemma on_walk_step:
  assumes ok: "pt_ok ke k pt" and it: "on_walk (phys k) pt va it" and va: "va < MEMSIZE_VIRTUAL"
  shows "\<exists>it'. vm_add (phys k) 4096 it = Inr it' \<and> on_walk (phys k) pt (va + 4096) it'"
proof -
  have u: "unat (va + 4096) = unat va + 4096" using va by (simp add: word_less_nat_alt MEMSIZE_VIRTUAL_def unat_word_ariths)
  then have can: "va_is_canonical va" "va_is_canonical (va + 4096)"
    using va by (simp_all add: va_is_canonical_def VA_LOWMAX_def word_le_nat_alt word_less_nat_alt MEMSIZE_VIRTUAL_def)
  obtain it' where it': "new_vmiter (phys k) pt (va + 4096) = Inr it'" using vmiter_total [OF ok can(2)] .
  obtain n a where n: "n \<le> 3" "walk (phys k) pt va n = Some a" "it = at_walk (phys k) pt va n a" using it by (auto simp: on_walk_def)
  have "vm_add (phys k) 4096 it = Inr it'"
    using real_find_at_walk [OF _ n(1,2) can] ok it' n(3) by (simp add: vm_add_def vm_find_def at_walk_def pt_ok_def)
  moreover have "on_walk (phys k) pt (va + 4096) it'" using vmiter_at_walk [OF ok can(2) it'] by (metis on_walk_def)
  ultimately show ?thesis by blast
qed

section \<open>The loop\<close>

lemma fork_loop_copies:
  assumes "child_inv (kernel_end l) k0 P C va (kmem st)" and "count_inv (kernel_end l) k0 P va (kmem st)"
    and f: "forkable (kernel_end l) k0 P" and "page_aligned va" and "va \<le> MEMSIZE_VIRTUAL" and C: "pagetable (ptable st ! child) = C"
    and "new_vmiter (phys k0) P va = Inr it" and "on_walk (kphys st) C va pit"
    and "unat MEMSIZE_VIRTUAL \<le> unat va + 4096 * fuel"
  shows "(\<exists>k'. fork_loop fuel l child it pit st = Some (Inr (True, st\<lparr>kmem := k'\<rparr>)) \<and> child_inv (kernel_end l) k0 P C MEMSIZE_VIRTUAL k'
      \<and> count_inv (kernel_end l) k0 P MEMSIZE_VIRTUAL k')
    \<or> (\<exists>k'. fork_loop fuel l child it pit st = Some (Inr (False, given_up child st k')) \<and> kept (kernel_end l) k0 k')"
  using assms(1,2,4,5,6-)
proof (induction fuel arbitrary: va it pit st)
  case 0
  then have "va = MEMSIZE_VIRTUAL" by (simp add: word_le_nat_alt word_unat_eq_iff)
  moreover have "vm_va it = va" using new_vmiter_fields [OF 0(6)] by simp
  ultimately show ?case using 0(1,2) by (intro disjI1 exI [of _ "kmem st"]) (simp add: fork_loop.simps)
next
  case (Suc fuel)
  have vv: "vm_va it = va" using new_vmiter_fields [OF Suc.prems(6)] by simp
  show ?case
  proof (cases "va < MEMSIZE_VIRTUAL")
    case False
    then have "va = MEMSIZE_VIRTUAL" using Suc.prems(4) by simp
    then show ?thesis using Suc.prems(1,2) vv by (intro disjI1 exI [of _ "kmem st"]) (simp add: fork_loop.simps)
  next
    case True
    note nx = next_page [OF True Suc.prems(3)]
    have "page_done (kernel_end l) k0 P C va child st (fork_page l child it st)"
      by (rule fork_page_copies [OF Suc.prems(1,2) f True Suc.prems(3,5,6)])
    then consider (go) k' where "fork_page l child it st = Some (Inr (True, st\<lparr>kmem := k'\<rparr>))" "child_inv (kernel_end l) k0 P C (va + 4096) k'"
        "count_inv (kernel_end l) k0 P (va + 4096) k'" "walks_kept C (kphys st) (phys k')"
      | (stop) k' where "fork_page l child it st = Some (Inr (False, given_up child st k'))" "kept (kernel_end l) k0 k'"
      unfolding page_done_def by blast
    then show ?thesis
    proof cases
      case stop
      then show ?thesis using True vv by (intro disjI2 exI [of _ k']) (simp add: fork_loop.simps [of "Suc fuel"])
    next
      case go
      have P: "pt_ok (kernel_end l) k' P" "new_vmiter (phys k') P va = Inr it"
        using parent_kept [OF go(2) f user_canonical [OF True]] Suc.prems(6) by simp_all
      obtain it' where it': "vm_add (phys k') 4096 it = Inr it'" "new_vmiter (phys k') P (va + 4096) = Inr it'"
        using vm_step [OF P True] .
      have can: "va_is_canonical (va + 4096)"
        using nx(1) True by (simp add: va_is_canonical_def VA_LOWMAX_def word_le_nat_alt word_less_nat_alt MEMSIZE_VIRTUAL_def)
      have it0: "new_vmiter (phys k0) P (va + 4096) = Inr it'" using it'(2) parent_kept(2) [OF go(2) f can] by simp
      obtain pit' where pit': "vm_add (phys k') 4096 pit = Inr pit'" "on_walk (phys k') C (va + 4096) pit'"
        using on_walk_step [OF child_invD(2) [OF go(2)] on_walk_kept [OF Suc.prems(7) go(4)] True] by blast
      have le: "va + 4096 \<le> MEMSIZE_VIRTUAL"
      proof -
        obtain q where "unat va = 4096 * q" using Suc.prems(3) by (auto simp: page_aligned_unat elim: dvdE)
        then show ?thesis using True nx(1) by (simp add: word_le_nat_alt word_less_nat_alt MEMSIZE_VIRTUAL_def)
      qed
      have "(\<exists>k''. fork_loop fuel l child it' pit' (st\<lparr>kmem := k'\<rparr>) = Some (Inr (True, (st\<lparr>kmem := k'\<rparr>)\<lparr>kmem := k''\<rparr>)) \<and> child_inv (kernel_end l) k0 P C MEMSIZE_VIRTUAL k''
          \<and> count_inv (kernel_end l) k0 P MEMSIZE_VIRTUAL k'')
        \<or> (\<exists>k''. fork_loop fuel l child it' pit' (st\<lparr>kmem := k'\<rparr>) = Some (Inr (False, given_up child (st\<lparr>kmem := k'\<rparr>) k'')) \<and> kept (kernel_end l) k0 k'')"
        by (rule Suc.IH [OF _ _ nx(2) le _ it0]) (use go(2,3) pit'(2) Suc.prems(5,8) nx(1) in simp_all)
      then show ?thesis using True vv go(1) it'(1) pit'(1) by (simp add: fork_loop.simps [of "Suc fuel"])
    qed
  qed
qed

section \<open>Fork\<close>

lemma live_lookup:
  assumes ok: "pt_ok ke k pt" and same: "\<And>x. live ke k (page_of x) \<Longrightarrow> m x = phys k x" and va: "va_is_canonical va"
  shows "lookup_va m pt va = lookup_va (phys k) pt va"
proof (rule lookup_cong [OF va])
  fix j a
  assume a: "j \<le> 3" "walk (phys k) pt va j = Some a"
  obtain b i where b: "page_aligned b" "i < 512" "a = pt_entry b i" using walk_entry [OF _ a(2)] ok by (auto simp: pt_ok_def)
  have "live ke k (page_of b)" using pt_ok_live [OF ok in_tables [OF a]] b page_of_entry by simp
  then have "load64 m a = load64 (phys k) a" unfolding b(3) by (intro load_same_page [OF b(1,2)] same) simp
  then show "load64 m a = load64 (phys k) a \<and> load64 (phys k) a AND PTE_PAMASK < 0x100000000"
    using ok a by (simp add: pt_ok_def pt_held_def)
qed

text \<open>The child's table before the loop.\<close>

lemma new_child:
  assumes pm: "pmem_ok ke k0" and ka: "kalloc ke 4096 k0 = (k, C)" "C \<noteq> 0"
  defines "k1 \<equiv> k\<lparr>phys := memset (phys k) C 0 4096\<rparr>"
  shows "child_inv ke k0 P C 0 k1" and "count_inv ke k0 P 0 k1"
proof -
  note kp = kalloc_page [OF pm ka]
  have "page_of x \<noteq> page_of C \<Longrightarrow> memset (phys k) C 0 4096 x = phys k x" for x
    by (simp add: memset_fill fill_other_page [OF kp(1)])
  then have t: "touches ke {} k0 k1" "\<not> live ke k0 (page_of C)" "live ke k1 (page_of C)"
    unfolding k1_def using kalloc_touches [OF pm ka, of "memset (phys k) C 0 4096"] by blast+
  have z: "\<forall>i < 512. load64 (phys k1) (pt_entry C i) = 0" by (simp add: k1_def memset_fill load_fill_zero [OF kp(1)])
  note e = empty_table [OF z kp(1)]
  have "pt_ok ke k1 C" by (rule pt_ok_empty [OF _ kp(1) _ z]) (use t in \<open>simp_all add: touches_def live_def\<close>)
  then show "child_inv ke k0 P C 0 k1" using t e by (simp add: child_inv_def private_distinct_def)
  show "count_inv ke k0 P 0 k1" using kalloc_counts [OF pm ka(1)] by (simp add: count_inv_def shares_def k1_def)
qed

lemma finish_fork_memory:
  assumes "finish_fork c st = Inr st'" and "c < length (ptable st)"
  shows "kmem st' = kmem st" and "pagetable (ptable st' ! c) = pagetable (ptable st ! c)"
  using assms by (auto simp: finish_fork_def set_proc_def Let_def nth_list_update split: if_splits)

text \<open>How fork ends, with the memory it leaves.\<close>

definition fork_memory :: "addr \<Rightarrow> kernel \<Rightarrow> int \<Rightarrow> kernel \<Rightarrow> bool" where
  "fork_memory ke st v st' \<longleftrightarrow>
     (if v = - 1 then kept ke (kmem st) (kmem st')
      else free_slot st = Some (nat v) \<and> v > 0
        \<and> child_inv ke (kmem st) (pagetable (cur st)) (pagetable (ptable st' ! nat v)) MEMSIZE_VIRTUAL (kmem st')
        \<and> count_inv ke (kmem st) (pagetable (cur st)) MEMSIZE_VIRTUAL (kmem st'))"

lemma fork_copies:
  assumes ok: "procs_ok st" and f: "forkable (kernel_end l) (kmem st) (pagetable (cur st))"
  shows "\<exists>v st'. syscall_fork l st = Some (Inr (Goes v, st')) \<and> fork_memory (kernel_end l) st v st'"
proof (cases "free_slot st")
  case None
  have "pmem_ok (kernel_end l) (kmem st)" using forkableD(1) [OF f] by (simp add: pt_ok_def)
  then show ?thesis using None by (simp add: syscall_fork_def goes_def fork_memory_def kept_def)
next
  case (Some c)
  let ?ke = "kernel_end l" and ?P = "pagetable (cur st)" and ?k0 = "kmem st"
  have pm: "pmem_ok ?ke ?k0" using forkableD(1) [OF f] by (simp add: pt_ok_def)
  have c: "1 \<le> c" "c < length (ptable st)" "c \<noteq> current st"
    using free_slot_props [OF Some] procs_okD(1,3) [OF ok] by (auto simp: cur_def)
  obtain k C where ka: "kalloc ?ke 4096 ?k0 = (k, C)" by fastforce
  show ?thesis
  proof (cases "C = 0")
    case True
    have "kept ?ke ?k0 k" using kalloc_null [OF pm ka [unfolded True]] by (simp add: kept_def)
    then show ?thesis using Some ka True by (simp add: syscall_fork_def goes_def fork_memory_def set_proc_def)
  next
    case False
    define k1 where "k1 = k\<lparr>phys := memset (phys k) C 0 4096\<rparr>"
    define st1 where "st1 = set_proc c (\<lambda>pr. pr\<lparr>pid := int c, pagetable := C\<rparr>) (st\<lparr>kmem := k1\<rparr>)"
    note nc = new_child [OF pm ka False, folded k1_def, of ?P]
    have st1: "kmem st1 = k1" "pagetable (ptable st1 ! c) = C" "pagetable (cur st1) = ?P"
      using c by (simp_all add: st1_def set_proc_def cur_def)
    have can: "va_is_canonical 0" by (simp add: va_is_canonical_def)
    obtain it where it: "new_vmiter (phys ?k0) ?P 0 = Inr it" using vmiter_total [OF forkableD(1) [OF f] can] .
    then have it1: "new_vmiter (kphys st1) (pagetable (cur st1)) 0 = Inr it" using parent_kept(2) [OF nc(1) f can] st1 by simp
    have okC: "pt_ok ?ke k1 C" using child_invD(2) [OF nc(1)] .
    obtain pit where pit: "new_vmiter (kphys st1) C 0 = Inr pit" using vmiter_total [OF okC can] st1(1) by auto
    then have on: "on_walk (kphys st1) C 0 pit" using vmiter_at_walk [OF okC can] st1(1) by (metis on_walk_def)
    have fork: "syscall_fork l st = bindR (fork_loop 768 l c it pit st1) (\<lambda>(ok, st).
        if \<not> ok then goes (- 1) st else bindR (Some (finish_fork c st)) (goes (int c)))"
    proof -
      have "set_proc c (\<lambda>pr. pr\<lparr>pagetable := C\<rparr>) ((set_proc c (\<lambda>pr. pr\<lparr>pid := int c\<rparr>) st)\<lparr>kmem := k1\<rparr>) = st1"
        using c by (cases "ptable st ! c") (simp add: st1_def set_proc_def)
      then show ?thesis using Some ka False it1 pit st1(1) by (simp add: syscall_fork_def Let_def flip: k1_def)
    qed
    have "(\<exists>k'. fork_loop 768 l c it pit st1 = Some (Inr (True, st1\<lparr>kmem := k'\<rparr>)) \<and> child_inv ?ke ?k0 ?P C MEMSIZE_VIRTUAL k'
        \<and> count_inv ?ke ?k0 ?P MEMSIZE_VIRTUAL k')
      \<or> (\<exists>k'. fork_loop 768 l c it pit st1 = Some (Inr (False, given_up c st1 k')) \<and> kept ?ke ?k0 k')"
      by (rule fork_loop_copies [OF _ _ f _ _ st1(2) it on]) (use nc st1(1) in \<open>simp_all add: page_aligned_def MEMSIZE_VIRTUAL_def\<close>)
    then show ?thesis
    proof (elim disjE exE conjE)
      fix k'
      assume loop: "fork_loop 768 l c it pit st1 = Some (Inr (True, st1\<lparr>kmem := k'\<rparr>))"
        and k': "child_inv ?ke ?k0 ?P C MEMSIZE_VIRTUAL k'" "count_inv ?ke ?k0 ?P MEMSIZE_VIRTUAL k'"
      have al: "page_aligned C" and "cursor_ok k'"
        using okC child_invD(2) [OF k'(1)] pmem_ok_cursor_ok by (auto simp: pt_ok_def)
      moreover have "st1\<lparr>kmem := k'\<rparr> = (set_proc c (\<lambda>pr. pr\<lparr>pid := int c, pagetable := C\<rparr>) st)\<lparr>kmem := k'\<rparr>"
        by (simp add: st1_def set_proc_def)
      ultimately obtain st2 where st2: "finish_fork c (st1\<lparr>kmem := k'\<rparr>) = Inr st2"
        using finish_fork_result [OF ok Some, of k' C] by (auto simp: ends_def split: sum.splits)
      have "kmem st2 = k'" "pagetable (ptable st2 ! c) = C"
        using finish_fork_memory [OF st2] c st1(2) by (simp_all add: st1_def set_proc_def)
      then show ?thesis using fork loop st2 k' c(1) Some by (simp add: goes_def fork_memory_def)
    qed (auto simp: fork goes_def fork_memory_def)
  qed
qed

text \<open>
  C3: fork isolates parent and child. For a process with a sound page table it always returns, with
  the child or with -1, and no page that was in use before is written: all address spaces,
  the parent's too, keep every translation and every byte. If it returns a child, the child's page
  table consists of pages that were free before; below the end of virtual memory every page of the
  child is mapped as in the parent with the same permissions, except that each page the program may
  write, the console apart, is backed by a page of its own that was free before, belongs to no
  other page of the child and holds the same bytes; and each read-only page has one reference more.
\<close>

theorem fork_isolates:
  assumes "procs_ok st" and "forkable (kernel_end l) (kmem st) (pagetable (cur st))"
  shows "\<exists>v st'. syscall_fork l st = Some (Inr (Goes v, st'))
    \<and> (\<forall>x. live (kernel_end l) (kmem st) (page_of x) \<longrightarrow> kphys st' x = kphys st x)
    \<and> (\<forall>pt va. pt_ok (kernel_end l) (kmem st) pt \<longrightarrow> va_is_canonical va \<longrightarrow> lookup_va (kphys st') pt va = lookup_va (kphys st) pt va)
    \<and> (v \<noteq> - 1 \<longrightarrow> free_slot st = Some (nat v) \<and>
        (let C = pagetable (ptable st' ! nat v) in pt_ok (kernel_end l) (kmem st') C
           \<and> (\<forall>i \<in> tables (kphys st') C. \<not> live (kernel_end l) (kmem st) i)
           \<and> (\<forall>va. va < MEMSIZE_VIRTUAL \<longrightarrow> page_aligned va \<longrightarrow> copied (kernel_end l) (kmem st) (pagetable (cur st)) C (kmem st') va)
           \<and> private_distinct (kphys st') C MEMSIZE_VIRTUAL
           \<and> (\<forall>i. live (kernel_end l) (kmem st) i \<longrightarrow> refcounts (kmem st') ! i = refcounts (kmem st) ! i
                + (if shares (kphys st) (pagetable (cur st)) MEMSIZE_VIRTUAL i then 1 else 0))))"
proof -
  obtain v st' where fork: "syscall_fork l st = Some (Inr (Goes v, st'))" and mem: "fork_memory (kernel_end l) st v st'"
    using fork_copies [OF assms] by blast
  have same: "live (kernel_end l) (kmem st) (page_of x) \<Longrightarrow> kphys st' x = kphys st x" for x
    using mem child_invD(1) [of "kernel_end l" "kmem st"] unfolding fork_memory_def kept_def
    by (auto simp: touches_def split: if_splits)
  have "pt_ok (kernel_end l) (kmem st) pt \<Longrightarrow> va_is_canonical va \<Longrightarrow> lookup_va (kphys st') pt va = lookup_va (kphys st) pt va" for pt va
    by (rule live_lookup [OF _ same])
  moreover have "v \<noteq> - 1 \<Longrightarrow> free_slot st = Some (nat v) \<and>
        (let C = pagetable (ptable st' ! nat v) in pt_ok (kernel_end l) (kmem st') C
           \<and> (\<forall>i \<in> tables (kphys st') C. \<not> live (kernel_end l) (kmem st) i)
           \<and> (\<forall>va. va < MEMSIZE_VIRTUAL \<longrightarrow> page_aligned va \<longrightarrow> copied (kernel_end l) (kmem st) (pagetable (cur st)) C (kmem st') va)
           \<and> private_distinct (kphys st') C MEMSIZE_VIRTUAL
           \<and> (\<forall>i. live (kernel_end l) (kmem st) i \<longrightarrow> refcounts (kmem st') ! i = refcounts (kmem st) ! i
                + (if shares (kphys st) (pagetable (cur st)) MEMSIZE_VIRTUAL i then 1 else 0)))"
    using mem by (simp add: fork_memory_def child_inv_def count_inv_def)
  ultimately show ?thesis using fork same by blast
qed

theorem fork_isolates_witness:
  "\<exists>v st'. syscall_fork plain_layout bare_process = Some (Inr (Goes v, st'))
    \<and> (\<forall>x. live 0x5A000 one_table (page_of x) \<longrightarrow> kphys st' x = phys one_table x)"
proof -
  have al: "page_aligned 0x1000" by (simp add: page_aligned_def PAGEOFFMASK_def)
  have "forkable ke one_table 0x1000" for ke
    using empty_table(1) [OF one_table_empty al] pt_ok_one_table by (auto simp: forkable_def user_canonical read_only_def)
  then show ?thesis
    using fork_isolates [OF bare_process_ok, of plain_layout] unfolding bare_process_fields by (auto simp: plain_layout_def)
qed

end
