(* ===== verification/Liveness.thy ===== *)
theory Liveness
  imports Prelude
begin

text \<open>
  Progress of systems of threads. A system moves by steps of its own threads and by steps of its
  environment; a state is \<^emph>\<open>inevitable\<close> when the threads can always move until it is
  reached, and no choice of steps avoids it. The locale \<open>ending\<close> is the contract a component meets
  to have that property: an invariant under which some thread can move, and a weight that every
  step lowers.
\<close>

inductive inevitably :: "('s \<Rightarrow> 's \<Rightarrow> bool) \<Rightarrow> ('s \<Rightarrow> 's \<Rightarrow> bool) \<Rightarrow> ('s \<Rightarrow> bool) \<Rightarrow> 's \<Rightarrow> bool"
  for own :: "'s \<Rightarrow> 's \<Rightarrow> bool" and env :: "'s \<Rightarrow> 's \<Rightarrow> bool" and goal :: "'s \<Rightarrow> bool" where
  at_goal: "goal s \<Longrightarrow> inevitably own env goal s"
| before: "own s t \<Longrightarrow> (\<And>u. own s u \<or> env s u \<Longrightarrow> inevitably own env goal u) \<Longrightarrow> inevitably own env goal s"

text \<open>On every run that goes on while it can, the goal is met.\<close>

lemma inevitably_run:
  assumes "inevitably own env goal s" and "run 0 = s"
    and "\<And>i. \<not> goal (run i) \<Longrightarrow> (\<exists>t. own (run i) t) \<Longrightarrow> own (run i) (run (Suc i)) \<or> env (run i) (run (Suc i))"
  shows "\<exists>i. goal (run i)"
  using assms
proof (induction arbitrary: run rule: inevitably.induct)
  case (at_goal s)
  then show ?case by blast
next
  case (before s t)
  show ?case
  proof (cases "goal s")
    case False
    then have "own s (run (Suc 0)) \<or> env s (run (Suc 0))" using before.prems before.hyps(1) by metis
    then have "\<exists>i. goal (run (Suc i))"
      by (rule before.IH [of "run (Suc 0)" "\<lambda>i. run (Suc i)"]) (use before.prems(2) in auto)
    then show ?thesis by blast
  qed (use before.prems(1) in blast)
qed

locale ending =
  fixes own :: "'s \<Rightarrow> 's \<Rightarrow> bool" and env :: "'s \<Rightarrow> 's \<Rightarrow> bool"
    and inv :: "'s \<Rightarrow> bool" and goal :: "'s \<Rightarrow> bool" and weight :: "'s \<Rightarrow> nat"
  assumes enabled: "inv s \<Longrightarrow> \<not> goal s \<Longrightarrow> \<exists>t. own s t"
    and falls: "inv s \<Longrightarrow> \<not> goal s \<Longrightarrow> own s t \<or> env s t \<Longrightarrow> goal t \<or> inv t \<and> weight t < weight s"
begin

lemma inevitable: "inv s \<Longrightarrow> inevitably own env goal s"
proof (induction "weight s" arbitrary: s rule: less_induct)
  case less
  show ?case
  proof (cases "goal s")
    case False
    then obtain t where "own s t" using enabled less.prems by blast
    moreover have "inevitably own env goal u" if "own s u \<or> env s u" for u
      using falls [OF less.prems False that] less.hyps by (auto intro: at_goal)
    ultimately show ?thesis by (rule before)
  qed (rule at_goal)
qed

end

end
