(* ===== verification/Shardmaster.thy ===== *)
theory Shardmaster
  imports Service Liveness
begin

text \<open>
  The life of a \<open>StaticShardmaster\<close> (\<open>kvstore/shardmaster/static_shardmaster.cpp\<close> and
  \<open>.hpp\<close>): the listener thread, one detached thread per client and the thread that calls
  \<open>stop\<close>, as a transition system. The program counter of a thread names the next statement that
  touches shared state. A detached thread that throws terminates the program.
\<close>

section \<open>Definitions\<close>

datatype listener_pc = LNone | LCheck | LAccept | LLock nat | LSpawn nat | LPush nat | LDone

datatype handler_pc = HNone | HCheck | HConn | HRecv | HServe Request | HShutdown | HLock | HErase | HNotify | HDone

datatype stop_pc = SIdle | SFlag | SShutListener | SJoin | SLock | SClose "nat list" | SPred | SWaiting | SRelock | SDone | SThrown

datatype sm_thread = Listener | Handler nat | Stopper

record shardmaster =
  sm_is_stopped :: bool
  listener_open :: bool
  current_conns :: "nat list"
  conns_mtx :: "sm_thread option"
  conn_connected :: "nat \<Rightarrow> bool"
  conn_shut :: "nat \<Rightarrow> bool"
  accepted :: nat
  client_listener :: listener_pc
  handlers :: "nat \<Rightarrow> handler_pc"
  stopper :: stop_pc
  missing_conn :: bool
  terminated :: bool

definition sm_new :: shardmaster where
  "sm_new = \<lparr>sm_is_stopped = False, listener_open = False, current_conns = [], conns_mtx = None, conn_connected = \<lambda>_. False,
     conn_shut = \<lambda>_. False, accepted = 0, client_listener = LNone, handlers = \<lambda>_. HNone, stopper = SIdle,
     missing_conn = False, terminated = False\<rparr>"

text \<open>\<open>fd\<close> is what \<open>open_listener_socket\<close> returns.\<close>

definition sm_start :: "int \<Rightarrow> shardmaster \<Rightarrow> int \<times> shardmaster" where
  "sm_start fd s =
     (let s = s\<lparr>sm_is_stopped := False\<rparr> in
      if fd < 0 then (- 1, s) else (0, s\<lparr>listener_open := True, client_listener := LCheck\<rparr>))"

text \<open>\<open>~StaticShardmaster\<close> calls \<open>stop\<close> unless that was done.\<close>

definition sm_destructor :: "shardmaster \<Rightarrow> shardmaster" where
  "sm_destructor s = (if sm_is_stopped s then s else s\<lparr>stopper := SFlag\<rparr>)"

text \<open>\<open>ClientConn::shutdown\<close>, as one step.\<close>

definition conn_shutdown :: "nat \<Rightarrow> shardmaster \<Rightarrow> shardmaster" where
  "conn_shutdown c s =
     (if conn_connected s c
      then s\<lparr>conn_connected := (conn_connected s)(c := False), conn_shut := (conn_shut s)(c := True)\<rparr> else s)"

definition set_handler :: "nat \<Rightarrow> handler_pc \<Rightarrow> shardmaster \<Rightarrow> shardmaster" where
  "set_handler c p s = s\<lparr>handlers := (handlers s)(c := p)\<rparr>"

definition lock_conns :: "sm_thread \<Rightarrow> shardmaster \<Rightarrow> shardmaster option" where
  "lock_conns t s = (if conns_mtx s = None then Some (s\<lparr>conns_mtx := Some t\<rparr>) else None)"

definition listener_step :: "shardmaster \<Rightarrow> shardmaster option" where
  "listener_step s =
     (case client_listener s of
        LCheck \<Rightarrow> Some (s\<lparr>client_listener := (if sm_is_stopped s then LDone else LAccept)\<rparr>)
      | LAccept \<Rightarrow> if listener_open s then None else Some (s\<lparr>client_listener := LDone\<rparr>)
      | LLock c \<Rightarrow> map_option (\<lambda>s. s\<lparr>client_listener := LSpawn c\<rparr>) (lock_conns Listener s)
      | LSpawn c \<Rightarrow> Some ((set_handler c HCheck s)\<lparr>client_listener := LPush c\<rparr>)
      | LPush c \<Rightarrow> Some (s\<lparr>current_conns := current_conns s @ [c], conns_mtx := None, client_listener := LCheck\<rparr>)
      | _ \<Rightarrow> None)"

text \<open>\<open>sent\<close> tells whether \<open>send_response\<close> succeeds.\<close>

definition handler_step :: "bool \<Rightarrow> nat \<Rightarrow> shardmaster \<Rightarrow> shardmaster option" where
  "handler_step sent c s =
     (case handlers s c of
        HCheck \<Rightarrow> Some (set_handler c (if sm_is_stopped s then HShutdown else HConn) s)
      | HConn \<Rightarrow> Some (set_handler c (if conn_connected s c then HRecv else HShutdown) s)
      | HRecv \<Rightarrow> if conn_shut s c then Some (set_handler c HShutdown s) else None
      | HServe req \<Rightarrow>
          (case sm_process_request req of
             Inl e \<Rightarrow> Some (s\<lparr>terminated := True\<rparr>)
           | Inr res \<Rightarrow> Some (set_handler c (if sent then HCheck else HShutdown) s))
      | HShutdown \<Rightarrow> Some (set_handler c HLock (conn_shutdown c s))
      | HLock \<Rightarrow> map_option (set_handler c HErase) (lock_conns (Handler c) s)
      | HErase \<Rightarrow>
          Some (set_handler c HNotify
            (if c \<in> set (current_conns s) then s\<lparr>current_conns := remove1 c (current_conns s)\<rparr> else s\<lparr>missing_conn := True\<rparr>))
      | HNotify \<Rightarrow>
          Some (set_handler c HDone
            (s\<lparr>conns_mtx := None,
               stopper := (if current_conns s = [] \<and> stopper s = SWaiting then SRelock else stopper s)\<rparr>))
      | _ \<Rightarrow> None)"

definition stopper_step :: "shardmaster \<Rightarrow> shardmaster option" where
  "stopper_step s =
     (case stopper s of
        SFlag \<Rightarrow> Some (s\<lparr>sm_is_stopped := True, stopper := SShutListener\<rparr>)
      | SShutListener \<Rightarrow> Some (s\<lparr>listener_open := False, stopper := SJoin\<rparr>)
      | SJoin \<Rightarrow>
          (case client_listener s of
             LNone \<Rightarrow> Some (s\<lparr>stopper := SThrown\<rparr>)
           | LDone \<Rightarrow> Some (s\<lparr>stopper := SLock\<rparr>)
           | _ \<Rightarrow> None)
      | SLock \<Rightarrow> map_option (\<lambda>s. s\<lparr>stopper := SClose (current_conns s)\<rparr>) (lock_conns Stopper s)
      | SClose [] \<Rightarrow> Some (s\<lparr>stopper := SPred\<rparr>)
      | SClose (c # cs) \<Rightarrow> Some ((conn_shutdown c s)\<lparr>stopper := SClose cs\<rparr>)
      | SPred \<Rightarrow> Some (s\<lparr>conns_mtx := None, stopper := (if current_conns s = [] then SDone else SWaiting)\<rparr>)
      | SRelock \<Rightarrow> map_option (\<lambda>s. s\<lparr>stopper := SPred\<rparr>) (lock_conns Stopper s)
      | _ \<Rightarrow> None)"

text \<open>A step of one of the threads that depends on nobody outside.\<close>

inductive sm_step :: "shardmaster \<Rightarrow> shardmaster \<Rightarrow> bool" where
  listens: "\<not> terminated s \<Longrightarrow> listener_step s = Some s' \<Longrightarrow> sm_step s s'"
| handles: "\<not> terminated s \<Longrightarrow> handler_step sent c s = Some s' \<Longrightarrow> sm_step s s'"
| stops: "\<not> terminated s \<Longrightarrow> stopper_step s = Some s' \<Longrightarrow> sm_step s s'"

text \<open>What the network and the user do: connecting, a failed accept, a request, the end of a connection, the call of \<open>stop\<close>.\<close>

inductive env_step :: "shardmaster \<Rightarrow> shardmaster \<Rightarrow> bool" where
  connects: "\<not> terminated s \<Longrightarrow> client_listener s = LAccept \<Longrightarrow> listener_open s \<Longrightarrow> c = accepted s \<Longrightarrow>
    env_step s (s\<lparr>client_listener := LLock c, accepted := Suc c, conn_connected := (conn_connected s)(c := True)\<rparr>)"
| accept_fails: "\<not> terminated s \<Longrightarrow> client_listener s = LAccept \<Longrightarrow> env_step s (s\<lparr>client_listener := LDone\<rparr>)"
| requests: "\<not> terminated s \<Longrightarrow> handlers s c = HRecv \<Longrightarrow> env_step s (set_handler c (HServe req) s)"
| hangs_up: "\<not> terminated s \<Longrightarrow> handlers s c = HRecv \<Longrightarrow> env_step s (set_handler c HShutdown s)"
| calls_stop: "\<not> terminated s \<Longrightarrow> stopper s = SIdle \<Longrightarrow> env_step s (s\<lparr>stopper := SFlag\<rparr>)"

text \<open>The condition variable may wake up the waiting thread for no reason.\<close>

inductive sm_reachable :: "shardmaster \<Rightarrow> bool" where
  started: "fd \<ge> 0 \<Longrightarrow> sm_reachable (snd (sm_start fd sm_new))"
| steps: "sm_reachable s \<Longrightarrow> sm_step s s' \<Longrightarrow> sm_reachable s'"
| env: "sm_reachable s \<Longrightarrow> env_step s s' \<Longrightarrow> sm_reachable s'"
| spurious: "sm_reachable s \<Longrightarrow> stopper s = SWaiting \<Longrightarrow> sm_reachable (s\<lparr>stopper := SRelock\<rparr>)"

fun running :: "handler_pc \<Rightarrow> bool" where
  "running HNone = False"
| "running HNotify = False"
| "running HDone = False"
| "running _ = True"

text \<open>
  The system as a whole, for at most \<open>n\<close> wake-ups for no reason: the steps of its threads, and
  those of its surroundings.
\<close>

definition sm_own :: "nat \<times> shardmaster \<Rightarrow> nat \<times> shardmaster \<Rightarrow> bool" where
  "sm_own p q \<longleftrightarrow> fst q = fst p \<and> sm_step (snd p) (snd q)"

inductive sm_surroundings :: "nat \<times> shardmaster \<Rightarrow> nat \<times> shardmaster \<Rightarrow> bool" where
  env_moves: "env_step s s' \<Longrightarrow> sm_surroundings (n, s) (n, s')"
| wakes: "\<not> terminated s \<Longrightarrow> stopper s = SWaiting \<Longrightarrow> sm_surroundings (Suc n, s) (n, s\<lparr>stopper := SRelock\<rparr>)"

definition sm_clean :: "shardmaster \<Rightarrow> bool" where
  "sm_clean s \<longleftrightarrow> stopper s = SDone \<and> client_listener s = LDone \<and> current_conns s = []
     \<and> (\<forall>c < accepted s. conn_shut s c \<and> \<not> running (handlers s c))"

section \<open>Invariants\<close>

definition mutex_ok :: "shardmaster \<Rightarrow> bool" where
  "mutex_ok s \<longleftrightarrow>
     (conns_mtx s = Some Listener \<longleftrightarrow> (\<exists>c. client_listener s = LSpawn c \<or> client_listener s = LPush c))
     \<and> (\<forall>c. conns_mtx s = Some (Handler c) \<longleftrightarrow> handlers s c = HErase \<or> handlers s c = HNotify)
     \<and> (conns_mtx s = Some Stopper \<longleftrightarrow> stopper s = SPred \<or> (\<exists>cs. stopper s = SClose cs))"

text \<open>\<open>current_conns\<close> holds the connections of the running handlers, except that of a handler the listener has just started.\<close>

definition conns_ok :: "shardmaster \<Rightarrow> bool" where
  "conns_ok s \<longleftrightarrow> distinct (current_conns s)
     \<and> (\<forall>c. c \<in> set (current_conns s) \<longleftrightarrow> running (handlers s c) \<and> client_listener s \<noteq> LPush c)"

definition new_conns_ok :: "shardmaster \<Rightarrow> bool" where
  "new_conns_ok s \<longleftrightarrow>
     (\<forall>c. handlers s c = HNone \<longleftrightarrow> accepted s \<le> c \<or> client_listener s = LLock c \<or> client_listener s = LSpawn c)
     \<and> (\<forall>c. client_listener s = LLock c \<or> client_listener s = LSpawn c \<or> client_listener s = LPush c \<longrightarrow> c < accepted s)
     \<and> (\<forall>c. client_listener s = LPush c \<longrightarrow> running (handlers s c))"

fun closing :: "handler_pc \<Rightarrow> bool" where
  "closing HLock = True"
| "closing HErase = True"
| "closing HNotify = True"
| "closing HDone = True"
| "closing _ = False"

definition sockets_ok :: "shardmaster \<Rightarrow> bool" where
  "sockets_ok s \<longleftrightarrow> (\<forall>c < accepted s. conn_connected s c \<or> conn_shut s c)
     \<and> (\<forall>c. closing (handlers s c) \<longrightarrow> \<not> conn_connected s c)"

fun stop_rank :: "stop_pc \<Rightarrow> nat" where
  "stop_rank SIdle = 0"
| "stop_rank SFlag = 1"
| "stop_rank SShutListener = 2"
| "stop_rank SJoin = 3"
| "stop_rank SLock = 4"
| "stop_rank (SClose cs) = 5"
| "stop_rank _ = 6"

definition joined_ok :: "shardmaster \<Rightarrow> bool" where
  "joined_ok s \<longleftrightarrow> client_listener s \<noteq> LNone \<and> stopper s \<noteq> SThrown
     \<and> (sm_is_stopped s \<longleftrightarrow> 2 \<le> stop_rank (stopper s))
     \<and> (3 \<le> stop_rank (stopper s) \<longrightarrow> \<not> listener_open s)
     \<and> (4 \<le> stop_rank (stopper s) \<longrightarrow> client_listener s = LDone)"

fun to_close :: "stop_pc \<Rightarrow> nat list" where
  "to_close (SClose cs) = cs"
| "to_close _ = []"

definition closed_ok :: "shardmaster \<Rightarrow> bool" where
  "closed_ok s \<longleftrightarrow>
     (5 \<le> stop_rank (stopper s) \<longrightarrow> (\<forall>c \<in> set (current_conns s). c \<in> set (to_close (stopper s)) \<or> \<not> conn_connected s c))"

definition stop_ok :: "shardmaster \<Rightarrow> bool" where
  "stop_ok s \<longleftrightarrow> (stopper s = SDone \<longrightarrow> current_conns s = [])
     \<and> (stopper s = SWaiting \<longrightarrow> current_conns s \<noteq> [] \<or> (\<exists>c. conns_mtx s = Some (Handler c)))"

definition sm_inv :: "shardmaster \<Rightarrow> bool" where
  "sm_inv s \<longleftrightarrow> mutex_ok s \<and> conns_ok s \<and> new_conns_ok s \<and> sockets_ok s \<and> joined_ok s \<and> closed_ok s \<and> stop_ok s \<and> \<not> missing_conn s"

lemmas sm_inv_defs = sm_inv_def mutex_ok_def conns_ok_def new_conns_ok_def sockets_ok_def joined_ok_def closed_ok_def stop_ok_def
lemmas sm_move_defs = set_handler_def lock_conns_def conn_shutdown_def

lemma sm_inv_started: "fd \<ge> 0 \<Longrightarrow> sm_inv (snd (sm_start fd sm_new))"
  by (simp add: sm_inv_defs sm_start_def sm_new_def)

lemma listener_cases:
  assumes "listener_step s = Some s'"
  obtains (check) "client_listener s = LCheck" "s' = s\<lparr>client_listener := (if sm_is_stopped s then LDone else LAccept)\<rparr>"
  | (closed) "client_listener s = LAccept" "\<not> listener_open s" "s' = s\<lparr>client_listener := LDone\<rparr>"
  | (lock) c where "client_listener s = LLock c" "conns_mtx s = None" "s' = s\<lparr>conns_mtx := Some Listener, client_listener := LSpawn c\<rparr>"
  | (spawn) c where "client_listener s = LSpawn c" "s' = s\<lparr>handlers := (handlers s)(c := HCheck), client_listener := LPush c\<rparr>"
  | (push) c where "client_listener s = LPush c" "s' = s\<lparr>current_conns := current_conns s @ [c], conns_mtx := None, client_listener := LCheck\<rparr>"
proof (cases "client_listener s")
  case LCheck
  then show thesis using assms check by (simp add: listener_step_def)
next
  case LAccept
  then show thesis using assms closed by (simp add: listener_step_def split: if_splits)
next
  case (LLock c)
  then show thesis using assms lock [of c] by (simp add: listener_step_def lock_conns_def split: if_splits)
next
  case (LSpawn c)
  then show thesis using assms spawn [of c] by (simp add: listener_step_def set_handler_def)
next
  case (LPush c)
  then show thesis using assms push [of c] by (simp add: listener_step_def)
qed (use assms in \<open>simp_all add: listener_step_def\<close>)

lemma handler_cases:
  assumes "handler_step sent c s = Some s'"
  obtains (check) "handlers s c = HCheck" "s' = s\<lparr>handlers := (handlers s)(c := (if sm_is_stopped s then HShutdown else HConn))\<rparr>"
  | (conn) "handlers s c = HConn" "s' = s\<lparr>handlers := (handlers s)(c := (if conn_connected s c then HRecv else HShutdown))\<rparr>"
  | (recv) "handlers s c = HRecv" "conn_shut s c" "s' = s\<lparr>handlers := (handlers s)(c := HShutdown)\<rparr>"
  | (throw) req where "handlers s c = HServe req" "s' = s\<lparr>terminated := True\<rparr>"
  | (serve) req where "handlers s c = HServe req" "s' = s\<lparr>handlers := (handlers s)(c := (if sent then HCheck else HShutdown))\<rparr>"
  | (shutdown) "handlers s c = HShutdown" "s' = (conn_shutdown c s)\<lparr>handlers := (handlers s)(c := HLock)\<rparr>"
  | (lock) "handlers s c = HLock" "conns_mtx s = None" "s' = s\<lparr>conns_mtx := Some (Handler c), handlers := (handlers s)(c := HErase)\<rparr>"
  | (erase) "handlers s c = HErase" "c \<in> set (current_conns s)"
      "s' = s\<lparr>current_conns := remove1 c (current_conns s), handlers := (handlers s)(c := HNotify)\<rparr>"
  | (gone) "handlers s c = HErase" "c \<notin> set (current_conns s)" "s' = s\<lparr>missing_conn := True, handlers := (handlers s)(c := HNotify)\<rparr>"
  | (notify) "handlers s c = HNotify" "s' = s\<lparr>conns_mtx := None,
       stopper := (if current_conns s = [] \<and> stopper s = SWaiting then SRelock else stopper s), handlers := (handlers s)(c := HDone)\<rparr>"
proof (cases "handlers s c")
  case HCheck
  then show thesis using assms check by (simp add: handler_step_def set_handler_def)
next
  case HConn
  then show thesis using assms conn by (simp add: handler_step_def set_handler_def)
next
  case HRecv
  then show thesis using assms recv by (simp add: handler_step_def set_handler_def split: if_splits)
next
  case (HServe req)
  then show thesis using assms throw [of req] serve [of req] by (simp add: handler_step_def set_handler_def split: sum.splits)
next
  case HShutdown
  then show thesis using assms shutdown by (simp add: handler_step_def set_handler_def conn_shutdown_def split: if_splits)
next
  case HLock
  then show thesis using assms lock by (simp add: handler_step_def set_handler_def lock_conns_def split: if_splits)
next
  case HErase
  then show thesis using assms erase gone by (simp add: handler_step_def set_handler_def split: if_splits)
next
  case HNotify
  then show thesis using assms notify by (simp add: handler_step_def set_handler_def)
next
  case HNone
  then show thesis using assms by (simp add: handler_step_def)
next
  case HDone
  then show thesis using assms by (simp add: handler_step_def)
qed

lemma stopper_cases:
  assumes "stopper_step s = Some s'"
  obtains (flag) "stopper s = SFlag" "s' = s\<lparr>sm_is_stopped := True, stopper := SShutListener\<rparr>"
  | (shut) "stopper s = SShutListener" "s' = s\<lparr>listener_open := False, stopper := SJoin\<rparr>"
  | (throw) "stopper s = SJoin" "client_listener s = LNone" "s' = s\<lparr>stopper := SThrown\<rparr>"
  | (join) "stopper s = SJoin" "client_listener s = LDone" "s' = s\<lparr>stopper := SLock\<rparr>"
  | (lock) "stopper s = SLock" "conns_mtx s = None" "s' = s\<lparr>conns_mtx := Some Stopper, stopper := SClose (current_conns s)\<rparr>"
  | (closed) "stopper s = SClose []" "s' = s\<lparr>stopper := SPred\<rparr>"
  | (close) c cs where "stopper s = SClose (c # cs)" "s' = (conn_shutdown c s)\<lparr>stopper := SClose cs\<rparr>"
  | (pred) "stopper s = SPred" "s' = s\<lparr>conns_mtx := None, stopper := (if current_conns s = [] then SDone else SWaiting)\<rparr>"
  | (relock) "stopper s = SRelock" "conns_mtx s = None" "s' = s\<lparr>conns_mtx := Some Stopper, stopper := SPred\<rparr>"
proof (cases "stopper s")
  case SFlag
  then show thesis using assms flag by (simp add: stopper_step_def)
next
  case SShutListener
  then show thesis using assms shut by (simp add: stopper_step_def)
next
  case SJoin
  then show thesis using assms throw join by (simp add: stopper_step_def split: listener_pc.splits)
next
  case SLock
  then show thesis using assms lock by (simp add: stopper_step_def lock_conns_def split: if_splits)
next
  case (SClose cs)
  then show thesis using assms closed close by (cases cs) (simp_all add: stopper_step_def)
next
  case SPred
  then show thesis using assms pred by (simp add: stopper_step_def)
next
  case SRelock
  then show thesis using assms relock by (simp add: stopper_step_def lock_conns_def split: if_splits)
qed (use assms in \<open>simp_all add: stopper_step_def\<close>)

lemma conn_shutdown_simps [simp]:
  "sm_is_stopped (conn_shutdown c s) = sm_is_stopped s"
  "listener_open (conn_shutdown c s) = listener_open s"
  "current_conns (conn_shutdown c s) = current_conns s"
  "conns_mtx (conn_shutdown c s) = conns_mtx s"
  "conn_connected (conn_shutdown c s) = (conn_connected s)(c := False)"
  "conn_shut (conn_shutdown c s) = (if conn_connected s c then (conn_shut s)(c := True) else conn_shut s)"
  "accepted (conn_shutdown c s) = accepted s"
  "client_listener (conn_shutdown c s) = client_listener s"
  "handlers (conn_shutdown c s) = handlers s"
  "stopper (conn_shutdown c s) = stopper s"
  "missing_conn (conn_shutdown c s) = missing_conn s"
  "terminated (conn_shutdown c s) = terminated s"
  by (auto simp: conn_shutdown_def fun_eq_iff)

lemma mutex_unique: "mutex_ok s \<Longrightarrow> handlers s c \<in> {HErase, HNotify} \<Longrightarrow> handlers s c' \<in> {HErase, HNotify} \<Longrightarrow> c = c'"
  unfolding mutex_ok_def by (metis insert_iff option.inject sm_thread.inject singletonD)

lemma listener_mutex: "mutex_ok s \<Longrightarrow> listener_step s = Some s' \<Longrightarrow> mutex_ok s'"
  by (erule listener_cases) (auto simp: mutex_ok_def split: if_splits)

lemma handler_mutex:
  assumes "mutex_ok s" and "handler_step sent c s = Some s'"
  shows "mutex_ok s'"
  using assms(2) by (cases rule: handler_cases)
    (use assms(1) mutex_unique [OF assms(1), of c] in \<open>auto simp: mutex_ok_def split: if_splits\<close>)

lemma stopper_mutex: "mutex_ok s \<Longrightarrow> stopper_step s = Some s' \<Longrightarrow> mutex_ok s'"
  by (erule stopper_cases) (auto simp: mutex_ok_def split: if_splits)

lemma listener_new: "new_conns_ok s \<Longrightarrow> listener_step s = Some s' \<Longrightarrow> new_conns_ok s'"
  by (erule listener_cases) (auto simp: new_conns_ok_def split: if_splits)

lemma spawned:
  "new_conns_ok s \<Longrightarrow> handlers s c \<noteq> HNone \<Longrightarrow> c < accepted s \<and> client_listener s \<noteq> LLock c \<and> client_listener s \<noteq> LSpawn c"
  unfolding new_conns_ok_def by (metis not_le)

lemma erase_not_push:
  assumes "mutex_ok s" and "handlers s c = HErase"
  shows "client_listener s \<noteq> LPush c"
proof
  assume "client_listener s = LPush c"
  with assms(1) have "conns_mtx s = Some Listener" by (auto simp: mutex_ok_def)
  moreover from assms have "conns_mtx s = Some (Handler c)" by (auto simp: mutex_ok_def)
  ultimately show False by simp
qed

lemma handler_new:
  assumes "new_conns_ok s" and "mutex_ok s" and "handler_step sent c s = Some s'"
  shows "new_conns_ok s'"
  using assms(3) by (cases rule: handler_cases)
    (use assms(1) spawned [OF assms(1), of c] erase_not_push [OF assms(2), of c] in
      \<open>auto simp: new_conns_ok_def split: if_splits\<close>)

lemma stopper_new: "new_conns_ok s \<Longrightarrow> stopper_step s = Some s' \<Longrightarrow> new_conns_ok s'"
  by (erule stopper_cases) (auto simp: new_conns_ok_def split: if_splits)

lemma listener_conns:
  assumes "conns_ok s" and "new_conns_ok s" and "listener_step s = Some s'"
  shows "conns_ok s'"
proof -
  have "handlers s c = HNone" if "client_listener s = LSpawn c" for c
    using that assms(2) by (simp add: new_conns_ok_def)
  moreover have "running (handlers s c)" if "client_listener s = LPush c" for c
    using that assms(2) by (simp add: new_conns_ok_def)
  moreover note assms(1)
  ultimately show ?thesis
    using assms(3) by (elim listener_cases) (auto simp: conns_ok_def split: if_splits)
qed

lemma handler_conns:
  assumes "conns_ok s" and "mutex_ok s" and "handler_step sent c s = Some s'"
  shows "conns_ok s'"
  using assms(3) by (cases rule: handler_cases)
    (use assms(1) erase_not_push [OF assms(2), of c] in \<open>auto simp: conns_ok_def split: if_splits\<close>)

lemma stopper_conns: "conns_ok s \<Longrightarrow> stopper_step s = Some s' \<Longrightarrow> conns_ok s'"
  by (erule stopper_cases) (auto simp: conns_ok_def split: if_splits)

lemma listener_sockets: "sockets_ok s \<Longrightarrow> listener_step s = Some s' \<Longrightarrow> sockets_ok s'"
  by (erule listener_cases) (simp_all add: sockets_ok_def)

lemma handler_sockets:
  assumes "sockets_ok s" and "handler_step sent c s = Some s'"
  shows "sockets_ok s'"
  using assms(2) by (cases rule: handler_cases) (use assms(1) in \<open>auto simp: sockets_ok_def\<close>)

lemma stopper_sockets:
  assumes "sockets_ok s" and "stopper_step s = Some s'"
  shows "sockets_ok s'"
  using assms(2) by (cases rule: stopper_cases) (use assms(1) in \<open>auto simp: sockets_ok_def\<close>)

lemma listener_joined:
  assumes "joined_ok s" and "listener_step s = Some s'"
  shows "joined_ok s'"
  using assms(2) by (cases rule: listener_cases) (use assms(1) in \<open>simp_all add: joined_ok_def\<close>)

lemma handler_joined:
  assumes "joined_ok s" and "handler_step sent c s = Some s'"
  shows "joined_ok s'"
  using assms(2) by (cases rule: handler_cases) (use assms(1) in \<open>simp_all add: joined_ok_def\<close>)

lemma stopper_joined:
  assumes "joined_ok s" and "stopper_step s = Some s'"
  shows "joined_ok s'"
  using assms(2) by (cases rule: stopper_cases) (use assms(1) in \<open>simp_all add: joined_ok_def\<close>)

lemma listener_closed:
  assumes "closed_ok s" and "joined_ok s" and "listener_step s = Some s'"
  shows "closed_ok s'"
  using assms(3) by (cases rule: listener_cases) (use assms(1,2) in \<open>auto simp: closed_ok_def joined_ok_def\<close>)

lemma handler_closed:
  assumes "closed_ok s" and "handler_step sent c s = Some s'"
  shows "closed_ok s'"
  using assms(2) by (cases rule: handler_cases)
    (use assms(1) in \<open>auto simp: closed_ok_def dest: in_set_remove1 [THEN iffD1, rotated] notin_set_remove1 split: if_splits\<close>)

lemma stopper_closed:
  assumes "closed_ok s" and "joined_ok s" and "stopper_step s = Some s'"
  shows "closed_ok s'"
  using assms(3) by (cases rule: stopper_cases) (use assms(1,2) in \<open>auto simp: closed_ok_def joined_ok_def\<close>)

lemma listener_stop:
  assumes "stop_ok s" and "joined_ok s" and "listener_step s = Some s'"
  shows "stop_ok s'"
  using assms(3) by (cases rule: listener_cases) (use assms(1,2) in \<open>auto simp: stop_ok_def joined_ok_def\<close>)

lemma handler_stop:
  assumes "stop_ok s" and "mutex_ok s" and "handler_step sent c s = Some s'"
  shows "stop_ok s'"
  using assms(3) by (cases rule: handler_cases)
    (use assms(1,2) in \<open>auto simp: stop_ok_def mutex_ok_def split: if_splits\<close>)

lemma stopper_stop:
  assumes "stop_ok s" and "stopper_step s = Some s'"
  shows "stop_ok s'"
  using assms(2) by (cases rule: stopper_cases) (use assms(1) in \<open>simp_all add: stop_ok_def\<close>)

lemma listener_no_miss: "\<not> missing_conn s \<Longrightarrow> listener_step s = Some s' \<Longrightarrow> \<not> missing_conn s'"
  by (erule listener_cases) simp_all

lemma handler_no_miss:
  assumes "\<not> missing_conn s" and "conns_ok s" and "mutex_ok s" and "handler_step sent c s = Some s'"
  shows "\<not> missing_conn s'"
  using assms(4) by (cases rule: handler_cases)
    (use assms(1,2) erase_not_push [OF assms(3), of c] in \<open>simp_all add: conns_ok_def\<close>)

lemma stopper_no_miss: "\<not> missing_conn s \<Longrightarrow> stopper_step s = Some s' \<Longrightarrow> \<not> missing_conn s'"
  by (erule stopper_cases) simp_all

lemma sm_inv_step:
  assumes "sm_inv s" and "sm_step s s'"
  shows "sm_inv s'"
  using assms(2)
proof (cases rule: sm_step.cases)
  case listens
  then show ?thesis
    using assms(1) listener_mutex listener_new listener_conns listener_sockets listener_joined listener_closed listener_stop
      listener_no_miss unfolding sm_inv_def by blast
next
  case (handles sent c)
  then show ?thesis
    using assms(1) handler_mutex [of s sent c s'] handler_new [of s sent c s'] handler_conns [of s sent c s']
      handler_sockets [of s sent c s'] handler_joined [of s sent c s'] handler_closed [of s sent c s']
      handler_stop [of s sent c s'] handler_no_miss [of s sent c s'] unfolding sm_inv_def by simp
next
  case stops
  then show ?thesis
    using assms(1) stopper_mutex stopper_new stopper_conns stopper_sockets stopper_joined stopper_closed stopper_stop
      stopper_no_miss unfolding sm_inv_def by blast
qed

lemma sm_inv_connects:
  assumes "sm_inv s" and "client_listener s = LAccept"
  shows "sm_inv (s\<lparr>client_listener := LLock (accepted s), accepted := Suc (accepted s),
    conn_connected := (conn_connected s)(accepted s := True)\<rparr>)" (is "sm_inv ?t")
proof -
  have fresh: "handlers s (accepted s) = HNone" using assms by (simp add: sm_inv_def new_conns_ok_def)
  then have none: "accepted s \<notin> set (current_conns s)" using assms by (simp add: sm_inv_def conns_ok_def)
  note inv = assms(1) [unfolded sm_inv_def]
  have "mutex_ok ?t" using inv assms(2) by (simp add: mutex_ok_def)
  moreover have "conns_ok ?t" using inv assms(2) by (simp add: conns_ok_def)
  moreover have "handlers s c = HNone \<longleftrightarrow> accepted s \<le> c" for c using inv assms(2) by (simp add: new_conns_ok_def)
  then have "handlers s c = HNone \<longleftrightarrow> Suc (accepted s) \<le> c \<or> accepted s = c" for c by (metis le_eq_less_or_eq Suc_le_eq)
  then have "new_conns_ok ?t" by (simp add: new_conns_ok_def)
  moreover have "sockets_ok ?t" using inv fresh by (simp add: sockets_ok_def less_Suc_eq)
  moreover have "joined_ok ?t" using inv assms(2) by (simp add: joined_ok_def)
  moreover have "closed_ok ?t" using inv none by (simp add: closed_ok_def)
  moreover have "stop_ok ?t" using inv by (simp add: stop_ok_def)
  ultimately show ?thesis using assms(1) by (simp add: sm_inv_def)
qed

lemma sm_inv_request:
  assumes "sm_inv s" and "handlers s c = HRecv" and "running h" "h \<noteq> HNone" "\<not> closing h"
  shows "sm_inv (set_handler c h s)" (is "sm_inv ?t")
proof -
  have h: "h \<noteq> HErase" "h \<noteq> HNotify" using assms(5) by auto
  note new = spawned [of s c]
  have "mutex_ok ?t" using assms h by (auto simp: sm_inv_def mutex_ok_def set_handler_def)
  moreover have "conns_ok ?t" using assms by (simp add: sm_inv_def conns_ok_def set_handler_def)
  moreover have "new_conns_ok ?t" using assms new by (auto simp: sm_inv_def new_conns_ok_def set_handler_def)
  moreover have "sockets_ok ?t" using assms by (simp add: sm_inv_def sockets_ok_def set_handler_def)
  moreover have "joined_ok ?t" using assms(1) by (simp add: sm_inv_def joined_ok_def set_handler_def)
  moreover have "closed_ok ?t" using assms(1) by (simp add: sm_inv_def closed_ok_def set_handler_def)
  moreover have "stop_ok ?t" using assms(1) by (simp add: sm_inv_def stop_ok_def set_handler_def)
  ultimately show ?thesis using assms(1) by (simp add: sm_inv_def set_handler_def)
qed

lemma sm_inv_accept_fails: "sm_inv s \<Longrightarrow> client_listener s = LAccept \<Longrightarrow> sm_inv (s\<lparr>client_listener := LDone\<rparr>)"
  unfolding sm_inv_def
proof (elim conjE, intro conjI)
  assume "mutex_ok s" "client_listener s = LAccept"
  then show "mutex_ok (s\<lparr>client_listener := LDone\<rparr>)" by (simp add: mutex_ok_def)
qed (simp_all add: conns_ok_def new_conns_ok_def sockets_ok_def joined_ok_def closed_ok_def stop_ok_def)

lemma sm_inv_calls_stop: "sm_inv s \<Longrightarrow> stopper s = SIdle \<Longrightarrow> sm_inv (s\<lparr>stopper := SFlag\<rparr>)"
  by (simp add: sm_inv_defs)

lemma sm_inv_env:
  assumes "sm_inv s" and "env_step s s'"
  shows "sm_inv s'"
  using assms(2) by (cases rule: env_step.cases)
    (use assms(1) in \<open>simp_all add: sm_inv_connects sm_inv_request sm_inv_accept_fails sm_inv_calls_stop\<close>)

lemma sm_inv_spurious: "sm_inv s \<Longrightarrow> stopper s = SWaiting \<Longrightarrow> sm_inv (s\<lparr>stopper := SRelock\<rparr>)"
  by (simp add: sm_inv_defs)

lemma sm_reachable_inv: "sm_reachable s \<Longrightarrow> sm_inv s"
  by (induction rule: sm_reachable.induct) (blast intro: sm_inv_started sm_inv_step sm_inv_env sm_inv_spurious)+

section \<open>Shutting down\<close>

lemma holder_moves:
  assumes "mutex_ok s" and "\<not> terminated s" and "conns_mtx s = Some t"
  shows "\<exists>s'. sm_step s s'"
proof (cases t)
  case Listener
  then obtain c where "client_listener s = LSpawn c \<or> client_listener s = LPush c" using assms by (auto simp: mutex_ok_def)
  then have "\<exists>s'. listener_step s = Some s'" by (auto simp: listener_step_def)
  then show ?thesis using assms(2) listens by blast
next
  case (Handler c)
  then have "handlers s c = HErase \<or> handlers s c = HNotify" using assms by (auto simp: mutex_ok_def)
  then have "\<exists>s'. handler_step False c s = Some s'" by (auto simp: handler_step_def)
  then show ?thesis using assms(2) handles by blast
next
  case Stopper
  then have "stopper s = SPred \<or> (\<exists>cs. stopper s = SClose cs)" using assms by (auto simp: mutex_ok_def)
  then have "\<exists>s'. stopper_step s = Some s'" by (auto simp: stopper_step_def split: list.splits)
  then show ?thesis using assms(2) stops by blast
qed

lemma listener_moves:
  assumes "mutex_ok s" and "joined_ok s" and "\<not> terminated s" and "\<not> listener_open s" and "client_listener s \<noteq> LDone"
  shows "\<exists>s'. sm_step s s'"
proof (cases "conns_mtx s")
  case None
  then have "\<exists>s'. listener_step s = Some s'"
    using assms by (cases "client_listener s") (auto simp: listener_step_def lock_conns_def joined_ok_def)
  then show ?thesis using assms(3) listens by blast
qed (use holder_moves assms in blast)

lemma closed_handler_moves:
  assumes "mutex_ok s" and "\<not> terminated s" and "running (handlers s c)" and "conn_shut s c"
  shows "\<exists>s'. sm_step s s'"
proof (cases "conns_mtx s")
  case None
  then have "\<exists>s'. handler_step False c s = Some s'"
    using assms by (cases "handlers s c") (auto simp: handler_step_def lock_conns_def split: sum.splits)
  then show ?thesis using assms(2) handles by blast
qed (use holder_moves assms in blast)

lemma conn_closed:
  assumes "sm_inv s" and "6 \<le> stop_rank (stopper s)" and "c \<in> set (current_conns s)"
  shows "running (handlers s c) \<and> conn_shut s c"
proof -
  have run: "running (handlers s c)" using assms by (simp add: sm_inv_def conns_ok_def)
  then have "handlers s c \<noteq> HNone" by auto
  then have "c < accepted s" using spawned [of s c] assms(1) by (simp add: sm_inv_def)
  moreover have "to_close (stopper s) = []" using assms(2) by (cases "stopper s") auto
  then have "\<not> conn_connected s c" using assms by (auto simp: sm_inv_def closed_ok_def)
  ultimately show ?thesis using run assms(1) by (auto simp: sm_inv_def sockets_ok_def)
qed

lemma stopper_moves: "\<not> terminated s \<Longrightarrow> stopper_step s = Some s' \<Longrightarrow> \<exists>s'. sm_step s s'"
  by (blast intro: stops)

lemma stopping_moves:
  assumes inv: "sm_inv s" and "sm_is_stopped s" and live: "\<not> terminated s" and "stopper s \<noteq> SDone"
  shows "\<exists>s'. sm_step s s'"
proof -
  have mtx: "mutex_ok s" and join: "joined_ok s" using inv by (simp_all add: sm_inv_def)
  have rank: "2 \<le> stop_rank (stopper s)" using join assms(2) by (simp add: joined_ok_def)
  show ?thesis
  proof (cases "stopper s")
    case SJoin
    then have "\<not> listener_open s" using join by (simp add: joined_ok_def)
    then show ?thesis using listener_moves [OF mtx join live] stopper_moves [OF live] SJoin
      by (cases "client_listener s = LDone") (auto simp: stopper_step_def)
  next
    case SLock
    then show ?thesis using holder_moves [OF mtx live] stopper_moves [OF live]
      by (cases "conns_mtx s") (auto simp: stopper_step_def lock_conns_def)
  next
    case SRelock
    then show ?thesis using holder_moves [OF mtx live] stopper_moves [OF live]
      by (cases "conns_mtx s") (auto simp: stopper_step_def lock_conns_def)
  next
    case (SClose cs)
    then show ?thesis using stopper_moves [OF live] by (cases cs) (auto simp: stopper_step_def)
  next
    case SWaiting
    show ?thesis
    proof (cases "current_conns s")
      case Nil
      with SWaiting inv obtain c where "conns_mtx s = Some (Handler c)" by (auto simp: sm_inv_def stop_ok_def)
      then show ?thesis by (rule holder_moves [OF mtx live])
    next
      case (Cons c cs)
      then show ?thesis using conn_closed [OF inv, of c] closed_handler_moves [OF mtx live, of c] SWaiting by simp
    qed
  qed (use rank assms(4) join stopper_moves [OF live] in
    \<open>auto simp: stopper_step_def joined_ok_def split: list.splits\<close>)
qed

fun listener_weight :: "listener_pc \<Rightarrow> nat" where
  "listener_weight LNone = 0"
| "listener_weight LCheck = 1"
| "listener_weight LAccept = 13"
| "listener_weight (LLock c) = 12"
| "listener_weight (LSpawn c) = 11"
| "listener_weight (LPush c) = 3"
| "listener_weight LDone = 0"

fun handler_weight :: "handler_pc \<Rightarrow> nat" where
  "handler_weight HNone = 0"
| "handler_weight HCheck = 7"
| "handler_weight HConn = 10"
| "handler_weight HRecv = 9"
| "handler_weight (HServe req) = 8"
| "handler_weight HShutdown = 6"
| "handler_weight HLock = 5"
| "handler_weight HErase = 4"
| "handler_weight HNotify = 3"
| "handler_weight HDone = 0"

fun stop_weight :: "stop_pc \<Rightarrow> nat \<Rightarrow> nat" where
  "stop_weight SIdle n = 8 + n"
| "stop_weight SFlag n = 7 + n"
| "stop_weight SShutListener n = 6 + n"
| "stop_weight SJoin n = 5 + n"
| "stop_weight SLock n = 4 + n"
| "stop_weight (SClose cs) n = 3 + length cs"
| "stop_weight SPred n = 2"
| "stop_weight SWaiting n = 1"
| "stop_weight SRelock n = 3"
| "stop_weight SDone n = 0"
| "stop_weight SThrown n = 0"

definition handlers_weight :: "shardmaster \<Rightarrow> nat" where
  "handlers_weight s = (\<Sum>c < accepted s. handler_weight (handlers s c))"

definition sm_weight :: "shardmaster \<Rightarrow> nat" where
  "sm_weight s = stop_weight (stopper s) (length (current_conns s)) + listener_weight (client_listener s) + handlers_weight s"

lemma handlers_weight_moves:
  assumes "c < accepted s" and "accepted s' = accepted s" and "handlers s' = (handlers s)(c := h)"
  shows "handlers_weight s' + handler_weight (handlers s c) = handlers_weight s + handler_weight h"
proof -
  have "(\<Sum>c < accepted s. handler_weight (f c)) = handler_weight (f c) + (\<Sum>c \<in> {..<accepted s} - {c}. handler_weight (f c))" for f
    by (rule sum.remove) (use assms(1) in simp_all)
  from this [of "handlers s"] this [of "handlers s'"] show ?thesis using assms by (simp add: handlers_weight_def)
qed

lemma stop_weight_mono: "m \<le> n \<Longrightarrow> stop_weight p m \<le> stop_weight p n" "stop_weight p (Suc n) \<le> Suc (stop_weight p n)"
  by (cases p; simp)+

lemma listener_falls:
  assumes "sm_inv s" and "sm_is_stopped s" and "listener_step s = Some s'"
  shows "sm_weight s' < sm_weight s"
  using assms(3)
proof (cases rule: listener_cases)
  case (spawn c)
  then have "c < accepted s" "handlers s c = HNone" using assms(1) by (simp_all add: sm_inv_def new_conns_ok_def)
  then show ?thesis using spawn handlers_weight_moves [of c s s' HCheck] by (simp add: sm_weight_def)
next
  case (push c)
  then show ?thesis using stop_weight_mono(2) [of "stopper s" "length (current_conns s)"]
    by (simp add: sm_weight_def handlers_weight_def)
qed (use assms(2) in \<open>simp_all add: sm_weight_def handlers_weight_def\<close>)

lemma stopper_falls:
  assumes "sm_inv s" and "stopper_step s = Some s'"
  shows "sm_weight s' < sm_weight s"
  using assms(2) by (cases rule: stopper_cases) (simp_all add: sm_weight_def handlers_weight_def)

lemma handler_falls:
  assumes "sm_inv s" and "sm_is_stopped s" and "handler_step sent c s = Some s'" and "\<not> terminated s'"
  shows "sm_weight s' < sm_weight s"
proof -
  have "handlers s c \<noteq> HNone" using assms(3) by (auto simp: handler_step_def)
  then have c: "c < accepted s" using spawned [of s c] assms(1) by (simp add: sm_inv_def)
  have "accepted s' = accepted s" "handlers s' = (handlers s)(c := handlers s' c)"
    using assms(3) by (auto elim!: handler_cases)
  note moves = handlers_weight_moves [OF c this]
  show ?thesis
    using assms(3)
  proof (cases rule: handler_cases)
    case erase
    then show ?thesis
      using moves stop_weight_mono(1) [of "length (remove1 c (current_conns s))" "length (current_conns s)" "stopper s"]
      by (simp add: sm_weight_def length_remove1)
  qed (use assms(2,4) moves in \<open>auto simp: sm_weight_def\<close>)
qed

lemma request_falls:
  assumes "sm_inv s" and "handlers s c = HRecv" and "handler_weight h < 9"
  shows "sm_weight (set_handler c h s) < sm_weight s"
proof -
  have "c < accepted s" using spawned [of s c] assms(1,2) by (simp add: sm_inv_def)
  from handlers_weight_moves [OF this, of "set_handler c h s" h] assms(2,3)
  show ?thesis by (simp add: sm_weight_def set_handler_def)
qed

lemma connect_falls:
  assumes "sm_inv s" and "client_listener s = LAccept"
  shows "sm_weight (s\<lparr>client_listener := LLock c, accepted := Suc (accepted s), conn_connected := f\<rparr>) < sm_weight s"
proof -
  have "handlers s (accepted s) = HNone" using assms by (simp add: sm_inv_def new_conns_ok_def)
  then show ?thesis using assms(2) by (simp add: sm_weight_def handlers_weight_def)
qed

lemma env_falls:
  assumes "sm_inv s" and "sm_is_stopped s" and "env_step s s'"
  shows "sm_weight s' < sm_weight s"
  using assms(3)
proof (cases rule: env_step.cases)
  case calls_stop
  then show ?thesis using assms(1,2) by (simp add: sm_inv_def joined_ok_def)
qed (use assms(1) connect_falls request_falls in \<open>simp_all add: sm_weight_def handlers_weight_def\<close>)

lemma step_falls: "sm_inv s \<Longrightarrow> sm_is_stopped s \<Longrightarrow> sm_step s s' \<Longrightarrow> terminated s' \<or> sm_weight s' < sm_weight s"
  by (erule sm_step.cases) (use listener_falls handler_falls stopper_falls in blast)+

lemma stays_stopped: "sm_is_stopped s \<Longrightarrow> sm_step s s' \<or> env_step s s' \<Longrightarrow> sm_is_stopped s'"
  by (auto elim!: sm_step.cases env_step.cases listener_cases handler_cases stopper_cases simp: set_handler_def)

lemma done_clean:
  assumes "sm_inv s" and "stopper s = SDone"
  shows "sm_clean s"
proof -
  have listener: "client_listener s = LDone" and none: "current_conns s = []"
    using assms by (simp_all add: sm_inv_def joined_ok_def stop_ok_def)
  have "conn_shut s c \<and> \<not> running (handlers s c)" if "c < accepted s" for c
  proof -
    have idle: "\<not> running (handlers s c)" using assms(1) listener none by (simp add: sm_inv_def conns_ok_def)
    moreover have "handlers s c \<noteq> HNone" using assms(1) listener that by (simp add: sm_inv_def new_conns_ok_def)
    ultimately have "closing (handlers s c)" by (cases "handlers s c") simp_all
    then show ?thesis using idle that assms(1) by (auto simp: sm_inv_def sockets_ok_def)
  qed
  with listener none assms(2) show ?thesis by (simp add: sm_clean_def)
qed

definition sm_stopping :: "nat \<times> shardmaster \<Rightarrow> bool" where
  "sm_stopping p \<longleftrightarrow> sm_inv (snd p) \<and> sm_is_stopped (snd p)"

definition sm_over :: "nat \<times> shardmaster \<Rightarrow> bool" where
  "sm_over p \<longleftrightarrow> terminated (snd p) \<or> sm_clean (snd p)"

interpretation sm_stop: ending sm_own sm_surroundings sm_stopping sm_over "\<lambda>p. 3 * fst p + sm_weight (snd p)"
proof
  fix p assume "sm_stopping p" "\<not> sm_over p"
  moreover from this have "stopper (snd p) \<noteq> SDone" by (auto simp: sm_stopping_def sm_over_def done_clean)
  ultimately obtain s' where "sm_step (snd p) s'" using stopping_moves [of "snd p"] by (auto simp: sm_stopping_def sm_over_def)
  then have "sm_own p (fst p, s')" by (simp add: sm_own_def)
  then show "\<exists>q. sm_own p q" ..
next
  fix p q assume stopping: "sm_stopping p" and "\<not> sm_over p" and "sm_own p q \<or> sm_surroundings p q"
  from this(3) show "sm_over q \<or> sm_stopping q \<and> 3 * fst q + sm_weight (snd q) < 3 * fst p + sm_weight (snd p)"
  proof
    assume "sm_own p q"
    then show ?thesis using stopping step_falls [of "snd p" "snd q"] sm_inv_step [of "snd p" "snd q"] stays_stopped [of "snd p" "snd q"]
      by (auto simp: sm_own_def sm_stopping_def sm_over_def)
  next
    assume "sm_surroundings p q"
    then show ?thesis
    proof cases
      case (env_moves s s' n)
      then show ?thesis using stopping env_falls [of s s'] sm_inv_env [of s s'] stays_stopped [of s s']
        by (simp add: sm_stopping_def)
    next
      case (wakes s n)
      then show ?thesis using stopping sm_inv_spurious [of s]
        by (simp add: sm_stopping_def sm_weight_def handlers_weight_def)
    qed
  qed
qed

lemma failed_start_throws:
  "\<exists>s1 s2 s3. stopper_step (sm_destructor (snd (sm_start (- 1) sm_new))) = Some s1 \<and> stopper_step s1 = Some s2
     \<and> stopper_step s2 = Some s3 \<and> stopper s3 = SThrown"
  by (simp add: sm_destructor_def sm_start_def sm_new_def stopper_step_def)

text \<open>A shardmaster that serves one client, and the same after \<open>stop\<close> has set its flag.\<close>

definition sample_serving :: shardmaster where
  "sample_serving = sm_new\<lparr>listener_open := True, current_conns := [0], conn_connected := (\<lambda>c. c = 0), accepted := 1,
     client_listener := LCheck, handlers := (\<lambda>c. if c = 0 then HCheck else HNone)\<rparr>"

lemma sample_serving_reachable: "sm_reachable sample_serving"
proof -
  note sample = sm_start_def sm_new_def listener_step_def lock_conns_def set_handler_def sample_serving_def fun_upd_def
  have "sm_reachable (snd (sm_start 3 sm_new))" by (rule started) simp
  then have "sm_reachable (sm_new\<lparr>listener_open := True, client_listener := LAccept\<rparr>)" (is "sm_reachable ?s")
    by (rule steps [OF _ listens]) (simp_all add: sample)
  then have "sm_reachable (?s\<lparr>client_listener := LLock 0, accepted := Suc 0, conn_connected := (conn_connected ?s)(0 := True)\<rparr>)"
    by (rule env [OF _ connects]) (simp_all add: sm_new_def)
  then have "sm_reachable (sm_new\<lparr>listener_open := True, conns_mtx := Some Listener,
    client_listener := LSpawn 0, accepted := 1, conn_connected := (\<lambda>c. c = 0)\<rparr>)"
    by (rule steps [OF _ listens]) (simp_all add: sample fun_eq_iff)
  then have "sm_reachable (sm_new\<lparr>listener_open := True, conns_mtx := Some Listener, accepted := 1,
    client_listener := LPush 0, conn_connected := (\<lambda>c. c = 0), handlers := (\<lambda>c. if c = 0 then HCheck else HNone)\<rparr>)"
    by (rule steps [OF _ listens]) (simp_all add: sample fun_eq_iff)
  then show ?thesis by (rule steps [OF _ listens]) (simp_all add: sample)
qed

lemma sample_stopping_reachable: "sm_reachable (sample_serving\<lparr>sm_is_stopped := True, stopper := SShutListener\<rparr>)"
proof -
  have "sm_reachable (sample_serving\<lparr>stopper := SFlag\<rparr>)"
    by (rule env [OF sample_serving_reachable calls_stop]) (simp_all add: sample_serving_def sm_new_def)
  then show ?thesis by (rule steps [OF _ stops]) (simp_all add: stopper_step_def sample_serving_def sm_new_def)
qed

text \<open>
  C13: whatever the clients of a shardmaster do, and however its threads are scheduled, its list of
  connections holds, without repetition, the connections of exactly the client threads that have
  not yet removed theirs (but for the one the listener has just started while it holds the mutex),
  at most one thread is inside the mutex, and a client thread never finds its connection missing,
  the case whose message asks the user to report it.
\<close>

theorem conns_invariant:
  assumes "sm_reachable s"
  shows "mutex_ok s \<and> distinct (current_conns s) \<and> \<not> missing_conn s
    \<and> set (current_conns s) = {c. running (handlers s c) \<and> client_listener s \<noteq> LPush c}"
  using sm_reachable_inv [OF assms] by (auto simp: sm_inv_def conns_ok_def)

theorem conns_invariant_witness:
  "mutex_ok sample_serving \<and> current_conns sample_serving = [0]
    \<and> set (current_conns sample_serving) = {c. running (handlers sample_serving c) \<and> client_listener sample_serving \<noteq> LPush c}"
  using conns_invariant [OF sample_serving_reachable] by (simp add: sample_serving_def)

text \<open>
  C12: once \<open>stop\<close> has set its flag, the shardmaster shuts down: however the threads are scheduled,
  whatever the clients send, and with any number of spurious wake-ups of the condition variable,
  some thread can always move, and every run ends with the listener thread joined, no connection
  left, every client thread past its last access to the list and every socket shut down, unless a
  client makes \<open>process_request\<close> throw, which ends the program.
\<close>

theorem stop_completes:
  assumes "sm_reachable s" and "sm_is_stopped s"
  shows "inevitably sm_own sm_surroundings (\<lambda>p. terminated (snd p) \<or> sm_clean (snd p)) (n, s)"
  using sm_stop.inevitable [of "(n, s)"] sm_reachable_inv [OF assms(1)] assms(2)
  by (simp add: sm_stopping_def sm_over_def [abs_def])

theorem stop_completes_witness:
  "\<exists>s. current_conns s = [0] \<and> conn_connected s 0
    \<and> inevitably sm_own sm_surroundings (\<lambda>p. terminated (snd p) \<or> sm_clean (snd p)) (2, s)"
proof (intro exI conjI)
  show "inevitably sm_own sm_surroundings (\<lambda>p. terminated (snd p) \<or> sm_clean (snd p))
    (2, sample_serving\<lparr>sm_is_stopped := True, stopper := SShutListener\<rparr>)"
    by (rule stop_completes [OF sample_stopping_reachable]) simp
qed (simp_all add: sample_serving_def)

end
