(* ===== verification/KvServer.thy ===== *)
theory KvServer
  imports Service SyncQueue
begin

text \<open>
  The life of a \<open>KvServer\<close> (\<open>kvstore/server/server.cpp\<close> and \<open>.hpp\<close>): the
  listener thread, the worker threads, the thread that asks the shardmaster and the thread that
  calls \<open>stop\<close>, as a transition system over the synchronized queue and the store. In the queue the
  listener is thread 0, the thread that stops the server thread 1 and worker \<open>i\<close> thread
  \<open>i + 2\<close>. A call of the store runs inside the mutex of \<open>SimpleKvStore\<close> and is one
  step; a thread that throws terminates the program. The fields \<open>served\<close>,
  \<open>requests_of\<close> and \<open>responses_to\<close> record what was asked and answered.
\<close>

section \<open>Definitions\<close>

datatype accept_pc = ANone | ACheck | AAccept | APush nat | ADone

datatype worker_pc = WNone | WCheck | WPop | WRecv nat | WServe nat Request | WSend nat Response | WClose nat | WDone

datatype querier_pc = QNone | QCheck | QSleep | QDone

datatype srv_stop_pc = KIdle | KFlag | KShut | KJoinListener | KQueueStop | KFlush | KClose "nat list"
  | KJoin nat | KJoinQuerier | KShutMaster | KDone | KThrown

record kvserver =
  shardmaster_address :: string
  n_workers :: nat
  srv_stopped :: bool
  srv_listener_open :: bool
  srv_listener :: accept_pc
  workers :: "nat \<Rightarrow> worker_pc"
  querier :: querier_pc
  srv_stop :: srv_stop_pc
  conn_queue :: "nat qstate"
  srv_store :: simple_kvstore
  shardmaster_conn :: bool
  srv_accepted :: nat
  srv_connected :: "nat \<Rightarrow> bool"
  requests_of :: "nat \<Rightarrow> Request list"
  responses_to :: "nat \<Rightarrow> Response list"
  served :: "(nat \<times> Request \<times> Response) list"
  crashed :: bool

definition srv_new :: "string \<Rightarrow> nat \<Rightarrow> kvserver" where
  "srv_new sm n = \<lparr>shardmaster_address = sm, n_workers = n, srv_stopped = False, srv_listener_open = False,
     srv_listener = ANone, workers = \<lambda>_. WNone, querier = QNone, srv_stop = KIdle, conn_queue = q_init,
     srv_store = simple_init, shardmaster_conn = False, srv_accepted = 0, srv_connected = \<lambda>_. False,
     requests_of = \<lambda>_. [], responses_to = \<lambda>_. [], served = [], crashed = False\<rparr>"

text \<open>
  \<open>fd\<close> is what \<open>open_listener_socket\<close> returns and \<open>connects\<close> tells whether
  \<open>connect_to_server\<close> reaches the shardmaster. The threads take no step before \<open>start\<close>
  returns, which is one of the orders in which they may run.
\<close>

definition srv_start :: "int \<Rightarrow> bool \<Rightarrow> kvserver \<Rightarrow> int \<times> kvserver" where
  "srv_start fd connects s =
     (let s = s\<lparr>srv_stopped := False, srv_store := simple_init\<rparr> in
      if fd < 0 then (- 1, s)
      else let s = s\<lparr>srv_listener_open := True, srv_listener := ACheck, workers := \<lambda>i. if i < n_workers s then WCheck else WNone\<rparr> in
        if shardmaster_address s \<noteq> []
        then if \<not> connects then (- 1, s\<lparr>srv_listener_open := False\<rparr>) else (0, s\<lparr>shardmaster_conn := True, querier := QCheck\<rparr>)
        else (0, s))"

definition srv_destructor :: "kvserver \<Rightarrow> kvserver" where
  "srv_destructor s = (if srv_stopped s then s else s\<lparr>srv_stop := KFlag\<rparr>)"

text \<open>\<open>close\<close> and \<open>shutdown\<close> of a \<open>ClientConn\<close>.\<close>

definition disconnect :: "nat \<Rightarrow> kvserver \<Rightarrow> kvserver" where
  "disconnect c s = (if srv_connected s c then s\<lparr>srv_connected := (srv_connected s)(c := False)\<rparr> else s)"

definition set_worker :: "nat \<Rightarrow> worker_pc \<Rightarrow> kvserver \<Rightarrow> kvserver" where
  "set_worker i p s = s\<lparr>workers := (workers s)(i := p)\<rparr>"

text \<open>Thread \<open>t\<close> starts a call of the queue, and runs the next statement of one.\<close>

definition q_enter :: "nat \<Rightarrow> nat call \<Rightarrow> kvserver \<Rightarrow> kvserver" where
  "q_enter t c s = s\<lparr>conn_queue := goto t (enter c) (conn_queue s)\<rparr>"

definition q_move :: "(nat qstate \<Rightarrow> nat qstate option) \<Rightarrow> kvserver \<Rightarrow> kvserver option" where
  "q_move f s = map_option (\<lambda>qs. s\<lparr>conn_queue := qs\<rparr>) (f (conn_queue s))"

definition srv_listener_step :: "kvserver \<Rightarrow> kvserver option" where
  "srv_listener_step s =
     (case srv_listener s of
        ACheck \<Rightarrow> Some (s\<lparr>srv_listener := (if srv_stopped s then ADone else AAccept)\<rparr>)
      | AAccept \<Rightarrow> if srv_listener_open s then None else Some (s\<lparr>srv_listener := ADone\<rparr>)
      | APush c \<Rightarrow>
          (case pcs (conn_queue s) 0 of
             CallDone \<Rightarrow> Some (s\<lparr>srv_listener := ACheck\<rparr>)
           | _ \<Rightarrow> q_move (push_step 0) s)
      | _ \<Rightarrow> None)"

definition worker_step :: "bool \<Rightarrow> nat \<Rightarrow> kvserver \<Rightarrow> kvserver option" where
  "worker_step sent i s =
     (case workers s i of
        WCheck \<Rightarrow> Some (if srv_stopped s then set_worker i WDone s else set_worker i WPop (q_enter (i + 2) Pop s))
      | WPop \<Rightarrow>
          (case pcs (conn_queue s) (i + 2) of
             PopDone None \<Rightarrow> Some (set_worker i WDone s)
           | PopDone (Some c) \<Rightarrow> Some (set_worker i (WRecv c) s)
           | _ \<Rightarrow> q_move (pop_step (i + 2)) s)
      | WServe c req \<Rightarrow>
          (case process_request SimpleKvStore (shardmaster_address s) req (srv_store s) of
             Inl e \<Rightarrow> if e = Blocks then None else Some (s\<lparr>crashed := True\<rparr>)
           | Inr (res, st) \<Rightarrow> Some ((set_worker i (WSend c res) s)\<lparr>srv_store := st, served := served s @ [(c, req, res)]\<rparr>))
      | WSend c res \<Rightarrow>
          Some (if sent then (set_worker i (WRecv c) s)\<lparr>responses_to := (responses_to s)(c := responses_to s c @ [res])\<rparr>
                else set_worker i (WClose c) s)
      | WClose c \<Rightarrow> Some (set_worker i WCheck (disconnect c s))
      | _ \<Rightarrow> None)"

definition querier_step :: "kvserver \<Rightarrow> kvserver option" where
  "querier_step s =
     (case querier s of
        QCheck \<Rightarrow> Some (s\<lparr>querier := (if srv_stopped s \<or> \<not> query_shardmaster then QDone else QSleep)\<rparr>)
      | QSleep \<Rightarrow> Some (s\<lparr>querier := QCheck\<rparr>)
      | _ \<Rightarrow> None)"

definition srv_stop_step :: "kvserver \<Rightarrow> kvserver option" where
  "srv_stop_step s =
     (case srv_stop s of
        KFlag \<Rightarrow> Some (s\<lparr>srv_stopped := True, srv_stop := KShut\<rparr>)
      | KShut \<Rightarrow> Some (s\<lparr>srv_listener_open := False, srv_stop := KJoinListener\<rparr>)
      | KJoinListener \<Rightarrow>
          (case srv_listener s of
             ANone \<Rightarrow> Some (s\<lparr>srv_stop := KThrown\<rparr>)
           | ADone \<Rightarrow> Some ((q_enter 1 Stop s)\<lparr>srv_stop := KQueueStop\<rparr>)
           | _ \<Rightarrow> None)
      | KQueueStop \<Rightarrow>
          (case pcs (conn_queue s) 1 of
             CallDone \<Rightarrow> Some ((q_enter 1 Flush s)\<lparr>srv_stop := KFlush\<rparr>)
           | _ \<Rightarrow> q_move (stop_step 1) s)
      | KFlush \<Rightarrow>
          (case pcs (conn_queue s) 1 of
             FlushDone cs \<Rightarrow> Some (s\<lparr>srv_stop := KClose cs\<rparr>)
           | _ \<Rightarrow> q_move (flush_step 1) s)
      | KClose [] \<Rightarrow> Some (s\<lparr>srv_stop := KJoin 0\<rparr>)
      | KClose (c # cs) \<Rightarrow> Some ((disconnect c s)\<lparr>srv_stop := KClose cs\<rparr>)
      | KJoin i \<Rightarrow>
          if i < n_workers s
          then if workers s i = WDone then Some (s\<lparr>srv_stop := KJoin (Suc i)\<rparr>) else None
          else Some (s\<lparr>srv_stop := (if shardmaster_address s \<noteq> [] then KJoinQuerier else KDone)\<rparr>)
      | KJoinQuerier \<Rightarrow>
          (case querier s of
             QNone \<Rightarrow> Some (s\<lparr>srv_stop := KThrown\<rparr>)
           | QDone \<Rightarrow> Some (s\<lparr>srv_stop := KShutMaster\<rparr>)
           | _ \<Rightarrow> None)
      | KShutMaster \<Rightarrow> Some (s\<lparr>shardmaster_conn := False, srv_stop := KDone\<rparr>)
      | _ \<Rightarrow> None)"

text \<open>What \<open>query_shardmaster\<close> is to use: the configuration in a response of the shardmaster.\<close>

definition get_query_response :: "socket \<Rightarrow> (shardmaster_config option \<times> socket) cpp" where
  "get_query_response sk =
     bindE (recv_response sk) (\<lambda>(res, sk). Inr (case res of Some (QueryResponse c) \<Rightarrow> Some c | _ \<Rightarrow> None, sk))"

text \<open>A step of one of the threads that depends on nobody outside, and what the network and the user do.\<close>

inductive srv_step :: "kvserver \<Rightarrow> kvserver \<Rightarrow> bool" where
  srv_listens: "\<not> crashed s \<Longrightarrow> srv_listener_step s = Some s' \<Longrightarrow> srv_step s s'"
| works: "\<not> crashed s \<Longrightarrow> worker_step sent i s = Some s' \<Longrightarrow> srv_step s s'"
| queries: "\<not> crashed s \<Longrightarrow> querier_step s = Some s' \<Longrightarrow> srv_step s s'"
| srv_stops: "\<not> crashed s \<Longrightarrow> srv_stop_step s = Some s' \<Longrightarrow> srv_step s s'"

inductive srv_env :: "kvserver \<Rightarrow> kvserver \<Rightarrow> bool" where
  srv_connects: "\<not> crashed s \<Longrightarrow> srv_listener s = AAccept \<Longrightarrow> srv_listener_open s \<Longrightarrow> c = srv_accepted s \<Longrightarrow>
    srv_env s ((q_enter 0 (Push c) s)\<lparr>srv_listener := APush c, srv_accepted := Suc c, srv_connected := (srv_connected s)(c := True)\<rparr>)"
| srv_accept_fails: "\<not> crashed s \<Longrightarrow> srv_listener s = AAccept \<Longrightarrow> srv_env s (s\<lparr>srv_listener := ADone\<rparr>)"
| srv_requests: "\<not> crashed s \<Longrightarrow> workers s i = WRecv c \<Longrightarrow>
    srv_env s ((set_worker i (WServe c req) s)\<lparr>requests_of := (requests_of s)(c := requests_of s c @ [req])\<rparr>)"
| srv_hangs_up: "\<not> crashed s \<Longrightarrow> workers s i = WRecv c \<Longrightarrow> srv_env s (set_worker i (WClose c) s)"
| srv_calls_stop: "\<not> crashed s \<Longrightarrow> srv_stop s = KIdle \<Longrightarrow> srv_env s (s\<lparr>srv_stop := KFlag\<rparr>)"
| srv_spurious: "\<not> crashed s \<Longrightarrow> pcs (conn_queue s) t = PopWaiting \<Longrightarrow> srv_env s (s\<lparr>conn_queue := goto t PopRelock (conn_queue s)\<rparr>)"

inductive srv_reachable :: "string \<Rightarrow> nat \<Rightarrow> kvserver \<Rightarrow> bool" for sm n where
  srv_starts: "srv_start fd True (srv_new sm n) = (0, s) \<Longrightarrow> srv_reachable sm n s"
| srv_own: "srv_reachable sm n s \<Longrightarrow> srv_step s s' \<Longrightarrow> srv_reachable sm n s'"
| srv_envs: "srv_reachable sm n s \<Longrightarrow> srv_env s s' \<Longrightarrow> srv_reachable sm n s'"

section \<open>Who owns a connection\<close>

text \<open>
  The abstract view of the connections: what every thread has in hand, the queue, the
  connections given up and the number accepted.
\<close>

definition owned :: "(nat \<Rightarrow> nat list) \<Rightarrow> nat list \<Rightarrow> (nat \<Rightarrow> bool) \<Rightarrow> nat \<Rightarrow> bool" where
  "owned h qs over n \<longleftrightarrow> distinct qs \<and> (\<forall>t. distinct (h t))
     \<and> (\<forall>t u c. c \<in> set (h t) \<and> c \<in> set (h u) \<longrightarrow> t = u)
     \<and> (\<forall>t c. c \<in> set (h t) \<longrightarrow> c \<notin> set qs \<and> \<not> over c)
     \<and> (\<forall>c \<in> set qs. \<not> over c)
     \<and> (\<forall>c. c < n \<longleftrightarrow> c \<in> set qs \<or> (\<exists>t. c \<in> set (h t)) \<or> over c)"

definition others :: "(nat \<Rightarrow> nat list) \<Rightarrow> nat \<Rightarrow> nat set" where
  "others h t = (\<Union>u \<in> - {t}. set (h u))"

definition apart :: "(nat \<Rightarrow> nat list) \<Rightarrow> nat \<Rightarrow> bool" where
  "apart h t \<longleftrightarrow> (\<forall>u. u \<noteq> t \<longrightarrow> distinct (h u)) \<and> (\<forall>u v c. u \<noteq> t \<and> v \<noteq> t \<and> c \<in> set (h u) \<and> c \<in> set (h v) \<longrightarrow> u = v)"

lemma others_upd [simp]: "others (h(t := xs)) t = others h t" "apart (h(t := xs)) t = apart h t"
  by (auto simp: others_def apart_def)

lemma owned_split:
  "owned h qs over n \<longleftrightarrow> apart h t \<and> distinct qs \<and> distinct (h t) \<and> (\<forall>c \<in> set (h t). c \<notin> others h t \<and> c \<notin> set qs \<and> \<not> over c)
     \<and> (\<forall>c \<in> others h t. c \<notin> set qs \<and> \<not> over c) \<and> (\<forall>c \<in> set qs. \<not> over c)
     \<and> (\<forall>c. c < n \<longleftrightarrow> c \<in> set qs \<or> c \<in> set (h t) \<or> c \<in> others h t \<or> over c)" (is "?l = ?r")
proof
  have ex: "(\<exists>u. c \<in> set (h u)) \<longleftrightarrow> c \<in> set (h t) \<or> c \<in> others h t" for c by (auto simp: others_def)
  assume ?l
  then show ?r unfolding owned_def apart_def ex by (auto simp: others_def)
next
  have ex: "(\<exists>u. c \<in> set (h u)) \<longleftrightarrow> c \<in> set (h t) \<or> c \<in> others h t" for c by (auto simp: others_def)
  assume r: ?r
  have "u = v" if "c \<in> set (h u)" "c \<in> set (h v)" for u v c
    using that r by (cases "u = t"; cases "v = t") (auto simp: others_def apart_def)
  moreover have "distinct (h u)" for u using r by (cases "u = t") (auto simp: apart_def)
  moreover have "c \<notin> set qs \<and> \<not> over c" if "c \<in> set (h u)" for u c
    using that r by (cases "u = t") (auto simp: others_def)
  ultimately show ?l using r unfolding owned_def ex by blast
qed

lemma owned_take: "owned h (x # xs) over n \<Longrightarrow> h t = [] \<Longrightarrow> owned (h(t := [x])) xs over n"
  unfolding owned_split [where t = t] by auto

lemma owned_put: "owned h xs over n \<Longrightarrow> h t = [x] \<Longrightarrow> owned (h(t := [])) (xs @ [x]) over n"
  unfolding owned_split [where t = t] by auto

lemma owned_flush: "owned h xs over n \<Longrightarrow> h t = [] \<Longrightarrow> owned (h(t := xs)) [] over n"
  unfolding owned_split [where t = t] by auto

lemma owned_new: "owned h xs over n \<Longrightarrow> h t = [] \<Longrightarrow> owned (h(t := [n])) xs over (Suc n)"
  unfolding owned_split [where t = t] by (auto simp: less_Suc_eq)

lemma owned_release: "owned h xs over n \<Longrightarrow> h t = c # cs \<Longrightarrow> owned (h(t := cs)) xs (over(c := True)) n"
  unfolding owned_split [where t = t] by auto

text \<open>What a thread has in hand.\<close>

fun q_hand :: "'a pc \<Rightarrow> 'a list" where
  "q_hand (PopDone (Some x)) = [x]"
| "q_hand (PushEnter x) = [x]"
| "q_hand (PushHolds x) = [x]"
| "q_hand (FlushDone xs) = xs"
| "q_hand _ = []"

fun listener_hand :: "accept_pc \<Rightarrow> nat pc \<Rightarrow> nat list" where
  "listener_hand (APush c) p = q_hand p"
| "listener_hand _ p = []"

fun stop_hand :: "srv_stop_pc \<Rightarrow> nat pc \<Rightarrow> nat list" where
  "stop_hand KFlush p = q_hand p"
| "stop_hand (KClose cs) p = cs"
| "stop_hand _ p = []"

fun worker_hand :: "worker_pc \<Rightarrow> nat pc \<Rightarrow> nat list" where
  "worker_hand WPop p = q_hand p"
| "worker_hand (WRecv c) p = [c]"
| "worker_hand (WServe c req) p = [c]"
| "worker_hand (WSend c res) p = [c]"
| "worker_hand (WClose c) p = [c]"
| "worker_hand _ p = []"

fun in_hand :: "kvserver \<Rightarrow> nat \<Rightarrow> nat list" where
  "in_hand s 0 = listener_hand (srv_listener s) (pcs (conn_queue s) 0)"
| "in_hand s (Suc 0) = stop_hand (srv_stop s) (pcs (conn_queue s) 1)"
| "in_hand s (Suc (Suc i)) = worker_hand (workers s i) (pcs (conn_queue s) (i + 2))"

definition over :: "kvserver \<Rightarrow> nat \<Rightarrow> bool" where
  "over s c \<longleftrightarrow> c < srv_accepted s \<and> \<not> srv_connected s c"

definition srv_owned :: "kvserver \<Rightarrow> bool" where
  "srv_owned s \<longleftrightarrow> owned (in_hand s) (q (conn_queue s)) (over s) (srv_accepted s)"

lemma pop_hand:
  assumes "pop_step t s = Some s'"
  shows "(\<forall>u. u \<noteq> t \<longrightarrow> pcs s' u = pcs s u) \<and> q_hand (pcs s t) = []
    \<and> (q_hand (pcs s' t) = [] \<and> q s' = q s \<or> (\<exists>x. q_hand (pcs s' t) = [x] \<and> q s = x # q s'))"
  using assms by (cases "pcs s t") (auto simp: pop_step_def move_defs split: if_splits list.splits)

lemma push_hand:
  assumes "push_step t s = Some s'"
  shows "(\<forall>u. u \<noteq> t \<longrightarrow> q_hand (pcs s' u) = q_hand (pcs s u))
    \<and> (q_hand (pcs s' t) = q_hand (pcs s t) \<and> q s' = q s
       \<or> (\<exists>x. q_hand (pcs s t) = [x] \<and> q_hand (pcs s' t) = [] \<and> q s' = q s @ [x]))"
  using assms by (cases "pcs s t") (auto simp: push_step_def move_defs split: if_splits)

lemma flush_hand:
  assumes "flush_step t s = Some s'"
  shows "(\<forall>u. u \<noteq> t \<longrightarrow> pcs s' u = pcs s u) \<and> q_hand (pcs s t) = []
    \<and> (q_hand (pcs s' t) = [] \<and> q s' = q s \<or> q_hand (pcs s' t) = q s \<and> q s' = [])"
  using assms by (cases "pcs s t") (auto simp: flush_step_def move_defs split: if_splits)

lemma stop_step_hand:
  assumes "stop_step t s = Some s'"
  shows "(\<forall>u. q_hand (pcs s' u) = q_hand (pcs s u)) \<and> q s' = q s"
  using assms by (cases "pcs s t") (auto simp: stop_step_def move_defs split: if_splits)

lemma hand_eq:
  assumes "u \<noteq> 0 \<Longrightarrow> listener_hand (srv_listener s') (pcs (conn_queue s') 0) = listener_hand (srv_listener s) (pcs (conn_queue s) 0)"
    and "u \<noteq> 1 \<Longrightarrow> stop_hand (srv_stop s') (pcs (conn_queue s') 1) = stop_hand (srv_stop s) (pcs (conn_queue s) 1)"
    and "\<And>i. u \<noteq> i + 2 \<Longrightarrow> worker_hand (workers s' i) (pcs (conn_queue s') (i + 2)) = worker_hand (workers s i) (pcs (conn_queue s) (i + 2))"
    and "in_hand s' u = xs"
  shows "in_hand s' = (in_hand s)(u := xs)"
proof
  fix t
  show "in_hand s' t = ((in_hand s)(u := xs)) t"
    using assms by (cases "(s, t)" rule: in_hand.cases) (auto simp: fun_upd_def)
qed

lemma listener_hand_cong: "q_hand p = q_hand p' \<Longrightarrow> listener_hand a p = listener_hand a p'"
  by (cases a) auto

lemma stop_hand_cong: "q_hand p = q_hand p' \<Longrightarrow> stop_hand a p = stop_hand a p'"
  by (cases a) auto

lemma worker_hand_cong: "q_hand p = q_hand p' \<Longrightarrow> worker_hand a p = worker_hand a p'"
  by (cases a) auto

lemma queue_hand:
  assumes "\<And>u. u \<noteq> t \<Longrightarrow> q_hand (pcs q' u) = q_hand (pcs (conn_queue s) u)" and "in_hand (s\<lparr>conn_queue := q'\<rparr>) t = xs"
  shows "in_hand (s\<lparr>conn_queue := q'\<rparr>) = (in_hand s)(t := xs)"
  by (rule hand_eq) (use assms in \<open>auto intro: listener_hand_cong stop_hand_cong worker_hand_cong\<close>)

lemma over_simps [simp]:
  "over (s\<lparr>conn_queue := a\<rparr>) = over s" "over (s\<lparr>srv_listener := b\<rparr>) = over s" "over (s\<lparr>srv_stop := d\<rparr>) = over s"
  "over (set_worker i p s) = over s" "over (q_enter t e s) = over s"
  by (simp_all add: over_def fun_eq_iff set_worker_def q_enter_def)

section \<open>The steps, case by case\<close>

lemma srv_listener_cases:
  assumes "srv_listener_step s = Some s'"
  obtains (check) "srv_listener s = ACheck" "s' = s\<lparr>srv_listener := (if srv_stopped s then ADone else AAccept)\<rparr>"
  | (closed) "srv_listener s = AAccept" "\<not> srv_listener_open s" "s' = s\<lparr>srv_listener := ADone\<rparr>"
  | (pushed) c where "srv_listener s = APush c" "pcs (conn_queue s) 0 = CallDone" "s' = s\<lparr>srv_listener := ACheck\<rparr>"
  | (pushing) c q' where "srv_listener s = APush c" "push_step 0 (conn_queue s) = Some q'" "s' = s\<lparr>conn_queue := q'\<rparr>"
proof (cases "srv_listener s")
  case ACheck
  then show thesis using assms check by (simp add: srv_listener_step_def)
next
  case AAccept
  then show thesis using assms closed by (simp add: srv_listener_step_def split: if_splits)
next
  case (APush c)
  then show thesis using assms pushed [of c] pushing [of c]
    by (cases "pcs (conn_queue s) 0") (auto simp: srv_listener_step_def q_move_def)
qed (use assms in \<open>simp_all add: srv_listener_step_def\<close>)

lemma worker_cases:
  assumes "worker_step sent i s = Some s'"
  obtains (stopped) "workers s i = WCheck" "srv_stopped s" "s' = set_worker i WDone s"
  | (pop) "workers s i = WCheck" "\<not> srv_stopped s" "s' = set_worker i WPop (q_enter (i + 2) Pop s)"
  | (none) "workers s i = WPop" "pcs (conn_queue s) (i + 2) = PopDone None" "s' = set_worker i WDone s"
  | (got) c where "workers s i = WPop" "pcs (conn_queue s) (i + 2) = PopDone (Some c)" "s' = set_worker i (WRecv c) s"
  | (popping) q' where "workers s i = WPop" "pop_step (i + 2) (conn_queue s) = Some q'" "s' = s\<lparr>conn_queue := q'\<rparr>"
  | (crash) c req where "workers s i = WServe c req" "s' = s\<lparr>crashed := True\<rparr>"
  | (serve) c req res st where "workers s i = WServe c req"
      "process_request SimpleKvStore (shardmaster_address s) req (srv_store s) = Inr (res, st)"
      "s' = (set_worker i (WSend c res) s)\<lparr>srv_store := st, served := served s @ [(c, req, res)]\<rparr>"
  | (send) c res where "workers s i = WSend c res"
      "s' = (set_worker i (WRecv c) s)\<lparr>responses_to := (responses_to s)(c := responses_to s c @ [res])\<rparr>"
  | (fail) c res where "workers s i = WSend c res" "s' = set_worker i (WClose c) s"
  | (close) c where "workers s i = WClose c" "s' = set_worker i WCheck (disconnect c s)"
proof (cases "workers s i")
  case WCheck
  then show thesis using assms stopped pop by (simp add: worker_step_def split: if_splits)
next
  case WPop
  then show thesis using assms none got popping
    by (cases "pcs (conn_queue s) (i + 2)") (auto simp: worker_step_def q_move_def split: option.splits)
next
  case (WServe c req)
  then show thesis using assms crash [of c req] serve [of c req]
    by (auto simp: worker_step_def split: sum.splits if_splits prod.splits)
next
  case (WSend c res)
  then show thesis using assms send [of c res] fail [of c res] by (auto simp: worker_step_def split: if_splits)
next
  case (WClose c)
  then show thesis using assms close [of c] by (simp add: worker_step_def)
next
  case WNone
  then show thesis using assms by (simp add: worker_step_def)
next
  case (WRecv c)
  then show thesis using assms by (simp add: worker_step_def)
next
  case WDone
  then show thesis using assms by (simp add: worker_step_def)
qed

lemma srv_stop_cases:
  assumes "srv_stop_step s = Some s'"
  obtains (flag) "srv_stop s = KFlag" "s' = s\<lparr>srv_stopped := True, srv_stop := KShut\<rparr>"
  | (shut) "srv_stop s = KShut" "s' = s\<lparr>srv_listener_open := False, srv_stop := KJoinListener\<rparr>"
  | (not_started) "srv_stop s = KJoinListener" "srv_listener s = ANone" "s' = s\<lparr>srv_stop := KThrown\<rparr>"
  | (joined) "srv_stop s = KJoinListener" "srv_listener s = ADone" "s' = (q_enter 1 Stop s)\<lparr>srv_stop := KQueueStop\<rparr>"
  | (stopped) "srv_stop s = KQueueStop" "pcs (conn_queue s) 1 = CallDone" "s' = (q_enter 1 Flush s)\<lparr>srv_stop := KFlush\<rparr>"
  | (stopping) q' where "srv_stop s = KQueueStop" "stop_step 1 (conn_queue s) = Some q'" "s' = s\<lparr>conn_queue := q'\<rparr>"
  | (flushed) cs where "srv_stop s = KFlush" "pcs (conn_queue s) 1 = FlushDone cs" "s' = s\<lparr>srv_stop := KClose cs\<rparr>"
  | (flushing) q' where "srv_stop s = KFlush" "flush_step 1 (conn_queue s) = Some q'" "s' = s\<lparr>conn_queue := q'\<rparr>"
  | (closed) "srv_stop s = KClose []" "s' = s\<lparr>srv_stop := KJoin 0\<rparr>"
  | (close) c cs where "srv_stop s = KClose (c # cs)" "s' = (disconnect c s)\<lparr>srv_stop := KClose cs\<rparr>"
  | (join) i where "srv_stop s = KJoin i" "i < n_workers s" "workers s i = WDone" "s' = s\<lparr>srv_stop := KJoin (Suc i)\<rparr>"
  | (all_joined) i where "srv_stop s = KJoin i" "n_workers s \<le> i" "s' = s\<lparr>srv_stop := (if shardmaster_address s \<noteq> [] then KJoinQuerier else KDone)\<rparr>"
  | (no_querier) "srv_stop s = KJoinQuerier" "querier s = QNone" "s' = s\<lparr>srv_stop := KThrown\<rparr>"
  | (querier_joined) "srv_stop s = KJoinQuerier" "querier s = QDone" "s' = s\<lparr>srv_stop := KShutMaster\<rparr>"
  | (master) "srv_stop s = KShutMaster" "s' = s\<lparr>shardmaster_conn := False, srv_stop := KDone\<rparr>"
proof (cases "srv_stop s")
  case KFlag
  then show thesis using assms flag by (simp add: srv_stop_step_def)
next
  case KShut
  then show thesis using assms shut by (simp add: srv_stop_step_def)
next
  case KJoinListener
  then show thesis using assms not_started joined by (simp add: srv_stop_step_def split: accept_pc.splits)
next
  case KQueueStop
  then show thesis using assms stopped stopping
    by (cases "pcs (conn_queue s) 1") (auto simp: srv_stop_step_def q_move_def)
next
  case KFlush
  then show thesis using assms flushed flushing
    by (cases "pcs (conn_queue s) 1") (auto simp: srv_stop_step_def q_move_def)
next
  case (KClose cs)
  then show thesis using assms closed close by (cases cs) (simp_all add: srv_stop_step_def)
next
  case (KJoin i)
  then show thesis using assms join [of i] all_joined [of i] by (auto simp: srv_stop_step_def split: if_splits)
next
  case KJoinQuerier
  then show thesis using assms no_querier querier_joined by (simp add: srv_stop_step_def split: querier_pc.splits)
next
  case KShutMaster
  then show thesis using assms master by (simp add: srv_stop_step_def)
next
  case KIdle
  then show thesis using assms by (simp add: srv_stop_step_def)
next
  case KDone
  then show thesis using assms by (simp add: srv_stop_step_def)
next
  case KThrown
  then show thesis using assms by (simp add: srv_stop_step_def)
qed

lemma querier_cases:
  assumes "querier_step s = Some s'"
  obtains p where "s' = s\<lparr>querier := p\<rparr>"
  using assms by (auto simp: querier_step_def split: querier_pc.splits)

section \<open>Every connection has one owner\<close>

lemma owned_same:
  assumes "srv_owned s" and "in_hand s' = (in_hand s)(t := in_hand s t)" and "q (conn_queue s') = q (conn_queue s)"
    and "over s' = over s" and "srv_accepted s' = srv_accepted s"
  shows "srv_owned s'"
  using assms by (simp add: srv_owned_def)

lemma thread_same:
  assumes "srv_owned s"
    and "listener_hand (srv_listener s') (pcs (conn_queue s') 0) = listener_hand (srv_listener s) (pcs (conn_queue s) 0)"
    and "stop_hand (srv_stop s') (pcs (conn_queue s') 1) = stop_hand (srv_stop s) (pcs (conn_queue s) 1)"
    and "\<And>i. worker_hand (workers s' i) (pcs (conn_queue s') (i + 2)) = worker_hand (workers s i) (pcs (conn_queue s) (i + 2))"
    and "q (conn_queue s') = q (conn_queue s)" and "srv_connected s' = srv_connected s" and "srv_accepted s' = srv_accepted s"
  shows "srv_owned s'"
proof (rule owned_same [OF assms(1)])
  show "in_hand s' = (in_hand s)(0 := in_hand s 0)" by (rule hand_eq) (use assms in simp_all)
qed (use assms in \<open>simp_all add: over_def fun_eq_iff\<close>)

lemma listener_owned:
  assumes "srv_owned s" and "srv_listener_step s = Some s'"
  shows "srv_owned s'"
  using assms(2)
proof (cases rule: srv_listener_cases)
  case (pushing c q')
  from push_hand [OF pushing(2)]
  have other: "\<And>u. u \<noteq> 0 \<Longrightarrow> q_hand (pcs q' u) = q_hand (pcs (conn_queue s) u)"
    and move: "q_hand (pcs q' 0) = q_hand (pcs (conn_queue s) 0) \<and> q q' = q (conn_queue s)
      \<or> (\<exists>x. q_hand (pcs (conn_queue s) 0) = [x] \<and> q_hand (pcs q' 0) = [] \<and> q q' = q (conn_queue s) @ [x])" by blast+
  have hand: "in_hand s' = (in_hand s)(0 := q_hand (pcs q' 0))"
    unfolding pushing(3) by (rule queue_hand [OF other]) (use pushing(1) in simp_all)
  from move show ?thesis
  proof
    assume "\<exists>x. q_hand (pcs (conn_queue s) 0) = [x] \<and> q_hand (pcs q' 0) = [] \<and> q q' = q (conn_queue s) @ [x]"
    then obtain x where "q_hand (pcs (conn_queue s) 0) = [x]" "q_hand (pcs q' 0) = []" "q q' = q (conn_queue s) @ [x]" by blast
    then show ?thesis using assms(1) hand pushing owned_put [of "in_hand s" _ _ _ 0 x] by (simp add: srv_owned_def)
  qed (rule owned_same [OF assms(1), of _ 0], use hand pushing in simp_all)
qed (rule thread_same [OF assms(1)]; force)+

lemma worker_hand_eq:
  assumes "\<And>j. j \<noteq> i \<Longrightarrow> workers s' j = workers s j" and "srv_listener s' = srv_listener s" and "srv_stop s' = srv_stop s"
    and "\<And>u. u \<noteq> i + 2 \<Longrightarrow> q_hand (pcs (conn_queue s') u) = q_hand (pcs (conn_queue s) u)"
    and "worker_hand (workers s' i) (pcs (conn_queue s') (i + 2)) = xs"
  shows "in_hand s' = (in_hand s)(i + 2 := xs)"
  by (rule hand_eq) (use assms in \<open>auto intro: listener_hand_cong stop_hand_cong worker_hand_cong\<close>)

lemma disconnect_simps [simp]:
  "workers (disconnect c s) = workers s" "srv_listener (disconnect c s) = srv_listener s" "srv_stop (disconnect c s) = srv_stop s"
  "conn_queue (disconnect c s) = conn_queue s" "srv_accepted (disconnect c s) = srv_accepted s"
  "srv_connected (disconnect c s) = (srv_connected s)(c := False)" "crashed (disconnect c s) = crashed s"
  "requests_of (disconnect c s) = requests_of s" "responses_to (disconnect c s) = responses_to s" "served (disconnect c s) = served s"
  "srv_store (disconnect c s) = srv_store s" "srv_stopped (disconnect c s) = srv_stopped s" "n_workers (disconnect c s) = n_workers s"
  "shardmaster_address (disconnect c s) = shardmaster_address s" "querier (disconnect c s) = querier s"
  by (auto simp: disconnect_def fun_eq_iff)

lemma owned_member: "owned h qs ov n \<Longrightarrow> c \<in> set (h t) \<Longrightarrow> c < n"
  unfolding owned_def by blast

lemma over_disconnect: "c < srv_accepted s \<Longrightarrow> over (disconnect c s) = (over s)(c := True)"
  by (auto simp: over_def fun_eq_iff)

lemma worker_owned:
  assumes "srv_owned s" and "worker_step sent i s = Some s'"
  shows "srv_owned s'"
  using assms(2)
proof (cases rule: worker_cases)
  case (popping q')
  from pop_hand [OF popping(2)]
  have other: "\<And>u. u \<noteq> i + 2 \<Longrightarrow> q_hand (pcs q' u) = q_hand (pcs (conn_queue s) u)" and empty: "q_hand (pcs (conn_queue s) (i + 2)) = []"
    and move: "q_hand (pcs q' (i + 2)) = [] \<and> q q' = q (conn_queue s) \<or> (\<exists>x. q_hand (pcs q' (i + 2)) = [x] \<and> q (conn_queue s) = x # q q')"
    by auto
  have hand: "in_hand s' = (in_hand s)(i + 2 := q_hand (pcs q' (i + 2)))"
    by (rule worker_hand_eq) (use popping other in simp_all)
  from move show ?thesis
  proof
    assume "\<exists>x. q_hand (pcs q' (i + 2)) = [x] \<and> q (conn_queue s) = x # q q'"
    then obtain x where "q_hand (pcs q' (i + 2)) = [x]" "q (conn_queue s) = x # q q'" by blast
    then show ?thesis using assms(1) hand popping empty owned_take [of "in_hand s" x _ _ _ "i + 2"] by (simp add: srv_owned_def)
  qed (rule owned_same [OF assms(1), of _ "i + 2"], use hand popping empty in simp_all)
next
  case (close c)
  have hand: "in_hand s' = (in_hand s)(i + 2 := [])" by (rule worker_hand_eq) (use close in \<open>simp_all add: set_worker_def\<close>)
  have c: "in_hand s (i + 2) = [c]" using close(1) by simp
  then have "c < srv_accepted s" using assms(1) owned_member [of "in_hand s" _ _ _ c "i + 2"] by (simp add: srv_owned_def)
  then show ?thesis using assms(1) hand c close owned_release [of "in_hand s" _ _ _ "i + 2" c "[]"]
    by (simp add: srv_owned_def over_disconnect) (simp add: set_worker_def)
qed (rule thread_same [OF assms(1)]; force simp: set_worker_def q_enter_def goto_def)+

lemma stop_owned:
  assumes "srv_owned s" and "srv_stop_step s = Some s'"
  shows "srv_owned s'"
  using assms(2)
proof (cases rule: srv_stop_cases)
  case (stopping q')
  from stop_step_hand [OF stopping(2)] stopping show ?thesis
    by (intro thread_same [OF assms(1)]) (auto intro: listener_hand_cong stop_hand_cong worker_hand_cong)
next
  case (flushing q')
  from flush_hand [OF flushing(2)]
  have other: "\<And>u. u \<noteq> 1 \<Longrightarrow> q_hand (pcs q' u) = q_hand (pcs (conn_queue s) u)" and empty: "q_hand (pcs (conn_queue s) 1) = []"
    and move: "q_hand (pcs q' 1) = [] \<and> q q' = q (conn_queue s) \<or> q_hand (pcs q' 1) = q (conn_queue s) \<and> q q' = []"
    by auto
  have hand: "in_hand s' = (in_hand s)(1 := q_hand (pcs q' 1))"
    unfolding flushing(3) by (rule queue_hand [OF other]) (use flushing(1) in simp_all)
  from move show ?thesis
  proof
    assume "q_hand (pcs q' 1) = q (conn_queue s) \<and> q q' = []"
    then show ?thesis using assms(1) hand flushing empty owned_flush [of "in_hand s" _ _ _ 1] by (simp add: srv_owned_def)
  qed (rule owned_same [OF assms(1), of _ 1], use hand flushing empty in simp_all)
next
  case (close c cs)
  have hand: "in_hand s' = (in_hand s)(1 := cs)" by (rule hand_eq) (use close in simp_all)
  have c: "in_hand s 1 = c # cs" using close(1) by simp
  then have "c < srv_accepted s" using assms(1) owned_member [of "in_hand s" _ _ _ c 1] by (simp add: srv_owned_def)
  then show ?thesis using assms(1) hand c close owned_release [of "in_hand s" _ _ _ 1 c cs]
    by (simp add: srv_owned_def over_disconnect)
qed (rule thread_same [OF assms(1)]; force simp: q_enter_def goto_def)+

lemma env_owned:
  assumes "srv_owned s" and "srv_env s s'"
  shows "srv_owned s'"
  using assms(2)
proof (cases rule: srv_env.cases)
  case (srv_connects c)
  have hand: "in_hand s' = (in_hand s)(0 := [c])"
    by (rule hand_eq) (use srv_connects in \<open>simp_all add: q_enter_def goto_def\<close>)
  moreover have "in_hand s 0 = []" using srv_connects by simp
  moreover have "over s' = over s" using srv_connects by (auto simp: over_def fun_eq_iff q_enter_def)
  ultimately show ?thesis using assms(1) srv_connects owned_new [of "in_hand s" _ _ _ 0]
    by (simp add: srv_owned_def) (simp add: q_enter_def goto_def)
next
  case (srv_spurious t)
  then have "q_hand (pcs (goto t PopRelock (conn_queue s)) u) = q_hand (pcs (conn_queue s) u)" for u by (simp add: goto_def)
  moreover have "q (goto t PopRelock (conn_queue s)) = q (conn_queue s)" by (simp add: goto_def)
  ultimately show ?thesis using srv_spurious
    by (intro thread_same [OF assms(1)]) (auto intro: listener_hand_cong stop_hand_cong worker_hand_cong)
qed (rule thread_same [OF assms(1)]; force simp: set_worker_def)+

lemma querier_owned: "srv_owned s \<Longrightarrow> querier_step s = Some s' \<Longrightarrow> srv_owned s'"
  by (erule querier_cases) (simp add: thread_same)

lemma srv_start_ok:
  assumes "srv_start fd True (srv_new sm n) = (0, s)"
  shows "s = (srv_new sm n)\<lparr>srv_listener_open := True, srv_listener := ACheck, workers := \<lambda>i. if i < n then WCheck else WNone,
    shardmaster_conn := (sm \<noteq> []), querier := (if sm \<noteq> [] then QCheck else QNone)\<rparr>"
  using assms by (auto simp: srv_start_def srv_new_def Let_def split: if_splits)

lemma srv_owned_start: "srv_start fd True (srv_new sm n) = (0, s) \<Longrightarrow> srv_owned s"
proof (drule srv_start_ok)
  let ?s = "(srv_new sm n)\<lparr>srv_listener_open := True, srv_listener := ACheck, workers := \<lambda>i. if i < n then WCheck else WNone,
    shardmaster_conn := (sm \<noteq> []), querier := (if sm \<noteq> [] then QCheck else QNone)\<rparr>"
  have "in_hand ?s t = []" for t by (cases "(?s, t)" rule: in_hand.cases) (simp_all add: srv_new_def q_init_def)
  then have "srv_owned ?s" by (simp add: srv_owned_def owned_def srv_new_def q_init_def over_def)
  then show "s = ?s \<Longrightarrow> srv_owned s" by simp
qed

lemma srv_owned_step: "srv_owned s \<Longrightarrow> srv_step s s' \<Longrightarrow> srv_owned s'"
  by (erule srv_step.cases) (blast intro: listener_owned worker_owned querier_owned stop_owned)+

lemma srv_reachable_owned: "srv_reachable sm n s \<Longrightarrow> srv_owned s"
  by (induction rule: srv_reachable.induct) (blast intro: srv_owned_start srv_owned_step env_owned)+

end
