(* ===== verification/ServerRuns.thy ===== *)
theory ServerRuns
  imports KvServer "HOL-Library.Sublist"
begin

text \<open>
  What the runs of a \<open>KvServer\<close> guarantee: the order of the shutdown, the answers the clients get
  and the fate of every connection.
\<close>

section \<open>The order of the shutdown\<close>

fun after_join :: "srv_stop_pc \<Rightarrow> bool" where
  "after_join KIdle = False"
| "after_join KFlag = False"
| "after_join KShut = False"
| "after_join KJoinListener = False"
| "after_join _ = True"

fun after_flush :: "srv_stop_pc \<Rightarrow> nat pc \<Rightarrow> bool" where
  "after_flush KFlush (FlushDone cs) = True"
| "after_flush (KClose cs) p = True"
| "after_flush (KJoin i) p = True"
| "after_flush KJoinQuerier p = True"
| "after_flush KShutMaster p = True"
| "after_flush KDone p = True"
| "after_flush KThrown p = True"
| "after_flush _ p = False"

fun joined_workers :: "srv_stop_pc \<Rightarrow> nat \<Rightarrow> nat" where
  "joined_workers (KJoin i) n = i"
| "joined_workers KJoinQuerier n = n"
| "joined_workers KShutMaster n = n"
| "joined_workers KDone n = n"
| "joined_workers _ n = 0"

definition stages_ok :: "kvserver \<Rightarrow> bool" where
  "stages_ok s \<longleftrightarrow> srv_listener s \<noteq> ANone
     \<and> (after_join (srv_stop s) \<longrightarrow> srv_listener s = ADone)
     \<and> (after_flush (srv_stop s) (pcs (conn_queue s) 1) \<longrightarrow> q (conn_queue s) = [])
     \<and> (\<forall>i < joined_workers (srv_stop s) (n_workers s). workers s i = WDone)
     \<and> (\<forall>i. workers s i = WNone \<longleftrightarrow> n_workers s \<le> i)"

lemma after_flush_join: "after_flush p c \<Longrightarrow> after_join p"
  by (cases p) auto

lemma listener_stages:
  assumes "stages_ok s" and "srv_listener_step s = Some s'"
  shows "stages_ok s'"
  using assms(2)
proof (cases rule: srv_listener_cases)
  case (pushing c q')
  then have "\<not> after_join (srv_stop s)" using assms(1) by (auto simp: stages_ok_def)
  with pushing assms(1) show ?thesis using after_flush_join by (auto simp: stages_ok_def)
qed (use assms(1) in \<open>auto simp: stages_ok_def\<close>)

lemma after_flush_cong: "(\<And>cs. p = FlushDone cs \<longleftrightarrow> p' = FlushDone cs) \<Longrightarrow> after_flush k p = after_flush k p'"
  by (cases k; cases p; cases p') auto

lemma worker_moves_stages:
  assumes "stages_ok s" and "srv_listener s' = srv_listener s" "srv_stop s' = srv_stop s" "n_workers s' = n_workers s"
    and "\<And>cs. pcs (conn_queue s') 1 = FlushDone cs \<longleftrightarrow> pcs (conn_queue s) 1 = FlushDone cs"
    and "q (conn_queue s) = [] \<Longrightarrow> q (conn_queue s') = []" and "workers s i \<noteq> WDone" "workers s i \<noteq> WNone"
    and "workers s' = (workers s)(i := p)" "p \<noteq> WNone"
  shows "stages_ok s'"
  using assms after_flush_cong [OF assms(5)] by (auto simp: stages_ok_def)

lemma worker_stages:
  assumes "stages_ok s" and "worker_step sent i s = Some s'"
  shows "stages_ok s'"
  using assms(2)
proof (cases rule: worker_cases)
  case (popping q')
  then show ?thesis using pop_hand [OF popping(2)] by (intro worker_moves_stages [OF assms(1), where p = "workers s i" and i = i]) auto
qed (rule worker_moves_stages [OF assms(1), where i = i]; force simp: set_worker_def q_enter_def goto_def)+

lemma stop_stages:
  assumes "stages_ok s" and "srv_stop_step s = Some s'"
  shows "stages_ok s'"
  using assms(2)
proof (cases rule: srv_stop_cases)
  case (stopping q')
  then show ?thesis using assms(1) by (simp add: stages_ok_def)
next
  case (flushed cs)
  then show ?thesis using assms(1) by (simp add: stages_ok_def)
next
  case (flushing q')
  then have "pcs q' 1 = FlushDone cs \<Longrightarrow> q q' = []" for cs
    by (cases "pcs (conn_queue s) 1") (auto simp: flush_step_def move_defs split: if_splits)
  then have "after_flush KFlush (pcs q' 1) \<Longrightarrow> q q' = []" by (cases "pcs q' 1") auto
  with flushing show ?thesis using assms(1) by (simp add: stages_ok_def)
next
  case (join i)
  then show ?thesis using assms(1) by (simp add: stages_ok_def less_Suc_eq)
next
  case (all_joined i)
  then show ?thesis using assms(1) by (auto simp: stages_ok_def)
qed (use assms(1) in \<open>auto simp: stages_ok_def q_enter_def goto_def\<close>)

lemma env_stages:
  assumes "stages_ok s" and "srv_env s s'"
  shows "stages_ok s'"
  using assms(2)
proof (cases rule: srv_env.cases)
  case (srv_connects c)
  then have "\<not> after_join (srv_stop s)" using assms(1) by (auto simp: stages_ok_def)
  with srv_connects assms(1) show ?thesis using after_flush_join by (auto simp: stages_ok_def q_enter_def goto_def)
next
  case srv_accept_fails
  then show ?thesis using assms(1) by (auto simp: stages_ok_def)
next
  case (srv_requests i c req)
  then show ?thesis by (intro worker_moves_stages [OF assms(1), where i = i and p = "WServe c req"]) (simp_all add: set_worker_def)
next
  case (srv_hangs_up i c)
  then show ?thesis by (intro worker_moves_stages [OF assms(1), where i = i and p = "WClose c"]) (simp_all add: set_worker_def)
next
  case srv_calls_stop
  then show ?thesis using assms(1) by (simp add: stages_ok_def)
next
  case (srv_spurious t)
  then have "after_flush k (pcs (goto t PopRelock (conn_queue s)) 1) = after_flush k (pcs (conn_queue s) 1)" for k
    by (intro after_flush_cong) (auto simp: goto_def)
  then show ?thesis using assms(1) srv_spurious by (simp add: stages_ok_def) (simp add: goto_def)
qed

lemma stages_start: "srv_start fd True (srv_new sm n) = (0, s) \<Longrightarrow> stages_ok s"
  by (drule srv_start_ok) (simp add: stages_ok_def srv_new_def)

lemma querier_stages: "stages_ok s \<Longrightarrow> querier_step s = Some s' \<Longrightarrow> stages_ok s'"
  by (erule querier_cases) (simp add: stages_ok_def)

lemma stages_step: "stages_ok s \<Longrightarrow> srv_step s s' \<Longrightarrow> stages_ok s'"
  by (erule srv_step.cases) (blast intro: listener_stages worker_stages querier_stages stop_stages)+

lemma srv_reachable_stages: "srv_reachable sm n s \<Longrightarrow> stages_ok s"
  by (induction rule: srv_reachable.induct) (blast intro: stages_start stages_step env_stages)+

section \<open>The answers\<close>

text \<open>All requests in the order the store served them have the answers of the abstract server.\<close>

definition log_ok :: "kvserver \<Rightarrow> bool" where
  "log_ok s \<longleftrightarrow> simple_inv (srv_store s) \<and> (\<forall>(c, req, res) \<in> set (served s). kv_request req)
     \<and> spec_run (map (\<lambda>(c, req, res). req) (served s)) Map.empty
       = (map (\<lambda>(c, req, res). res) (served s), simple_abs (srv_store s))"

lemma spec_run_snoc:
  "spec_run (rs @ [r]) m
   = (fst (spec_run rs m) @ [fst (spec_process r (snd (spec_run rs m)))], snd (spec_process r (snd (spec_run rs m))))"
  by (induction rs arbitrary: m) (simp_all add: case_prod_unfold)

lemma process_kv: "process_request ops sm r s = Inr x \<Longrightarrow> kv_request r"
  by (cases r) simp_all

lemma worker_log:
  assumes "log_ok s" and "worker_step sent i s = Some s'"
  shows "log_ok s'"
  using assms(2)
proof (cases rule: worker_cases)
  case (serve c req res st)
  have kv: "kv_request req" by (rule process_kv [OF serve(2)])
  have "res = fst (spec_process req (simple_abs (srv_store s)))" "simple_inv st" "simple_abs st = snd (spec_process req (simple_abs (srv_store s)))"
    using simple.process_total [OF _ kv, of "srv_store s" "shardmaster_address s"] serve(2) assms(1) by (auto simp: log_ok_def)
  then show ?thesis using assms(1) serve kv by (simp add: log_ok_def spec_run_snoc)
qed (use assms(1) in \<open>simp_all add: log_ok_def set_worker_def q_enter_def\<close>)

text \<open>What the other threads leave alone.\<close>

definition same_talk :: "kvserver \<Rightarrow> kvserver \<Rightarrow> bool" where
  "same_talk s s' \<longleftrightarrow> served s' = served s \<and> srv_store s' = srv_store s \<and> requests_of s' = requests_of s
     \<and> responses_to s' = responses_to s"

lemma listener_same: "srv_listener_step s = Some s' \<Longrightarrow> same_talk s s' \<and> workers s' = workers s \<and> over s' = over s"
  by (erule srv_listener_cases) (simp_all add: same_talk_def)

lemma querier_same: "querier_step s = Some s' \<Longrightarrow> same_talk s s' \<and> workers s' = workers s \<and> over s' = over s"
  by (erule querier_cases) (simp add: same_talk_def over_def fun_eq_iff)

lemma stop_same: "srv_stop_step s = Some s' \<Longrightarrow> same_talk s s' \<and> workers s' = workers s"
  by (erule srv_stop_cases) (simp_all add: same_talk_def q_enter_def)

lemma log_same: "log_ok s \<Longrightarrow> same_talk s s' \<Longrightarrow> log_ok s'"
  by (simp add: log_ok_def same_talk_def)

lemma log_step:
  assumes "log_ok s" and "srv_step s s'"
  shows "log_ok s'"
  using assms(2)
proof (cases rule: srv_step.cases)
  case srv_listens
  then show ?thesis using log_same [OF assms(1)] listener_same by blast
next
  case (works sent i)
  then show ?thesis using worker_log [OF assms(1)] by blast
next
  case queries
  then show ?thesis using log_same [OF assms(1)] querier_same by blast
next
  case srv_stops
  then show ?thesis using log_same [OF assms(1)] stop_same by blast
qed

lemma log_env: "log_ok s \<Longrightarrow> srv_env s s' \<Longrightarrow> log_ok s'"
  by (erule srv_env.cases) (simp_all add: log_ok_def q_enter_def set_worker_def)

lemma log_start: "srv_start fd True (srv_new sm n) = (0, s) \<Longrightarrow> log_ok s"
  by (drule srv_start_ok) (simp add: log_ok_def srv_new_def simple_init_ok)

lemma srv_reachable_log: "srv_reachable sm n s \<Longrightarrow> log_ok s"
  by (induction rule: srv_reachable.induct) (blast intro: log_start log_step log_env)+

section \<open>The talk with every client\<close>

fun conn_of :: "worker_pc \<Rightarrow> nat option" where
  "conn_of (WRecv c) = Some c"
| "conn_of (WServe c req) = Some c"
| "conn_of (WSend c res) = Some c"
| "conn_of (WClose c) = Some c"
| "conn_of _ = None"

definition asked :: "kvserver \<Rightarrow> nat \<Rightarrow> Request list" where
  "asked s c = map (\<lambda>(c, req, res). req) (filter (\<lambda>e. fst e = c) (served s))"

definition answered :: "kvserver \<Rightarrow> nat \<Rightarrow> Response list" where
  "answered s c = map (\<lambda>(c, req, res). res) (filter (\<lambda>e. fst e = c) (served s))"

fun talk :: "worker_pc \<Rightarrow> Request list \<Rightarrow> Response list \<Rightarrow> Request list \<Rightarrow> Response list \<Rightarrow> bool" where
  "talk (WRecv c) reqs ress ask ans \<longleftrightarrow> reqs = ask \<and> ress = ans"
| "talk (WServe c req) reqs ress ask ans \<longleftrightarrow> reqs = ask @ [req] \<and> ress = ans"
| "talk (WSend c res) reqs ress ask ans \<longleftrightarrow> reqs = ask \<and> ans = ress @ [res]"
| "talk _ reqs ress ask ans \<longleftrightarrow> reqs = ask \<and> prefix ress ans"

definition talk_at :: "kvserver \<Rightarrow> worker_pc \<Rightarrow> nat \<Rightarrow> bool" where
  "talk_at s p c \<longleftrightarrow> talk p (requests_of s c) (responses_to s c) (asked s c) (answered s c)"

definition silent :: "kvserver \<Rightarrow> nat \<Rightarrow> bool" where
  "silent s c \<longleftrightarrow> requests_of s c = [] \<and> responses_to s c = [] \<and> asked s c = [] \<and> answered s c = []"

definition talk_ok :: "kvserver \<Rightarrow> bool" where
  "talk_ok s \<longleftrightarrow> (\<forall>i c. conn_of (workers s i) = Some c \<longrightarrow> talk_at s (workers s i) c)
     \<and> (\<forall>c. over s c \<longrightarrow> talk_at s WDone c)
     \<and> (\<forall>c. \<not> over s c \<and> (\<forall>i. conn_of (workers s i) \<noteq> Some c) \<longrightarrow> silent s c)"

lemma talk_over: "talk p reqs ress ask ans \<Longrightarrow> (\<And>c req. p \<noteq> WServe c req) \<Longrightarrow> talk WDone reqs ress ask ans"
  by (cases p) auto

lemma silent_talk: "silent s c \<Longrightarrow> (\<And>c req. p \<noteq> WServe c req) \<Longrightarrow> (\<And>c res. p \<noteq> WSend c res) \<Longrightarrow> talk_at s p c"
  by (cases p) (auto simp: silent_def talk_at_def)

lemma conn_hand: "conn_of (workers s i) = Some c \<Longrightarrow> in_hand s (i + 2) = [c]"
  by (cases "workers s i") auto

lemma conn_unique:
  assumes "srv_owned s" and "conn_of (workers s i) = Some c" and "conn_of (workers s j) = Some c"
  shows "i = j"
  using assms conn_hand [OF assms(2)] conn_hand [OF assms(3)] unfolding srv_owned_def owned_def
  by (metis add_right_cancel list.set_intros(1))

lemma conn_not_over: "srv_owned s \<Longrightarrow> c \<in> set (in_hand s t) \<Longrightarrow> \<not> over s c"
  unfolding srv_owned_def owned_def by blast

text \<open>A worker goes on with its connection, which alone is touched.\<close>

lemma talk_move:
  assumes "talk_ok s" and "srv_owned s" and "conn_of (workers s i) = Some c" and "conn_of p = Some c"
    and "workers s' = (workers s)(i := p)" and "over s' = over s" and "talk_at s' p c"
    and "\<And>d. d \<noteq> c \<Longrightarrow> requests_of s' d = requests_of s d \<and> responses_to s' d = responses_to s d
      \<and> asked s' d = asked s d \<and> answered s' d = answered s d"
  shows "talk_ok s'"
  unfolding talk_ok_def
proof (intro conjI allI impI)
  fix j d assume j: "conn_of (workers s' j) = Some d"
  show "talk_at s' (workers s' j) d"
  proof (cases "j = i")
    case True
    then show ?thesis using j assms(4,5,7) by simp
  next
    case False
    then have "conn_of (workers s j) = Some d" using j assms(5) by simp
    moreover from this have "d \<noteq> c" using conn_unique [OF assms(2,3), of j] False by auto
    ultimately show ?thesis using assms(1,5,8) False by (simp add: talk_ok_def talk_at_def)
  qed
next
  fix d assume d: "over s' d"
  then have "d \<noteq> c" using conn_not_over [OF assms(2), of c "i + 2"] conn_hand [OF assms(3)] assms(6) by auto
  then show "talk_at s' WDone d" using d assms(1,6,8) by (simp add: talk_ok_def talk_at_def)
next
  fix d assume d: "\<not> over s' d \<and> (\<forall>i. conn_of (workers s' i) \<noteq> Some d)"
  then have "conn_of (workers s' i) \<noteq> Some d" by blast
  then have "d \<noteq> c" using assms(4,5) by auto
  moreover have "conn_of (workers s' j) \<noteq> Some d" for j using d by blast
  then have "conn_of (workers s j) \<noteq> Some d" for j using assms(3,5) \<open>d \<noteq> c\<close> by (cases "j = i") (force split: if_splits)+
  ultimately show "silent s' d" using d assms(1,6,8) by (simp add: talk_ok_def silent_def)
qed

text \<open>No connection is touched.\<close>

lemma talk_still:
  assumes "talk_ok s" and "same_talk s s'" and "over s' = over s"
    and "\<And>i. workers s' i = workers s i \<or> conn_of (workers s' i) = None \<and> conn_of (workers s i) = None"
  shows "talk_ok s'"
proof -
  have "conn_of (workers s' i) = conn_of (workers s i)" for i using assms(4) [of i] by auto
  moreover have "workers s' i = workers s i" if "conn_of (workers s' i) = Some c" for i c using assms(4) [of i] that by auto
  ultimately show ?thesis using assms(1-3)
    by (simp add: talk_ok_def talk_at_def silent_def asked_def answered_def same_talk_def)
qed

text \<open>A connection comes into the hands of a worker, or is given up.\<close>

lemma unserved:
  assumes "srv_owned s" and "c \<in> set (in_hand s t)" and "\<And>i. t = i + 2 \<Longrightarrow> conn_of (workers s i) = None"
  shows "conn_of (workers s i) \<noteq> Some c"
proof
  assume c: "conn_of (workers s i) = Some c"
  then have "t = i + 2" using conn_hand [OF c] assms(1,2) unfolding srv_owned_def owned_def by (metis list.set_intros(1))
  with assms(3) c show False by simp
qed

lemma talk_got:
  assumes "talk_ok s" and "srv_owned s" and "workers s i = WPop" and "c \<in> set (in_hand s (i + 2))"
  shows "talk_ok (set_worker i (WRecv c) s)" (is "talk_ok ?t")
proof -
  have free: "conn_of (workers s j) \<noteq> Some c" for j
    by (rule unserved [OF assms(2,4)]) (use assms(3) in auto)
  then have silent: "silent s c" using assms(1) conn_not_over [OF assms(2,4)] by (simp add: talk_ok_def)
  have same: "talk_at ?t p d = talk_at s p d" "silent ?t d = silent s d" "over ?t = over s" for p d
    by (simp_all add: talk_at_def silent_def asked_def answered_def set_worker_def over_def fun_eq_iff)
  show ?thesis
    unfolding talk_ok_def same
  proof (intro conjI allI impI)
    fix j d assume "conn_of (workers ?t j) = Some d"
    then show "talk_at s (workers ?t j) d"
      using assms(1) silent_talk [OF silent, of "WRecv c"] by (cases "j = i") (simp_all add: talk_ok_def set_worker_def)
  next
    fix d assume d: "\<not> over s d \<and> (\<forall>j. conn_of (workers ?t j) \<noteq> Some d)"
    have "conn_of (workers s j) \<noteq> Some d" for j using d [THEN conjunct2, rule_format, of j] assms(3) by (cases "j = i") (simp_all add: set_worker_def)
    then show "silent s d" using d assms(1) by (simp add: talk_ok_def)
  qed (use assms(1) in \<open>simp add: talk_ok_def\<close>)
qed

lemma talk_release:
  assumes "talk_ok s" and "same_talk s s'" and "over s' = (over s)(c := True)" and "talk_at s WDone c"
    and "\<And>i. workers s' i = workers s i \<or> conn_of (workers s' i) = None \<and> conn_of (workers s i) = Some c"
  shows "talk_ok s'"
proof -
  have same: "talk_at s' p d = talk_at s p d" "silent s' d = silent s d" for p d
    using assms(2) by (simp_all add: talk_at_def silent_def asked_def answered_def same_talk_def)
  show ?thesis
    unfolding talk_ok_def same
  proof (intro conjI allI impI)
    fix i d assume i: "conn_of (workers s' i) = Some d"
    then have "workers s' i = workers s i" using assms(5) [of i] by auto
    then show "talk_at s (workers s' i) d" using i assms(1) by (simp add: talk_ok_def)
  next
    fix d assume "over s' d"
    then show "talk_at s WDone d" using assms(1,3,4) by (cases "d = c") (simp_all add: talk_ok_def)
  next
    fix d assume d: "\<not> over s' d \<and> (\<forall>i. conn_of (workers s' i) \<noteq> Some d)"
    have "d \<noteq> c" using d assms(3) by auto
    have n: "conn_of (workers s' i) \<noteq> Some d" for i using d by blast
    have "conn_of (workers s i) \<noteq> Some d" for i using assms(5) [of i] n [of i] \<open>d \<noteq> c\<close> by auto
    then show "silent s d" using d assms(1,3) by (simp add: talk_ok_def split: if_splits)
  qed
qed

lemma worker_talk:
  assumes "talk_ok s" and "srv_owned s" and "worker_step sent i s = Some s'"
  shows "talk_ok s'"
  using assms(3)
proof (cases rule: worker_cases)
  case (got c)
  then show ?thesis using talk_got [OF assms(1,2), of i c] by simp
next
  case (serve c req res st)
  have "talk_at s (WServe c req) c" using assms(1) serve(1) unfolding talk_ok_def by (metis conn_of.simps(2))
  then show ?thesis using serve
    by (intro talk_move [OF assms(1,2), of i c "WSend c res"])
      (auto simp: set_worker_def talk_at_def asked_def answered_def over_def fun_eq_iff)
next
  case (send c res)
  have "talk_at s (WSend c res) c" using assms(1) send(1) unfolding talk_ok_def by (metis conn_of.simps(3))
  then show ?thesis using send
    by (intro talk_move [OF assms(1,2), of i c "WRecv c"])
      (auto simp: set_worker_def talk_at_def asked_def answered_def over_def fun_eq_iff)
next
  case (fail c res)
  have "talk_at s (WSend c res) c" using assms(1) fail(1) unfolding talk_ok_def by (metis conn_of.simps(3))
  then show ?thesis using fail
    by (intro talk_move [OF assms(1,2), of i c "WClose c"])
      (auto simp: set_worker_def talk_at_def asked_def answered_def over_def fun_eq_iff)
next
  case (close c)
  have "talk_at s (WClose c) c" using assms(1) close(1) unfolding talk_ok_def by (metis conn_of.simps(4))
  moreover have "c < srv_accepted s" using assms(2) owned_member [of "in_hand s" _ _ _ c "i + 2"] close(1) by (simp add: srv_owned_def)
  ultimately show ?thesis using close
    by (intro talk_release [OF assms(1), of _ c])
      (auto simp: set_worker_def talk_at_def same_talk_def over_disconnect fun_eq_iff over_def)
next
  case (crash c req)
  have "over s' = over s" using crash(2) by (simp add: over_def fun_eq_iff)
  then show ?thesis by (intro talk_still [OF assms(1)]) (use crash in \<open>simp_all add: same_talk_def\<close>)
qed (intro talk_still [OF assms(1)]; simp add: same_talk_def set_worker_def q_enter_def over_def fun_eq_iff)+

lemma stop_talk:
  assumes "talk_ok s" and "srv_owned s" and "srv_stop_step s = Some s'"
  shows "talk_ok s'"
proof (cases "\<exists>c cs. srv_stop s = KClose (c # cs)")
  case True
  then obtain c cs where stop: "srv_stop s = KClose (c # cs)" by blast
  then have hand: "c \<in> set (in_hand s 1)" by simp
  have "conn_of (workers s i) \<noteq> Some c" for i by (rule unserved [OF assms(2) hand]) simp
  then have "silent s c" using assms(1) conn_not_over [OF assms(2) hand] by (simp add: talk_ok_def)
  then have silent: "talk_at s WDone c" by (rule silent_talk) simp_all
  have c: "c < srv_accepted s" using hand assms(2) owned_member [of "in_hand s" _ _ _ c 1] by (simp add: srv_owned_def)
  have s': "s' = (disconnect c s)\<lparr>srv_stop := KClose cs\<rparr>" using assms(3) stop by (simp add: srv_stop_step_def)
  show ?thesis
    by (rule talk_release [OF assms(1) _ _ silent])
      (use s' over_disconnect [OF c] in \<open>simp_all add: same_talk_def over_def fun_eq_iff\<close>)
next
  case False
  have "over s' = over s"
    using assms(3) by (cases rule: srv_stop_cases) (use False in \<open>simp_all add: over_def fun_eq_iff q_enter_def\<close>)
  then show ?thesis using talk_still [OF assms(1), of s'] stop_same [OF assms(3)] by simp
qed

lemma env_talk:
  assumes "talk_ok s" and "srv_owned s" and "srv_env s s'"
  shows "talk_ok s'"
  using assms(3)
proof (cases rule: srv_env.cases)
  case (srv_connects c)
  have "over s' = over s" using srv_connects by (auto simp: over_def fun_eq_iff q_enter_def)
  then show ?thesis by (intro talk_still [OF assms(1)]) (use srv_connects in \<open>simp_all add: same_talk_def q_enter_def\<close>)
next
  case (srv_requests i c req)
  have "talk_at s (WRecv c) c" using assms(1) srv_requests(3) unfolding talk_ok_def by (metis conn_of.simps(1))
  then show ?thesis using srv_requests
    by (intro talk_move [OF assms(1,2), of i c "WServe c req"])
      (auto simp: set_worker_def talk_at_def asked_def answered_def over_def fun_eq_iff)
next
  case (srv_hangs_up i c)
  have "talk_at s (WRecv c) c" using assms(1) srv_hangs_up(3) unfolding talk_ok_def by (metis conn_of.simps(1))
  then show ?thesis using srv_hangs_up
    by (intro talk_move [OF assms(1,2), of i c "WClose c"])
      (auto simp: set_worker_def talk_at_def asked_def answered_def over_def fun_eq_iff)
qed (intro talk_still [OF assms(1)]; simp add: same_talk_def over_def fun_eq_iff)+

lemma talk_start: "srv_start fd True (srv_new sm n) = (0, s) \<Longrightarrow> talk_ok s"
  by (drule srv_start_ok) (simp add: talk_ok_def srv_new_def over_def silent_def asked_def answered_def)

lemma talk_step:
  assumes "talk_ok s" and "srv_owned s" and "srv_step s s'"
  shows "talk_ok s'"
  using assms(3)
proof (cases rule: srv_step.cases)
  case srv_listens
  then show ?thesis using listener_same [OF srv_listens(2)] by (intro talk_still [OF assms(1)]) auto
next
  case (works sent i)
  then show ?thesis using worker_talk [OF assms(1,2)] by blast
next
  case queries
  then show ?thesis using querier_same [OF queries(2)] by (intro talk_still [OF assms(1)]) auto
next
  case srv_stops
  then show ?thesis using stop_talk [OF assms(1,2)] by blast
qed

lemma srv_reachable_talk: "srv_reachable sm n s \<Longrightarrow> talk_ok s"
proof (induction rule: srv_reachable.induct)
  case (srv_own s s')
  then show ?case using talk_step srv_reachable_owned by blast
next
  case (srv_envs s s')
  then show ?case using env_talk srv_reachable_owned by blast
qed (rule talk_start)

section \<open>Runs given by a list of moves\<close>

datatype srv_move = MListen | MWork nat | MStop | MConnect | MRequest nat Request | MHangUp nat | MCallStop

fun srv_exec1 :: "srv_move \<Rightarrow> kvserver \<Rightarrow> kvserver option" where
  "srv_exec1 MListen s = (if crashed s then None else srv_listener_step s)"
| "srv_exec1 (MWork i) s = (if crashed s then None else worker_step True i s)"
| "srv_exec1 MStop s = (if crashed s then None else srv_stop_step s)"
| "srv_exec1 MConnect s =
     (if crashed s \<or> srv_listener s \<noteq> AAccept \<or> \<not> srv_listener_open s then None
      else Some ((q_enter 0 (Push (srv_accepted s)) s)\<lparr>srv_listener := APush (srv_accepted s),
        srv_accepted := Suc (srv_accepted s), srv_connected := (srv_connected s)(srv_accepted s := True)\<rparr>))"
| "srv_exec1 (MRequest i req) s =
     (case workers s i of
        WRecv c \<Rightarrow> if crashed s then None
          else Some ((set_worker i (WServe c req) s)\<lparr>requests_of := (requests_of s)(c := requests_of s c @ [req])\<rparr>)
      | _ \<Rightarrow> None)"
| "srv_exec1 (MHangUp i) s =
     (case workers s i of WRecv c \<Rightarrow> if crashed s then None else Some (set_worker i (WClose c) s) | _ \<Rightarrow> None)"
| "srv_exec1 MCallStop s = (if crashed s \<or> srv_stop s \<noteq> KIdle then None else Some (s\<lparr>srv_stop := KFlag\<rparr>))"

fun srv_exec :: "srv_move list \<Rightarrow> kvserver \<Rightarrow> kvserver option" where
  "srv_exec [] s = Some s"
| "srv_exec (m # ms) s = (case srv_exec1 m s of None \<Rightarrow> None | Some s \<Rightarrow> srv_exec ms s)"

lemma srv_exec1_reachable: "srv_reachable sm n s \<Longrightarrow> srv_exec1 m s = Some s' \<Longrightarrow> srv_reachable sm n s'"
  by (cases m) (auto split: if_splits worker_pc.splits intro: srv_own srv_envs srv_step.intros srv_env.intros)

lemma srv_exec_reachable: "srv_reachable sm n s \<Longrightarrow> srv_exec ms s = Some s' \<Longrightarrow> srv_reachable sm n s'"
  by (induction ms arbitrary: s) (auto split: option.splits intro: srv_exec1_reachable)

definition connect_moves :: "srv_move list" where
  "connect_moves = [MListen, MConnect] @ replicate 4 MListen @ replicate 6 (MWork 0)"

definition stop_moves :: "srv_move list" where
  "stop_moves = [MCallStop, MStop, MStop, MListen] @ replicate 8 MStop"

definition talk_moves :: "srv_move list" where
  "talk_moves = [MRequest 0 (PutRequest ''a'' ''1''), MWork 0, MWork 0, MRequest 0 (GetRequest ''a''), MWork 0]"

definition leave_moves :: "srv_move list" where
  "leave_moves = [MHangUp 0, MWork 0, MWork 0, MStop, MStop]"

definition small_server :: kvserver where
  "small_server = snd (srv_start 3 True (srv_new [] 1))"

lemma small_server_reachable:
  assumes "srv_exec ms small_server = Some s"
  shows "srv_reachable [] 1 s"
proof (rule srv_exec_reachable [OF srv_starts assms])
  show "srv_start 3 True (srv_new [] 1) = (0, small_server)"
    by (simp add: small_server_def prod_eq_iff) (simp add: srv_start_def srv_new_def)
qed

lemma small_server_runs:
  assumes "map_option f (srv_exec ms small_server) = Some x"
  obtains s where "srv_reachable [] 1 s" and "f s = x"
  using assms small_server_reachable [of ms] by (auto simp: map_option_case split: option.splits)

lemma idle_client_run:
  "map_option (\<lambda>s. (srv_stop s, workers s 0, srv_listener s, srv_connected s 0, n_workers s, crashed s, querier s))
     (srv_exec (connect_moves @ stop_moves) small_server)
   = Some (KJoin 0, WRecv 0, ADone, True, 1, False, QNone)"
  by code_simp

lemma connect_run:
  "map_option (\<lambda>s. (workers s 0, srv_accepted s)) (srv_exec connect_moves small_server) = Some (WRecv 0, 1)"
  by code_simp

lemma talk_run:
  "map_option (\<lambda>s. (served s, responses_to s 0)) (srv_exec (connect_moves @ talk_moves) small_server)
   = Some ([(0, PutRequest ''a'' ''1'', PutResponse), (0, GetRequest ''a'', GetResponse ''1'')], [PutResponse])"
  by code_simp

lemma leave_run:
  "map_option (\<lambda>s. (srv_stop s, srv_accepted s)) (srv_exec (connect_moves @ stop_moves @ leave_moves) small_server)
   = Some (KDone, 1)"
  by code_simp

lemma failed_start_state:
  "srv_start fd False (srv_new sm n) = (- 1, s) \<Longrightarrow> 0 \<le> fd \<Longrightarrow> sm \<noteq> [] \<and> querier s = QNone \<and> srv_listener s = ACheck"
  by (auto simp: srv_start_def srv_new_def Let_def split: if_splits)

section \<open>What a server guarantees\<close>

text \<open>
  C6: a running server is linearizable. However its threads interleave, the requests in the order
  the store served them are answered as by one abstract map from keys to values; what a client got
  back is, in order, the answers to its own requests, all but possibly the last of them; and at most
  the last request of a client is still to be served.
\<close>

theorem server_linearizable:
  assumes "srv_reachable sm n s"
  shows "fst (spec_run (map (\<lambda>(c, req, res). req) (served s)) Map.empty) = map (\<lambda>(c, req, res). res) (served s)
    \<and> (\<forall>c. prefix (responses_to s c) (answered s c) \<and> (\<exists>last. requests_of s c = asked s c @ last \<and> length last \<le> 1))"
proof (intro conjI allI)
  show "fst (spec_run (map (\<lambda>(c, req, res). req) (served s)) Map.empty) = map (\<lambda>(c, req, res). res) (served s)"
    using srv_reachable_log [OF assms] by (simp add: log_ok_def)
  fix c
  have ok: "talk_ok s" by (rule srv_reachable_talk [OF assms])
  have "\<exists>p. talk_at s p c" 
    using ok silent_talk [of s c WDone] unfolding talk_ok_def by blast
  then obtain p where "talk_at s p c" ..
  then show "prefix (responses_to s c) (answered s c)"
    and "\<exists>last. requests_of s c = asked s c @ last \<and> length last \<le> 1"
    by (cases p; auto simp: talk_at_def)+
qed

theorem server_linearizable_witness:
  "\<exists>s :: kvserver. served s = [(0, PutRequest ''a'' ''1'', PutResponse), (0, GetRequest ''a'', GetResponse ''1'')]
    \<and> fst (spec_run (map (\<lambda>(c, req, res). req) (served s)) Map.empty) = [PutResponse, GetResponse ''1'']"
proof -
  obtain s where s: "srv_reachable [] 1 s"
    "(served s, responses_to s 0) = ([(0, PutRequest ''a'' ''1'', PutResponse), (0, GetRequest ''a'', GetResponse ''1'')], [PutResponse])"
    by (rule small_server_runs [OF talk_run])
  then show ?thesis using server_linearizable [OF s(1)] by - (rule exI [of _ s], simp)
qed

text \<open>
  C14: no connection is lost or served twice: in every reachable state each accepted connection is
  in exactly one place, the queue, the hands of one thread, or given up.
\<close>

theorem connection_owner:
  assumes "srv_reachable sm n s"
  shows "distinct (q (conn_queue s)) \<and> (\<forall>c < srv_accepted s.
    (c \<in> set (q (conn_queue s)) \<and> (\<forall>t. c \<notin> set (in_hand s t)) \<and> srv_connected s c)
    \<or> (c \<notin> set (q (conn_queue s)) \<and> (\<exists>!t. c \<in> set (in_hand s t)) \<and> srv_connected s c)
    \<or> (c \<notin> set (q (conn_queue s)) \<and> (\<forall>t. c \<notin> set (in_hand s t)) \<and> \<not> srv_connected s c))"
proof (intro conjI allI impI)
  note owned = srv_reachable_owned [OF assms, unfolded srv_owned_def owned_def over_def]
  then show "distinct (q (conn_queue s))" by blast
  fix c assume c: "c < srv_accepted s"
  from owned c consider "c \<in> set (q (conn_queue s))" | t where "c \<in> set (in_hand s t)" | "\<not> srv_connected s c" by blast
  then show "(c \<in> set (q (conn_queue s)) \<and> (\<forall>t. c \<notin> set (in_hand s t)) \<and> srv_connected s c)
    \<or> (c \<notin> set (q (conn_queue s)) \<and> (\<exists>!t. c \<in> set (in_hand s t)) \<and> srv_connected s c)
    \<or> (c \<notin> set (q (conn_queue s)) \<and> (\<forall>t. c \<notin> set (in_hand s t)) \<and> \<not> srv_connected s c)"
  proof cases
    case (2 t)
    then have "\<exists>!t. c \<in> set (in_hand s t)" using owned by blast
    with 2 owned c show ?thesis by blast
  qed (use owned c in blast)+
qed

theorem connection_owner_witness:
  "\<exists>s :: kvserver. srv_accepted s = 1 \<and> workers s 0 = WRecv 0 \<and> (\<exists>!t. 0 \<in> set (in_hand s t))"
proof -
  obtain s where s: "srv_reachable [] 1 s" "(workers s 0, srv_accepted s) = (WRecv 0, 1)"
    by (rule small_server_runs [OF connect_run])
  have "0 \<in> set (in_hand s 2)" using s(2) by (simp add: numeral_2_eq_2)
  with connection_owner [OF s(1)] s(2) have "\<exists>!t. 0 \<in> set (in_hand s t)" by auto
  with s(2) show ?thesis by - (rule exI [of _ s], simp)
qed



text \<open>
  C16: \<open>stop\<close> may never return. It shuts down the connections that still wait in the queue but not
  those the workers serve, so with one connected client that sends nothing the server reaches a
  state in which \<open>stop\<close> joins a worker that waits in \<open>recv\<close> and no thread of the server can move.
\<close>

theorem stop_hangs:
  "\<exists>s :: kvserver. srv_reachable [] 1 s \<and> srv_stop s = KJoin 0 \<and> workers s 0 = WRecv 0 \<and> srv_connected s 0 \<and> \<not> crashed s
    \<and> (\<forall>s'. \<not> srv_step s s')"
proof -
  obtain s where s: "srv_reachable [] 1 s" "(srv_stop s, workers s 0, srv_listener s, srv_connected s 0, n_workers s, crashed s, querier s)
    = (KJoin 0, WRecv 0, ADone, True, 1, False, QNone)"
    by (rule small_server_runs [OF idle_client_run])
  have idle: "workers s i = WNone" if "i \<noteq> 0" for i
    using srv_reachable_stages [OF s(1)] s(2) that by (simp add: stages_ok_def)
  have "worker_step sent i s = None" for sent i
    using s(2) idle [of i] by (cases "i = 0") (simp_all add: worker_step_def)
  then have "\<not> srv_step s s'" for s'
    using s(2) by (auto elim!: srv_step.cases simp: srv_listener_step_def querier_step_def srv_stop_step_def)
  with s show ?thesis by auto
qed

end
