(* ===== verification/Boot.thy ===== *)
theory Boot
  imports Process
begin

unbundle bit_operations_syntax

text \<open>
  The boot loader (\<open>weensyos/boot.cc\<close>): it reads the kernel's executable from the disk, a
  sector at a time, copies its segments to their addresses and finds its entry point. The disk is a
  parameter: the values of its status port over time, and the data it returns for the commands
  written to its ports.
\<close>

section \<open>Definitions\<close>

record ata_drive =
  ata_status :: "nat \<Rightarrow> 8 word"
  ata_data :: "(16 word \<times> 8 word) list \<Rightarrow> 8 word list"

record boot_state =
  boot_mem :: memory
  boot_clock :: nat

definition SECTORSIZE :: "64 word" where "SECTORSIZE = 512"
definition ELFHDR :: addr where "ELFHDR = 0x3000"
definition KERNEL_START_SECTOR :: "64 word" where "KERNEL_START_SECTOR = 1"

partial_function (option) boot_waitdisk :: "ata_drive \<Rightarrow> nat \<Rightarrow> nat option" where
  "boot_waitdisk d t = (if ata_status d t AND 0xC0 = 0x40 then Some (Suc t) else boot_waitdisk d (Suc t))"

definition boot_commands :: "32 word \<Rightarrow> (16 word \<times> 8 word) list" where
  "boot_commands src_sect =
     [(0x1F2, 1), (0x1F3, ucast src_sect), (0x1F4, ucast (drop_bit 8 src_sect)), (0x1F5, ucast (drop_bit 16 src_sect)),
      (0x1F6, ucast (drop_bit 24 src_sect OR 0xE0)), (0x1F7, 0x20)]"

definition boot_readsect :: "ata_drive \<Rightarrow> addr \<Rightarrow> 32 word \<Rightarrow> boot_state \<Rightarrow> boot_state option" where
  "boot_readsect d dst src_sect b =
     Option.bind (boot_waitdisk d (boot_clock b)) (\<lambda>t.
     Option.bind (boot_waitdisk d t) (\<lambda>t.
     Some (b\<lparr>boot_clock := t, boot_mem := write_bytes (boot_mem b) dst (take 512 (ata_data d (boot_commands src_sect)))\<rparr>)))"

partial_function (option) boot_read_loop :: "ata_drive \<Rightarrow> addr \<Rightarrow> addr \<Rightarrow> 32 word \<Rightarrow> boot_state \<Rightarrow> boot_state option" where
  "boot_read_loop d ptr end_ptr src_sect b =
     (if ptr < end_ptr
      then Option.bind (boot_readsect d ptr src_sect b) (boot_read_loop d (ptr + SECTORSIZE) end_ptr (src_sect + 1))
      else Some b)"

lemma boot_unat_next: "e < (m :: addr) \<Longrightarrow> unat (e + 1) = Suc (unat e)"
  using unat_bound64 [of m] by (simp add: unat_word_ariths word_less_nat_alt)

function boot_clear :: "addr \<Rightarrow> addr \<Rightarrow> memory \<Rightarrow> memory" where
  "boot_clear end_ptr memsz m = (if end_ptr < memsz then boot_clear (end_ptr + 1) memsz (m(end_ptr := 0)) else m)"
  by pat_completeness auto
termination
proof (relation "measure (\<lambda>(e, m, _). unat m - unat e)")
  fix e m :: addr and mem :: memory
  assume "e < m"
  then show "((e + 1, m, mem(e := 0)), e, m, mem) \<in> measure (\<lambda>(e, m, _). unat m - unat e)"
    by (simp add: boot_unat_next) (simp add: word_less_nat_alt)
qed simp

declare boot_clear.simps [simp del]

definition boot_readseg :: "ata_drive \<Rightarrow> addr \<Rightarrow> 32 word \<Rightarrow> 64 word \<Rightarrow> 64 word \<Rightarrow> boot_state \<Rightarrow> boot_state option" where
  "boot_readseg d ptr src_sect filesz memsz b =
     Option.bind (boot_read_loop d (ptr AND NOT (SECTORSIZE - 1)) (ptr + filesz) src_sect b) (\<lambda>b.
     Some (b\<lparr>boot_mem := boot_clear (ptr + filesz) (memsz + ptr) (boot_mem b)\<rparr>))"

text \<open>The little-endian number in \<open>n\<close> bytes, and a program header in memory.\<close>

definition load_le :: "memory \<Rightarrow> addr \<Rightarrow> nat \<Rightarrow> 64 word" where
  "load_le m a n = of_le (read_bytes m a n)"

definition load_program :: "memory \<Rightarrow> addr \<Rightarrow> elf_program" where
  "load_program m a =
     \<lparr>p_type = ucast (load_le m a 4), p_flags = ucast (load_le m (a + 4) 4), p_offset = load_le m (a + 8) 8,
      p_va = load_le m (a + 0x10) 8, p_filesz = load_le m (a + 0x20) 8, p_memsz = load_le m (a + 0x28) 8\<rparr>"

partial_function (option) boot_segments :: "ata_drive \<Rightarrow> addr \<Rightarrow> addr \<Rightarrow> boot_state \<Rightarrow> boot_state option" where
  "boot_segments d hp ehp b =
     (if hp < ehp
      then let p = load_program (boot_mem b) hp in
        Option.bind (boot_readseg d (p_va p) (ucast (KERNEL_START_SECTOR + p_offset p div SECTORSIZE)) (p_filesz p) (p_memsz p) b)
          (boot_segments d (hp + 56) ehp)
      else Some b)"

text \<open>The entry point and the state when the kernel is entered; a wrong magic number makes the loader wait for ever.\<close>

definition boot :: "ata_drive \<Rightarrow> boot_state \<Rightarrow> (addr \<times> boot_state) option" where
  "boot d b =
     Option.bind (boot_readseg d ELFHDR (ucast KERNEL_START_SECTOR) (of_nat PAGESIZE) (of_nat PAGESIZE) b) (\<lambda>b.
     if ucast (load_le (boot_mem b) ELFHDR 4) \<noteq> ELF_MAGIC then None
     else let ph = ELFHDR + load_le (boot_mem b) (ELFHDR + 0x20) 8;
              eph = ph + 56 * load_le (boot_mem b) (ELFHDR + 0x38) 2 in
       Option.bind (boot_segments d ph eph b) (\<lambda>b. Some (load_le (boot_mem b) (ELFHDR + 0x18) 8, b)))"

section \<open>The disk\<close>

text \<open>
  What the hardware documents: the status port shows, again and again, a drive that is ready and not
  busy; and a command to read one sector with linear addressing returns the 512 bytes of the sector
  whose number is in the four address ports.
\<close>

definition port :: "16 word \<Rightarrow> (16 word \<times> 8 word) list \<Rightarrow> 8 word" where
  "port p cmds = the (map_of (rev cmds) p)"

definition lba :: "(16 word \<times> 8 word) list \<Rightarrow> nat" where
  "lba cmds = unat (port 0x1F3 cmds) + 2 ^ 8 * unat (port 0x1F4 cmds) + 2 ^ 16 * unat (port 0x1F5 cmds)
     + 2 ^ 24 * (unat (port 0x1F6 cmds) mod 16)"

definition drive_works :: "ata_drive \<Rightarrow> (nat \<Rightarrow> 8 word) \<Rightarrow> bool" where
  "drive_works d disk \<longleftrightarrow> (\<forall>t. \<exists>u \<ge> t. ata_status d u AND 0xC0 = 0x40)
     \<and> (\<forall>cmds. port 0x1F2 cmds = 1 \<and> port 0x1F6 cmds AND 0xE0 = 0xE0 \<and> port 0x1F7 cmds = 0x20 \<longrightarrow>
          ata_data d cmds = map (\<lambda>i. disk (512 * lba cmds + i)) [0..<512])"

lemma waitdisk_returns:
  assumes "drive_works d disk"
  shows "\<exists>t'. boot_waitdisk d t = Some t'"
proof -
  obtain u where "t \<le> u" "ata_status d u AND 0xC0 = 0x40" using assms by (auto simp: drive_works_def)
  then show ?thesis
  proof (induction "u - t" arbitrary: t)
    case 0
    then have "t = u" by simp
    with 0 show ?case by (subst boot_waitdisk.simps) simp
  next
    case (Suc n)
    then have "\<exists>t'. boot_waitdisk d (Suc t) = Some t'" by (intro Suc.hyps(1)) auto
    then show ?case by (subst boot_waitdisk.simps) simp
  qed
qed

lemma boot_ports:
  "port 0x1F2 (boot_commands s) = 1" "port 0x1F3 (boot_commands s) = ucast s" "port 0x1F4 (boot_commands s) = ucast (drop_bit 8 s)"
  "port 0x1F5 (boot_commands s) = ucast (drop_bit 16 s)" "port 0x1F6 (boot_commands s) = ucast (drop_bit 24 s OR 0xE0)"
  "port 0x1F7 (boot_commands s) = 0x20"
  by (simp_all add: port_def boot_commands_def)

lemma bytes_of_nat:
  "n mod 256 + 2 ^ 8 * (n div 2 ^ 8 mod 256) + 2 ^ 16 * (n div 2 ^ 16 mod 256) + 2 ^ 24 * (n div 2 ^ 24) = (n :: nat)"
proof -
  define m1 m2 where "m1 = n div 256" and "m2 = m1 div 256"
  have div: "n div 65536 = m2" "n div 16777216 = m2 div 256" "n div 256 = m1" by (simp_all add: m1_def m2_def flip: div_mult2_eq)
  have "n = n mod 256 + 256 * m1" unfolding m1_def by simp
  moreover have "m1 = m1 mod 256 + 256 * m2" unfolding m2_def by simp
  moreover have "m2 = m2 mod 256 + 256 * (m2 div 256)" by simp
  ultimately have "n mod 256 + 256 * (m1 mod 256) + 65536 * (m2 mod 256) + 16777216 * (m2 div 256) = n" by linarith
  then show ?thesis by (simp add: div)
qed

lemma unat_ucast8: "unat (ucast (w :: 32 word) :: 8 word) = unat w mod 256"
  by (simp add: unsigned_ucast_eq take_bit_eq_mod)

lemma unat_drop32: "unat (drop_bit k (w :: 32 word)) = unat w div 2 ^ k"
  using unsigned_less [of w, where ?'a = nat] by (subst unsigned_drop_bit_eq) (simp add: drop_bit_eq_div take_bit_nat_eq_self)

lemma commands_lba:
  assumes "unat s < 2 ^ 28"
  shows "lba (boot_commands s) = unat s"
proof -
  have "take_bit 4 (ucast (w OR 0xE0) :: 8 word) = ucast (take_bit 4 w)" for w :: "32 word"
  proof (rule bit_word_eqI)
    fix n
    assume "n < LENGTH(8)"
    then have "n < 8" by simp
    then consider "n = 0" | "n = 1" | "n = 2" | "n = 3" | "4 \<le> n" by linarith
    then show "bit (take_bit 4 (ucast (w OR 0xE0) :: 8 word)) n = bit (ucast (take_bit 4 w) :: 8 word) n"
      by cases (simp_all add: bit_simps)
  qed
  then have low: "take_bit 4 (ucast (drop_bit 24 s OR 0xE0) :: 8 word) = ucast (take_bit 4 (drop_bit 24 s))" .
  have "unat (ucast (drop_bit 24 s OR 0xE0) :: 8 word) mod 16 = unat (ucast (take_bit 4 (drop_bit 24 s)) :: 8 word)"
    unfolding low [symmetric] by (subst unsigned_take_bit_eq) (simp add: take_bit_eq_mod)
  also have "\<dots> = unat (take_bit 4 (drop_bit 24 s)) mod 256" by (rule unat_ucast8)
  also have "unat (take_bit 4 (drop_bit 24 s)) = unat s div 2 ^ 24 mod 16"
    by (subst unsigned_take_bit_eq) (simp only: take_bit_eq_mod unat_drop32, simp)
  also have "unat s div 2 ^ 24 mod 16 mod 256 = unat s div 2 ^ 24" using assms by (simp add: less_mult_imp_div_less)
  finally have "unat (ucast (drop_bit 24 s OR 0xE0) :: 8 word) mod 16 = unat s div 2 ^ 24" .
  then show ?thesis using bytes_of_nat [of "unat s"] by (simp add: lba_def boot_ports unat_ucast8 unat_drop32)
qed

section \<open>Reading a segment\<close>

lemma readsect_returns:
  assumes "drive_works d disk" and "unat s < 2 ^ 28"
  shows "\<exists>t. boot_readsect d a s b = Some (b\<lparr>boot_clock := t,
    boot_mem := write_bytes (boot_mem b) a (map (\<lambda>i. disk (512 * unat s + i)) [0..<512])\<rparr>)"
proof -
  obtain t where t: "boot_waitdisk d (boot_clock b) = Some t" using waitdisk_returns [OF assms(1)] by blast
  obtain u where u: "boot_waitdisk d t = Some u" using waitdisk_returns [OF assms(1)] by blast
  have "ucast (w OR 0xE0) AND 0xE0 = (0xE0 :: 8 word)" for w :: "32 word"
  proof (rule bit_word_eqI)
    fix n
    assume "n < LENGTH(8)"
    then have "n < 8" by simp
    then consider "n = 0" | "n = 1" | "n = 2" | "n = 3" | "n = 4" | "n = 5" | "n = 6" | "n = 7" by linarith
    then show "bit (ucast (w OR 0xE0) AND 0xE0 :: 8 word) n = bit (0xE0 :: 8 word) n"
      by cases (simp_all add: bit_simps)
  qed
  then have "ata_data d (boot_commands s) = map (\<lambda>i. disk (512 * unat s + i)) [0..<512]"
    using assms(1) by (simp add: drive_works_def boot_ports commands_lba [OF assms(2)])
  then show ?thesis using t u by (intro exI [of _ u]) (simp add: boot_readsect_def)
qed

lemma unat_add_small: "unat (a :: addr) + n < 2 ^ 64 \<Longrightarrow> unat (a + of_nat n) = unat a + n"
  by (simp add: unat_word_ariths unat_of_nat_small)

lemma write_bytes_at:
  assumes "unat a + length bs \<le> 2 ^ 64"
  shows "write_bytes m a bs x = (if unat a \<le> unat x \<and> unat x < unat a + length bs then bs ! (unat x - unat a) else m x)"
proof (cases "a \<le> x")
  case True
  then show ?thesis by (auto simp: write_bytes_def unat_sub word_le_nat_alt)
next
  case False
  then have "unat x < unat a" by (simp add: word_le_nat_alt)
  then have "unat (x - a) = 2 ^ 64 - (unat a - unat x)"
    using unat_bound64 [of a] unat_bound64 [of x] by (simp add: unat_sub_if' )
  then show ?thesis using assms \<open>unat x < unat a\<close> unat_bound64 [of a] by (auto simp: write_bytes_def)
qed

text \<open>The bytes of the disk from sector \<open>s\<close> on, at the addresses from \<open>a\<close> to \<open>e\<close>.\<close>

definition disk_at :: "(nat \<Rightarrow> 8 word) \<Rightarrow> nat \<Rightarrow> nat \<Rightarrow> nat \<Rightarrow> memory \<Rightarrow> memory" where
  "disk_at disk s a e m = (\<lambda>x. if a \<le> unat x \<and> unat x < e then disk (512 * s + (unat x - a)) else m x)"

lemma read_loop_returns:
  assumes "drive_works d disk"
  shows "unat a + 512 * k < 2 ^ 64 \<Longrightarrow> unat s + k \<le> 2 ^ 28 \<Longrightarrow> unat e \<le> unat a + 512 * k
    \<Longrightarrow> (k > 0 \<Longrightarrow> unat a + 512 * (k - 1) < unat e) \<Longrightarrow>
    \<exists>t. boot_read_loop d a e s b = Some (b\<lparr>boot_clock := t,
      boot_mem := disk_at disk (unat s) (unat a) (unat a + 512 * k) (boot_mem b)\<rparr>)"
proof (induction k arbitrary: a s b)
  case 0
  then have "\<not> a < e" "disk_at disk (unat s) (unat a) (unat a + 512 * 0) (boot_mem b) = boot_mem b"
    by (auto simp: word_less_nat_alt disk_at_def fun_eq_iff)
  then show ?case by (subst boot_read_loop.simps) (auto intro!: exI [of _ "boot_clock b"])
next
  case (Suc k)
  let ?bs = "map (\<lambda>i. disk (512 * unat s + i)) [0..<512]"
  have less: "a < e" using Suc.prems(4) by (simp add: word_less_nat_alt)
  obtain t where t: "boot_readsect d a s b = Some (b\<lparr>boot_clock := t, boot_mem := write_bytes (boot_mem b) a ?bs\<rparr>)" (is "_ = Some ?b")
    using readsect_returns [OF assms, of s a b] Suc.prems(2) by auto
  have a: "unat (a + SECTORSIZE) = unat a + 512" using unat_add_small [of a 512] Suc.prems(1) by (simp add: SECTORSIZE_def)
  have s: "unat (s + 1) = Suc (unat s)" using Suc.prems(2) by (simp add: unat_word_ariths)
  have last: "unat a + 512 + 512 * (k - 1) < unat e" if "k > 0" using Suc.prems(4) that by (cases k) simp_all
  obtain u where "boot_read_loop d (a + SECTORSIZE) e (s + 1) ?b = Some (?b\<lparr>boot_clock := u,
      boot_mem := disk_at disk (Suc (unat s)) (unat a + 512) (unat a + 512 + 512 * k) (boot_mem ?b)\<rparr>)"
    using Suc.IH [of "a + SECTORSIZE" "s + 1" ?b] Suc.prems(1-3) last unfolding a s by auto
  moreover have "disk_at disk (Suc (unat s)) (unat a + 512) (unat a + 512 + 512 * k) (write_bytes (boot_mem b) a ?bs)
    = disk_at disk (unat s) (unat a) (unat a + 512 * Suc k) (boot_mem b)"
    using Suc.prems(1) by (auto simp: disk_at_def fun_eq_iff write_bytes_at algebra_simps)
  ultimately show ?case using less t by (subst boot_read_loop.simps) auto
qed

lemma boot_clear_eq:
  "boot_clear e m mem = (\<lambda>x. if unat e \<le> unat x \<and> unat x < unat m then 0 else mem x)"
proof (induction e m mem rule: boot_clear.induct)
  case (1 e m mem)
  show ?case
  proof (cases "e < m")
    case True
    have "boot_clear e m mem = boot_clear (e + 1) m (mem(e := 0))" using True by (subst boot_clear.simps) simp
    also have "\<dots> = (\<lambda>x. if Suc (unat e) \<le> unat x \<and> unat x < unat m then 0 else (mem(e := 0)) x)"
      by (simp only: 1 [OF True] boot_unat_next [OF True])
    also have "\<dots> = (\<lambda>x. if unat e \<le> unat x \<and> unat x < unat m then 0 else mem x)"
    proof
      fix x
      show "(if Suc (unat e) \<le> unat x \<and> unat x < unat m then 0 else (mem(e := 0)) x)
        = (if unat e \<le> unat x \<and> unat x < unat m then 0 else mem x)"
        using True by (cases "x = e") (auto simp: word_less_nat_alt Suc_le_eq order_less_le word_unat_eq_iff [of x e])
    qed
    finally show ?thesis .
  next
    case False
    then show ?thesis by (subst boot_clear.simps) (auto simp: fun_eq_iff word_less_nat_alt)
  qed
qed

text \<open>
  A segment of \<open>f\<close> bytes in the file and \<open>n\<close> bytes in memory at address \<open>a\<close>, and the addresses
  \<open>boot_readseg\<close> writes: whole sectors of the disk, then zeros.
\<close>

definition sector_down :: "nat \<Rightarrow> nat" where
  "sector_down a = 512 * (a div 512)"

definition sector_up :: "nat \<Rightarrow> nat" where
  "sector_up a = sector_down (a + 511)"

definition loaded :: "(nat \<Rightarrow> 8 word) \<Rightarrow> nat \<Rightarrow> nat \<Rightarrow> nat \<Rightarrow> nat \<Rightarrow> memory \<Rightarrow> memory" where
  "loaded disk s a f n m = (\<lambda>x. if a + f \<le> unat x \<and> unat x < a + n then 0
     else disk_at disk s (sector_down a) (sector_up (a + f)) m x)"

lemma sector_bounds: "sector_up x \<le> x + 511" "x \<le> sector_up x" "sector_down x \<le> x"
proof -
  have "512 * ((x + 511) div 512) + (x + 511) mod 512 = x + 511" by (rule mult_div_mod_eq)
  moreover have "(x + 511) mod 512 \<le> 511" using mod_less_divisor [of 512 "x + 511"] by linarith
  ultimately show "x \<le> sector_up x" and "sector_up x \<le> x + 511" unfolding sector_up_def sector_down_def by linarith+
  show "sector_down x \<le> x" unfolding sector_down_def by (rule times_div_less_eq_dividend)
qed

lemma unat_sector_down: "unat (a AND NOT (SECTORSIZE - 1)) = sector_down (unat a)"
proof -
  have m: "SECTORSIZE - 1 = (mask 9 :: 64 word)" by (simp add: SECTORSIZE_def mask_eq_exp_minus_1)
  have "(a AND NOT (mask 9)) + (a AND mask 9) = (a AND NOT (mask 9)) OR (a AND mask 9)"
    by (rule disjunctive_add) (auto simp: bit_simps)
  also have "\<dots> = a" by (rule bit_word_eqI) (auto simp: bit_simps)
  finally have "a AND NOT (mask 9) = a - take_bit 9 a" by (simp add: take_bit_eq_mask eq_diff_eq)
  moreover have u: "unat (take_bit 9 a) = unat a mod 512" by (subst unsigned_take_bit_eq) (simp add: take_bit_eq_mod)
  then have "take_bit 9 a \<le> a" by (simp only: word_le_nat_alt mod_less_eq_dividend)
  ultimately have "unat (a AND NOT (mask 9)) = unat a - unat a mod 512" using u by (simp only: unat_sub)
  then show ?thesis by (simp only: m sector_down_def minus_mod_eq_mult_div)
qed

lemma sector_count: "(a + f + 511) div 512 < a div 512 + f div 512 + (3 :: nat)"
proof -
  obtain q r where a: "a = q * 512 + r" "r < 512" by (rule that [of "a div 512" "a mod 512"]) simp_all
  obtain q' r' where f: "f = q' * 512 + r'" "r' < 512" by (rule that [of "f div 512" "f mod 512"]) simp_all
  have "a + f + 511 < (q + q' + 3) * 512" unfolding a(1) f(1) distrib_right using a(2) f(2) by simp
  then have "(a + f + 511) div 512 < q + q' + 3" by (rule less_mult_imp_div_less)
  moreover have "a div 512 = q" "f div 512 = q'" using a f by simp_all
  ultimately show ?thesis by simp
qed

lemma readseg_returns:
  assumes "drive_works d disk" and "unat a + unat f + 512 < 2 ^ 64" and "unat a + unat n < 2 ^ 64"
    and "unat s + unat f div 512 + 2 \<le> 2 ^ 28"
  shows "\<exists>t. boot_readseg d a s f n b = Some (b\<lparr>boot_clock := t,
    boot_mem := loaded disk (unat s) (unat a) (unat f) (unat n) (boot_mem b)\<rparr>)"
proof -
  let ?p = "a AND NOT (SECTORSIZE - 1)"
  define k where "k = (unat a + unat f + 511) div 512 - unat a div 512"
  have ends: "unat (a + f) = unat a + unat f" "unat (n + a) = unat a + unat n"
    using assms(2,3) by (simp_all add: unat_word_ariths)
  have mono: "unat a div 512 \<le> (unat a + unat f + 511) div 512" by (rule div_le_mono) simp
  then have k: "sector_down (unat a) + 512 * k = sector_up (unat a + unat f)"
    by (simp add: k_def sector_up_def sector_down_def diff_mult_distrib2)
  have up: "sector_up (unat a + unat f) \<le> unat a + unat f + 511" "unat a + unat f \<le> sector_up (unat a + unat f)"
    by (rule sector_bounds)+
  have "(unat a + unat f + 511) div 512 < unat a div 512 + unat f div 512 + 3" by (rule sector_count)
  then have "unat s + k \<le> 2 ^ 28" using assms(4) unfolding k_def by linarith
  moreover have "sector_down (unat a) + 512 * (k - 1) < unat a + unat f" if "k > 0"
    using that up(1) k by (simp add: algebra_simps)
  ultimately obtain t b1 where loop: "boot_read_loop d ?p (a + f) s b = Some b1"
    and b1: "b1 = b\<lparr>boot_clock := t, boot_mem := disk_at disk (unat s) (sector_down (unat a)) (sector_up (unat a + unat f)) (boot_mem b)\<rparr>"
    using read_loop_returns [OF assms(1), of ?p k s "a + f" b] up assms(2)
    unfolding unat_sector_down ends k by auto
  have "boot_readseg d a s f n b = Some (b1\<lparr>boot_mem := boot_clear (a + f) (n + a) (boot_mem b1)\<rparr>)"
    by (simp add: boot_readseg_def loop)
  also have "b1\<lparr>boot_mem := boot_clear (a + f) (n + a) (boot_mem b1)\<rparr>
    = b\<lparr>boot_clock := t, boot_mem := loaded disk (unat s) (unat a) (unat f) (unat n) (boot_mem b)\<rparr>"
    by (rule boot_state.equality) (simp_all add: b1 boot_clear_eq ends loaded_def)
  finally show ?thesis by blast
qed

section \<open>Loading the kernel\<close>

text \<open>The kernel's file starts in sector 1. Numbers and program headers in it, by offset.\<close>

definition file_byte :: "(nat \<Rightarrow> 8 word) \<Rightarrow> nat \<Rightarrow> 8 word" where
  "file_byte disk i = disk (512 + i)"

definition file_le :: "(nat \<Rightarrow> 8 word) \<Rightarrow> nat \<Rightarrow> nat \<Rightarrow> 64 word" where
  "file_le disk off n = of_le (map (\<lambda>i. file_byte disk (off + i)) [0..<n])"

definition file_program :: "(nat \<Rightarrow> 8 word) \<Rightarrow> nat \<Rightarrow> elf_program" where
  "file_program disk a =
     \<lparr>p_type = ucast (file_le disk a 4), p_flags = ucast (file_le disk (a + 4) 4), p_offset = file_le disk (a + 8) 8,
      p_va = file_le disk (a + 0x10) 8, p_filesz = file_le disk (a + 0x20) 8, p_memsz = file_le disk (a + 0x28) 8\<rparr>"

definition file_programs :: "(nat \<Rightarrow> 8 word) \<Rightarrow> elf_program list" where
  "file_programs disk =
     map (\<lambda>i. file_program disk (unat (file_le disk 0x20 8) + 56 * i)) [0..<unat (file_le disk 0x38 2)]"

text \<open>
  A segment can be loaded: it fits in memory and on the disk, and its address and its place in the
  file agree modulo the sector size. Loading it writes whole sectors and zeros.
\<close>

definition loadable :: "elf_program \<Rightarrow> bool" where
  "loadable p \<longleftrightarrow> unat (p_filesz p) \<le> unat (p_memsz p) \<and> unat (p_va p) + unat (p_memsz p) + 512 < 2 ^ 64
     \<and> unat (p_offset p) div 512 + unat (p_filesz p) div 512 + 3 \<le> 2 ^ 28 \<and> unat (p_va p) mod 512 = unat (p_offset p) mod 512"

definition segment :: "elf_program \<Rightarrow> nat set" where
  "segment p = {unat (p_va p)..<unat (p_va p) + unat (p_memsz p)}"

definition written :: "elf_program \<Rightarrow> nat set" where
  "written p = {sector_down (unat (p_va p))..<sector_up (unat (p_va p) + unat (p_filesz p))} \<union> segment p"

fun in_order :: "elf_program list \<Rightarrow> bool" where
  "in_order [] = True"
| "in_order (p # ps) \<longleftrightarrow> (\<forall>p' \<in> set ps. segment p \<inter> written p' = {}) \<and> in_order ps"

definition segment_loaded :: "(nat \<Rightarrow> 8 word) \<Rightarrow> memory \<Rightarrow> elf_program \<Rightarrow> bool" where
  "segment_loaded disk m p \<longleftrightarrow> (\<forall>i < unat (p_memsz p). m (p_va p + of_nat i)
     = (if i < unat (p_filesz p) then file_byte disk (unat (p_offset p) + i) else 0))"

definition header_held :: "(nat \<Rightarrow> 8 word) \<Rightarrow> memory \<Rightarrow> bool" where
  "header_held disk m \<longleftrightarrow> (\<forall>i < 4096. m (ELFHDR + of_nat i) = file_byte disk i)"

lemma load_le_header:
  assumes "header_held disk m" and "off + n \<le> 4096"
  shows "load_le m (ELFHDR + of_nat off) n = file_le disk off n"
proof -
  have "m (ELFHDR + of_nat off + of_nat i) = file_byte disk (off + i)" if "i < n" for i
    using assms that by (simp add: header_held_def add.assoc flip: of_nat_add)
  then have "read_bytes m (ELFHDR + of_nat off) n = map (\<lambda>i. file_byte disk (off + i)) [0..<n]"
    by (simp add: read_bytes_def)
  then show ?thesis by (simp add: load_le_def file_le_def)
qed

lemma load_program_header:
  assumes "header_held disk m" and "off + 56 \<le> 4096"
  shows "load_program m (ELFHDR + of_nat off) = file_program disk off"
proof -
  have "load_le m (ELFHDR + of_nat off + of_nat k) n = file_le disk (off + k) n" if "k + n \<le> 56" for k n
    using load_le_header [OF assms(1), of "off + k" n] assms(2) that by (simp add: add.assoc)
  from this [of 0 4] this [of 4 4] this [of 8 8] this [of 16 8] this [of 32 8] this [of 40 8]
  show ?thesis by (simp add: load_program_def file_program_def)
qed

lemma segment_sector:
  assumes "loadable p"
  shows "unat (ucast (KERNEL_START_SECTOR + p_offset p div SECTORSIZE) :: 32 word) = Suc (unat (p_offset p) div 512)"
proof -
  have "unat (p_offset p) div 512 + 1 < 2 ^ 28" using assms by (simp add: loadable_def)
  then show ?thesis
    by (simp add: KERNEL_START_SECTOR_def SECTORSIZE_def unsigned_ucast_eq unat_word_ariths unat_div take_bit_nat_eq_self)
qed

lemma segment_returns:
  assumes "drive_works d disk" and "loadable p"
  shows "\<exists>b'. boot_readseg d (p_va p) (ucast (KERNEL_START_SECTOR + p_offset p div SECTORSIZE)) (p_filesz p) (p_memsz p) b = Some b'
    \<and> segment_loaded disk (boot_mem b') p \<and> (\<forall>x. unat x \<notin> written p \<longrightarrow> boot_mem b' x = boot_mem b x)"
proof -
  let ?va = "unat (p_va p)" and ?f = "unat (p_filesz p)" and ?n = "unat (p_memsz p)" and ?off = "unat (p_offset p)"
  note fits = assms(2) [unfolded loadable_def]
  obtain t where t: "boot_readseg d (p_va p) (ucast (KERNEL_START_SECTOR + p_offset p div SECTORSIZE)) (p_filesz p) (p_memsz p) b
    = Some (b\<lparr>boot_clock := t, boot_mem := loaded disk (Suc (?off div 512)) ?va ?f ?n (boot_mem b)\<rparr>)"
    using readseg_returns [OF assms(1), of "p_va p" "p_filesz p" "p_memsz p"
        "ucast (KERNEL_START_SECTOR + p_offset p div SECTORSIZE)" b]
    fits unfolding segment_sector [OF assms(2)] by auto
  have up: "?va + ?f \<le> sector_up (?va + ?f)" and down: "sector_down ?va \<le> ?va" by (rule sector_bounds)+
  have "segment_loaded disk (loaded disk (Suc (?off div 512)) ?va ?f ?n (boot_mem b)) p"
    unfolding segment_loaded_def
  proof (intro allI impI)
    fix i assume i: "i < ?n"
    then have x: "unat (p_va p + of_nat i) = ?va + i" using fits by (intro unat_add_small) simp
    have "512 * Suc (?off div 512) + (?va + i - sector_down ?va) = 512 + (?off + i)"
    proof -
      have "?va - sector_down ?va = ?off mod 512" using fits by (simp add: sector_down_def minus_mult_div_eq_mod)
      moreover have "?va + i - sector_down ?va = (?va - sector_down ?va) + i" using down by simp
      ultimately show ?thesis by simp
    qed
    then show "loaded disk (Suc (?off div 512)) ?va ?f ?n (boot_mem b) (p_va p + of_nat i)
      = (if i < ?f then file_byte disk (?off + i) else 0)"
      using i up down by (simp add: loaded_def disk_at_def x file_byte_def)
  qed
  moreover have "loaded disk (Suc (?off div 512)) ?va ?f ?n (boot_mem b) x = boot_mem b x" if "unat x \<notin> written p" for x
    using that by (auto simp: loaded_def disk_at_def written_def segment_def)
  ultimately show ?thesis using t by auto
qed

lemma boot_header_kept:
  assumes "header_held disk m" and "\<And>x. unat x \<in> {0x3000..<0x4000} \<Longrightarrow> m' x = m x"
  shows "header_held disk m'"
  unfolding header_held_def
proof (intro allI impI)
  fix i :: nat assume i: "i < 4096"
  then have "unat (ELFHDR + of_nat i) = 0x3000 + i" using unat_add_small [of ELFHDR i] by (simp add: ELFHDR_def)
  then have "m' (ELFHDR + of_nat i) = m (ELFHDR + of_nat i)" using i by (intro assms(2)) simp
  then show "m' (ELFHDR + of_nat i) = file_byte disk i" using assms(1) i by (simp add: header_held_def)
qed

lemma segment_kept:
  assumes "segment_loaded disk m p" and "loadable p" and "\<And>x. unat x \<in> segment p \<Longrightarrow> m' x = m x"
  shows "segment_loaded disk m' p"
  unfolding segment_loaded_def
proof (intro allI impI)
  fix i assume i: "i < unat (p_memsz p)"
  then have "unat (p_va p + of_nat i) = unat (p_va p) + i" using assms(2) by (intro unat_add_small) (simp add: loadable_def)
  then have "m' (p_va p + of_nat i) = m (p_va p + of_nat i)" using i by (intro assms(3)) (simp add: segment_def)
  then show "m' (p_va p + of_nat i) = (if i < unat (p_filesz p) then file_byte disk (unat (p_offset p) + i) else 0)"
    using assms(1) i by (simp add: segment_loaded_def)
qed

lemma segments_return:
  assumes "drive_works d disk"
  shows "header_held disk (boot_mem b) \<Longrightarrow> off + 56 * n \<le> 4096 \<Longrightarrow> ps = map (\<lambda>i. file_program disk (off + 56 * i)) [0..<n] \<Longrightarrow>
    \<forall>p \<in> set ps. loadable p \<and> written p \<inter> {0x3000..<0x4000} = {} \<Longrightarrow> in_order ps \<Longrightarrow>
    \<exists>b'. boot_segments d (ELFHDR + of_nat off) (ELFHDR + of_nat (off + 56 * n)) b = Some b'
      \<and> (\<forall>p \<in> set ps. segment_loaded disk (boot_mem b') p)
      \<and> (\<forall>x. unat x \<notin> (\<Union>p \<in> set ps. written p) \<longrightarrow> boot_mem b' x = boot_mem b x)"
proof (induction n arbitrary: off ps b)
  case 0
  then show ?case by (subst boot_segments.simps) simp
next
  case (Suc n)
  let ?p = "file_program disk off" and ?qs = "map (\<lambda>i. file_program disk (off + 56 + 56 * i)) [0..<n]"
  have "[0..<Suc n] = 0 # map Suc [0..<n]" by (simp add: upt_conv_Cons map_Suc_upt del: upt_Suc)
  then have ps: "ps = ?p # ?qs" using Suc.prems(3) by (simp add: comp_def add.assoc del: upt_Suc)
  have p: "loadable ?p" "written ?p \<inter> {0x3000..<0x4000} = {}" using Suc.prems(4) ps by simp_all
  have at: "load_program (boot_mem b) (ELFHDR + of_nat off) = ?p"
    by (rule load_program_header [OF Suc.prems(1)]) (use Suc.prems(2) in simp)
  obtain b1 where b1: "boot_readseg d (p_va ?p) (ucast (KERNEL_START_SECTOR + p_offset ?p div SECTORSIZE)) (p_filesz ?p) (p_memsz ?p) b = Some b1"
    "segment_loaded disk (boot_mem b1) ?p" "\<And>x. unat x \<notin> written ?p \<Longrightarrow> boot_mem b1 x = boot_mem b x"
    using segment_returns [OF assms p(1), of b] by blast
  have "header_held disk (boot_mem b1)" by (rule boot_header_kept [OF Suc.prems(1)]) (use b1(3) p(2) in blast)
  then obtain b' where b': "boot_segments d (ELFHDR + of_nat (off + 56)) (ELFHDR + of_nat (off + 56 + 56 * n)) b1 = Some b'"
    "\<forall>q \<in> set ?qs. segment_loaded disk (boot_mem b') q"
    "\<And>x. unat x \<notin> (\<Union>q \<in> set ?qs. written q) \<Longrightarrow> boot_mem b' x = boot_mem b1 x"
    using Suc.IH [of b1 "off + 56" ?qs] Suc.prems(2,4,5) ps by auto
  have "unat (ELFHDR + of_nat k) = 0x3000 + k" if "k \<le> 4096" for k
    using unat_add_small [of ELFHDR k] that by (simp add: ELFHDR_def)
  from this [of off] this [of "off + 56 * Suc n"] have less: "ELFHDR + of_nat off < ELFHDR + of_nat (off + 56 * Suc n)"
    unfolding word_less_nat_alt using Suc.prems(2) by (simp del: of_nat_add of_nat_mult of_nat_Suc)
  have "boot_segments d (ELFHDR + of_nat off) (ELFHDR + of_nat (off + 56 * Suc n)) b = Some b'"
    using less b1(1) b'(1) by (subst boot_segments.simps) (simp add: at algebra_simps)
  moreover have "segment_loaded disk (boot_mem b') ?p"
    by (rule segment_kept [OF b1(2) p(1)]) (use Suc.prems(5) ps b'(3) in auto)
  moreover have "boot_mem b' x = boot_mem b x" if "unat x \<notin> (\<Union>q \<in> set ps. written q)" for x
    using that b'(3) b1(3) ps by simp
  ultimately show ?case using b'(2) ps by auto
qed

lemma header_read:
  assumes "drive_works d disk"
  shows "\<exists>b1. boot_readseg d ELFHDR (ucast KERNEL_START_SECTOR) (of_nat PAGESIZE) (of_nat PAGESIZE) b = Some b1
    \<and> header_held disk (boot_mem b1) \<and> (\<forall>x. unat x \<notin> {0x3000..<0x4000} \<longrightarrow> boot_mem b1 x = boot_mem b x)"
proof -
  obtain t where t: "boot_readseg d ELFHDR (ucast KERNEL_START_SECTOR) (of_nat PAGESIZE) (of_nat PAGESIZE) b
    = Some (b\<lparr>boot_clock := t, boot_mem := loaded disk 1 0x3000 0x1000 0x1000 (boot_mem b)\<rparr>)" (is "_ = Some ?b")
    using readseg_returns [OF assms, of ELFHDR "of_nat PAGESIZE" "of_nat PAGESIZE" "ucast KERNEL_START_SECTOR" b]
    by (auto simp: ELFHDR_def PAGESIZE_def KERNEL_START_SECTOR_def)
  have bounds: "sector_down 0x3000 = 0x3000" "sector_up (0x3000 + 0x1000) = 0x4000" by (simp_all add: sector_up_def sector_down_def)
  have "header_held disk (boot_mem ?b)"
    unfolding header_held_def
  proof (intro allI impI)
    fix i :: nat assume i: "i < 4096"
    then have "unat (ELFHDR + of_nat i) = 0x3000 + i" using unat_add_small [of ELFHDR i] by (simp add: ELFHDR_def)
    then show "boot_mem ?b (ELFHDR + of_nat i) = file_byte disk i"
      using i bounds by (simp add: loaded_def disk_at_def file_byte_def)
  qed
  moreover have "boot_mem ?b x = boot_mem b x" if "unat x \<notin> {0x3000..<0x4000}" for x
    using that bounds by (auto simp: loaded_def disk_at_def)
  ultimately show ?thesis using t by auto
qed

text \<open>A disk with an executable of one segment of three bytes in the file and five in memory.\<close>

definition sample_disk :: "nat \<Rightarrow> 8 word" where
  "sample_disk n = (case map_of
     [(512, 0x7F), (513, 0x45), (514, 0x4C), (515, 0x46), (538, 0x10), (544, 64), (568, 1),
      (576, 1), (585, 2), (594, 0x10), (608, 3), (616, 5), (1024, 0xAA), (1025, 0xBB), (1026, 0xCC)] n of
     Some b \<Rightarrow> b | None \<Rightarrow> 0)"

definition sample_drive :: ata_drive where
  "sample_drive = \<lparr>ata_status = \<lambda>_. 0x40, ata_data = \<lambda>cmds. map (\<lambda>i. sample_disk (512 * lba cmds + i)) [0..<512]\<rparr>"

lemma sample_drive_works: "drive_works sample_drive sample_disk"
  by (auto simp: drive_works_def sample_drive_def)

lemma sample_header:
  "ucast (file_le sample_disk 0 4) = ELF_MAGIC" "file_le sample_disk 0x20 8 = 64" "file_le sample_disk 0x38 2 = 1"
  "file_le sample_disk 0x18 8 = 0x100000"
  by code_simp+

lemma sample_programs:
  "file_programs sample_disk = [\<lparr>p_type = 1, p_flags = 0, p_offset = 512, p_va = 0x100000, p_filesz = 3, p_memsz = 5\<rparr>]"
  by code_simp

text \<open>
  C19: the boot loader loads the kernel. With a drive that works and an executable whose program
  headers lie in its first page and whose segments fit, do not overlap and keep clear of the scratch
  page, it reaches the entry point with the bytes of every segment at its addresses, the rest of the
  segment zero, and memory outside the sectors it reads unchanged.
\<close>

theorem boot_loads_kernel:
  assumes "drive_works d disk" and "ucast (file_le disk 0 4) = ELF_MAGIC"
    and "unat (file_le disk 0x20 8) + 56 * unat (file_le disk 0x38 2) \<le> 4096"
    and "\<forall>p \<in> set (file_programs disk). loadable p \<and> written p \<inter> {0x3000..<0x4000} = {}" and "in_order (file_programs disk)"
  shows "\<exists>b'. boot d b = Some (file_le disk 0x18 8, b') \<and> (\<forall>p \<in> set (file_programs disk). segment_loaded disk (boot_mem b') p)
    \<and> (\<forall>x. unat x \<notin> {0x3000..<0x4000} \<union> (\<Union>p \<in> set (file_programs disk). written p) \<longrightarrow> boot_mem b' x = boot_mem b x)"
proof -
  let ?off = "unat (file_le disk 0x20 8)" and ?n = "unat (file_le disk 0x38 2)"
  obtain b1 where b1: "boot_readseg d ELFHDR (ucast KERNEL_START_SECTOR) (of_nat PAGESIZE) (of_nat PAGESIZE) b = Some b1"
    and held: "header_held disk (boot_mem b1)" and outside: "\<And>x. unat x \<notin> {0x3000..<0x4000} \<Longrightarrow> boot_mem b1 x = boot_mem b x"
    using header_read [OF assms(1), of b] by blast
  obtain b' where b': "boot_segments d (ELFHDR + of_nat ?off) (ELFHDR + of_nat (?off + 56 * ?n)) b1 = Some b'"
    "\<forall>p \<in> set (file_programs disk). segment_loaded disk (boot_mem b') p"
    "\<And>x. unat x \<notin> (\<Union>p \<in> set (file_programs disk). written p) \<Longrightarrow> boot_mem b' x = boot_mem b1 x"
    using segments_return [OF assms(1) held assms(3) _ assms(4,5)] by (auto simp: file_programs_def)
  have kept: "header_held disk (boot_mem b')"
    by (rule boot_header_kept [OF held]) (use b'(3) assms(4) in blast)
  have head: "load_le (boot_mem b1) ELFHDR 4 = file_le disk 0 4" "load_le (boot_mem b1) (ELFHDR + 0x20) 8 = file_le disk 0x20 8"
    "load_le (boot_mem b1) (ELFHDR + 0x38) 2 = file_le disk 0x38 2" "load_le (boot_mem b') (ELFHDR + 0x18) 8 = file_le disk 0x18 8"
    using load_le_header [OF held, of 0 4] load_le_header [OF held, of "0x20" 8] load_le_header [OF held, of "0x38" 2]
      load_le_header [OF kept, of "0x18" 8] by simp_all
  have "boot d b = Some (file_le disk 0x18 8, b')"
    using b1 assms(2) b'(1) by (simp add: boot_def head algebra_simps)
  moreover have "boot_mem b' x = boot_mem b x"
    if "unat x \<notin> {0x3000..<0x4000} \<union> (\<Union>p \<in> set (file_programs disk). written p)" for x
    using that b'(3) [of x] outside [of x] by auto
  ultimately show ?thesis using b'(2) by blast
qed

theorem boot_loads_kernel_witness:
  "\<exists>b'. boot sample_drive \<lparr>boot_mem = \<lambda>_. 1, boot_clock = 0\<rparr> = Some (0x100000, b')
    \<and> boot_mem b' 0x100000 = 0xAA \<and> boot_mem b' 0x100004 = 0"
proof -
  have "\<forall>p \<in> set (file_programs sample_disk). loadable p \<and> written p \<inter> {0x3000..<0x4000} = {}"
    by (auto simp: sample_programs loadable_def written_def segment_def sector_up_def sector_down_def)
  then obtain b' where b': "boot sample_drive \<lparr>boot_mem = \<lambda>_. 1, boot_clock = 0\<rparr> = Some (0x100000, b')"
    "\<forall>p \<in> set (file_programs sample_disk). segment_loaded sample_disk (boot_mem b') p"
    using boot_loads_kernel [OF sample_drive_works, of "\<lparr>boot_mem = \<lambda>_. 1, boot_clock = 0\<rparr>"]
    by (auto simp: sample_header sample_programs)
  have "boot_mem b' (0x100000 + of_nat i) = (if i < 3 then file_byte sample_disk (512 + i) else 0)" if "i < 5" for i
    using b'(2) that by (simp add: sample_programs segment_loaded_def)
  from this [of 0] this [of 4] have "boot_mem b' 0x100000 = 0xAA" "boot_mem b' 0x100004 = 0"
    by (simp_all add: file_byte_def sample_disk_def)
  with b'(1) show ?thesis by blast
qed

end
