(* ===== verification/Hardware.thy ===== *)
theory Hardware
  imports Process
begin

unbundle bit_operations_syntax

text \<open>
  The debugging support of \<open>weensyos/k-hardware.cc\<close>: the search in the symbol table and the walk
  over stack frames. The mapping of the table's own page, which \<open>lookup_symbol\<close> makes on its first
  call, is not part of the model: the table is an argument.
\<close>

section \<open>The symbol table\<close>

record elf_symbol =
  st_name :: "32 word"
  st_value :: addr
  st_size :: "64 word"

function lookup_loop :: "elf_symbol list \<Rightarrow> addr \<Rightarrow> nat \<Rightarrow> nat \<Rightarrow> nat option" where
  "lookup_loop syms addr l r =
     (if l < r
      then let m = l + (r - l) div 2; sym = syms ! m in
        if st_value sym \<le> addr
          \<and> (if st_size sym \<noteq> 0 then addr < st_value sym + st_size sym
             else m + 1 = length syms \<or> addr < st_value (syms ! (m + 1)))
        then Some m
        else if st_value sym < addr then lookup_loop syms addr (m + 1) r
        else lookup_loop syms addr l m
      else None)"
  by pat_completeness auto
termination
  by (relation "measure (\<lambda>(syms, addr, l, r). r - l)") auto

declare lookup_loop.simps [simp del]

text \<open>The name, as an offset into the string table, and the first address of the symbol.\<close>

definition lookup_symbol :: "elf_symbol list \<Rightarrow> addr \<Rightarrow> (32 word \<times> addr) option" where
  "lookup_symbol syms addr =
     (case lookup_loop syms addr 0 (length syms) of
        None \<Rightarrow> None | Some m \<Rightarrow> Some (st_name (syms ! m), st_value (syms ! m)))"

text \<open>A symbol holds the addresses of its size, or, without a size, those up to the next symbol.\<close>

definition holds_addr :: "elf_symbol list \<Rightarrow> addr \<Rightarrow> nat \<Rightarrow> bool" where
  "holds_addr syms addr i \<longleftrightarrow> i < length syms \<and> st_value (syms ! i) \<le> addr
     \<and> (if st_size (syms ! i) \<noteq> 0 then addr < st_value (syms ! i) + st_size (syms ! i)
        else i + 1 = length syms \<or> addr < st_value (syms ! (i + 1)))"

definition symbols_ok :: "elf_symbol list \<Rightarrow> bool" where
  "symbols_ok syms \<longleftrightarrow> (\<forall>i j. i < j \<and> j < length syms \<longrightarrow> st_value (syms ! i) < st_value (syms ! j)
     \<and> (st_size (syms ! i) \<noteq> 0 \<longrightarrow> st_value (syms ! i) + st_size (syms ! i) \<le> st_value (syms ! j)))"

lemma holds_before:
  assumes "symbols_ok syms" and "holds_addr syms addr i" and "i < j" and "j < length syms"
  shows "addr < st_value (syms ! j)"
proof (cases "st_size (syms ! i) = 0")
  case True
  then have below: "addr < st_value (syms ! (i + 1))" using assms by (auto simp: holds_addr_def)
  show ?thesis
  proof (cases "i + 1 = j")
    case False
    then have "st_value (syms ! (i + 1)) < st_value (syms ! j)" using assms by (simp add: symbols_ok_def)
    with below show ?thesis by simp
  qed (use below in simp)
next
  case False
  then have "addr < st_value (syms ! i) + st_size (syms ! i)" using assms(2) by (simp add: holds_addr_def)
  moreover have "st_value (syms ! i) + st_size (syms ! i) \<le> st_value (syms ! j)" using assms False by (simp add: symbols_ok_def)
  ultimately show ?thesis by simp
qed

lemma lookup_loop_step:
  assumes "l < r" and "r \<le> length syms" and "m = l + (r - l) div 2"
  shows "lookup_loop syms addr l r =
    (if holds_addr syms addr m then Some m
     else if st_value (syms ! m) < addr then lookup_loop syms addr (m + 1) r else lookup_loop syms addr l m)"
proof -
  have "m < length syms" using assms by linarith
  then show ?thesis using assms(1) unfolding assms(3) [symmetric]
    by (subst lookup_loop.simps) (simp add: Let_def holds_addr_def flip: assms(3))
qed

lemma lookup_loop_sound: "lookup_loop syms addr l r = Some i \<Longrightarrow> r \<le> length syms \<Longrightarrow> holds_addr syms addr i"
proof (induction "r - l" arbitrary: l r rule: less_induct)
  case less
  show ?case
  proof (cases "l < r")
    case True
    define m where "m = l + (r - l) div 2"
    have m: "l \<le> m" "m < r" using True unfolding m_def by linarith+
    show ?thesis using less.prems less.hyps [of r "m + 1"] less.hyps [of m l] m True
      unfolding lookup_loop_step [OF True less.prems(2) m_def] by (auto split: if_splits)
  next
    case False
    then have "lookup_loop syms addr l r = None" by (subst lookup_loop.simps) simp
    with less.prems(1) show ?thesis by simp
  qed
qed

lemma lookup_loop_complete:
  assumes "symbols_ok syms" and "holds_addr syms addr i"
  shows "l \<le> i \<Longrightarrow> i < r \<Longrightarrow> r \<le> length syms \<Longrightarrow> lookup_loop syms addr l r = Some i"
proof (induction "r - l" arbitrary: l r rule: less_induct)
  case less
  have less_r: "l < r" using less.prems(1,2) by linarith
  define m where "m = l + (r - l) div 2"
  have m: "l \<le> m" "m < r" using less_r unfolding m_def by linarith+
  note step = lookup_loop_step [OF less_r less.prems(3) m_def, of addr]
  have i: "i < length syms" "st_value (syms ! i) \<le> addr" using assms(2) by (simp_all add: holds_addr_def)
  have above: "addr < st_value (syms ! m)" if "i < m" using holds_before [OF assms that] m(2) less.prems(3) by simp
  have below: "st_value (syms ! m) < addr" if "m < i"
  proof -
    have "st_value (syms ! m) < st_value (syms ! i)" using that i(1) assms(1) by (simp add: symbols_ok_def)
    with i(2) show ?thesis by simp
  qed
  consider "m = i" | "m < i" | "i < m" by linarith
  then show ?case
  proof cases
    case 1
    then show ?thesis using step assms(2) by simp
  next
    case 2
    have "\<not> holds_addr syms addr m" using holds_before [OF assms(1) _ 2 i(1), of addr] i(2) by fastforce
    moreover have "lookup_loop syms addr (m + 1) r = Some i" using less.hyps [of r "m + 1"] 2 less.prems m by simp
    ultimately show ?thesis using step below [OF 2] by simp
  next
    case 3
    have "\<not> holds_addr syms addr m" using above [OF 3] by (auto simp: holds_addr_def)
    moreover have "lookup_loop syms addr l m = Some i" using less.hyps [of m l] 3 less.prems m by simp
    moreover have "\<not> st_value (syms ! m) < addr" using above [OF 3] by simp
    ultimately show ?thesis using step by simp
  qed
qed

text \<open>
  C29: over a table of symbols in ascending order that do not overlap, the binary search finds the
  symbol that holds the address, and nothing when no symbol does.
\<close>

theorem lookup_symbol_exact:
  assumes "symbols_ok syms"
  shows "lookup_symbol syms addr = Some (name, start)
    \<longleftrightarrow> (\<exists>i. holds_addr syms addr i \<and> st_name (syms ! i) = name \<and> st_value (syms ! i) = start)"
proof
  assume "lookup_symbol syms addr = Some (name, start)"
  then obtain m where "lookup_loop syms addr 0 (length syms) = Some m" "name = st_name (syms ! m)" "start = st_value (syms ! m)"
    by (auto simp: lookup_symbol_def split: option.splits)
  then show "\<exists>i. holds_addr syms addr i \<and> st_name (syms ! i) = name \<and> st_value (syms ! i) = start"
    using lookup_loop_sound by blast
next
  assume "\<exists>i. holds_addr syms addr i \<and> st_name (syms ! i) = name \<and> st_value (syms ! i) = start"
  then obtain i where i: "holds_addr syms addr i" "st_name (syms ! i) = name" "st_value (syms ! i) = start" by blast
  then have "lookup_loop syms addr 0 (length syms) = Some i"
    by (intro lookup_loop_complete [OF assms]) (auto simp: holds_addr_def)
  with i show "lookup_symbol syms addr = Some (name, start)" by (simp add: lookup_symbol_def)
qed

definition sample_symbols :: "elf_symbol list" where
  "sample_symbols = [\<lparr>st_name = 1, st_value = 0x40000, st_size = 16\<rparr>, \<lparr>st_name = 7, st_value = 0x40020, st_size = 0\<rparr>,
     \<lparr>st_name = 12, st_value = 0x40100, st_size = 8\<rparr>]"

lemma sample_symbols_ok: "symbols_ok sample_symbols"
proof -
  have "i = 0 \<and> (j = 1 \<or> j = 2) \<or> i = 1 \<and> j = 2" if "i < j" "j < length sample_symbols" for i j
    using that by (auto simp: sample_symbols_def)
  then show ?thesis unfolding symbols_ok_def by (fastforce simp: sample_symbols_def)
qed

theorem lookup_symbol_exact_witness: "lookup_symbol sample_symbols 0x40030 = Some (7, 0x40020) \<and> (\<exists>i. holds_addr sample_symbols 0x40030 i)"
proof -
  have "holds_addr sample_symbols 0x40030 1" by (simp add: holds_addr_def sample_symbols_def)
  then show ?thesis using lookup_symbol_exact [OF sample_symbols_ok, of "0x40030" 7 "0x40020"] by (auto simp: sample_symbols_def)
qed

section \<open>Backtraces\<close>

record backtracer =
  bt_rbp :: addr
  bt_rsp :: addr
  bt_top :: addr

definition bt_ok :: "backtracer \<Rightarrow> bool" where
  "bt_ok b \<longleftrightarrow> bt_rsp b \<le> bt_rbp b \<and> 16 \<le> bt_top b - bt_rbp b"

definition bt_ret_rip :: "memory \<Rightarrow> backtracer \<Rightarrow> addr" where
  "bt_ret_rip m b = load64 m (bt_rbp b + 8)"

definition bt_step :: "memory \<Rightarrow> backtracer \<Rightarrow> backtracer" where
  "bt_step m b = b\<lparr>bt_rsp := bt_rbp b + 16, bt_rbp := load64 m (bt_rbp b)\<rparr>"

text \<open>The lines of a backtrace: the number of the frame, the return address and the symbol if there is one.\<close>

definition backtrace_line :: "elf_symbol list \<Rightarrow> nat \<Rightarrow> addr \<Rightarrow> (nat \<times> addr \<times> 32 word option) list" where
  "backtrace_line syms frame rip =
     (case lookup_symbol syms rip of
        Some (name, start) \<Rightarrow> [(frame, rip, Some name)]
      | None \<Rightarrow> if rip \<noteq> 0 then [(frame, rip, None)] else [])"

partial_function (option) backtrace_loop ::
    "memory \<Rightarrow> elf_symbol list \<Rightarrow> nat \<Rightarrow> backtracer \<Rightarrow> (nat \<times> addr \<times> 32 word option) list option" where
  "backtrace_loop m syms frame b =
     (if bt_ok b
      then Option.bind (backtrace_loop m syms (frame + 1) (bt_step m b))
          (\<lambda>rest. Some (backtrace_line syms frame (bt_ret_rip m b) @ rest))
      else Some [])"

definition log_backtrace ::
    "memory \<Rightarrow> elf_symbol list \<Rightarrow> addr \<Rightarrow> addr \<Rightarrow> (bool \<times> (nat \<times> addr \<times> 32 word option) list) option" where
  "log_backtrace m syms rsp rbp =
     map_option (Pair (rsp \<noteq> rbp \<and> round_up rsp (of_nat PAGESIZE) = round_down rbp (of_nat PAGESIZE)))
       (backtrace_loop m syms 1 \<lparr>bt_rbp = rbp, bt_rsp = rsp, bt_top = round_up rsp (of_nat PAGESIZE)\<rparr>)"

text \<open>
  A chain of frames, as compiled code leaves it: each holds the address of the next, sixteen bytes or
  more above it and below the top of the stack; the last holds an address that is none of these.
\<close>

fun frame_chain :: "memory \<Rightarrow> addr \<Rightarrow> addr \<Rightarrow> addr list \<Rightarrow> bool" where
  "frame_chain m stack_top rsp [] = False"
| "frame_chain m stack_top rsp [f] \<longleftrightarrow> rsp \<le> f \<and> unat f + 16 \<le> unat stack_top \<and> load64 m f < f + 16"
| "frame_chain m stack_top rsp (f # g # fs) \<longleftrightarrow> rsp \<le> f \<and> unat f + 16 \<le> unat stack_top \<and> load64 m f = g \<and> frame_chain m stack_top (f + 16) (g # fs)"

fun frame_lines :: "memory \<Rightarrow> elf_symbol list \<Rightarrow> nat \<Rightarrow> addr list \<Rightarrow> (nat \<times> addr \<times> 32 word option) list" where
  "frame_lines m syms n [] = []"
| "frame_lines m syms n (f # fs) = backtrace_line syms n (load64 m (f + 8)) @ frame_lines m syms (n + 1) fs"

lemma frame_bt_ok:
  assumes "rsp \<le> f" and "unat f + 16 \<le> unat stack_top"
  shows "bt_ok \<lparr>bt_rbp = f, bt_rsp = rsp, bt_top = stack_top\<rparr>"
proof -
  have "f \<le> stack_top" using assms(2) by (simp add: word_le_nat_alt)
  then have "unat (stack_top - f) = unat stack_top - unat f" by (rule unat_sub)
  then show ?thesis using assms by (simp add: bt_ok_def word_le_nat_alt)
qed

lemma backtrace_chain:
  "frame_chain m stack_top rsp (f # fs) \<Longrightarrow>
   backtrace_loop m syms n \<lparr>bt_rbp = f, bt_rsp = rsp, bt_top = stack_top\<rparr> = Some (frame_lines m syms n (f # fs))"
proof (induction fs arbitrary: n f rsp)
  case Nil
  then have "backtrace_loop m syms (n + 1) \<lparr>bt_rbp = load64 m f, bt_rsp = f + 16, bt_top = stack_top\<rparr> = Some []"
    by (subst backtrace_loop.simps) (auto simp: bt_ok_def)
  then show ?case using Nil frame_bt_ok [of rsp f stack_top]
    by (subst backtrace_loop.simps) (simp add: bt_step_def bt_ret_rip_def)
next
  case (Cons g fs)
  then show ?case using Cons.IH [of "f + 16" g "n + 1"] frame_bt_ok [of rsp f stack_top]
    by (subst backtrace_loop.simps) (simp add: bt_step_def bt_ret_rip_def)
qed

lemma backtrace_past_top: "rsp \<le> stack_top + 16 \<Longrightarrow> bt_ok \<lparr>bt_rbp = stack_top + 16, bt_rsp = rsp, bt_top = stack_top\<rparr>"
  by (simp add: bt_ok_def)

end
