(* ===== verification/Descriptors.thy ===== *)
theory Descriptors
  imports Process
begin

unbundle bit_operations_syntax

text \<open>
  The segment and gate descriptors of the processor (\<open>init_kernel_memory\<close> and
  \<open>init_interrupts\<close> in \<open>weensyos/k-hardware.cc\<close>), and the fields the processor reads from them.
\<close>

section \<open>Definitions\<close>

definition X86SEG_S :: "64 word" where "X86SEG_S = push_bit 44 1"
definition X86SEG_P :: "64 word" where "X86SEG_P = push_bit 47 1"
definition X86SEG_L :: "64 word" where "X86SEG_L = push_bit 53 1"
definition X86SEG_W :: "64 word" where "X86SEG_W = push_bit 40 2"
definition X86SEG_X :: "64 word" where "X86SEG_X = push_bit 40 8"
definition X86SEG_TSS :: "64 word" where "X86SEG_TSS = push_bit 40 9"
definition SEGSEL_KERN_CODE :: "64 word" where "SEGSEL_KERN_CODE = 8"
definition X86GATE_INTERRUPT :: int where "X86GATE_INTERRUPT = 0xE"
definition INT_BP :: int where "INT_BP = 3"

definition set_app_segment :: "64 word \<Rightarrow> int \<Rightarrow> 64 word" where
  "set_app_segment type dpl = type OR X86SEG_S OR push_bit 45 (of_int dpl) OR X86SEG_P"

definition set_sys_segment :: "addr \<Rightarrow> 64 word \<Rightarrow> 64 word \<Rightarrow> int \<Rightarrow> 64 word \<times> 64 word" where
  "set_sys_segment a len type dpl =
     (push_bit 16 (a AND 0xFFFFFF) OR push_bit 32 (a AND 0xFF000000) OR ((len - 1) AND 0xFFFF)
        OR push_bit 48 ((len - 1) AND 0xF0000) OR type OR push_bit 45 (of_int dpl) OR X86SEG_P,
      drop_bit 32 a)"

definition set_gate :: "addr \<Rightarrow> int \<Rightarrow> int \<Rightarrow> int \<Rightarrow> (64 word \<times> 64 word) cpp" where
  "set_gate a type dpl ist =
     bindE (assertE (0 \<le> type \<and> type < 16 \<and> 0 \<le> dpl \<and> dpl < 4 \<and> 0 \<le> ist \<and> ist < 8)) (\<lambda>_.
     Inr ((a AND 0xFFFF) OR push_bit 16 SEGSEL_KERN_CODE OR push_bit 32 (of_int ist) OR push_bit 40 (of_int type)
            OR push_bit 45 (of_int dpl) OR X86SEG_P OR push_bit 32 (a AND 0xFFFF0000),
          drop_bit 32 a))"

text \<open>The descriptors of all interrupts, for the handlers in the table \<open>k-exception.S\<close> fills.\<close>

fun init_gates :: "int \<Rightarrow> addr list \<Rightarrow> (64 word \<times> 64 word) list cpp" where
  "init_gates i [] = Inr []"
| "init_gates i (a # as) =
     bindE (set_gate a X86GATE_INTERRUPT (if i = INT_BP then 3 else 0) 0) (\<lambda>g.
     bindE (init_gates (i + 1) as) (\<lambda>gs. Inr (g # gs)))"

definition kernel_gdt_segments :: "addr \<Rightarrow> 64 word \<Rightarrow> 64 word list" where
  "kernel_gdt_segments taskstate len =
     (case set_sys_segment taskstate len X86SEG_TSS 0 of (low, high) \<Rightarrow>
        [0, set_app_segment (X86SEG_X OR X86SEG_L) 0, set_app_segment X86SEG_W 0,
         set_app_segment (X86SEG_X OR X86SEG_L) 3, set_app_segment X86SEG_W 3, low, high])"

text \<open>What the processor reads from a gate.\<close>

record gate =
  g_offset :: addr
  g_selector :: "64 word"
  g_ist :: "64 word"
  g_type :: "64 word"
  g_dpl :: "64 word"
  g_present :: bool

definition read_gate :: "64 word \<times> 64 word \<Rightarrow> gate" where
  "read_gate g = (case g of (low, high) \<Rightarrow>
     \<lparr>g_offset = take_bit 16 low OR push_bit 16 (take_bit 16 (drop_bit 48 low)) OR push_bit 32 (take_bit 32 high),
      g_selector = take_bit 16 (drop_bit 16 low), g_ist = take_bit 3 (drop_bit 32 low), g_type = take_bit 4 (drop_bit 40 low),
      g_dpl = take_bit 2 (drop_bit 45 low), g_present = bit low 47\<rparr>)"

lemma int_bits:
  assumes "0 \<le> k" and "k < 2 ^ m"
  shows "bit (of_int k :: 64 word) n \<longleftrightarrow> n < 64 \<and> n < m \<and> bit k n"
proof -
  have "take_bit m k = k" using assms by (simp add: take_bit_int_eq_self)
  then have "bit k n \<Longrightarrow> n < m" by (metis bit_take_bit_iff)
  then show ?thesis by (auto simp: bit_simps)
qed

lemma gate_masks: "(0xFFFF :: 64 word) = mask 16" "(0xFFFF0000 :: 64 word) = push_bit 16 (mask 16)" "(8 :: 64 word) = push_bit 3 1"
  by (simp_all add: mask_eq_exp_minus_1 push_bit_eq_mult)

lemma selector_bits: "bit SEGSEL_KERN_CODE n \<longleftrightarrow> n = 3"
  unfolding SEGSEL_KERN_CODE_def gate_masks(3) bit_push_bit_iff bit_1_iff by auto

lemma push_int_bits:
  assumes "0 \<le> k" and "k < 2 ^ m" and "j + m \<le> 64"
  shows "bit (push_bit j (of_int k) :: 64 word) n \<longleftrightarrow> j \<le> n \<and> n < j + m \<and> bit k (n - j)"
  using assms(3) by (auto simp: bit_push_bit_iff int_bits [OF assms(1,2)])

lemma gate_low_bits:
  assumes "0 \<le> type" "type < 16" "0 \<le> dpl" "dpl < 4" "0 \<le> ist" "ist < 8"
  shows "bit ((a AND 0xFFFF) OR push_bit 16 SEGSEL_KERN_CODE OR push_bit 32 (of_int ist) OR push_bit 40 (of_int type)
            OR push_bit 45 (of_int dpl) OR X86SEG_P OR push_bit 32 (a AND 0xFFFF0000) :: addr) n
    \<longleftrightarrow> n < 16 \<and> bit a n \<or> n = 19 \<or> (32 \<le> n \<and> n < 32 + 3 \<and> bit ist (n - 32)) \<or> (40 \<le> n \<and> n < 40 + 4 \<and> bit type (n - 40))
       \<or> (45 \<le> n \<and> n < 45 + 2 \<and> bit dpl (n - 45)) \<or> n = 47 \<or> (48 \<le> n \<and> n < 64 \<and> bit a (n - 32))"
proof -
  have "bit (a AND 0xFFFF) n \<longleftrightarrow> n < 16 \<and> bit a n"
    unfolding gate_masks by (auto simp: bit_simps)
  moreover have "bit (push_bit 16 SEGSEL_KERN_CODE) n \<longleftrightarrow> n = 19" "bit X86SEG_P n \<longleftrightarrow> n = 47"
    unfolding SEGSEL_KERN_CODE_def X86SEG_P_def gate_masks(3) bit_push_bit_iff bit_1_iff by auto
  moreover have "bit (push_bit 32 (a AND 0xFFFF0000)) n \<longleftrightarrow> 48 \<le> n \<and> n < 64 \<and> bit a (n - 32)"
    unfolding gate_masks by (auto simp: bit_simps)
  moreover have "bit (push_bit 32 (of_int ist) :: 64 word) n \<longleftrightarrow> 32 \<le> n \<and> n < 32 + 3 \<and> bit ist (n - 32)"
    by (rule push_int_bits) (use assms in simp_all)
  moreover have "bit (push_bit 40 (of_int type) :: 64 word) n \<longleftrightarrow> 40 \<le> n \<and> n < 40 + 4 \<and> bit type (n - 40)"
    by (rule push_int_bits) (use assms in simp_all)
  moreover have "bit (push_bit 45 (of_int dpl) :: 64 word) n \<longleftrightarrow> 45 \<le> n \<and> n < 45 + 2 \<and> bit dpl (n - 45)"
    by (rule push_int_bits) (use assms in simp_all)
  ultimately show ?thesis by (simp only: bit_or_iff disj_assoc)
qed

lemma gate_fields:
  assumes "0 \<le> type" "type < 16" "0 \<le> dpl" "dpl < 4" "0 \<le> ist" "ist < 8"
  shows "map_sum id read_gate (set_gate a type dpl ist)
    = Inr \<lparr>g_offset = a, g_selector = SEGSEL_KERN_CODE, g_ist = of_int ist, g_type = of_int type, g_dpl = of_int dpl, g_present = True\<rparr>"
proof -
  define low where "low = (a AND 0xFFFF) OR push_bit 16 SEGSEL_KERN_CODE OR push_bit 32 (of_int ist) OR push_bit 40 (of_int type)
            OR push_bit 45 (of_int dpl) OR X86SEG_P OR push_bit 32 (a AND 0xFFFF0000)"
  note bits = gate_low_bits [OF assms, of a, folded low_def]
  have set: "set_gate a type dpl ist = Inr (low, drop_bit 32 a)" using assms by (simp add: set_gate_def assertE_def low_def)
  have "g_offset (read_gate (low, drop_bit 32 a)) = a"
  proof (rule bit_word_eqI)
    fix n assume "n < LENGTH(64)"
    then have n: "n < 64" by simp
    then consider "n < 16" | "16 \<le> n" "n < 32" | "32 \<le> n" by linarith
    then show "bit (g_offset (read_gate (low, drop_bit 32 a))) n = bit a n"
      using n by cases (simp_all add: read_gate_def bit_or_iff bit_take_bit_iff bit_drop_bit_eq bit_push_bit_iff bits less_diff_conv2)
  qed
  moreover have "take_bit 16 (drop_bit 16 low) = SEGSEL_KERN_CODE"
    by (rule bit_word_eqI) (auto simp: bit_take_bit_iff bit_drop_bit_eq bits selector_bits)
  moreover have "take_bit 3 (drop_bit 32 low) = of_int ist"
    by (rule bit_word_eqI) (use assms in \<open>auto simp: bit_take_bit_iff bit_drop_bit_eq bits int_bits [of ist 3]\<close>)
  moreover have "take_bit 4 (drop_bit 40 low) = of_int type"
    by (rule bit_word_eqI) (use assms in \<open>auto simp: bit_take_bit_iff bit_drop_bit_eq bits int_bits [of type 4]\<close>)
  moreover have "take_bit 2 (drop_bit 45 low) = of_int dpl"
    by (rule bit_word_eqI) (use assms in \<open>auto simp: bit_take_bit_iff bit_drop_bit_eq bits int_bits [of dpl 2]\<close>)
  moreover have "bit low 47" by (simp add: bits)
  ultimately show ?thesis unfolding set by (simp add: read_gate_def)
qed

definition interrupt_gate :: "int \<Rightarrow> addr \<Rightarrow> gate" where
  "interrupt_gate i a = \<lparr>g_offset = a, g_selector = SEGSEL_KERN_CODE, g_ist = 0, g_type = 0xE,
     g_dpl = (if i = 3 then 3 else 0), g_present = True\<rparr>"

lemma init_gates_from:
  "\<exists>gs. init_gates k handlers = Inr gs \<and> map read_gate gs = map (\<lambda>i. interrupt_gate (k + int i) (handlers ! i)) [0..<length handlers]"
proof (induction handlers arbitrary: k)
  case (Cons a as)
  obtain gs where gs: "init_gates (k + 1) as = Inr gs"
    "map read_gate gs = map (\<lambda>i. interrupt_gate (k + 1 + int i) (as ! i)) [0..<length as]"
    using Cons.IH by blast
  obtain g where g: "set_gate a X86GATE_INTERRUPT (if k = INT_BP then 3 else 0) 0 = Inr g" "read_gate g = interrupt_gate k a"
  proof (cases "k = INT_BP")
    case True
    then show thesis using gate_fields [of X86GATE_INTERRUPT 3 0 a] that
      by (cases "set_gate a X86GATE_INTERRUPT 3 0") (auto simp: X86GATE_INTERRUPT_def INT_BP_def interrupt_gate_def)
  next
    case False
    then show thesis using gate_fields [of X86GATE_INTERRUPT 0 0 a] that
      by (cases "set_gate a X86GATE_INTERRUPT 0 0") (auto simp: X86GATE_INTERRUPT_def INT_BP_def interrupt_gate_def)
  qed
  have "[0..<Suc (length as)] = 0 # map Suc [0..<length as]" by (simp add: upt_conv_Cons map_Suc_upt del: upt_Suc)
  then have "map (\<lambda>i. interrupt_gate (k + int i) ((a # as) ! i)) [0..<length (a # as)]
    = interrupt_gate k a # map (\<lambda>i. interrupt_gate (k + 1 + int i) (as ! i)) [0..<length as]"
    by (simp add: comp_def add.assoc del: upt_Suc)
  with gs g show ?case by simp
qed simp

text \<open>
  C30: after \<open>init_interrupts\<close> the processor reads from the gate of every interrupt the address of its
  handler in the kernel's code segment, as a present interrupt gate that only the kernel may enter,
  but for the breakpoint, which programs may raise.
\<close>

theorem interrupt_gates_exact:
  "\<exists>gs. init_gates 0 handlers = Inr gs
    \<and> map read_gate gs = map (\<lambda>i. interrupt_gate (int i) (handlers ! i)) [0..<length handlers]"
  using init_gates_from [of 0 handlers] by simp

end
