(* ===== verification/Spec2Isabelle.thy ===== *)
theory Spec2Isabelle
  imports Connection SyncQueue Locking Service Commands Dmalloc Console PageTables Keyboard Scheduling ForkIsolation
    Shardmaster ServerRuns Boot Hardware Descriptors
begin

text \<open>
  A verification development for the programs of this repository: a sharded key-value store
  (\<open>src/kvstore\<close>), a small operating system (\<open>src/weensyos\<close>) and a debugging memory
  allocator (\<open>src/dmalloc\<close>). Every definition below is a translation of the C++ source into
  HOL; every theorem is about those definitions. This theory imports all others; the properties stand
  in the theories of the components, each behind a text block with its claim number.

  \<^bold>\<open>Conventions\<close> (theory \<open>Prelude\<close>, file names without \<open>.thy\<close>).
  A C++ function that may fail is a function into \<open>'a cpp\<close>, a sum of a \<open>cpp_error\<close> and a
  result: a failed assertion, an access out of bounds, undefined behaviour, a thrown exception, a kernel
  panic, or a call that blocks. State is passed explicitly as a record that is named after the class.
  A loop that may run for ever is a \<open>partial_function\<close> whose value is \<open>None\<close> when it does
  not return; a loop whose number of rounds is bounded by the machine is recursive on fuel, and a lemma
  proves that the fuel is enough. Machine integers are words (\<open>HOL-Library.Word\<close>) where their
  width matters, sizes of containers are natural numbers. Threads are transition systems: the program
  counter of a thread names its next statement that touches shared state, and a step runs it.

  \<^bold>\<open>1. The key-value store.\<close> A client splits its requests over servers by the shards of
  the configuration a shardmaster holds; messages are serialized, framed and sent over sockets; a
  server takes connections from a listener thread through a queue to worker threads, which call a
  store.

  \<^item> \<open>Utils\<close>, \<open>Shard\<close>, \<open>Config\<close> (\<open>common/utils.cpp\<close>, \<open>shard.hpp\<close>,
    \<open>shard.cpp\<close>, \<open>config.cpp\<close>): string helpers, bucket numbers and their string form,
    splitting the key space into shards, overlap of shards, the server of a key. Lemmas: the
    shards of a split partition the key space evenly; exactly one server holds a key; bucket
    strings and numbers correspond in order.
  \<^item> \<open>StdMap\<close>: the operations of \<open>std::map\<close> on ordered association lists, and their
    correspondence with maps.
  \<^item> \<open>Zpp\<close>, \<open>Messages\<close> (\<open>common/zpp_bits.hpp\<close>, \<open>net/network_messages.cpp\<close>): the
    archives of the serializer for the types the messages use, and the serialization of all
    requests and responses. The locales \<open>codec\<close> and \<open>codec_pair\<close> state the contract
    \<open>decode (encode x @ rest) = (x, rest)\<close>; they are interpreted for every type, from strings
    to configurations, and give the round trips of messages.
  \<^item> \<open>Network\<close>, \<open>Connection\<close> (\<open>net/network_helpers.cpp\<close>, \<open>network_conn.cpp\<close>):
    \<open>sendall\<close>, \<open>recvall\<close>, frames and the request and response calls over a socket whose
    next results are a script of events (partial transfers, errors, end of file, time-outs); opening,
    accepting, closing and shutting down with the descriptors and address lists they hold.
  \<^item> \<open>KvStore\<close>, \<open>ConcurrentStore\<close> (\<open>kvstore/*.cpp\<close>): the virtual class as a record of
    methods; \<open>SimpleKvStore\<close> with its mutex and \<open>ConcurrentKvStore\<close> with a reader-writer mutex
    for each bucket. The locale \<open>kvstore_contract\<close> promises the behaviour of a map as long as
    no MultiGet misses a key, \<open>kvstore_total\<close> without that condition; the simple store is an
    instance of the second, the concurrent one of the first only, because a MultiGet that
    misses a key keeps its locks.
  \<^item> \<open>Locking\<close>: the lock operations of concurrent calls; no deadlock, every run ends.
  \<^item> \<open>SyncQueue\<close> (\<open>server/synchronized_queue.cpp\<close>): the blocking queue as a transition system;
    first in, first out, mutual exclusion, no lost wake-up of a push, and the lost wake-up of \<open>stop\<close>.
  \<^item> \<open>Server\<close>, \<open>Service\<close> (\<open>server/server.cpp\<close>): the request handler and its refinement of an
    abstract map server for any store with the contract; the loop that serves a connection's
    byte stream. The shardmaster's handler, whose operations the source leaves as stubs.
  \<^item> \<open>KvServer\<close>, \<open>ServerRuns\<close> (\<open>server/server.cpp\<close>): the life of a server with its listener,
    worker and querier threads and \<open>stop\<close>, composed from the queue, the store and the handler.
    Invariants: every connection has one owner (an abstract ownership relation that queue and threads
    refine), the order of the shutdown, the log of served requests. Results: linearizability,
    release of all connections, and the run in which \<open>stop\<close> hangs.
  \<^item> \<open>Liveness\<close>, \<open>Shardmaster\<close> (\<open>shardmaster/static_shardmaster.cpp\<close>): states that are
    inevitable whatever the scheduler and the environment do; the locale \<open>ending\<close> asks for an
    invariant under which some thread can move and a weight that each step lowers. The shardmaster with
    its detached client threads is an instance: its \<open>stop\<close> completes.
  \<^item> \<open>Client\<close>, \<open>Commands\<close> (\<open>client/*.cpp\<close>, \<open>repl/*.cpp\<close>, \<open>cmd/*.cpp\<close>): both
    clients over a transport, with the locale \<open>cluster\<close> for servers that behave as maps; the commands
    and the loop that reads lines.

  \<^bold>\<open>2. The operating system.\<close> The kernel allocates physical pages, maps them into page tables,
  loads programs into processes, and serves system calls and exceptions; a viewer draws memory on the
  console.

  \<^item> \<open>Memory\<close>, \<open>CLib\<close>, \<open>Numbers\<close>, \<open>Printf\<close>, \<open>Console\<close> (\<open>lib.cc\<close>): byte memory with
    little-endian words; the string and memory functions; number parsing and printing; the
    formatted printer, with the locale \<open>printer\<close> for what its \<open>putc\<close> has to keep, interpreted
    for the string buffer and the console; the console as a window on an endless page.
  \<^item> \<open>KAlloc\<close> (\<open>kernel.cc\<close>): the page allocator with its reference counts; locale
    \<open>page_allocator\<close>, interpreted on it.
  \<^item> \<open>VMIter\<close>, \<open>PtIter\<close>, \<open>PageTables\<close> (\<open>k-vmiter.cc\<close>, \<open>k-vmiter.hh\<close>): the iterators over page
    tables; moving an iterator equals a fresh walk; \<open>try_map\<close> changes exactly one translation.
  \<^item> \<open>Keyboard\<close>, \<open>Pci\<close>, \<open>Hardware\<close>, \<open>Descriptors\<close> (\<open>k-hardware.cc\<close>, \<open>k-pci.hh\<close>): key
    codes, the scan of the PCI bus, symbols and backtraces, segment and gate descriptors.
  \<^item> \<open>Process\<close>, \<open>Kernel\<close> (\<open>kernel.hh\<close>, \<open>kernel.cc\<close>, \<open>k-hardware.cc\<close>): descriptors, registers
    and executables; booting, \<open>process_setup\<close>, \<open>exception\<close>, \<open>syscall\<close> with all its calls, the
    scheduler, exit and fork.
  \<^item> \<open>KernelFrames\<close>, \<open>KernelSteps\<close>, \<open>Scheduling\<close>: what the operations leave alone and that they
    return; the kernel as a state machine with an invariant, for arbitrary user code; round robin.
  \<^item> \<open>Spaces\<close>, \<open>Isolation\<close>, \<open>Reclaim\<close>, \<open>ForkCopy\<close>, \<open>ForkIsolation\<close>: address spaces side by side:
    changes of memory described by the pages they may write. \<open>page_alloc\<close> maps one zeroed page and
    nothing else changes; exit gives back only pages of the process; fork gives the child equal
    private copies of exactly the writable pages.
  \<^item> \<open>MemViewer\<close> (\<open>k-memviewer.cc\<close>): the marks of the pages and the picture of memory; it ends and stays
    in bounds for arbitrary page tables.
  \<^item> \<open>Boot\<close> (\<open>boot.cc\<close>): the boot loader over a drive that is a parameter; it loads every segment.

  \<^bold>\<open>3. The debugging allocator\<close> (\<open>Dmalloc\<close>; \<open>dmalloc.cc\<close>, \<open>basealloc.cc\<close>): allocation with a
  header and a guard in byte memory, the checks of \<open>dfree\<close>, statistics and the leak report, over
  the base allocator. Lemmas: blocks are disjoint, double frees are found, the leak report and the
  statistics are exact.

  \<^bold>\<open>Bounds and fuel.\<close> \<open>try_map_loop\<close> has fuel 4, the number of levels of a page table. The page
  loops of the kernel have as fuel the number of pages of their range (512 for two megabytes, 256 for
  the addresses below the programs, 768 for the range fork copies), which lemmas in \<open>Process\<close>,
  \<open>KernelFrames\<close> and \<open>ForkIsolation\<close> show to be enough; \<open>segment_fuel\<close> is the number of pages of a
  segment. \<open>client_loop\<close> has a fuel of one more than the number of requests, which its theorem proves
  enough. The scheduler, the walks over page tables and the string loops are partial functions, and
  their theorems state that they return.

  \<^bold>\<open>Parameters and assumptions.\<close> \<open>std::hash\<close>, the C library's \<open>malloc\<close>, the results of
  sockets and of name resolution, the layout the linker chooses, the executables, the PCI configuration
  space, the input ports and the disk drive are arguments of the definitions. A mutex is sequentially
  consistent and a condition variable may wake up for no reason. One call of a store is one step of
  a worker thread, because it runs inside the store's mutex, and shutting down a connection is one step.

  \<^bold>\<open>Not modelled.\<close> The assembly of the boot sequence and of the exception entry, the interrupt
  controller, timer and control registers, whose meaning is the hardware's; the log to the host; the
  user programs, in whose place user code is arbitrary; the build tools; tests and their helpers; the
  parts of the vendored serializer that the program does not use; the C stencils \<open>fileio\<close> and
  \<open>snake\<close>, whose operations are not written. \<open>Join\<close>, \<open>Leave\<close>, \<open>Move\<close>, \<open>Query\<close> and
  \<open>query_shardmaster\<close> are stubs in the source, and modelled as such.
\<close>

end
